(* ===== verification/Prelude.thy ===== *)
theory Prelude
  imports Complex_Main "HOL-Library.Word" "HOL-Library.Signed_Division" "HOL-Library.Monad_Syntax"
begin

text \<open>
  The prelude of the CacheFlow development: the machine integers and the vector accesses that all
  components share, the treatment of undefined behaviour, and generic lemmas on lists and options.

  Conventions.
  \<^item> An operation whose C++ text can reach undefined behaviour (an index out of range, a dangling
    pointer, a signed overflow, a division by zero) returns an \<open>option\<close>; \<open>None\<close> means that the
    execution is undefined. Everything that is a defined failure in the source (the value
    \<open>INVALID_BLOCK\<close>, a null pointer, an exception) is an ordinary value of the model.
  \<^item> \<open>size_t\<close> and \<open>uint64_t\<close> values are natural numbers. Unsigned subtraction, which can wrap, is
    written \<open>size_sub\<close>; products that can wrap are written with \<open>mod 2 ^ 64\<close>. Counters that are
    only ever incremented by one are not wrapped.
  \<^item> \<open>int32_t\<close> values are integers; conversions into the type go through \<open>to_i32\<close>, and the
    increments and decrements of reference counts check for signed overflow.
  \<^item> A \<open>std::vector\<close> or \<open>std::deque\<close> is a list whose last element is the back of the container.
\<close>

named_theorems cf_defs "definitions of the model that proofs unfold together"

section \<open>Machine integers\<close>

definition size_max :: nat where
  "size_max = 2 ^ 64"

text \<open>Unsigned 64-bit subtraction of values below \<open>2 ^ 64\<close>.\<close>

definition size_sub :: "nat \<Rightarrow> nat \<Rightarrow> nat" where
  "size_sub a b = (if b \<le> a then a - b else a + size_max - b)"

text \<open>\<open>static_cast<int32_t>\<close> of an integer value: reduction modulo \<open>2 ^ 32\<close> into the signed range.\<close>

definition to_i32 :: "int \<Rightarrow> int" where
  "to_i32 x = signed_take_bit 31 x"

text \<open>\<open>static_cast<size_t>\<close> of an \<open>int32_t\<close>: a negative value wraps to a huge index.\<close>

definition size_of_i32 :: "int \<Rightarrow> nat" where
  "size_of_i32 x = nat (take_bit 64 x)"

text \<open>Prefix increment and decrement of an \<open>int32_t\<close>: signed overflow is undefined.\<close>

definition inc_i32 :: "int \<Rightarrow> int option" where
  "inc_i32 x = (if x = 2 ^ 31 - 1 then None else Some (x + 1))"

definition dec_i32 :: "int \<Rightarrow> int option" where
  "dec_i32 x = (if x = - (2 ^ 31) then None else Some (x - 1))"

text \<open>The result of an \<open>int32_t\<close> operation, undefined when it overflows.\<close>

definition chk_i32 :: "int \<Rightarrow> int option" where
  "chk_i32 x = (if - (2 ^ 31) \<le> x \<and> x < 2 ^ 31 then Some x else None)"

text \<open>Division and remainder of \<open>int32_t\<close> values truncate towards zero.\<close>

definition div_i32 :: "int \<Rightarrow> int \<Rightarrow> int option" where
  "div_i32 a b = (if b = 0 then None else chk_i32 (a sdiv b))"

definition mod_i32 :: "int \<Rightarrow> int \<Rightarrow> int option" where
  "mod_i32 a b = (if b = 0 then None else do { _ \<leftarrow> chk_i32 (a sdiv b); Some (a smod b) })"

section \<open>Vectors\<close>

text \<open>\<open>operator[]\<close> on a vector, read and write: an index out of range is undefined.\<close>

definition vec_at :: "'a list \<Rightarrow> nat \<Rightarrow> 'a option" where
  "vec_at xs i = (if i < length xs then Some (xs ! i) else None)"

definition vec_set :: "'a list \<Rightarrow> nat \<Rightarrow> 'a \<Rightarrow> 'a list option" where
  "vec_set xs i v = (if i < length xs then Some (xs[i := v]) else None)"

text \<open>A loop that threads a state through a fallible body, once per element.\<close>

fun foldM :: "('a \<Rightarrow> 's \<Rightarrow> 's option) \<Rightarrow> 'a list \<Rightarrow> 's \<Rightarrow> 's option" where
  "foldM f [] s = Some s"
| "foldM f (x # xs) s = Option.bind (f x s) (foldM f xs)"

text \<open>A loop that rewrites each element of a vector in place while it threads a state.\<close>

fun mapM_st :: "('a \<Rightarrow> 's \<Rightarrow> ('a \<times> 's) option) \<Rightarrow> 'a list \<Rightarrow> 's \<Rightarrow> ('a list \<times> 's) option" where
  "mapM_st f [] s = Some ([], s)"
| "mapM_st f (x # xs) s =
     do {
       (y, s1) \<leftarrow> f x s;
       (ys, s2) \<leftarrow> mapM_st f xs s1;
       Some (y # ys, s2)
     }"

section \<open>Lemmas on integers\<close>

lemma size_sub_le [simp]: "b \<le> a \<Longrightarrow> size_sub a b = a - b"
  by (simp add: size_sub_def)

lemma to_i32_id [simp]: "- (2 ^ 31) \<le> x \<Longrightarrow> x < 2 ^ 31 \<Longrightarrow> to_i32 x = x"
  unfolding to_i32_def by (rule signed_take_bit_int_eq_self) simp_all

lemma to_i32_of_nat [simp]: "n < 2 ^ 31 \<Longrightarrow> to_i32 (int n) = int n"
  by (rule to_i32_id) simp_all

lemma to_i32_range: "- (2 ^ 31) \<le> to_i32 x" "to_i32 x < 2 ^ 31"
  unfolding to_i32_def
  using signed_take_bit_int_greater_eq_minus_exp [of 31 x] signed_take_bit_int_less_exp [of 31 x]
  by simp_all

lemma size_of_i32_id [simp]: "0 \<le> x \<Longrightarrow> x < 2 ^ 31 \<Longrightarrow> size_of_i32 x = nat x"
  unfolding size_of_i32_def by (simp add: take_bit_int_eq_self)

lemma size_of_i32_neg:
  assumes "x < 0" and "- (2 ^ 31) \<le> x"
  shows "size_of_i32 x = nat (x + 2 ^ 64)"
proof -
  have "take_bit 64 x = x mod 2 ^ 64" by (simp add: take_bit_eq_mod)
  also have "\<dots> = (x + 2 ^ 64) mod 2 ^ 64" by simp
  also have "\<dots> = x + 2 ^ 64" using assms by (intro mod_pos_pos_trivial) simp_all
  finally show ?thesis by (simp add: size_of_i32_def)
qed

lemma inc_i32_Some [simp]: "x < 2 ^ 31 - 1 \<Longrightarrow> inc_i32 x = Some (x + 1)"
  by (simp add: inc_i32_def)

lemma dec_i32_Some [simp]: "0 \<le> x \<Longrightarrow> dec_i32 x = Some (x - 1)"
  by (simp add: dec_i32_def)

lemma chk_i32_Some [simp]: "- (2 ^ 31) \<le> x \<Longrightarrow> x < 2 ^ 31 \<Longrightarrow> chk_i32 x = Some x"
  by (simp add: chk_i32_def)

lemma sdiv_nonneg: "0 \<le> a \<Longrightarrow> 0 < b \<Longrightarrow> a sdiv b = a div b" for a b :: int
  by (cases "a = 0") (simp_all add: signed_divide_int_def)

lemma div_i32_Some [simp]:
  assumes "0 \<le> a" and "a < 2 ^ 31" and "0 < b"
  shows "div_i32 a b = Some (a div b)"
proof -
  have "0 \<le> a div b" "a div b \<le> a" using assms zdiv_mono2 [of a 1 b] by (simp_all add: pos_imp_zdiv_nonneg_iff)
  then show ?thesis using assms by (simp add: div_i32_def sdiv_nonneg)
qed

lemma mod_i32_Some [simp]:
  assumes "0 \<le> a" and "a < 2 ^ 31" and "0 < b"
  shows "mod_i32 a b = Some (a mod b)"
proof -
  have "a smod b = a mod b" using assms(1,3) by (cases "a = 0") (simp_all add: signed_modulo_int_def)
  moreover have "chk_i32 (a sdiv b) = div_i32 a b" using assms(3) by (simp add: div_i32_def)
  ultimately show ?thesis using assms by (simp add: mod_i32_def)
qed

section \<open>Lemmas on vectors and loops\<close>

lemma vec_at_eq_Some: "vec_at xs i = Some x \<longleftrightarrow> i < length xs \<and> x = xs ! i"
  by (auto simp: vec_at_def)

lemma vec_at_Some [simp]: "i < length xs \<Longrightarrow> vec_at xs i = Some (xs ! i)"
  by (simp add: vec_at_def)

lemma vec_at_None [simp]: "vec_at xs i = None \<longleftrightarrow> length xs \<le> i"
  by (auto simp: vec_at_def)

lemma vec_set_Some [simp]: "i < length xs \<Longrightarrow> vec_set xs i v = Some (xs[i := v])"
  by (simp add: vec_set_def)

lemma foldM_append: "foldM f (xs @ ys) s = Option.bind (foldM f xs s) (foldM f ys)"
  by (induction xs arbitrary: s) (auto split: Option.bind_split)

text \<open>The invariant rule of a fallible loop: it keeps what its body keeps.\<close>

lemma foldM_invariant:
  assumes "foldM f xs s = Some s'" and "P s"
    and "\<And>x s s'. x \<in> set xs \<Longrightarrow> P s \<Longrightarrow> f x s = Some s' \<Longrightarrow> P s'"
  shows "P s'"
  using assms
proof (induction xs arbitrary: s)
  case (Cons x xs)
  then obtain s1 where "f x s = Some s1" "foldM f xs s1 = Some s'"
    by (auto simp: bind_eq_Some_conv)
  with Cons show ?case by (metis list.set_intros(1,2))
qed simp

lemma mapM_st_length: "mapM_st f xs s = Some (ys, s') \<Longrightarrow> length ys = length xs"
  by (induction xs arbitrary: s ys s') (auto simp: bind_eq_Some_conv)

lemma mapM_st_map:
  assumes "mapM_st f xs s = Some (ys, s')"
    and "\<And>x s y s'. f x s = Some (y, s') \<Longrightarrow> g y = g x"
  shows "map g ys = map g xs"
  using assms(1)
  by (induction xs arbitrary: s ys s') (auto simp: bind_eq_Some_conv dest: assms(2))

lemma butlast_set_last:
  "distinct xs \<Longrightarrow> xs \<noteq> [] \<Longrightarrow> set (butlast xs) = set xs - {last xs}"
proof (induction xs rule: rev_induct)
  case (snoc x xs)
  then show ?case by auto
qed simp

lemma distinct_butlast_last: "distinct xs \<Longrightarrow> xs \<noteq> [] \<Longrightarrow> last xs \<notin> set (butlast xs)"
  by (simp add: butlast_set_last)

lemma distinct_concat_map:
  "distinct ps \<Longrightarrow> (\<And>p. p \<in> set ps \<Longrightarrow> distinct (f p)) \<Longrightarrow>
   (\<And>p q. p \<in> set ps \<Longrightarrow> q \<in> set ps \<Longrightarrow> p \<noteq> q \<Longrightarrow> set (f p) \<inter> set (f q) = {}) \<Longrightarrow> distinct (concat (map f ps))"
proof (induction ps)
  case (Cons p ps)
  have "set (f p) \<inter> set (f q) = {}" if "q \<in> set ps" for q
    using Cons.prems(3) [of p q] Cons.prems(1) that by auto
  then have "set (f p) \<inter> set (concat (map f ps)) = {}" by auto
  moreover have "distinct (concat (map f ps))" using Cons by auto
  ultimately show ?case using Cons.prems(2) [of p] by simp
qed simp

end
