(* ===== verification/Common.thy ===== *)
theory Common
  imports Prelude
begin

text \<open>
  The shared types of the library, from \<open>src/src/cacheflow/common.h\<close>: identifiers, the enumerations
  (in the order the header declares them) and the configuration structs with their derived sizes.
  Floating-point fields and results are exact reals throughout the development.
\<close>

type_synonym token_id = int
type_synonym seq_id = "64 word"
type_synonym block_id = int
type_synonym time_point = int
type_synonym ptr = nat

definition INVALID_BLOCK :: block_id where
  "INVALID_BLOCK = -1"

definition KV_BLOCK_SIZE :: nat where
  "KV_BLOCK_SIZE = 16"

definition DEFAULT_GPU_BLOCKS :: nat where
  "DEFAULT_GPU_BLOCKS = 8192"

definition DEFAULT_CPU_BLOCKS :: nat where
  "DEFAULT_CPU_BLOCKS = 16384"

datatype request_status =
    WAITING | RUNNING | PREEMPTED | SWAPPED
  | FINISHED_STOPPED | FINISHED_LENGTH | FINISHED_EOS | FINISHED_ABORT

text \<open>The underlying \<open>uint8_t\<close> of the enumeration; the comparison in \<open>is_finished\<close> is on it.\<close>

fun status_code :: "request_status \<Rightarrow> nat" where
  "status_code WAITING = 0"
| "status_code RUNNING = 1"
| "status_code PREEMPTED = 2"
| "status_code SWAPPED = 3"
| "status_code FINISHED_STOPPED = 4"
| "status_code FINISHED_LENGTH = 5"
| "status_code FINISHED_EOS = 6"
| "status_code FINISHED_ABORT = 7"

definition is_finished :: "request_status \<Rightarrow> bool" where
  "is_finished s \<longleftrightarrow> status_code s \<ge> status_code FINISHED_STOPPED"

datatype schedule_policy = FCFS | SHORTEST_REMAINING | PRIORITY

datatype preemption_mode = RECOMPUTE | SWAP

datatype device_type = CPU | CUDA

record model_config =
  n_layers :: int
  n_heads :: int
  n_kv_heads :: int
  head_dim :: int
  vocab_size :: int
  max_seq_len :: int

definition default_model_config :: model_config where
  "default_model_config =
     \<lparr>n_layers = 32, n_heads = 32, n_kv_heads = 32, head_dim = 128,
      vocab_size = 32000, max_seq_len = 4096\<rparr>"

text \<open>The \<open>int32_t\<close> operands are converted to \<open>size_t\<close> before they are multiplied.\<close>

definition kv_cache_elem_size :: "model_config \<Rightarrow> nat" where
  "kv_cache_elem_size m =
     (size_of_i32 (head_dim m) * size_of_i32 (n_kv_heads m)) mod size_max"

definition model_block_bytes :: "model_config \<Rightarrow> nat" where
  "model_block_bytes m =
     (2 * size_of_i32 (n_layers m) * kv_cache_elem_size m * KV_BLOCK_SIZE * 4) mod size_max"

record scheduler_config =
  max_num_seqs :: nat
  max_num_batched_tokens :: nat
  max_paddings :: nat
  policy :: schedule_policy
  preemption_mode :: preemption_mode
  gpu_memory_utilization :: real
  swap_space_bytes :: nat

definition default_scheduler_config :: scheduler_config where
  "default_scheduler_config =
     \<lparr>max_num_seqs = 256, max_num_batched_tokens = 4096, max_paddings = 256, policy = FCFS,
      preemption_mode = SWAP, gpu_memory_utilization = 9 / 10,
      swap_space_bytes = 4 * 1024 * 1024 * 1024\<rparr>"

record cache_config =
  num_gpu_blocks :: nat
  num_cpu_blocks :: nat
  block_size :: nat
  enable_prefix_cache :: bool
  watermark_low :: real
  watermark_high :: real

definition default_cache_config :: cache_config where
  "default_cache_config =
     \<lparr>num_gpu_blocks = DEFAULT_GPU_BLOCKS, num_cpu_blocks = DEFAULT_CPU_BLOCKS,
      block_size = KV_BLOCK_SIZE, enable_prefix_cache = True,
      watermark_low = 1 / 10, watermark_high = 9 / 10\<rparr>"

section \<open>Facts about the shared types\<close>

lemma is_finished_simps [simp]:
  "\<not> is_finished WAITING" "\<not> is_finished RUNNING" "\<not> is_finished PREEMPTED"
  "\<not> is_finished SWAPPED" "is_finished FINISHED_STOPPED" "is_finished FINISHED_LENGTH"
  "is_finished FINISHED_EOS" "is_finished FINISHED_ABORT"
  by (simp_all add: is_finished_def)

lemma device_type_not_iff [simp]: "d \<noteq> CPU \<longleftrightarrow> d = CUDA" "d \<noteq> CUDA \<longleftrightarrow> d = CPU"
  by (cases d; simp)+

end
