(* ===== verification/Block_Manager.thy ===== *)
theory Block_Manager
  imports Common
begin

text \<open>
  The block manager, \<open>src/src/cacheflow/kv_cache/block_manager.{h,cpp}\<close>: physical KV-cache blocks of
  two devices, their reference counts, the two free lists and the map from sequences to the blocks
  they were given. Every public operation is a function from the state to the result and the new
  state; \<open>None\<close> is an access outside the block vector or a signed overflow of a reference count.
  Every operation of the class runs under the mutex \<open>mu_\<close>, so an operation is one atomic step.
\<close>

section \<open>State\<close>

record phys_block =
  pb_block_id :: block_id
  pb_device :: device_type
  pb_ref_count :: int
  pb_num_filled :: nat
  pb_hash :: nat
  pb_is_prefix :: bool

definition fresh_phys_block :: phys_block where
  "fresh_phys_block =
     \<lparr>pb_block_id = INVALID_BLOCK, pb_device = CUDA, pb_ref_count = 0, pb_num_filled = 0,
      pb_hash = 0, pb_is_prefix = False\<rparr>"

record block_manager =
  bm_config :: cache_config
  bm_model_config :: model_config
  gpu_blocks :: "phys_block list"
  cpu_blocks :: "phys_block list"
  gpu_free_list :: "block_id list"
  cpu_free_list :: "block_id list"
  seq_block_map :: "seq_id \<rightharpoonup> (device_type \<times> block_id) list"

record fragmentation_stats =
  fs_total_blocks :: nat
  fs_used_blocks :: nat
  fs_free_blocks :: nat
  fs_internal_fragmentation :: real
  fs_external_fragmentation :: real
  fs_largest_free_run :: nat

section \<open>Internal helpers\<close>

definition blocks_for :: "block_manager \<Rightarrow> device_type \<Rightarrow> phys_block list" where
  "blocks_for bm d = (if d = CUDA then gpu_blocks bm else cpu_blocks bm)"

definition free_list_for :: "block_manager \<Rightarrow> device_type \<Rightarrow> block_id list" where
  "free_list_for bm d = (if d = CUDA then gpu_free_list bm else cpu_free_list bm)"

text \<open>Writing through the references that \<open>blocks_for\<close> and \<open>free_list_for\<close> return.\<close>

definition put_blocks :: "device_type \<Rightarrow> phys_block list \<Rightarrow> block_manager \<Rightarrow> block_manager" where
  "put_blocks d bs bm = (if d = CUDA then bm\<lparr>gpu_blocks := bs\<rparr> else bm\<lparr>cpu_blocks := bs\<rparr>)"

definition put_free_list :: "device_type \<Rightarrow> block_id list \<Rightarrow> block_manager \<Rightarrow> block_manager" where
  "put_free_list d fl bm =
     (if d = CUDA then bm\<lparr>gpu_free_list := fl\<rparr> else bm\<lparr>cpu_free_list := fl\<rparr>)"

definition pop_free :: "block_id list \<Rightarrow> block_id \<times> block_id list" where
  "pop_free fl = (if fl = [] then (INVALID_BLOCK, fl) else (last fl, butlast fl))"

definition push_free :: "block_id list \<Rightarrow> block_id \<Rightarrow> block_id list" where
  "push_free fl b = fl @ [b]"

text \<open>\<open>seq_block_map_[seq]\<close>: an absent key is created with an empty vector.\<close>

definition seq_blocks :: "block_manager \<Rightarrow> seq_id \<Rightarrow> (device_type \<times> block_id) list" where
  "seq_blocks bm s = (case seq_block_map bm s of None \<Rightarrow> [] | Some l \<Rightarrow> l)"

definition emplace_seq_block ::
    "seq_id \<Rightarrow> device_type \<Rightarrow> block_id \<Rightarrow> block_manager \<Rightarrow> block_manager" where
  "emplace_seq_block s d b bm =
     bm\<lparr>seq_block_map := (seq_block_map bm)(s \<mapsto> seq_blocks bm s @ [(d, b)])\<rparr>"

definition update_block ::
    "device_type \<Rightarrow> block_id \<Rightarrow> (phys_block \<Rightarrow> phys_block) \<Rightarrow> block_manager \<Rightarrow> block_manager option" where
  "update_block d b f bm =
     do {
       blk \<leftarrow> vec_at (blocks_for bm d) (size_of_i32 b);
       Some (put_blocks d ((blocks_for bm d)[size_of_i32 b := f blk]) bm)
     }"

section \<open>Construction\<close>

definition init_block_list :: "nat \<Rightarrow> device_type \<Rightarrow> phys_block list" where
  "init_block_list n d =
     map (\<lambda>i. fresh_phys_block\<lparr>pb_block_id := to_i32 (int i), pb_device := d, pb_ref_count := 0\<rparr>)
       [0..<n]"

definition init_free_list :: "nat \<Rightarrow> block_id list" where
  "init_free_list n = map (\<lambda>i. to_i32 (int (n - 1 - i))) [0..<n]"

definition block_manager_new :: "cache_config \<Rightarrow> model_config \<Rightarrow> block_manager" where
  "block_manager_new c m =
     \<lparr>bm_config = c, bm_model_config = m,
      gpu_blocks = init_block_list (num_gpu_blocks c) CUDA,
      cpu_blocks = init_block_list (num_cpu_blocks c) CPU,
      gpu_free_list = init_free_list (num_gpu_blocks c),
      cpu_free_list = init_free_list (num_cpu_blocks c),
      seq_block_map = Map.empty\<rparr>"

section \<open>Allocation and release\<close>

definition allocate_block ::
    "seq_id \<Rightarrow> device_type \<Rightarrow> block_manager \<Rightarrow> (block_id \<times> block_manager) option" where
  "allocate_block s d bm =
     (let (bid, fl) = pop_free (free_list_for bm d);
          bm1 = put_free_list d fl bm
      in if bid = INVALID_BLOCK then Some (INVALID_BLOCK, bm1)
         else do {
           bm2 \<leftarrow> update_block d bid
             (\<lambda>blk. blk\<lparr>pb_ref_count := 1, pb_num_filled := 0, pb_hash := 0, pb_is_prefix := False\<rparr>) bm1;
           Some (bid, emplace_seq_block s d bid bm2)
         })"

text \<open>
  The body shared by \<open>free_block\<close> and the loop of \<open>free_blocks\<close>: drop one reference and, when none is
  left, clear the descriptor and return the block to its free list.
\<close>

definition free_block :: "block_id \<Rightarrow> device_type \<Rightarrow> block_manager \<Rightarrow> block_manager option" where
  "free_block b d bm =
     do {
       blk \<leftarrow> vec_at (blocks_for bm d) (size_of_i32 b);
       n \<leftarrow> dec_i32 (pb_ref_count blk);
       if n \<le> 0 then do {
         bm1 \<leftarrow> update_block d b
           (\<lambda>blk. blk\<lparr>pb_ref_count := 0, pb_num_filled := 0, pb_hash := 0, pb_is_prefix := False\<rparr>) bm;
         Some (put_free_list d (push_free (free_list_for bm1 d) b) bm1)
       }
       else update_block d b (\<lambda>blk. blk\<lparr>pb_ref_count := n\<rparr>) bm
     }"

definition free_blocks :: "seq_id \<Rightarrow> block_manager \<Rightarrow> block_manager option" where
  "free_blocks s bm =
     (case seq_block_map bm s of
        None \<Rightarrow> Some bm
      | Some l \<Rightarrow> do {
          bm1 \<leftarrow> foldM (\<lambda>(d, b). free_block b d) l bm;
          Some (bm1\<lparr>seq_block_map := (seq_block_map bm1)(s := None)\<rparr>)
        })"

definition can_allocate :: "block_manager \<Rightarrow> nat \<Rightarrow> bool" where
  "can_allocate bm n \<longleftrightarrow> length (gpu_free_list bm) \<ge> n"

section \<open>Queries\<close>

definition num_free_gpu_blocks :: "block_manager \<Rightarrow> nat" where
  "num_free_gpu_blocks bm = length (gpu_free_list bm)"

definition num_free_cpu_blocks :: "block_manager \<Rightarrow> nat" where
  "num_free_cpu_blocks bm = length (cpu_free_list bm)"

definition num_total_gpu_blocks :: "block_manager \<Rightarrow> nat" where
  "num_total_gpu_blocks bm = length (gpu_blocks bm)"

definition num_total_cpu_blocks :: "block_manager \<Rightarrow> nat" where
  "num_total_cpu_blocks bm = length (cpu_blocks bm)"

definition gpu_cache_usage :: "block_manager \<Rightarrow> real" where
  "gpu_cache_usage bm =
     (let total = length (gpu_blocks bm)
      in if total = 0 then 0 else 1 - real (num_free_gpu_blocks bm) / real total)"

definition cpu_cache_usage :: "block_manager \<Rightarrow> real" where
  "cpu_cache_usage bm =
     (let total = length (cpu_blocks bm)
      in if total = 0 then 0 else 1 - real (num_free_cpu_blocks bm) / real total)"

text \<open>\<open>get_block\<close> returns a pointer; the null pointer is \<open>None\<close>.\<close>

definition get_block :: "block_manager \<Rightarrow> block_id \<Rightarrow> device_type \<Rightarrow> phys_block option" where
  "get_block bm b d =
     (if b < 0 \<or> length (blocks_for bm d) \<le> size_of_i32 b then None
      else Some (blocks_for bm d ! size_of_i32 b))"

definition bm_block_size :: "block_manager \<Rightarrow> nat" where
  "bm_block_size bm = block_size (bm_config bm)"

definition bm_block_bytes :: "block_manager \<Rightarrow> nat" where
  "bm_block_bytes bm = model_block_bytes (bm_model_config bm)"

section \<open>Copy-on-write and reference counts\<close>

text \<open>
  \<open>src\<close> and \<open>dst\<close> are references into the same vector, so the destination is written first and the
  source count is then decremented in the updated vector.
\<close>

definition copy_on_write ::
    "block_id \<Rightarrow> seq_id \<Rightarrow> device_type \<Rightarrow> block_manager \<Rightarrow> (block_id \<times> block_manager) option" where
  "copy_on_write src_block new_seq d bm =
     do {
       src \<leftarrow> vec_at (blocks_for bm d) (size_of_i32 src_block);
       if pb_ref_count src = 1 then
         Some (src_block, emplace_seq_block new_seq d src_block bm)
       else
         (let (new_bid, fl) = pop_free (free_list_for bm d);
              bm1 = put_free_list d fl bm
          in if new_bid = INVALID_BLOCK then Some (INVALID_BLOCK, bm1)
             else do {
               bm2 \<leftarrow> update_block d new_bid
                 (\<lambda>dst. dst\<lparr>pb_ref_count := 1, pb_num_filled := pb_num_filled src,
                    pb_hash := pb_hash src, pb_is_prefix := False\<rparr>) bm1;
               src2 \<leftarrow> vec_at (blocks_for bm2 d) (size_of_i32 src_block);
               n \<leftarrow> dec_i32 (pb_ref_count src2);
               bm3 \<leftarrow> update_block d src_block (\<lambda>b. b\<lparr>pb_ref_count := n\<rparr>) bm2;
               Some (new_bid, emplace_seq_block new_seq d new_bid bm3)
             })
     }"

definition increment_ref :: "block_id \<Rightarrow> device_type \<Rightarrow> block_manager \<Rightarrow> block_manager option" where
  "increment_ref b d bm =
     do {
       blk \<leftarrow> vec_at (blocks_for bm d) (size_of_i32 b);
       n \<leftarrow> inc_i32 (pb_ref_count blk);
       update_block d b (\<lambda>blk. blk\<lparr>pb_ref_count := n\<rparr>) bm
     }"

definition decrement_ref :: "block_id \<Rightarrow> device_type \<Rightarrow> block_manager \<Rightarrow> block_manager option" where
  "decrement_ref b d bm =
     do {
       blk \<leftarrow> vec_at (blocks_for bm d) (size_of_i32 b);
       n \<leftarrow> dec_i32 (pb_ref_count blk);
       if n \<le> 0 then do {
         bm1 \<leftarrow> update_block d b (\<lambda>blk. blk\<lparr>pb_ref_count := 0\<rparr>) bm;
         Some (put_free_list d (push_free (free_list_for bm1 d) b) bm1)
       }
       else update_block d b (\<lambda>blk. blk\<lparr>pb_ref_count := n\<rparr>) bm
     }"

section \<open>Fragmentation analysis\<close>

definition total_filled :: "phys_block list \<Rightarrow> nat" where
  "total_filled blks = sum_list (map pb_num_filled (filter (\<lambda>b. pb_ref_count b > 0) blks))"

text \<open>The scan for the longest run of free blocks: index, current run, longest run so far.\<close>

fun free_run_scan :: "block_id list \<Rightarrow> nat list \<Rightarrow> nat \<Rightarrow> nat \<Rightarrow> nat" where
  "free_run_scan fl [] cur_run max_run = max_run"
| "free_run_scan fl (i # is) cur_run max_run =
     (if to_i32 (int i) \<in> set fl then
        free_run_scan fl is (cur_run + 1) (max max_run (cur_run + 1))
      else free_run_scan fl is 0 max_run)"

definition compute_fragmentation :: "block_manager \<Rightarrow> device_type \<Rightarrow> fragmentation_stats" where
  "compute_fragmentation bm d =
     (let blks = blocks_for bm d;
          fl = free_list_for bm d;
          used = size_sub (length blks) (length fl);
          max_capacity = (used * bm_block_size bm) mod size_max;
          max_run = free_run_scan fl [0..<length blks] 0 0
      in \<lparr>fs_total_blocks = length blks,
          fs_used_blocks = used,
          fs_free_blocks = length fl,
          fs_internal_fragmentation =
            (if max_capacity > 0
             then 1 - real (total_filled blks) / real max_capacity else 0),
          fs_external_fragmentation =
            (if length fl > 0 then 1 - real max_run / real (length fl) else 0),
          fs_largest_free_run = max_run\<rparr>)"

text \<open>The definitions that evaluate the model on a concrete state.\<close>

lemmas bm_eval [cf_defs] = block_manager_new_def init_block_list_def init_free_list_def allocate_block_def
  pop_free_def push_free_def free_list_for_def put_free_list_def update_block_def blocks_for_def
  put_blocks_def emplace_seq_block_def seq_blocks_def fresh_phys_block_def INVALID_BLOCK_def
  can_allocate_def bm_block_size_def free_block_def free_blocks_def vec_at_def

section \<open>The accounting invariant\<close>

text \<open>
  \<open>ext d b\<close> counts the references to a block that are held outside \<open>seq_block_map_\<close>, such as those
  of the prefix cache. A well-formed manager keeps, for both devices: the descriptors in order, each
  free list duplicate-free and equal to the set of blocks with count zero, every block in at most
  one sequence's list and there at most once, and every count equal to the number of holders.
\<close>

definition in_range :: "block_manager \<Rightarrow> device_type \<Rightarrow> block_id \<Rightarrow> bool" where
  "in_range bm d b \<longleftrightarrow> 0 \<le> b \<and> b < int (length (blocks_for bm d))"

definition ref_of :: "block_manager \<Rightarrow> device_type \<Rightarrow> block_id \<Rightarrow> int" where
  "ref_of bm d b = pb_ref_count (blocks_for bm d ! nat b)"

definition owned :: "block_manager \<Rightarrow> device_type \<Rightarrow> block_id \<Rightarrow> bool" where
  "owned bm d b \<longleftrightarrow> (\<exists>s. (d, b) \<in> set (seq_blocks bm s))"

definition bm_layout :: "block_manager \<Rightarrow> bool" where
  "bm_layout bm \<longleftrightarrow>
     (\<forall>d. length (blocks_for bm d) \<le> 2 ^ 31 \<and>
       (\<forall>i < length (blocks_for bm d).
          pb_block_id (blocks_for bm d ! i) = int i \<and> pb_device (blocks_for bm d ! i) = d))"

definition bm_free_exact :: "block_manager \<Rightarrow> bool" where
  "bm_free_exact bm \<longleftrightarrow>
     (\<forall>d. distinct (free_list_for bm d) \<and>
       (\<forall>b. b \<in> set (free_list_for bm d) \<longleftrightarrow> in_range bm d b \<and> ref_of bm d b = 0))"

definition bm_ownership :: "block_manager \<Rightarrow> bool" where
  "bm_ownership bm \<longleftrightarrow>
     (\<forall>s. distinct (seq_blocks bm s)) \<and>
     (\<forall>s t. s \<noteq> t \<longrightarrow> set (seq_blocks bm s) \<inter> set (seq_blocks bm t) = {}) \<and>
     (\<forall>s d b. (d, b) \<in> set (seq_blocks bm s) \<longrightarrow> in_range bm d b)"

definition bm_counted :: "(device_type \<Rightarrow> block_id \<Rightarrow> nat) \<Rightarrow> block_manager \<Rightarrow> bool" where
  "bm_counted ext bm \<longleftrightarrow>
     (\<forall>d b. in_range bm d b \<longrightarrow> ref_of bm d b = of_bool (owned bm d b) + int (ext d b))"

definition bm_wf :: "(device_type \<Rightarrow> block_id \<Rightarrow> nat) \<Rightarrow> block_manager \<Rightarrow> bool" where
  "bm_wf ext bm \<longleftrightarrow> bm_layout bm \<and> bm_free_exact bm \<and> bm_ownership bm \<and> bm_counted ext bm"

definition no_ext :: "device_type \<Rightarrow> block_id \<Rightarrow> nat" where
  "no_ext d b = 0"

definition add_ext ::
    "device_type \<Rightarrow> block_id \<Rightarrow> (device_type \<Rightarrow> block_id \<Rightarrow> nat) \<Rightarrow> device_type \<Rightarrow> block_id \<Rightarrow> nat" where
  "add_ext d b ext = ext(d := (ext d)(b := Suc (ext d b)))"

definition sub_ext ::
    "device_type \<Rightarrow> block_id \<Rightarrow> (device_type \<Rightarrow> block_id \<Rightarrow> nat) \<Rightarrow> device_type \<Rightarrow> block_id \<Rightarrow> nat" where
  "sub_ext d b ext = ext(d := (ext d)(b := ext d b - 1))"

section \<open>Observers of the updates\<close>

lemma blocks_for_put [simp]:
  "blocks_for (put_blocks d bs bm) e = (if e = d then bs else blocks_for bm e)"
  "blocks_for (put_free_list d fl bm) e = blocks_for bm e"
  "blocks_for (emplace_seq_block s d b bm) e = blocks_for bm e"
  "blocks_for (bm\<lparr>seq_block_map := m\<rparr>) e = blocks_for bm e"
  by (simp_all add: blocks_for_def put_blocks_def put_free_list_def emplace_seq_block_def)

lemma free_list_for_put [simp]:
  "free_list_for (put_blocks d bs bm) e = free_list_for bm e"
  "free_list_for (put_free_list d fl bm) e = (if e = d then fl else free_list_for bm e)"
  "free_list_for (emplace_seq_block s d b bm) e = free_list_for bm e"
  "free_list_for (bm\<lparr>seq_block_map := m\<rparr>) e = free_list_for bm e"
  by (simp_all add: free_list_for_def put_blocks_def put_free_list_def emplace_seq_block_def)

lemma seq_block_map_put [simp]:
  "seq_block_map (put_blocks d bs bm) = seq_block_map bm"
  "seq_block_map (put_free_list d fl bm) = seq_block_map bm"
  by (simp_all add: put_blocks_def put_free_list_def)

lemma seq_blocks_put [simp]:
  "seq_blocks (put_blocks d bs bm) t = seq_blocks bm t"
  "seq_blocks (put_free_list d fl bm) t = seq_blocks bm t"
  "seq_blocks (emplace_seq_block s d b bm) t =
     (if t = s then seq_blocks bm s @ [(d, b)] else seq_blocks bm t)"
  "seq_blocks (bm\<lparr>seq_block_map := (seq_block_map bm)(s := None)\<rparr>) t =
     (if t = s then [] else seq_blocks bm t)"
  by (simp_all add: seq_blocks_def emplace_seq_block_def)

lemma config_put [simp]:
  "bm_config (put_blocks d bs bm) = bm_config bm"
  "bm_config (put_free_list d fl bm) = bm_config bm"
  "bm_config (emplace_seq_block s d b bm) = bm_config bm"
  by (simp_all add: put_blocks_def put_free_list_def emplace_seq_block_def)

lemma in_range_put [simp]:
  "in_range (put_free_list d fl bm) e c = in_range bm e c"
  "in_range (emplace_seq_block s d b bm) e c = in_range bm e c"
  "in_range (bm\<lparr>seq_block_map := m\<rparr>) e c = in_range bm e c"
  "in_range (put_blocks d ((blocks_for bm d)[i := x]) bm) e c = in_range bm e c"
  by (simp_all add: in_range_def)

lemma ref_of_put [simp]:
  "ref_of (put_free_list d fl bm) e c = ref_of bm e c"
  "ref_of (emplace_seq_block s d b bm) e c = ref_of bm e c"
  "ref_of (bm\<lparr>seq_block_map := m\<rparr>) e c = ref_of bm e c"
  by (simp_all add: ref_of_def)

lemma ref_of_put_blocks:
  assumes "in_range bm d b" and "in_range bm e c"
  shows "ref_of (put_blocks d ((blocks_for bm d)[nat b := x]) bm) e c =
    (if e = d \<and> c = b then pb_ref_count x else ref_of bm e c)"
  using assms by (auto simp: ref_of_def in_range_def nth_list_update nat_eq_iff)

lemma owned_put [simp]:
  "owned (put_blocks d bs bm) e c = owned bm e c"
  "owned (put_free_list d fl bm) e c = owned bm e c"
  "owned (emplace_seq_block s d b bm) e c \<longleftrightarrow> (e = d \<and> c = b) \<or> owned bm e c"
  by (auto simp: owned_def)

lemma ext_simps [simp]:
  "add_ext d b ext e c = (if e = d \<and> c = b then Suc (ext d b) else ext e c)"
  "sub_ext d b ext e c = (if e = d \<and> c = b then ext d b - 1 else ext e c)"
  "no_ext e c = 0"
  by (simp_all add: add_ext_def sub_ext_def no_ext_def)

lemma layout_index:
  "bm_layout bm \<Longrightarrow> in_range bm d b \<Longrightarrow> size_of_i32 b = nat b \<and> nat b < length (blocks_for bm d)"
proof -
  assume "bm_layout bm" and r: "in_range bm d b"
  then have "length (blocks_for bm d) \<le> 2 ^ 31" by (simp add: bm_layout_def)
  with r show ?thesis by (auto simp: in_range_def)
qed

lemma update_block_in_range:
  assumes "bm_layout bm" and "in_range bm d b"
  shows "update_block d b f bm =
    Some (put_blocks d ((blocks_for bm d)[nat b := f (blocks_for bm d ! nat b)]) bm)"
  using layout_index [OF assms] by (simp add: update_block_def)

lemma bm_layout_put [simp]:
  "bm_layout (put_free_list d fl bm) = bm_layout bm"
  "bm_layout (emplace_seq_block s d b bm) = bm_layout bm"
  "bm_layout (bm\<lparr>seq_block_map := m\<rparr>) = bm_layout bm"
  by (simp_all add: bm_layout_def)

lemma bm_layout_put_blocks:
  assumes "bm_layout bm" and "in_range bm d b"
    and "pb_block_id x = pb_block_id (blocks_for bm d ! nat b)"
    and "pb_device x = pb_device (blocks_for bm d ! nat b)"
  shows "bm_layout (put_blocks d ((blocks_for bm d)[nat b := x]) bm)"
  using assms by (auto simp: bm_layout_def in_range_def nth_list_update)

section \<open>Dropping a reference\<close>

text \<open>
  \<open>same_shape\<close> relates two states with the same configuration and the same number of blocks.
  \<open>bm_core\<close> is the part of the invariant that does not speak of holders.
\<close>

definition same_shape :: "block_manager \<Rightarrow> block_manager \<Rightarrow> bool" where
  "same_shape bm bm' \<longleftrightarrow>
     bm_config bm' = bm_config bm \<and> bm_model_config bm' = bm_model_config bm \<and>
     (\<forall>d. length (blocks_for bm' d) = length (blocks_for bm d))"

definition bm_core :: "block_manager \<Rightarrow> bool" where
  "bm_core bm \<longleftrightarrow>
     bm_layout bm \<and> bm_free_exact bm \<and> (\<forall>d b. in_range bm d b \<longrightarrow> 0 \<le> ref_of bm d b)"

text \<open>
  The effect of an operation that gives up one reference: that count is lower by one, and nothing
  else that a client can observe has changed but the free list, which stays exact.
\<close>

definition dropped :: "block_id \<Rightarrow> device_type \<Rightarrow> block_manager \<Rightarrow> block_manager \<Rightarrow> bool" where
  "dropped b d bm bm' \<longleftrightarrow>
     bm_core bm' \<and> same_shape bm bm' \<and> seq_block_map bm' = seq_block_map bm \<and>
     (\<forall>e c. in_range bm e c \<longrightarrow>
        ref_of bm' e c = (if e = d \<and> c = b then ref_of bm d b - 1 else ref_of bm e c))"

lemma same_shape_refl [simp]: "same_shape bm bm"
  by (simp add: same_shape_def)

lemma same_shape_trans: "same_shape a b \<Longrightarrow> same_shape b c \<Longrightarrow> same_shape a c"
  by (simp add: same_shape_def)

lemma same_shape_in_range: "same_shape bm bm' \<Longrightarrow> in_range bm' d b = in_range bm d b"
  by (simp add: same_shape_def in_range_def)

lemma same_shape_put [simp]:
  "same_shape bm (put_free_list d fl bm')= same_shape bm bm'"
  "same_shape bm (emplace_seq_block s d b bm') = same_shape bm bm'"
  "same_shape bm (bm'\<lparr>seq_block_map := m\<rparr>) = same_shape bm bm'"
  "same_shape bm (put_blocks d ((blocks_for bm' d)[i := x]) bm') = same_shape bm bm'"
  by (auto simp: same_shape_def put_free_list_def put_blocks_def emplace_seq_block_def blocks_for_def)

lemma bm_core_wf: "bm_wf ext bm \<Longrightarrow> bm_core bm"
  by (auto simp: bm_wf_def bm_core_def bm_counted_def)

text \<open>The two ways a count goes down: to a positive value, or to zero with a push to the free list.\<close>

lemma bm_core_lower:
  assumes core: "bm_core bm" and r: "in_range bm d b"
    and id: "pb_block_id x = pb_block_id (blocks_for bm d ! nat b)"
      "pb_device x = pb_device (blocks_for bm d ! nat b)"
    and n: "1 \<le> ref_of bm d b" "1 \<le> pb_ref_count x"
  shows "bm_core (put_blocks d ((blocks_for bm d)[nat b := x]) bm)"
proof -
  let ?bm' = "put_blocks d ((blocks_for bm d)[nat b := x]) bm"
  have ref: "ref_of ?bm' e c = (if e = d \<and> c = b then pb_ref_count x else ref_of bm e c)"
    if "in_range bm e c" for e c
    using ref_of_put_blocks [OF r that] .
  have "bm_free_exact ?bm'"
    using core n by (auto simp: bm_core_def bm_free_exact_def ref split: if_splits)
  moreover have "0 \<le> ref_of ?bm' e c" if "in_range bm e c" for e c
    using core n that by (auto simp: bm_core_def ref)
  ultimately show ?thesis
    using core r id by (simp add: bm_core_def bm_layout_put_blocks)
qed

lemma bm_core_push:
  assumes core: "bm_core bm" and r: "in_range bm d b"
    and id: "pb_block_id x = pb_block_id (blocks_for bm d ! nat b)"
      "pb_device x = pb_device (blocks_for bm d ! nat b)"
    and n: "1 \<le> ref_of bm d b" "pb_ref_count x = 0"
  shows "bm_core (put_free_list d (free_list_for bm d @ [b])
    (put_blocks d ((blocks_for bm d)[nat b := x]) bm))"
proof -
  let ?bm1 = "put_blocks d ((blocks_for bm d)[nat b := x]) bm"
  let ?bm' = "put_free_list d (free_list_for bm d @ [b]) ?bm1"
  have ref: "ref_of ?bm1 e c = (if e = d \<and> c = b then 0 else ref_of bm e c)"
    if "in_range bm e c" for e c
    using ref_of_put_blocks [OF r that] n by simp
  have exact: "c \<in> set (free_list_for bm e) \<longleftrightarrow> in_range bm e c \<and> ref_of bm e c = 0"
    and dist: "distinct (free_list_for bm e)" for e c
    using core by (auto simp: bm_core_def bm_free_exact_def)
  have "b \<notin> set (free_list_for bm d)"
    using exact n by simp
  moreover have "(c = b \<or> c \<in> set (free_list_for bm d)) \<longleftrightarrow> in_range bm d c \<and> ref_of ?bm1 d c = 0" for c
    using exact [of c d] r ref [of d c] by auto
  moreover have "c \<in> set (free_list_for bm e) \<longleftrightarrow> in_range bm e c \<and> ref_of ?bm1 e c = 0"
    if "e \<noteq> d" for e c
    using exact [of c e] ref [of e c] that by auto
  ultimately have "bm_free_exact ?bm'"
    using dist by (auto simp: bm_free_exact_def)
  moreover have "0 \<le> ref_of ?bm1 e c" if "in_range bm e c" for e c
    using core that by (auto simp: bm_core_def ref)
  ultimately show ?thesis
    using core r id by (simp add: bm_core_def bm_layout_put_blocks)
qed

lemma drop_effect:
  assumes core: "bm_core bm" and r: "in_range bm d b" and n: "1 \<le> ref_of bm d b"
    and id: "\<And>x. pb_block_id (clr x) = pb_block_id x" "\<And>x. pb_device (clr x) = pb_device x"
      "\<And>x. pb_ref_count (clr x) = 0"
    and f: "f b d bm =
      do {
        blk \<leftarrow> vec_at (blocks_for bm d) (size_of_i32 b);
        n \<leftarrow> dec_i32 (pb_ref_count blk);
        if n \<le> 0 then do {
          bm1 \<leftarrow> update_block d b clr bm;
          Some (put_free_list d (push_free (free_list_for bm1 d) b) bm1)
        }
        else update_block d b (\<lambda>blk. blk\<lparr>pb_ref_count := n\<rparr>) bm
      }"
  shows "\<exists>bm'. f b d bm = Some bm' \<and> dropped b d bm bm'"
proof -
  let ?blk = "blocks_for bm d ! nat b"
  have lay: "bm_layout bm" using core by (simp add: bm_core_def)
  note idx = layout_index [OF lay r]
  have rc: "pb_ref_count ?blk = ref_of bm d b" by (simp add: ref_of_def)
  show ?thesis
  proof (cases "ref_of bm d b = 1")
    case True
    then have "f b d bm = Some (put_free_list d (free_list_for bm d @ [b])
        (put_blocks d ((blocks_for bm d)[nat b := clr ?blk]) bm))"
      using idx rc by (simp add: f update_block_in_range [OF lay r] push_free_def)
    with True show ?thesis
      using bm_core_push [OF core r id(1,2)] n id(3) by (simp add: dropped_def ref_of_put_blocks [OF r])
  next
    case False
    then have "f b d bm = Some (put_blocks d
        ((blocks_for bm d)[nat b := ?blk\<lparr>pb_ref_count := ref_of bm d b - 1\<rparr>]) bm)"
      using idx rc n by (simp add: f update_block_in_range [OF lay r])
    with False show ?thesis
      using bm_core_lower [OF core r, of "?blk\<lparr>pb_ref_count := ref_of bm d b - 1\<rparr>"] n
      by (simp add: dropped_def ref_of_put_blocks [OF r])
  qed
qed

text \<open>
  The interface of such an operation, for its clients: the holders of references and the loop of
  \<open>free_blocks\<close>. Both \<open>free_block\<close> and \<open>decrement_ref\<close> provide it.
\<close>

locale ref_drop =
  fixes drop :: "block_id \<Rightarrow> device_type \<Rightarrow> block_manager \<Rightarrow> block_manager option"
  assumes drop_one: "bm_core bm \<Longrightarrow> in_range bm d b \<Longrightarrow> 1 \<le> ref_of bm d b \<Longrightarrow>
    \<exists>bm'. drop b d bm = Some bm' \<and> dropped b d bm bm'"
begin

lemma drop_ext:
  assumes wf: "bm_wf ext bm" and r: "in_range bm d b" and e: "1 \<le> ext d b"
  shows "\<exists>bm'. drop b d bm = Some bm' \<and> bm_wf (sub_ext d b ext) bm' \<and> dropped b d bm bm'"
proof -
  have cnt: "ref_of bm e c = of_bool (owned bm e c) + int (ext e c)" if "in_range bm e c" for e c
    using wf that by (simp add: bm_wf_def bm_counted_def)
  then have "1 \<le> ref_of bm d b" using r e by (simp add: of_bool_def)
  then obtain bm' where bm': "drop b d bm = Some bm'" "dropped b d bm bm'"
    using drop_one [OF bm_core_wf [OF wf] r] by blast
  have sb: "seq_blocks bm' = seq_blocks bm" "owned bm' = owned bm"
    using bm'(2) by (auto simp: dropped_def seq_blocks_def owned_def fun_eq_iff)
  have rng: "in_range bm' e c = in_range bm e c" for e c
    using bm'(2) by (simp add: dropped_def same_shape_in_range)
  have "bm_counted (sub_ext d b ext) bm'"
    using bm'(2) cnt e r by (auto simp: bm_counted_def dropped_def rng sb of_nat_diff)
  moreover have "bm_ownership bm'"
    using wf by (simp add: bm_wf_def bm_ownership_def sb rng)
  ultimately have "bm_wf (sub_ext d b ext) bm'"
    using bm'(2) by (simp add: bm_wf_def dropped_def bm_core_def)
  with bm' show ?thesis by blast
qed

lemma drop_list:
  assumes "bm_core bm" and "distinct l"
    and "\<And>d b. (d, b) \<in> set l \<Longrightarrow> in_range bm d b \<and> 1 \<le> ref_of bm d b"
  shows "\<exists>bm'. foldM (\<lambda>(d, b). drop b d) l bm = Some bm' \<and> bm_core bm' \<and> same_shape bm bm' \<and>
    seq_block_map bm' = seq_block_map bm \<and>
    (\<forall>e c. in_range bm e c \<longrightarrow> ref_of bm' e c = ref_of bm e c - of_bool ((e, c) \<in> set l))"
  using assms
proof (induction l arbitrary: bm)
  case (Cons x l)
  obtain d b where x: "x = (d, b)" by (cases x)
  with Cons.prems have r: "in_range bm d b" "1 \<le> ref_of bm d b" by auto
  obtain bm1 where bm1: "drop b d bm = Some bm1" "dropped b d bm bm1"
    using drop_one [OF Cons.prems(1) r] by blast
  have rng: "in_range bm1 e c = in_range bm e c" for e c
    using bm1(2) by (simp add: dropped_def same_shape_in_range)
  have ref: "ref_of bm1 e c = (if e = d \<and> c = b then ref_of bm d b - 1 else ref_of bm e c)"
    if "in_range bm e c" for e c
    using bm1(2) that by (simp add: dropped_def)
  have "bm_core bm1" "distinct l" using bm1(2) Cons.prems by (auto simp: dropped_def)
  moreover have "in_range bm1 e c \<and> 1 \<le> ref_of bm1 e c" if "(e, c) \<in> set l" for e c
  proof -
    have "(e, c) \<noteq> (d, b)" "in_range bm e c" "1 \<le> ref_of bm e c"
      using Cons.prems that x by auto
    then show ?thesis by (auto simp: rng ref)
  qed
  ultimately obtain bm' where bm': "foldM (\<lambda>(d, b). drop b d) l bm1 = Some bm'" "bm_core bm'"
      "same_shape bm1 bm'" "seq_block_map bm' = seq_block_map bm1"
      "\<forall>e c. in_range bm1 e c \<longrightarrow> ref_of bm' e c = ref_of bm1 e c - of_bool ((e, c) \<in> set l)"
    using Cons.IH [of bm1] by blast
  have "same_shape bm bm'"
    using bm1(2) bm'(3) by (auto simp: dropped_def intro: same_shape_trans)
  moreover have "ref_of bm' e c = ref_of bm e c - of_bool ((e, c) \<in> set (x # l))"
    if "in_range bm e c" for e c
    using bm'(5) that Cons.prems(2) by (auto simp: rng ref x)
  ultimately show ?case
    using bm1 bm' by (auto simp: x dropped_def)
qed simp

end

interpretation fb: ref_drop free_block
proof
  show "\<exists>bm'. free_block b d bm = Some bm' \<and> dropped b d bm bm'"
    if "bm_core bm" "in_range bm d b" "1 \<le> ref_of bm d b" for b d bm
    using that
    by (rule drop_effect [where f = free_block and clr = "\<lambda>blk. blk\<lparr>pb_ref_count := 0,
      pb_num_filled := 0, pb_hash := 0, pb_is_prefix := False\<rparr>"]) (simp_all add: free_block_def)
qed

interpretation dr: ref_drop decrement_ref
proof
  show "\<exists>bm'. decrement_ref b d bm = Some bm' \<and> dropped b d bm bm'"
    if "bm_core bm" "in_range bm d b" "1 \<le> ref_of bm d b" for b d bm
    using that
    by (rule drop_effect [where f = decrement_ref and clr = "\<lambda>blk. blk\<lparr>pb_ref_count := 0\<rparr>"])
      (simp_all add: decrement_ref_def)
qed

section \<open>Every operation keeps the invariant\<close>

lemma init_block_list_nth [simp]:
  "length (init_block_list n d) = n"
  "i < n \<Longrightarrow> n \<le> 2 ^ 31 \<Longrightarrow> init_block_list n d ! i =
     fresh_phys_block\<lparr>pb_block_id := int i, pb_device := d, pb_ref_count := 0\<rparr>"
  by (simp_all add: init_block_list_def)

lemma init_free_list_eq: "n \<le> 2 ^ 31 \<Longrightarrow> init_free_list n = rev (map int [0..<n])"
  by (rule nth_equalityI) (simp_all add: init_free_list_def rev_nth del: upt_Suc)

lemma block_manager_new_wf:
  assumes "num_gpu_blocks c \<le> 2 ^ 31" and "num_cpu_blocks c \<le> 2 ^ 31"
  shows "bm_wf no_ext (block_manager_new c m)"
proof -
  let ?bm = "block_manager_new c m"
  let ?n = "\<lambda>d. if d = CUDA then num_gpu_blocks c else num_cpu_blocks c"
  have blk: "blocks_for ?bm d = init_block_list (?n d) d" for d
    by (cases d) (simp_all add: blocks_for_def block_manager_new_def)
  have fl: "free_list_for ?bm d = rev (map int [0..<?n d])" for d
    using assms by (cases d) (simp_all add: free_list_for_def block_manager_new_def init_free_list_eq)
  have n: "?n d \<le> 2 ^ 31" for d using assms by (cases d) simp_all
  have ref: "in_range ?bm d b \<Longrightarrow> ref_of ?bm d b = 0" for d b
    using n [of d] by (cases d) (auto simp: in_range_def ref_of_def blk)
  have sb: "seq_blocks ?bm s = []" for s
    by (simp add: seq_blocks_def block_manager_new_def)
  have "bm_layout ?bm"
    using n by (auto simp: bm_layout_def blk)
  moreover have "bm_free_exact ?bm"
  proof -
    have "b \<in> set (free_list_for ?bm d) \<longleftrightarrow> in_range ?bm d b" for d b
      by (auto simp: fl in_range_def blk image_iff intro: bexI [of _ "nat b"])
    then show ?thesis
      by (auto simp: bm_free_exact_def ref fl distinct_map)
  qed
  ultimately show ?thesis
    by (simp add: bm_wf_def bm_ownership_def bm_counted_def sb ref owned_def)
qed

text \<open>What \<open>allocate_block\<close> does with an exact free list: the two branches of the source.\<close>

lemma allocate_block_empty:
  "free_list_for bm d = [] \<Longrightarrow> allocate_block s d bm = Some (INVALID_BLOCK, bm)"
  by (cases d) (simp_all add: allocate_block_def pop_free_def put_free_list_def free_list_for_def)

lemma take_free:
  assumes core: "bm_core bm" and ne: "free_list_for bm d \<noteq> []"
  defines "b \<equiv> last (free_list_for bm d)"
  shows "in_range bm d b" "ref_of bm d b = 0" "b \<noteq> INVALID_BLOCK"
    "distinct (butlast (free_list_for bm d))"
    "set (butlast (free_list_for bm d)) = set (free_list_for bm d) - {b}"
proof -
  have ex: "distinct (free_list_for bm d)"
    "\<And>c. c \<in> set (free_list_for bm d) \<longleftrightarrow> in_range bm d c \<and> ref_of bm d c = 0"
    using core by (auto simp: bm_core_def bm_free_exact_def)
  have "b \<in> set (free_list_for bm d)" using ne by (simp add: b_def)
  then show "in_range bm d b" "ref_of bm d b = 0" by (simp_all add: ex)
  then show "b \<noteq> INVALID_BLOCK" by (auto simp: in_range_def INVALID_BLOCK_def)
  show "distinct (butlast (free_list_for bm d))" using ex by (simp add: distinct_butlast)
  show "set (butlast (free_list_for bm d)) = set (free_list_for bm d) - {b}"
    using ex ne by (simp add: b_def butlast_set_last)
qed

text \<open>Taking the last free block and giving it one holder keeps the holder-free part.\<close>

lemma bm_core_take:
  assumes core: "bm_core bm" and ne: "free_list_for bm d \<noteq> []"
  defines "b \<equiv> last (free_list_for bm d)"
  assumes x: "pb_block_id x = pb_block_id (blocks_for bm d ! nat b)"
      "pb_device x = pb_device (blocks_for bm d ! nat b)" "pb_ref_count x = 1"
  defines "bm' \<equiv> put_blocks d ((blocks_for bm d)[nat b := x])
      (put_free_list d (butlast (free_list_for bm d)) bm)"
  shows "bm_core bm'" "\<And>e c. in_range bm' e c = in_range bm e c"
    "\<And>e c. in_range bm e c \<Longrightarrow> ref_of bm' e c = (if e = d \<and> c = b then 1 else ref_of bm e c)"
proof -
  let ?bm0 = "put_free_list d (butlast (free_list_for bm d)) bm"
  note tf = take_free [OF core ne, folded b_def]
  show rng: "in_range bm' e c = in_range bm e c" for e c
    by (simp add: bm'_def in_range_def)
  show ref: "ref_of bm' e c = (if e = d \<and> c = b then 1 else ref_of bm e c)"
    if "in_range bm e c" for e c
    using ref_of_put_blocks [of ?bm0 d b e c x] tf(1) that x by (simp add: bm'_def)
  have ex: "distinct (free_list_for bm e)"
    "\<And>c. c \<in> set (free_list_for bm e) \<longleftrightarrow> in_range bm e c \<and> ref_of bm e c = 0" for e
    using core by (auto simp: bm_core_def bm_free_exact_def)
  have fl: "free_list_for bm' e = (if e = d then butlast (free_list_for bm d) else free_list_for bm e)"
    for e by (simp add: bm'_def)
  have "bm_free_exact bm'"
    using ex tf(4,5) by (auto simp: bm_free_exact_def fl rng ref split: if_splits)
  moreover have "0 \<le> ref_of bm' e c" if "in_range bm e c" for e c
    using core that by (auto simp: ref bm_core_def)
  moreover have "bm_layout bm'"
    using core bm_layout_put_blocks [of ?bm0 d b x] tf(1) x by (simp add: bm'_def bm_core_def)
  ultimately show "bm_core bm'" by (simp add: bm_core_def rng)
qed

lemma not_owned_if_free:
  assumes "bm_wf ext bm" and "in_range bm d b" and "ref_of bm d b = 0"
  shows "\<not> owned bm d b" "ext d b = 0"
  using assms by (auto simp: bm_wf_def bm_counted_def of_bool_def split: if_splits)

lemma ownership_emplace:
  assumes "bm_ownership bm" and "in_range bm d b" and "\<not> owned bm d b"
  shows "bm_ownership (emplace_seq_block s d b bm)"
  using assms by (auto simp: bm_ownership_def owned_def split: if_splits)

lemma allocate_block_nonempty:
  assumes wf: "bm_wf ext bm" and ne: "free_list_for bm d \<noteq> []"
  shows "\<exists>bm'. allocate_block s d bm = Some (last (free_list_for bm d), bm') \<and> bm_wf ext bm' \<and>
    same_shape bm bm' \<and>
    (\<forall>e. free_list_for bm' e =
       (if e = d then butlast (free_list_for bm d) else free_list_for bm e)) \<and>
    (\<forall>t. seq_blocks bm' t =
       (if t = s then seq_blocks bm s @ [(d, last (free_list_for bm d))] else seq_blocks bm t))"
proof -
  define b where "b = last (free_list_for bm d)"
  let ?bm0 = "put_free_list d (butlast (free_list_for bm d)) bm"
  let ?x = "(blocks_for bm d ! nat b)
    \<lparr>pb_ref_count := 1, pb_num_filled := 0, pb_hash := 0, pb_is_prefix := False\<rparr>"
  let ?bm1 = "put_blocks d ((blocks_for bm d)[nat b := ?x]) ?bm0"
  let ?bm' = "emplace_seq_block s d b ?bm1"
  have core: "bm_core bm" using wf by (rule bm_core_wf)
  note tf = take_free [OF core ne, folded b_def]
  note tk = bm_core_take [OF core ne, folded b_def, of ?x]
  have lay: "bm_layout ?bm0" using core by (simp add: bm_core_def)
  have eq: "allocate_block s d bm = Some (b, ?bm')"
    using ne tf update_block_in_range [OF lay, of d b]
    by (simp add: allocate_block_def pop_free_def b_def [symmetric])
  note free = not_owned_if_free [OF wf tf(1,2)]
  have "bm_ownership ?bm1"
    using wf tk(2) by (simp add: bm_wf_def bm_ownership_def)
  then have "bm_ownership ?bm'"
    using free tf(1) tk(2) by (intro ownership_emplace) simp_all
  moreover have "bm_counted ext ?bm'"
    using wf free tk(2,3) by (auto simp: bm_counted_def bm_wf_def)
  moreover have "bm_layout ?bm'" "bm_free_exact ?bm'"
    using tk by (auto simp: bm_core_def bm_free_exact_def)
  ultimately have "bm_wf ext ?bm'" by (simp add: bm_wf_def)
  moreover have "same_shape bm ?bm'"
    by (simp add: same_shape_def put_blocks_def put_free_list_def emplace_seq_block_def blocks_for_def)
  ultimately show ?thesis
    using eq by (auto simp: b_def)
qed

lemma free_blocks_wf:
  assumes wf: "bm_wf ext bm"
  shows "\<exists>bm'. free_blocks s bm = Some bm' \<and> bm_wf ext bm' \<and> same_shape bm bm' \<and>
    (\<forall>t. seq_blocks bm' t = (if t = s then [] else seq_blocks bm t)) \<and>
    (\<forall>e c. in_range bm e c \<longrightarrow>
       ref_of bm' e c = ref_of bm e c - of_bool ((e, c) \<in> set (seq_blocks bm s)))"
proof (cases "seq_block_map bm s")
  case None
  then show ?thesis using wf by (auto simp: free_blocks_def seq_blocks_def)
next
  case (Some l)
  then have l: "seq_blocks bm s = l" by (simp add: seq_blocks_def)
  have own: "distinct l" "(d, b) \<in> set l \<Longrightarrow> in_range bm d b \<and> 1 \<le> ref_of bm d b" for d b
    using wf l by (auto simp: bm_wf_def bm_ownership_def bm_counted_def owned_def of_bool_def)
  obtain bm1 where bm1: "foldM (\<lambda>(d, b). free_block b d) l bm = Some bm1" "bm_core bm1"
      "same_shape bm bm1" "seq_block_map bm1 = seq_block_map bm"
      "\<forall>e c. in_range bm e c \<longrightarrow> ref_of bm1 e c = ref_of bm e c - of_bool ((e, c) \<in> set l)"
    using fb.drop_list [OF bm_core_wf [OF wf] own] by blast
  let ?bm' = "bm1\<lparr>seq_block_map := (seq_block_map bm1)(s := None)\<rparr>"
  have rng: "in_range bm1 e c = in_range bm e c" for e c
    using bm1(3) by (rule same_shape_in_range)
  have sb: "seq_blocks ?bm' t = (if t = s then [] else seq_blocks bm t)" for t
    using bm1(4) by (simp add: seq_blocks_def)
  have disj: "set (seq_blocks bm t) \<inter> set l = {}" if "t \<noteq> s" for t
    using wf l that by (auto simp: bm_wf_def bm_ownership_def)
  have own': "owned ?bm' e c \<longleftrightarrow> owned bm e c \<and> (e, c) \<notin> set l" for e c
    unfolding owned_def sb using disj l by (fastforce split: if_splits)
  have sb1: "seq_blocks bm1 = seq_blocks bm"
    using bm1(4) by (simp add: seq_blocks_def fun_eq_iff)
  have "bm_counted ext ?bm'"
    unfolding bm_counted_def
  proof (intro allI impI)
    fix e c
    assume "in_range ?bm' e c"
    then have r: "in_range bm e c" by (simp add: rng)
    have "(e, c) \<in> set l \<Longrightarrow> owned bm e c" using l by (auto simp: owned_def)
    then show "ref_of ?bm' e c = of_bool (owned ?bm' e c) + int (ext e c)"
      using wf r bm1(5) by (auto simp: bm_wf_def bm_counted_def own')
  qed
  moreover have "bm_ownership ?bm'"
    using wf by (simp add: bm_wf_def bm_ownership_def sb1 rng)
  moreover have "bm_layout ?bm'" "bm_free_exact ?bm'"
    using bm1(2) by (auto simp: bm_core_def bm_free_exact_def)
  ultimately have "bm_wf ext ?bm'" by (simp add: bm_wf_def)
  moreover have "free_blocks s bm = Some ?bm'"
    using Some bm1(1) by (simp add: free_blocks_def)
  ultimately show ?thesis
    using bm1(3,5) sb l by auto
qed

lemma increment_ref_wf:
  assumes wf: "bm_wf ext bm" and r: "in_range bm d b"
    and n: "1 \<le> ref_of bm d b" "ref_of bm d b \<noteq> 2 ^ 31 - 1"
  shows "\<exists>bm'. increment_ref b d bm = Some bm' \<and> bm_wf (add_ext d b ext) bm' \<and>
    same_shape bm bm' \<and> seq_block_map bm' = seq_block_map bm \<and>
    (\<forall>e. free_list_for bm' e = free_list_for bm e) \<and>
    (\<forall>e c. in_range bm e c \<longrightarrow>
       ref_of bm' e c = ref_of bm e c + of_bool (e = d \<and> c = b))"
proof -
  let ?x = "(blocks_for bm d ! nat b)\<lparr>pb_ref_count := ref_of bm d b + 1\<rparr>"
  let ?bm' = "put_blocks d ((blocks_for bm d)[nat b := ?x]) bm"
  have core: "bm_core bm" using wf by (rule bm_core_wf)
  then have lay: "bm_layout bm" by (simp add: bm_core_def)
  have rc: "pb_ref_count (blocks_for bm d ! nat b) = ref_of bm d b" by (simp add: ref_of_def)
  have eq: "increment_ref b d bm = Some ?bm'"
    using layout_index [OF lay r] n
    by (simp add: increment_ref_def inc_i32_def rc update_block_in_range [OF lay r])
  have ref: "ref_of ?bm' e c = (if e = d \<and> c = b then ref_of bm d b + 1 else ref_of bm e c)"
    if "in_range bm e c" for e c
    using ref_of_put_blocks [OF r that] by simp
  have "bm_core ?bm'" using bm_core_lower [OF core r, of ?x] n by simp
  moreover have "bm_counted (add_ext d b ext) ?bm'"
    using wf by (auto simp: bm_counted_def bm_wf_def ref)
  moreover have "bm_ownership ?bm'"
    using wf by (simp add: bm_wf_def bm_ownership_def)
  ultimately have "bm_wf (add_ext d b ext) ?bm'" by (simp add: bm_wf_def bm_core_def)
  with eq show ?thesis by (auto simp: ref)
qed

text \<open>
  Copy-on-write consumes one outside reference to the source block: on success the new sequence
  owns a block with the contents' metadata, and the caller's outside reference is gone. With no
  free block left and a shared source, nothing changes and \<open>INVALID_BLOCK\<close> is returned.
\<close>

lemma copy_on_write_exclusive:
  assumes wf: "bm_wf ext bm" and r: "in_range bm d b" and e: "1 \<le> ext d b"
    and one: "ref_of bm d b = 1"
  shows "copy_on_write b s d bm = Some (b, emplace_seq_block s d b bm)"
    "bm_wf (sub_ext d b ext) (emplace_seq_block s d b bm)"
proof -
  have lay: "bm_layout bm" using wf by (simp add: bm_wf_def)
  show "copy_on_write b s d bm = Some (b, emplace_seq_block s d b bm)"
    using layout_index [OF lay r] one by (simp add: copy_on_write_def ref_of_def)
  have cnt: "ref_of bm d b = of_bool (owned bm d b) + int (ext d b)"
    using wf r by (simp add: bm_wf_def bm_counted_def)
  with one e have free: "\<not> owned bm d b" and e1: "ext d b = 1"
    by (auto simp: of_bool_def split: if_splits)
  have "bm_ownership (emplace_seq_block s d b bm)"
    using wf r free by (intro ownership_emplace) (simp_all add: bm_wf_def)
  moreover have "bm_counted (sub_ext d b ext) (emplace_seq_block s d b bm)"
    using wf one e1 by (auto simp: bm_wf_def bm_counted_def)
  moreover have "bm_free_exact (emplace_seq_block s d b bm)"
    using wf by (simp add: bm_wf_def bm_free_exact_def)
  ultimately show "bm_wf (sub_ext d b ext) (emplace_seq_block s d b bm)"
    using wf by (simp add: bm_wf_def)
qed

lemma copy_on_write_empty:
  assumes wf: "bm_wf ext bm" and r: "in_range bm d b" and two: "ref_of bm d b \<noteq> 1"
    and fl: "free_list_for bm d = []"
  shows "copy_on_write b s d bm = Some (INVALID_BLOCK, bm)"
proof -
  have lay: "bm_layout bm" using wf by (simp add: bm_wf_def)
  have "put_free_list d [] bm = bm"
    using fl by (cases d) (simp_all add: put_free_list_def free_list_for_def)
  then show ?thesis
    using layout_index [OF lay r] two fl by (simp add: copy_on_write_def ref_of_def pop_free_def)
qed

lemma copy_on_write_shared:
  assumes wf: "bm_wf ext bm" and r: "in_range bm d b" and e: "1 \<le> ext d b"
    and two: "2 \<le> ref_of bm d b" and ne: "free_list_for bm d \<noteq> []"
  defines "nb \<equiv> last (free_list_for bm d)"
  shows "\<exists>bm'. copy_on_write b s d bm = Some (nb, bm') \<and> bm_wf (sub_ext d b ext) bm' \<and>
    same_shape bm bm' \<and> nb \<noteq> b \<and> ref_of bm' d b = ref_of bm d b - 1 \<and> ref_of bm' d nb = 1 \<and>
    pb_num_filled (blocks_for bm' d ! nat nb) = pb_num_filled (blocks_for bm d ! nat b) \<and>
    pb_hash (blocks_for bm' d ! nat nb) = pb_hash (blocks_for bm d ! nat b) \<and>
    (\<forall>t. seq_blocks bm' t = (if t = s then seq_blocks bm s @ [(d, nb)] else seq_blocks bm t))"
proof -
  let ?src = "blocks_for bm d ! nat b"
  let ?bm0 = "put_free_list d (butlast (free_list_for bm d)) bm"
  let ?x = "(blocks_for bm d ! nat nb)\<lparr>pb_ref_count := 1, pb_num_filled := pb_num_filled ?src,
      pb_hash := pb_hash ?src, pb_is_prefix := False\<rparr>"
  let ?bm1 = "put_blocks d ((blocks_for bm d)[nat nb := ?x]) ?bm0"
  let ?y = "?src\<lparr>pb_ref_count := ref_of bm d b - 1\<rparr>"
  let ?bm2 = "put_blocks d ((blocks_for ?bm1 d)[nat b := ?y]) ?bm1"
  let ?bm' = "emplace_seq_block s d nb ?bm2"
  have core: "bm_core bm" using wf by (rule bm_core_wf)
  note tf = take_free [OF core ne, folded nb_def]
  note tk = bm_core_take [OF core ne, folded nb_def, of ?x, simplified]
  have nb: "nb \<noteq> b" using tf(2) two by auto
  then have at: "blocks_for ?bm1 d ! nat b = ?src"
    using tf(1) r by (simp add: in_range_def nat_eq_iff)
  have lay: "bm_layout bm" "bm_layout ?bm0" "bm_layout ?bm1"
    using core tk(1) by (simp_all add: bm_core_def)
  have r1: "in_range ?bm1 d b" using tk(2) r by simp
  have rb: "pb_ref_count ?src = ref_of bm d b" by (simp add: ref_of_def)
  have eq: "copy_on_write b s d bm = Some (nb, ?bm')"
    using layout_index [OF lay(1) r] layout_index [OF lay(3) r1] at two ne tf(3) rb
      update_block_in_range [OF lay(2), of d nb] update_block_in_range [OF lay(3) r1]
      tf(1)
    by (simp add: copy_on_write_def pop_free_def nb_def [symmetric])
  have ref: "ref_of ?bm2 e c = (if e = d \<and> c = b then ref_of bm d b - 1
      else if e = d \<and> c = nb then 1 else ref_of bm e c)" if "in_range bm e c" for e c
    using ref_of_put_blocks [OF r1, of e c ?y] tk(2,3) that nb by auto
  have rng: "in_range ?bm2 e c = in_range bm e c" for e c
    using tk(2) by (simp add: in_range_def)
  have "bm_core ?bm2"
    using bm_core_lower [OF tk(1) r1, of ?y] at two tk(3) [OF r] nb by auto
  then have "bm_layout ?bm'" "bm_free_exact ?bm'"
    by (auto simp: bm_core_def bm_free_exact_def)
  moreover note free = not_owned_if_free [OF wf tf(1,2)]
  have "bm_ownership ?bm2"
    using wf rng by (simp add: bm_wf_def bm_ownership_def)
  then have "bm_ownership ?bm'"
    using free tf(1) rng by (intro ownership_emplace) simp_all
  moreover have "bm_counted (sub_ext d b ext) ?bm'"
    using wf free e nb rng ref by (auto simp: bm_counted_def bm_wf_def of_nat_diff)
  ultimately have "bm_wf (sub_ext d b ext) ?bm'" by (simp add: bm_wf_def)
  moreover have "same_shape bm ?bm'"
    by (simp add: same_shape_def put_blocks_def put_free_list_def emplace_seq_block_def blocks_for_def)
  moreover have "blocks_for ?bm' d ! nat nb = ?x"
    using nb tf(1) r by (auto simp: in_range_def nat_eq_iff)
  ultimately show ?thesis
    using eq nb ref [OF r] ref [OF tf(1)] by simp
qed

section \<open>The allocator interface\<close>

text \<open>
  What the scheduler relies on. \<open>held m s\<close> is the list of blocks the allocator has given to \<open>s\<close>;
  the laws say that an allocation succeeds while blocks are available and hands out a block that
  nobody holds, that an exhausted allocator answers \<open>INVALID_BLOCK\<close> and does not change, and that
  freeing a sequence returns exactly its own blocks.
\<close>

fun alloc_n :: "('m \<Rightarrow> (block_id \<times> 'm) option) \<Rightarrow> nat \<Rightarrow> 'm \<Rightarrow> (block_id list \<times> 'm) option" where
  "alloc_n f 0 m = Some ([], m)"
| "alloc_n f (Suc n) m =
     do {
       (b, m1) \<leftarrow> f m;
       (bs, m2) \<leftarrow> alloc_n f n m1;
       Some (b # bs, m2)
     }"

locale kv_allocator =
  fixes inv :: "'m \<Rightarrow> bool"
    and alloc :: "seq_id \<Rightarrow> 'm \<Rightarrow> (block_id \<times> 'm) option"
    and free :: "seq_id \<Rightarrow> 'm \<Rightarrow> 'm option"
    and avail :: "'m \<Rightarrow> nat"
    and held :: "'m \<Rightarrow> seq_id \<Rightarrow> block_id list"
    and shape :: "'m \<Rightarrow> 'm \<Rightarrow> bool"
  assumes alloc_some: "inv m \<Longrightarrow> 0 < avail m \<Longrightarrow>
      \<exists>b m'. alloc s m = Some (b, m') \<and> inv m' \<and> shape m m' \<and> b \<noteq> INVALID_BLOCK \<and>
        avail m' = avail m - 1 \<and> held m' = (held m)(s := held m s @ [b])"
    and alloc_none: "inv m \<Longrightarrow> avail m = 0 \<Longrightarrow> alloc s m = Some (INVALID_BLOCK, m)"
    and free_some: "inv m \<Longrightarrow>
      \<exists>m'. free s m = Some m' \<and> inv m' \<and> shape m m' \<and> avail m \<le> avail m' \<and>
        held m' = (held m)(s := [])"
    and held_distinct: "inv m \<Longrightarrow> distinct (held m s)"
    and held_disjoint: "inv m \<Longrightarrow> s \<noteq> t \<Longrightarrow> set (held m s) \<inter> set (held m t) = {}"
    and shape_refl: "shape m m"
    and shape_trans: "shape m m' \<Longrightarrow> shape m' m'' \<Longrightarrow> shape m m''"
begin

lemma alloc_n_some:
  "inv m \<Longrightarrow> n \<le> avail m \<Longrightarrow>
    \<exists>bs m'. alloc_n (alloc s) n m = Some (bs, m') \<and> inv m' \<and> shape m m' \<and> length bs = n \<and>
      INVALID_BLOCK \<notin> set bs \<and> avail m' = avail m - n \<and> held m' = (held m)(s := held m s @ bs)"
proof (induction n arbitrary: m)
  case 0
  then show ?case by (auto simp: shape_refl)
next
  case (Suc n)
  then obtain b m1 where m1: "alloc s m = Some (b, m1)" "inv m1" "shape m m1" "b \<noteq> INVALID_BLOCK"
      "avail m1 = avail m - 1" "held m1 = (held m)(s := held m s @ [b])"
    using alloc_some [of m s] by auto
  then obtain bs m2 where m2: "alloc_n (alloc s) n m1 = Some (bs, m2)" "inv m2" "shape m1 m2"
      "length bs = n" "INVALID_BLOCK \<notin> set bs" "avail m2 = avail m1 - n"
      "held m2 = (held m1)(s := held m1 s @ bs)"
  proof -
    have "n \<le> avail m1" using m1(5) Suc.prems(2) by simp
    from Suc.IH [OF m1(2) this] show ?thesis using that by blast
  qed
  have "held m2 = (held m)(s := held m s @ b # bs)" using m1 m2 by auto
  with m1 m2 show ?case
    using Suc.prems shape_trans [of m m1 m2] by (auto simp: fun_upd_def)
qed

text \<open>The blocks a loop hands out are new: pairwise different and held by no other sequence.\<close>

lemma alloc_n_fresh:
  assumes "inv m" and "n \<le> avail m" and "alloc_n (alloc s) n m = Some (bs, m')"
  shows "distinct (held m s @ bs)" "t \<noteq> s \<Longrightarrow> set bs \<inter> set (held m t) = {}"
proof -
  have m': "inv m'" "held m' = (held m)(s := held m s @ bs)"
    using alloc_n_some [OF assms(1,2), of s] assms(3) by auto
  show "distinct (held m s @ bs)" using held_distinct [OF m'(1), of s] m'(2) by simp
  show "t \<noteq> s \<Longrightarrow> set bs \<inter> set (held m t) = {}"
    using held_disjoint [OF m'(1), of s t] m'(2) by auto
qed

end

text \<open>
  The GPU side of the block manager provides it, whatever references are held from outside, as
  long as no sequence holds CPU blocks: the regime in which nothing is swapped out.
\<close>

definition gpu_inv :: "(device_type \<Rightarrow> block_id \<Rightarrow> nat) \<Rightarrow> block_manager \<Rightarrow> bool" where
  "gpu_inv ext bm \<longleftrightarrow> bm_wf ext bm \<and> (\<forall>s d b. (d, b) \<in> set (seq_blocks bm s) \<longrightarrow> d = CUDA)"

definition gpu_held :: "block_manager \<Rightarrow> seq_id \<Rightarrow> block_id list" where
  "gpu_held bm s = map snd (seq_blocks bm s)"

lemma gpu_inv_seq_blocks:
  "gpu_inv ext bm \<Longrightarrow> seq_blocks bm s = map (Pair CUDA) (gpu_held bm s)"
  unfolding gpu_held_def map_map by (rule map_idI [symmetric]) (auto simp: gpu_inv_def)

lemma core_free_mono:
  assumes "bm_core bm" and "bm_core bm'" and "same_shape bm bm'"
    and "\<And>c. in_range bm d c \<Longrightarrow> ref_of bm' d c \<le> ref_of bm d c"
  shows "length (free_list_for bm d) \<le> length (free_list_for bm' d)"
proof -
  have d: "distinct (free_list_for bm d)" "distinct (free_list_for bm' d)"
    and ex: "\<And>c. c \<in> set (free_list_for bm d) \<longleftrightarrow> in_range bm d c \<and> ref_of bm d c = 0"
      "\<And>c. c \<in> set (free_list_for bm' d) \<longleftrightarrow> in_range bm d c \<and> ref_of bm' d c = 0"
    and pos: "\<And>c. in_range bm d c \<Longrightarrow> 0 \<le> ref_of bm' d c"
    using assms(1,2) same_shape_in_range [OF assms(3)]
    by (auto simp: bm_core_def bm_free_exact_def)
  have "set (free_list_for bm d) \<subseteq> set (free_list_for bm' d)"
    using assms(4) pos by (force simp: ex)
  then have "card (set (free_list_for bm d)) \<le> card (set (free_list_for bm' d))"
    by (simp add: card_mono)
  then show ?thesis using d by (simp add: distinct_card)
qed

interpretation ka: kv_allocator "gpu_inv ext" "\<lambda>s. allocate_block s CUDA" free_blocks
  num_free_gpu_blocks gpu_held same_shape for ext
proof
  fix m and s :: seq_id
  assume inv: "gpu_inv ext m"
  then have wf: "bm_wf ext m" by (simp add: gpu_inv_def)
  have fl: "num_free_gpu_blocks m = length (free_list_for m CUDA)" for m
    by (simp add: num_free_gpu_blocks_def free_list_for_def)
  show "distinct (gpu_held m s)"
    using wf gpu_inv_seq_blocks [OF inv, of s]
    by (auto simp: bm_wf_def bm_ownership_def distinct_map dest: spec [of _ s])
  show "allocate_block s CUDA m = Some (INVALID_BLOCK, m)" if "num_free_gpu_blocks m = 0"
    using that by (intro allocate_block_empty) (simp add: fl)
  show "\<exists>b m'. allocate_block s CUDA m = Some (b, m') \<and> gpu_inv ext m' \<and> same_shape m m' \<and>
      b \<noteq> INVALID_BLOCK \<and> num_free_gpu_blocks m' = num_free_gpu_blocks m - 1 \<and>
      gpu_held m' = (gpu_held m)(s := gpu_held m s @ [b])" if "0 < num_free_gpu_blocks m"
  proof -
    have ne: "free_list_for m CUDA \<noteq> []" using that by (simp add: fl)
    let ?b = "last (free_list_for m CUDA)"
    obtain m' where m': "allocate_block s CUDA m = Some (?b, m')" "bm_wf ext m'" "same_shape m m'"
        "free_list_for m' CUDA = butlast (free_list_for m CUDA)"
      and sb: "\<And>t. seq_blocks m' t = (if t = s then seq_blocks m s @ [(CUDA, ?b)] else seq_blocks m t)"
      using allocate_block_nonempty [OF wf ne, of s] by auto
    have "gpu_inv ext m'"
      using inv m'(2) by (auto simp: gpu_inv_def sb split: if_splits)
    moreover have "gpu_held m' = (gpu_held m)(s := gpu_held m s @ [?b])"
      by (auto simp: gpu_held_def sb)
    ultimately show ?thesis
      using m' take_free(3) [OF bm_core_wf [OF wf] ne] by (simp add: fl)
  qed
  show "\<exists>m'. free_blocks s m = Some m' \<and> gpu_inv ext m' \<and> same_shape m m' \<and>
      num_free_gpu_blocks m \<le> num_free_gpu_blocks m' \<and> gpu_held m' = (gpu_held m)(s := [])"
  proof -
    obtain m' where m': "free_blocks s m = Some m'" "bm_wf ext m'" "same_shape m m'"
        "\<forall>e c. in_range m e c \<longrightarrow>
          ref_of m' e c = ref_of m e c - of_bool ((e, c) \<in> set (seq_blocks m s))"
      and sb: "\<And>t. seq_blocks m' t = (if t = s then [] else seq_blocks m t)"
      using free_blocks_wf [OF wf, of s] by metis
    have "length (free_list_for m CUDA) \<le> length (free_list_for m' CUDA)"
      using core_free_mono [OF bm_core_wf [OF wf] bm_core_wf [OF m'(2)] m'(3)] m'(4) by simp
    moreover have "gpu_inv ext m'"
      using inv m'(2) by (auto simp: gpu_inv_def sb split: if_splits)
    moreover have "gpu_held m' = (gpu_held m)(s := [])"
      by (auto simp: gpu_held_def sb)
    ultimately show ?thesis using m' by (simp add: fl)
  qed
next
  fix m and s t :: seq_id
  assume inv: "gpu_inv ext m" and "s \<noteq> t"
  then have "set (seq_blocks m s) \<inter> set (seq_blocks m t) = {}"
    by (simp add: gpu_inv_def bm_wf_def bm_ownership_def)
  then show "set (gpu_held m s) \<inter> set (gpu_held m t) = {}"
    using gpu_inv_seq_blocks [OF inv, of s] gpu_inv_seq_blocks [OF inv, of t] by auto
qed (auto intro: same_shape_trans)

end
