(* ===== verification/Block_Protocol.thy ===== *)
theory Block_Protocol
  imports Block_Manager
begin

text \<open>
  The protocol of the block manager and what it guarantees. \<open>bm_reach\<close> is the set of states a
  manager can reach when its clients drop only references they hold; the theorems show that the
  accounting invariant holds in all of them, that the fragmentation analysis is exact, and what
  happens to the free list when the protocol is broken by calls the interface permits.
\<close>

section \<open>Reachable states\<close>

inductive bm_reach ::
    "cache_config \<Rightarrow> model_config \<Rightarrow> (device_type \<Rightarrow> block_id \<Rightarrow> nat) \<Rightarrow> block_manager \<Rightarrow> bool"
  for c m where
  construct: "bm_reach c m no_ext (block_manager_new c m)"
| allocate: "bm_reach c m ext bm \<Longrightarrow> allocate_block s d bm = Some (b, bm') \<Longrightarrow> bm_reach c m ext bm'"
| free_seq: "bm_reach c m ext bm \<Longrightarrow> free_blocks s bm = Some bm' \<Longrightarrow> bm_reach c m ext bm'"
| share: "bm_reach c m ext bm \<Longrightarrow> in_range bm d b \<Longrightarrow> 1 \<le> ref_of bm d b \<Longrightarrow>
    increment_ref b d bm = Some bm' \<Longrightarrow> bm_reach c m (add_ext d b ext) bm'"
| unshare: "bm_reach c m ext bm \<Longrightarrow> in_range bm d b \<Longrightarrow> 1 \<le> ext d b \<Longrightarrow>
    decrement_ref b d bm = Some bm' \<Longrightarrow> bm_reach c m (sub_ext d b ext) bm'"
| release: "bm_reach c m ext bm \<Longrightarrow> in_range bm d b \<Longrightarrow> 1 \<le> ext d b \<Longrightarrow>
    free_block b d bm = Some bm' \<Longrightarrow> bm_reach c m (sub_ext d b ext) bm'"
| cow: "bm_reach c m ext bm \<Longrightarrow> in_range bm d b \<Longrightarrow> 1 \<le> ext d b \<Longrightarrow>
    copy_on_write b s d bm = Some (nb, bm') \<Longrightarrow> nb \<noteq> INVALID_BLOCK \<Longrightarrow>
    bm_reach c m (sub_ext d b ext) bm'"
| cow_full: "bm_reach c m ext bm \<Longrightarrow> in_range bm d b \<Longrightarrow> 1 \<le> ext d b \<Longrightarrow>
    copy_on_write b s d bm = Some (INVALID_BLOCK, bm') \<Longrightarrow> bm_reach c m ext bm'"

text \<open>The three outcomes of copy-on-write on a block the caller holds a reference to.\<close>

lemma copy_on_write_cases:
  assumes wf: "bm_wf ext bm" and r: "in_range bm d b" and e: "1 \<le> ext d b"
    and cow: "copy_on_write b s d bm = Some (nb, bm')"
  obtains (full) "nb = INVALID_BLOCK" "bm' = bm"
  | (copied) "nb \<noteq> INVALID_BLOCK" "bm_wf (sub_ext d b ext) bm'"
proof -
  have "1 \<le> ref_of bm d b"
    using wf r e by (auto simp: bm_wf_def bm_counted_def)
  then consider "ref_of bm d b = 1" | "2 \<le> ref_of bm d b" "free_list_for bm d = []"
    | "2 \<le> ref_of bm d b" "free_list_for bm d \<noteq> []" by fastforce
  then show thesis
  proof cases
    case 1
    moreover have "b \<noteq> INVALID_BLOCK" using r by (auto simp: in_range_def INVALID_BLOCK_def)
    ultimately show thesis
      using copy_on_write_exclusive [OF wf r e, of s] cow by (intro copied) auto
  next
    case 2
    then show thesis using copy_on_write_empty [OF wf r, of s] cow by (intro full) auto
  next
    case 3
    then show thesis
      using copy_on_write_shared [OF wf r e 3, of s] take_free(3) [OF bm_core_wf [OF wf] 3(2)] cow
      by (intro copied) auto
  qed
qed

lemma increment_ref_defined:
  "bm_layout bm \<Longrightarrow> in_range bm d b \<Longrightarrow> increment_ref b d bm = Some bm' \<Longrightarrow> ref_of bm d b \<noteq> 2 ^ 31 - 1"
  using layout_index [of bm d b] by (auto simp: increment_ref_def ref_of_def inc_i32_def)

lemma wf_allocate:
  assumes "bm_wf ext bm" and "allocate_block s d bm = Some (b, bm')"
  shows "bm_wf ext bm'"
proof (cases "free_list_for bm d = []")
  case True
  then show ?thesis using assms allocate_block_empty [of bm d s] by auto
next
  case False
  then show ?thesis using assms allocate_block_nonempty [OF assms(1) False, of s] by auto
qed

lemma reach_wf:
  assumes "bm_reach c m ext bm"
    and "num_gpu_blocks c \<le> 2 ^ 31" and "num_cpu_blocks c \<le> 2 ^ 31"
  shows "bm_wf ext bm"
  using assms
  supply ext_simps [simp del]
proof (induction rule: bm_reach.induct)
  case construct
  then show ?case by (rule block_manager_new_wf)
next
  case (allocate ext bm s d b bm')
  then show ?case by (auto intro: wf_allocate)
next
  case (free_seq ext bm s bm')
  then show ?case using free_blocks_wf [of ext bm s] by auto
next
  case (share ext bm d b bm')
  then have wf: "bm_wf ext bm" by simp
  then have "ref_of bm d b \<noteq> 2 ^ 31 - 1"
    using share increment_ref_defined [of bm d b bm'] by (simp add: bm_wf_def)
  then show ?case using share increment_ref_wf [OF wf, of d b] by auto
next
  case (unshare ext bm d b bm')
  then show ?case using dr.drop_ext [of ext bm d b] by auto
next
  case (release ext bm d b bm')
  then show ?case using fb.drop_ext [of ext bm d b] by auto
next
  case (cow ext bm d b s nb bm')
  then show ?case by (auto elim!: copy_on_write_cases [of ext bm d b s nb bm'])
next
  case (cow_full ext bm d b s bm')
  then have wf: "bm_wf ext bm" by simp
  from copy_on_write_cases [OF wf cow_full.hyps(2-4)] show ?case using wf by cases auto
qed

section \<open>Conservation\<close>

lemma range_card: "card {b. in_range bm d b} = length (blocks_for bm d)"
proof -
  have "{b. in_range bm d b} = {0..<int (length (blocks_for bm d))}"
    by (auto simp: in_range_def)
  then show ?thesis by simp
qed

lemma range_finite [simp]: "finite {b. in_range bm d b}"
proof -
  have "{b. in_range bm d b} = {0..<int (length (blocks_for bm d))}"
    by (auto simp: in_range_def)
  then show ?thesis by simp
qed

lemma core_conservation:
  assumes "bm_core bm"
  shows "length (free_list_for bm d) + card {b. in_range bm d b \<and> 0 < ref_of bm d b}
    = length (blocks_for bm d)"
proof -
  let ?F = "set (free_list_for bm d)" and ?U = "{b. in_range bm d b \<and> 0 < ref_of bm d b}"
  have len: "card ?F = length (free_list_for bm d)"
    using assms by (simp add: bm_core_def bm_free_exact_def distinct_card)
  have F: "?F = {b. in_range bm d b \<and> ref_of bm d b = 0}"
    and pos: "\<And>b. in_range bm d b \<Longrightarrow> 0 \<le> ref_of bm d b"
    using assms by (auto simp: bm_core_def bm_free_exact_def)
  have "card (?F \<union> ?U) = length (free_list_for bm d) + card ?U"
    unfolding len [symmetric]
    by (rule card_Un_disjoint) (auto simp: F intro: finite_subset [OF _ range_finite])
  moreover have "?F \<union> ?U = {b. in_range bm d b}"
    using pos by (force simp: F)
  ultimately show ?thesis by (simp add: range_card)
qed

section \<open>Freeing outside the protocol\<close>

text \<open>
  \<open>free_block\<close> on any block of the vector, well counted or not: the count goes down but not below
  zero, and a count that was already at most one pushes the block, whether it was free or not.
\<close>

lemma free_block_any:
  assumes lay: "bm_layout bm" and r: "in_range bm d b" and n: "0 \<le> ref_of bm d b"
  shows "\<exists>bm'. free_block b d bm = Some bm' \<and> bm_layout bm' \<and> same_shape bm bm' \<and>
    seq_block_map bm' = seq_block_map bm \<and>
    (\<forall>e. free_list_for bm' e = free_list_for bm e @
       (if e = d \<and> ref_of bm d b \<le> 1 then [b] else [])) \<and>
    (\<forall>e c. in_range bm e c \<longrightarrow>
       ref_of bm' e c = (if e = d \<and> c = b then max 0 (ref_of bm d b - 1) else ref_of bm e c))"
proof -
  let ?blk = "blocks_for bm d ! nat b"
  have rc: "pb_ref_count ?blk = ref_of bm d b" by (simp add: ref_of_def)
  note idx = layout_index [OF lay r]
  show ?thesis
  proof (cases "ref_of bm d b \<le> 1")
    case True
    then show ?thesis
      using idx rc n
      by (auto simp: free_block_def update_block_in_range [OF lay r] push_free_def
          ref_of_put_blocks [OF r] intro!: bm_layout_put_blocks [OF lay r])
  next
    case False
    then show ?thesis
      using idx rc n
      by (auto simp: free_block_def update_block_in_range [OF lay r]
          ref_of_put_blocks [OF r] intro!: bm_layout_put_blocks [OF lay r])
  qed
qed

lemma free_list_fold_any:
  assumes "bm_layout bm" and "\<And>d b. in_range bm d b \<Longrightarrow> 0 \<le> ref_of bm d b"
    and "\<And>d b. (d, b) \<in> set l \<Longrightarrow> in_range bm d b"
  shows "\<exists>bm'. foldM (\<lambda>(d, b). free_block b d) l bm = Some bm' \<and>
    (\<forall>d b. count_list (free_list_for bm d) b \<le> count_list (free_list_for bm' d) b) \<and>
    (\<forall>d b. (d, b) \<in> set l \<longrightarrow> ref_of bm d b \<le> 1 \<longrightarrow>
       count_list (free_list_for bm d) b < count_list (free_list_for bm' d) b)"
  using assms
proof (induction l arbitrary: bm)
  case (Cons x l)
  obtain d b where x: "x = (d, b)" by (cases x)
  have r: "in_range bm d b" using Cons.prems x by simp
  obtain bm1 where bm1: "free_block b d bm = Some bm1" "bm_layout bm1" "same_shape bm bm1"
    and fl: "\<And>e. free_list_for bm1 e = free_list_for bm e @
       (if e = d \<and> ref_of bm d b \<le> 1 then [b] else [])"
    and ref: "\<And>e c. in_range bm e c \<Longrightarrow>
       ref_of bm1 e c = (if e = d \<and> c = b then max 0 (ref_of bm d b - 1) else ref_of bm e c)"
    using free_block_any [OF Cons.prems(1) r Cons.prems(2) [OF r]] by auto
  have rng: "in_range bm1 e c = in_range bm e c" for e c
    using bm1(3) by (rule same_shape_in_range)
  have le: "ref_of bm1 e c \<le> ref_of bm e c" "0 \<le> ref_of bm1 e c" if "in_range bm e c" for e c
    using Cons.prems(2) that by (auto simp: ref)
  obtain bm' where bm': "foldM (\<lambda>(d, b). free_block b d) l bm1 = Some bm'"
    and mono: "\<And>e c. count_list (free_list_for bm1 e) c \<le> count_list (free_list_for bm' e) c"
    and strict: "\<And>e c. (e, c) \<in> set l \<Longrightarrow> ref_of bm1 e c \<le> 1 \<Longrightarrow>
       count_list (free_list_for bm1 e) c < count_list (free_list_for bm' e) c"
    using Cons.IH [of bm1] bm1(2) le(2) Cons.prems(3) by (auto simp: rng)
  have step: "count_list (free_list_for bm e) c \<le> count_list (free_list_for bm1 e) c" for e c
    by (simp add: fl)
  have "count_list (free_list_for bm e) c < count_list (free_list_for bm' e) c"
    if "(e, c) \<in> set (x # l)" "ref_of bm e c \<le> 1" for e c
  proof (cases "(e, c) = (d, b)")
    case True
    then have "count_list (free_list_for bm e) c < count_list (free_list_for bm1 e) c"
      using that(2) by (simp add: fl)
    also have "\<dots> \<le> count_list (free_list_for bm' e) c" by (rule mono)
    finally show ?thesis .
  next
    case False
    then have "(e, c) \<in> set l" using that(1) x by auto
    then have "ref_of bm1 e c \<le> 1" using le(1) [of e c] Cons.prems(3) [of e c] that(2) by auto
    then show ?thesis using strict [OF \<open>(e, c) \<in> set l\<close>] step [of e c] by linarith
  qed
  then show ?case
    using bm1(1) bm' order_trans [OF step mono] by (auto simp: x)
qed simp

lemma count_list_not_distinct: "2 \<le> count_list xs x \<Longrightarrow> \<not> distinct xs"
  by (induction xs) (auto split: if_splits simp: count_list_0_iff)

section \<open>Fragmentation\<close>

text \<open>A run of \<open>k\<close> consecutive blocks from \<open>i\<close> on that are all on the free list.\<close>

definition free_run :: "block_id list \<Rightarrow> nat \<Rightarrow> nat \<Rightarrow> bool" where
  "free_run fl i k \<longleftrightarrow> (\<forall>j < k. to_i32 (int (i + j)) \<in> set fl)"

lemma free_run_Suc: "free_run fl i (Suc k) \<longleftrightarrow> free_run fl i k \<and> to_i32 (int (i + k)) \<in> set fl"
  by (auto simp: free_run_def less_Suc_eq)

lemma free_run_mono: "free_run fl i k \<Longrightarrow> j \<le> k \<Longrightarrow> free_run fl i j"
  by (simp add: free_run_def)

text \<open>
  The scan invariant at index \<open>i\<close>: \<open>cur\<close> is the longest run that ends just before \<open>i\<close>, and \<open>best\<close> is
  a run within the scanned part that no other run there exceeds.
\<close>

definition scan_inv :: "block_id list \<Rightarrow> nat \<Rightarrow> nat \<Rightarrow> nat \<Rightarrow> bool" where
  "scan_inv fl i cur best \<longleftrightarrow>
     cur \<le> i \<and> free_run fl (i - cur) cur \<and>
     (\<forall>k \<le> i. free_run fl (i - k) k \<longrightarrow> k \<le> cur) \<and>
     (\<exists>p. p + best \<le> i \<and> free_run fl p best) \<and>
     (\<forall>p k. p + k \<le> i \<longrightarrow> free_run fl p k \<longrightarrow> k \<le> best)"

lemma scan_inv_step_free:
  assumes inv: "scan_inv fl i cur best" and fr: "to_i32 (int i) \<in> set fl"
  shows "scan_inv fl (Suc i) (cur + 1) (max best (cur + 1))"
proof -
  have cur: "cur \<le> i" "free_run fl (i - cur) cur"
    "\<And>k. k \<le> i \<Longrightarrow> free_run fl (i - k) k \<Longrightarrow> k \<le> cur"
    "\<And>p k. p + k \<le> i \<Longrightarrow> free_run fl p k \<Longrightarrow> k \<le> best"
    using inv by (auto simp: scan_inv_def)
  obtain p where p: "p + best \<le> i" "free_run fl p best"
    using inv by (auto simp: scan_inv_def)
  have new: "free_run fl (i - cur) (Suc cur)"
    using cur fr by (simp add: free_run_Suc)
  have ends: "k \<le> cur + 1" if "k \<le> Suc i" "free_run fl (Suc i - k) k" for k
  proof (cases k)
    case (Suc k')
    then have "free_run fl (i - k') k'" using that by (simp add: free_run_Suc)
    then show ?thesis using cur(3) [of k'] that Suc by simp
  qed simp
  have "k \<le> max best (cur + 1)" if "q + k \<le> Suc i" "free_run fl q k" for q k
  proof (cases "q + k = Suc i")
    case True
    then have "q = Suc i - k" "k \<le> Suc i" by auto
    then show ?thesis using ends [of k] that(2) by simp
  next
    case False
    then show ?thesis using cur(4) [of q k] that by simp
  qed
  moreover have "\<exists>q. q + max best (cur + 1) \<le> Suc i \<and> free_run fl q (max best (cur + 1))"
  proof (cases "best \<le> cur + 1")
    case True
    then show ?thesis using new cur(1) by (intro exI [of _ "i - cur"]) (simp add: max_def)
  next
    case False
    then show ?thesis using p by (intro exI [of _ p]) (simp add: max_def)
  qed
  ultimately show ?thesis
    using new cur(1) ends by (simp add: scan_inv_def)
qed

lemma scan_inv_step_used:
  assumes inv: "scan_inv fl i cur best" and used: "to_i32 (int i) \<notin> set fl"
  shows "scan_inv fl (Suc i) 0 best"
proof -
  have old: "\<And>p k. p + k \<le> i \<Longrightarrow> free_run fl p k \<Longrightarrow> k \<le> best"
    and ex: "\<exists>p. p + best \<le> i \<and> free_run fl p best"
    using inv by (auto simp: scan_inv_def)
  have none: "k = 0" if "q + k = Suc i" "free_run fl q k" for q k
  proof (rule ccontr)
    assume "k \<noteq> 0"
    then have "k - 1 < k" by simp
    then have "to_i32 (int (q + (k - 1))) \<in> set fl" using that(2) unfolding free_run_def by blast
    moreover have "q + (k - 1) = i" using that(1) \<open>k \<noteq> 0\<close> by simp
    ultimately show False using used by metis
  qed
  have "k \<le> best" if "q + k \<le> Suc i" "free_run fl q k" for q k
    using none [of q k] old [of q k] that by (cases "q + k = Suc i") auto
  moreover have "k = 0" if "k \<le> Suc i" "free_run fl (Suc i - k) k" for k
    using none [of "Suc i - k" k] that by simp
  ultimately show ?thesis
    using ex by (auto simp: scan_inv_def free_run_def intro: le_SucI)
qed

lemma free_run_scan_inv:
  assumes "scan_inv fl i cur best" and "i \<le> n"
  shows "\<exists>cur'. scan_inv fl n cur' (free_run_scan fl [i..<n] cur best)"
  using assms
proof (induction "n - i" arbitrary: i cur best)
  case 0
  then have "i = n" by simp
  with 0 show ?case by auto
next
  case (Suc k)
  then have "i < n" by simp
  then have "[i..<n] = i # [Suc i..<n]" by (rule upt_conv_Cons)
  then show ?case
    using Suc scan_inv_step_free [OF Suc.prems(1)] scan_inv_step_used [OF Suc.prems(1)] \<open>i < n\<close>
    by auto
qed

lemma scan_inv_start: "scan_inv fl 0 0 0"
  by (simp add: scan_inv_def free_run_def)

text \<open>No operation of the manager ever raises \<open>num_filled\<close> above zero.\<close>

definition unfilled :: "block_manager \<Rightarrow> bool" where
  "unfilled bm \<longleftrightarrow>
     (\<forall>d. \<forall>i < length (blocks_for bm d). pb_num_filled (blocks_for bm d ! i) = 0)"

lemma unfilled_put [simp]:
  "unfilled (put_free_list d fl bm) = unfilled bm"
  "unfilled (emplace_seq_block s d b bm) = unfilled bm"
  "unfilled (bm\<lparr>seq_block_map := m\<rparr>) = unfilled bm"
  by (simp_all add: unfilled_def)

lemma unfilled_update:
  assumes "update_block d b f bm = Some bm'"
  shows "unfilled bm \<and> (\<forall>x. pb_num_filled x = 0 \<longrightarrow> pb_num_filled (f x) = 0) \<longrightarrow> unfilled bm'"
  using assms by (auto simp: unfilled_def update_block_def bind_eq_Some_conv vec_at_eq_Some
      nth_list_update split: if_splits)

lemma unfilled_drop:
  "unfilled bm \<Longrightarrow> free_block b d bm = Some bm' \<Longrightarrow> unfilled bm'"
  "unfilled bm \<Longrightarrow> decrement_ref b d bm = Some bm' \<Longrightarrow> unfilled bm'"
  by (auto simp: free_block_def decrement_ref_def bind_eq_Some_conv split: if_splits
      dest!: unfilled_update)

lemma unfilled_fold:
  "foldM (\<lambda>(d, b). free_block b d) l bm = Some bm' \<Longrightarrow> unfilled bm \<Longrightarrow> unfilled bm'"
  by (erule foldM_invariant [where P = unfilled]) (auto intro: unfilled_drop)

lemma unfilled_cow:
  assumes "unfilled bm" and "copy_on_write b s d bm = Some (nb, bm')"
  shows "unfilled bm'"
proof -
  have "vec_at (blocks_for bm d) i = Some x \<Longrightarrow> pb_num_filled x = 0" for i x
    using assms(1) by (auto simp: unfilled_def vec_at_eq_Some)
  with assms show ?thesis
    by (auto simp: copy_on_write_def Let_def bind_eq_Some_conv split: prod.splits if_splits
        dest!: unfilled_update)
qed

lemma unfilled_reach: "bm_reach c m ext bm \<Longrightarrow> unfilled bm"
proof (induction rule: bm_reach.induct)
  case construct
  show ?case
    by (auto simp: unfilled_def blocks_for_def block_manager_new_def init_block_list_def
        fresh_phys_block_def)
next
  case (allocate ext bm s d b bm')
  then show ?case
    by (auto simp: allocate_block_def Let_def bind_eq_Some_conv split: prod.splits if_splits
        dest!: unfilled_update)
next
  case (free_seq ext bm s bm')
  then show ?case
    by (auto simp: free_blocks_def bind_eq_Some_conv split: option.splits dest: unfilled_fold)
next
  case (share ext bm d b bm')
  then show ?case by (auto simp: increment_ref_def bind_eq_Some_conv dest!: unfilled_update)
qed (auto intro: unfilled_drop unfilled_cow)

section \<open>Properties of the block manager\<close>

text \<open>A small configuration on which the properties are exercised: three GPU blocks, two CPU blocks.\<close>

definition tiny_cache :: cache_config where
  "tiny_cache = default_cache_config\<lparr>num_gpu_blocks := 3, num_cpu_blocks := 2, block_size := 2\<rparr>"

definition tiny_bm :: block_manager where
  "tiny_bm = block_manager_new tiny_cache default_model_config"

lemma tiny_bounds: "num_gpu_blocks tiny_cache \<le> 2 ^ 31" "num_cpu_blocks tiny_cache \<le> 2 ^ 31"
  by (simp_all add: tiny_cache_def)

lemma tiny_reach: "bm_reach tiny_cache default_model_config no_ext tiny_bm"
  unfolding tiny_bm_def by (rule bm_reach.construct)

lemmas tiny_defs = tiny_bm_def tiny_cache_def block_manager_new_def default_cache_config_def
  init_block_list_def init_free_list_def fresh_phys_block_def blocks_for_def free_list_for_def
  put_blocks_def put_free_list_def pop_free_def push_free_def seq_blocks_def
  emplace_seq_block_def update_block_def INVALID_BLOCK_def vec_at_def upt_rec

lemma tiny_allocate:
  "map_option fst (allocate_block 7 CUDA tiny_bm) = Some 0"
  by (simp add: allocate_block_def tiny_defs)

text \<open>
  C8. In every state the block manager reaches while its clients drop only references they hold,
  each free list is duplicate-free and contains exactly the blocks whose reference count is zero,
  every count equals the number of holders (the owning sequence plus the outside references), and
  no block belongs to two sequences.
\<close>

theorem reachable_accounting:
  assumes "bm_reach c m ext bm"
    and "num_gpu_blocks c \<le> 2 ^ 31" and "num_cpu_blocks c \<le> 2 ^ 31"
  shows "distinct (free_list_for bm d) \<and>
    (\<forall>b. b \<in> set (free_list_for bm d) \<longleftrightarrow> in_range bm d b \<and> ref_of bm d b = 0) \<and>
    (\<forall>b. in_range bm d b \<longrightarrow> ref_of bm d b = of_bool (owned bm d b) + int (ext d b)) \<and>
    (\<forall>s t. s \<noteq> t \<longrightarrow> set (seq_blocks bm s) \<inter> set (seq_blocks bm t) = {})"
  using reach_wf [OF assms]
  by (auto simp: bm_wf_def bm_free_exact_def bm_counted_def bm_ownership_def)

theorem reachable_accounting_witness:
  "\<exists>bm. allocate_block 7 CUDA tiny_bm = Some (0, bm) \<and> distinct (free_list_for bm CUDA) \<and>
     (\<forall>b. b \<in> set (free_list_for bm CUDA) \<longleftrightarrow> in_range bm CUDA b \<and> ref_of bm CUDA b = 0)"
proof -
  obtain bm where bm: "allocate_block 7 CUDA tiny_bm = Some (0, bm)"
    using tiny_allocate by auto
  have "bm_reach tiny_cache default_model_config no_ext bm"
    using bm_reach.allocate [OF tiny_reach bm] .
  from reachable_accounting [OF this tiny_bounds, of CUDA] bm show ?thesis by blast
qed

text \<open>
  C11. In a reachable state \<open>allocate_block\<close> is defined; it answers \<open>INVALID_BLOCK\<close> exactly when the
  device has no free block, and otherwise it hands out a block that no sequence and no outside
  holder has, appends it to the caller's list and takes exactly one block off the free list.
\<close>

theorem allocate_block_fresh:
  assumes reach: "bm_reach c m ext bm"
    and bounds: "num_gpu_blocks c \<le> 2 ^ 31" "num_cpu_blocks c \<le> 2 ^ 31"
  shows "\<exists>b bm'. allocate_block s d bm = Some (b, bm') \<and>
    (b = INVALID_BLOCK \<longleftrightarrow> free_list_for bm d = []) \<and>
    (b = INVALID_BLOCK \<longrightarrow> bm' = bm) \<and>
    (b \<noteq> INVALID_BLOCK \<longrightarrow>
       in_range bm d b \<and> \<not> owned bm d b \<and> ext d b = 0 \<and>
       seq_blocks bm' s = seq_blocks bm s @ [(d, b)] \<and>
       (\<forall>t. t \<noteq> s \<longrightarrow> seq_blocks bm' t = seq_blocks bm t) \<and>
       length (free_list_for bm' d) + 1 = length (free_list_for bm d))"
proof (cases "free_list_for bm d = []")
  case True
  then show ?thesis using allocate_block_empty [of bm d s] by simp
next
  case False
  have wf: "bm_wf ext bm" using reach_wf [OF reach bounds] .
  note tf = take_free [OF bm_core_wf [OF wf] False]
  note free = not_owned_if_free [OF wf tf(1,2)]
  show ?thesis
    using allocate_block_nonempty [OF wf False, of s] tf free False by auto
qed

theorem allocate_block_fresh_witness:
  "\<exists>b bm'. allocate_block 7 CUDA tiny_bm = Some (b, bm') \<and> b \<noteq> INVALID_BLOCK \<and>
     seq_blocks bm' 7 = [(CUDA, b)]"
proof -
  have fl: "free_list_for tiny_bm CUDA \<noteq> []" and sb: "seq_blocks tiny_bm 7 = []"
    by (simp_all add: tiny_defs)
  from allocate_block_fresh [OF tiny_reach tiny_bounds, of 7 CUDA]
  obtain b bm' where "allocate_block 7 CUDA tiny_bm = Some (b, bm')" "b \<noteq> INVALID_BLOCK"
      "seq_blocks bm' 7 = seq_blocks tiny_bm 7 @ [(CUDA, b)]"
    using fl by blast
  with sb show ?thesis by auto
qed

text \<open>
  No block is lost or duplicated: on each device the free blocks and the blocks with a positive
  count add up to the configured number of blocks, so \<open>compute_fragmentation\<close> reports consistent
  totals.
\<close>

lemma fragmentation_conserves_blocks:
  assumes "bm_reach c m ext bm"
    and "num_gpu_blocks c \<le> 2 ^ 31" and "num_cpu_blocks c \<le> 2 ^ 31"
  shows "fs_free_blocks (compute_fragmentation bm d) + fs_used_blocks (compute_fragmentation bm d)
      = fs_total_blocks (compute_fragmentation bm d) \<and>
    fs_used_blocks (compute_fragmentation bm d) = card {b. in_range bm d b \<and> 0 < ref_of bm d b}"
proof -
  have "length (free_list_for bm d) + card {b. in_range bm d b \<and> 0 < ref_of bm d b}
      = length (blocks_for bm d)"
    using core_conservation [OF bm_core_wf [OF reach_wf [OF assms]]] .
  then show ?thesis
    by (simp add: compute_fragmentation_def Let_def)
qed

text \<open>
  C25. \<open>free_blocks\<close> is defined in every reachable state and gives back exactly the sequence's own
  blocks: its list becomes empty, every other sequence keeps its blocks, each of its blocks loses one
  reference, and those without an outside reference are free again.
\<close>

theorem free_blocks_returns_own_blocks:
  assumes reach: "bm_reach c m ext bm"
    and bounds: "num_gpu_blocks c \<le> 2 ^ 31" "num_cpu_blocks c \<le> 2 ^ 31"
  shows "\<exists>bm'. free_blocks s bm = Some bm' \<and> seq_blocks bm' s = [] \<and>
    (\<forall>t. t \<noteq> s \<longrightarrow> seq_blocks bm' t = seq_blocks bm t) \<and>
    (\<forall>d b. in_range bm d b \<longrightarrow>
       ref_of bm' d b = ref_of bm d b - of_bool ((d, b) \<in> set (seq_blocks bm s))) \<and>
    (\<forall>d b. (d, b) \<in> set (seq_blocks bm s) \<longrightarrow> ext d b = 0 \<longrightarrow> b \<in> set (free_list_for bm' d))"
proof -
  have wf: "bm_wf ext bm" using reach_wf [OF reach bounds] .
  obtain bm' where bm': "free_blocks s bm = Some bm'" "bm_wf ext bm'" "same_shape bm bm'"
      "\<forall>t. seq_blocks bm' t = (if t = s then [] else seq_blocks bm t)"
      "\<forall>e c. in_range bm e c \<longrightarrow>
        ref_of bm' e c = ref_of bm e c - of_bool ((e, c) \<in> set (seq_blocks bm s))"
    using free_blocks_wf [OF wf, of s] by blast
  have "b \<in> set (free_list_for bm' d)" if own: "(d, b) \<in> set (seq_blocks bm s)" "ext d b = 0" for d b
  proof -
    have r: "in_range bm d b" "owned bm d b"
      using wf own(1) by (auto simp: bm_wf_def bm_ownership_def owned_def)
    then have "ref_of bm' d b = 0"
      using wf own bm'(5) by (simp add: bm_wf_def bm_counted_def)
    then show ?thesis
      using bm'(2) r(1) same_shape_in_range [OF bm'(3)] by (simp add: bm_wf_def bm_free_exact_def)
  qed
  with bm' show ?thesis by auto
qed

theorem free_blocks_returns_own_blocks_witness:
  "\<exists>bm bm'. allocate_block 7 CUDA tiny_bm = Some (0, bm) \<and> free_blocks 7 bm = Some bm' \<and>
     seq_blocks bm' 7 = []"
proof -
  obtain bm where bm: "allocate_block 7 CUDA tiny_bm = Some (0, bm)"
    using tiny_allocate by auto
  have "bm_reach tiny_cache default_model_config no_ext bm"
    using bm_reach.allocate [OF tiny_reach bm] .
  from free_blocks_returns_own_blocks [OF this tiny_bounds, of 7] bm show ?thesis by blast
qed

text \<open>
  C24. Copy-on-write of a block that the caller shares with at least one other holder gives the new
  sequence a different, exclusively counted block with the same fill level and hash, and takes one
  reference off the source; the accounting stays exact.
\<close>

theorem copy_on_write_isolates:
  assumes reach: "bm_reach c m ext bm"
    and bounds: "num_gpu_blocks c \<le> 2 ^ 31" "num_cpu_blocks c \<le> 2 ^ 31"
    and src: "in_range bm d b" "1 \<le> ext d b" "2 \<le> ref_of bm d b"
    and room: "free_list_for bm d \<noteq> []"
  shows "\<exists>nb bm'. copy_on_write b s d bm = Some (nb, bm') \<and> nb \<noteq> b \<and> nb \<noteq> INVALID_BLOCK \<and>
    \<not> owned bm d nb \<and> ref_of bm' d nb = 1 \<and> ref_of bm' d b = ref_of bm d b - 1 \<and>
    pb_num_filled (blocks_for bm' d ! nat nb) = pb_num_filled (blocks_for bm d ! nat b) \<and>
    pb_hash (blocks_for bm' d ! nat nb) = pb_hash (blocks_for bm d ! nat b) \<and>
    seq_blocks bm' s = seq_blocks bm s @ [(d, nb)] \<and> bm_wf (sub_ext d b ext) bm'"
proof -
  have wf: "bm_wf ext bm" using reach_wf [OF reach bounds] .
  note tf = take_free [OF bm_core_wf [OF wf] room]
  note free = not_owned_if_free [OF wf tf(1,2)]
  show ?thesis
    using copy_on_write_shared [OF wf src room, of s] tf free by auto
qed

lemma tiny_shared:
  "\<exists>bm bm1. allocate_block 1 CUDA tiny_bm = Some (0, bm) \<and> increment_ref 0 CUDA bm = Some bm1 \<and>
     in_range bm CUDA 0 \<and> ref_of bm CUDA 0 = 1 \<and>
     in_range bm1 CUDA 0 \<and> ref_of bm1 CUDA 0 = 2 \<and> free_list_for bm1 CUDA = [2, 1]"
  by (simp add: allocate_block_def increment_ref_def inc_i32_def in_range_def ref_of_def tiny_defs)

theorem copy_on_write_isolates_witness:
  "\<exists>bm bm1 nb bm2. allocate_block 1 CUDA tiny_bm = Some (0, bm) \<and>
     increment_ref 0 CUDA bm = Some bm1 \<and> copy_on_write 0 2 CUDA bm1 = Some (nb, bm2) \<and>
     nb \<noteq> 0 \<and> ref_of bm2 CUDA 0 = 1 \<and> ref_of bm2 CUDA nb = 1"
proof -
  obtain bm bm1 where bm: "allocate_block 1 CUDA tiny_bm = Some (0, bm)"
      "increment_ref 0 CUDA bm = Some bm1" "in_range bm CUDA 0" "ref_of bm CUDA 0 = 1"
      "in_range bm1 CUDA 0" "ref_of bm1 CUDA 0 = 2" "free_list_for bm1 CUDA = [2, 1]"
    using tiny_shared by blast
  have "bm_reach tiny_cache default_model_config no_ext bm"
    using bm_reach.allocate [OF tiny_reach bm(1)] .
  then have r1: "bm_reach tiny_cache default_model_config (add_ext CUDA 0 no_ext) bm1"
    by (rule bm_reach.share [OF _ bm(3) _ bm(2)]) (simp add: bm)
  have src: "1 \<le> add_ext CUDA 0 no_ext CUDA 0" "2 \<le> ref_of bm1 CUDA 0"
      "free_list_for bm1 CUDA \<noteq> []"
    using bm by simp_all
  from copy_on_write_isolates [OF r1 tiny_bounds bm(5) src, of 2] bm show ?thesis by fastforce
qed

text \<open>
  Copy-on-write of a block with one reference does not isolate: applied to a block that another
  sequence owns, it returns the same block, both sequences now list it, and its count is still one.
\<close>

lemma copy_on_write_single_ref_aliases:
  assumes reach: "bm_reach c m no_ext bm"
    and bounds: "num_gpu_blocks c \<le> 2 ^ 31" "num_cpu_blocks c \<le> 2 ^ 31"
    and own: "(d, b) \<in> set (seq_blocks bm s)" and st: "s \<noteq> t"
  shows "\<exists>bm'. copy_on_write b t d bm = Some (b, bm') \<and>
    (d, b) \<in> set (seq_blocks bm' s) \<and> (d, b) \<in> set (seq_blocks bm' t) \<and> ref_of bm' d b = 1"
proof -
  have wf: "bm_wf no_ext bm" using reach_wf [OF reach bounds] .
  have r: "in_range bm d b" and o: "owned bm d b"
    using wf own by (auto simp: bm_wf_def bm_ownership_def owned_def)
  then have one: "ref_of bm d b = 1"
    using wf by (simp add: bm_wf_def bm_counted_def)
  have "bm_layout bm" using wf by (simp add: bm_wf_def)
  then have "copy_on_write b t d bm = Some (b, emplace_seq_block t d b bm)"
    using layout_index [of bm d b] r one by (simp add: copy_on_write_def ref_of_def)
  then show ?thesis using own st one by simp
qed

text \<open>
  \<open>free_block\<close> does not take the block out of its owner's list. Freeing a block a sequence owns
  and then freeing the sequence is therefore always defined and always leaves the block twice in the
  free list, so that it can be handed to two sequences; the totals of the device are exceeded.
\<close>

lemma free_block_then_free_blocks_duplicates:
  assumes reach: "bm_reach c m no_ext bm"
    and bounds: "num_gpu_blocks c \<le> 2 ^ 31" "num_cpu_blocks c \<le> 2 ^ 31"
    and own: "(d, b) \<in> set (seq_blocks bm s)"
  shows "\<exists>bm1 bm2. free_block b d bm = Some bm1 \<and> free_blocks s bm1 = Some bm2 \<and>
    2 \<le> count_list (free_list_for bm2 d) b \<and> \<not> distinct (free_list_for bm2 d)"
proof -
  have wf: "bm_wf no_ext bm" using reach_wf [OF reach bounds] .
  then have core: "bm_core bm" by (rule bm_core_wf)
  have r: "in_range bm d b" and one: "ref_of bm d b = 1"
    using wf own by (auto simp: bm_wf_def bm_ownership_def bm_counted_def owned_def)
  obtain bm1 where bm1: "free_block b d bm = Some bm1" "dropped b d bm bm1"
    using fb.drop_one [OF core r] one by auto
  have core1: "bm_core bm1" and sh: "same_shape bm bm1"
    and map: "seq_block_map bm1 = seq_block_map bm" and ref1: "ref_of bm1 d b = 0"
    using bm1(2) r one by (auto simp: dropped_def)
  have rng: "in_range bm1 e c = in_range bm e c" for e c
    using sh by (rule same_shape_in_range)
  obtain l where l: "seq_block_map bm s = Some l" "(d, b) \<in> set l"
    using own by (cases "seq_block_map bm s") (auto simp: seq_blocks_def)
  have "in_range bm1 e c" if "(e, c) \<in> set l" for e c
    using wf l(1) that by (auto simp: rng bm_wf_def bm_ownership_def seq_blocks_def dest: spec [of _ s])
  then obtain bm' where bm': "foldM (\<lambda>(d, b). free_block b d) l bm1 = Some bm'"
      "count_list (free_list_for bm1 d) b < count_list (free_list_for bm' d) b"
    using free_list_fold_any [of bm1 l] core1 l(2) ref1 by (auto simp: bm_core_def)
  have "b \<in> set (free_list_for bm1 d)"
    using core1 ref1 r by (simp add: bm_core_def bm_free_exact_def rng)
  then have "1 \<le> count_list (free_list_for bm1 d) b"
    by (metis One_nat_def Suc_leI count_list_0_iff not_gr_zero)
  then have "2 \<le> count_list (free_list_for bm' d) b" using bm'(2) by simp
  moreover have "free_blocks s bm1 = Some (bm'\<lparr>seq_block_map := (seq_block_map bm')(s := None)\<rparr>)"
    using l map bm' by (simp add: free_blocks_def)
  ultimately show ?thesis
    using bm1 count_list_not_distinct by fastforce
qed

text \<open>
  \<open>largest_free_run\<close> of the fragmentation analysis is exact: some run of consecutive free blocks
  of the device has that length, and no run of consecutive free blocks is longer.
\<close>

lemma largest_free_run_exact:
  "\<exists>p. p + fs_largest_free_run (compute_fragmentation bm d) \<le> length (blocks_for bm d) \<and>
     free_run (free_list_for bm d) p (fs_largest_free_run (compute_fragmentation bm d)) \<and>
     (\<forall>q k. q + k \<le> length (blocks_for bm d) \<longrightarrow> free_run (free_list_for bm d) q k \<longrightarrow>
        k \<le> fs_largest_free_run (compute_fragmentation bm d))"
proof -
  obtain cur where "scan_inv (free_list_for bm d) (length (blocks_for bm d)) cur
      (free_run_scan (free_list_for bm d) [0..<length (blocks_for bm d)] 0 0)"
    using free_run_scan_inv [OF scan_inv_start, of "length (blocks_for bm d)"] by auto
  then show ?thesis
    by (auto simp: scan_inv_def compute_fragmentation_def Let_def)
qed

text \<open>
  The internal fragmentation the manager reports does not measure fragmentation: no operation
  ever raises a block's fill level, so in every reachable state with a used block and a positive
  capacity it is exactly one.
\<close>

lemma internal_fragmentation_constant:
  assumes "bm_reach c m ext bm"
    and "0 < (fs_used_blocks (compute_fragmentation bm d) * bm_block_size bm) mod size_max"
  shows "fs_internal_fragmentation (compute_fragmentation bm d) = 1"
proof -
  have "pb_num_filled x = 0" if "x \<in> set (blocks_for bm d)" for x
    using unfilled_reach [OF assms(1)] that by (auto simp: unfilled_def in_set_conv_nth)
  then have "total_filled (blocks_for bm d) = 0"
    by (simp add: total_filled_def)
  then show ?thesis
    using assms(2) by (simp add: compute_fragmentation_def Let_def)
qed

end
