(* ===== verification/Request.thy ===== *)
theory Request
  imports Common
begin

text \<open>
  Requests and their sequences, \<open>src/src/cacheflow/scheduler/request.h\<close>. A request is a group of
  sequences; the constructor makes a group of one sequence whose identifier is the request's.
  The time of arrival is read from the clock and is an argument here.
\<close>

record sampling_params =
  temperature :: real
  top_p :: real
  top_k :: int
  repeat_penalty :: real
  max_tokens :: int
  streaming :: bool

definition default_sampling_params :: sampling_params where
  "default_sampling_params =
     \<lparr>temperature = 8 / 10, top_p = 95 / 100, top_k = 40, repeat_penalty = 11 / 10,
      max_tokens = 512, streaming = False\<rparr>"

record token_timing =
  tt_queued :: time_point
  tt_scheduled :: time_point
  tt_decoded :: time_point

record sequence_data =
  sd_seq_id :: seq_id
  prompt_tokens :: "token_id list"
  output_tokens :: "token_id list"
  logical_blocks :: "block_id list"
  status :: request_status

definition prompt_len :: "sequence_data \<Rightarrow> nat" where
  "prompt_len s = length (prompt_tokens s)"

definition output_len :: "sequence_data \<Rightarrow> nat" where
  "output_len s = length (output_tokens s)"

definition total_len :: "sequence_data \<Rightarrow> nat" where
  "total_len s = prompt_len s + output_len s"

text \<open>A block size of zero divides by zero.\<close>

definition num_blocks_needed :: "nat \<Rightarrow> sequence_data \<Rightarrow> nat option" where
  "num_blocks_needed bs s = (if bs = 0 then None else Some ((total_len s + bs - 1) div bs))"

definition append_token :: "token_id \<Rightarrow> sequence_data \<Rightarrow> sequence_data" where
  "append_token tok s = s\<lparr>output_tokens := output_tokens s @ [tok]\<rparr>"

definition seq_finished :: "sequence_data \<Rightarrow> bool" where
  "seq_finished s = is_finished (status s)"

record sequence_group =
  request_id :: seq_id
  sequences :: "sequence_data list"
  sampling :: sampling_params
  arrival_time :: time_point
  priority :: int
  first_token_time :: "time_point option"
  token_timings :: "token_timing list"

definition sequence_group_new ::
    "time_point \<Rightarrow> seq_id \<Rightarrow> token_id list \<Rightarrow> sampling_params \<Rightarrow> int \<Rightarrow> sequence_group" where
  "sequence_group_new now rid prompt sp prio =
     \<lparr>request_id = rid,
      sequences = [\<lparr>sd_seq_id = rid, prompt_tokens = prompt, output_tokens = [],
                    logical_blocks = [], status = WAITING\<rparr>],
      sampling = sp, arrival_time = now, priority = prio,
      first_token_time = None, token_timings = []\<rparr>"

definition all_finished :: "sequence_group \<Rightarrow> bool" where
  "all_finished g = list_all seq_finished (sequences g)"

definition num_unfinished :: "sequence_group \<Rightarrow> nat" where
  "num_unfinished g = length (filter (\<lambda>s. \<not> seq_finished s) (sequences g))"

definition group_prompt_len :: "sequence_group \<Rightarrow> nat" where
  "group_prompt_len g = (case sequences g of [] \<Rightarrow> 0 | s # _ \<Rightarrow> prompt_len s)"

definition max_total_len :: "sequence_group \<Rightarrow> nat" where
  "max_total_len g = fold (\<lambda>s m. max m (total_len s)) (sequences g) 0"

section \<open>Facts about requests\<close>

lemma num_blocks_needed_Some [simp]:
  "0 < bs \<Longrightarrow> num_blocks_needed bs s = Some ((total_len s + bs - 1) div bs)"
  by (simp add: num_blocks_needed_def)

text \<open>The rounding is the least number of blocks that holds the whole sequence.\<close>

lemma blocks_cover:
  assumes "0 < (bs::nat)"
  shows "n \<le> ((n + bs - 1) div bs) * bs" "n \<le> k * bs \<longleftrightarrow> (n + bs - 1) div bs \<le> k"
proof -
  show main: "n \<le> k * bs \<longleftrightarrow> (n + bs - 1) div bs \<le> k" for k
  proof -
    have "(n + bs - 1) div bs \<le> k \<longleftrightarrow> n + bs - 1 < Suc k * bs"
      using assms by (simp add: less_mult_imp_div_less div_less_iff_less_mult less_Suc_eq_le [symmetric])
    also have "\<dots> \<longleftrightarrow> n \<le> k * bs" using assms by auto
    finally show ?thesis by simp
  qed
  show "n \<le> ((n + bs - 1) div bs) * bs" by (simp add: main)
qed

lemma all_finished_iff: "all_finished g \<longleftrightarrow> num_unfinished g = 0"
  by (auto simp: all_finished_def num_unfinished_def list_all_iff filter_empty_conv)

lemma max_total_len_ge: "s \<in> set (sequences g) \<Longrightarrow> total_len s \<le> max_total_len g"
proof -
  have mono: "m \<le> fold (\<lambda>s m. max m (total_len s)) ss m" for ss m
  proof (induction ss arbitrary: m)
    case (Cons a ss)
    from Cons.IH [of "max m (total_len a)"] show ?case by simp
  qed simp
  have "s \<in> set ss \<Longrightarrow> total_len s \<le> fold (\<lambda>s m. max m (total_len s)) ss m" for ss m
  proof (induction ss arbitrary: m)
    case (Cons a ss)
    then show ?case using mono [of "max m (total_len a)" ss] by auto
  qed simp
  then show "s \<in> set (sequences g) \<Longrightarrow> total_len s \<le> max_total_len g"
    by (simp add: max_total_len_def)
qed

end
