(* ===== verification/Scheduler.thy ===== *)
theory Scheduler
  imports Block_Manager Request
begin

text \<open>
  The scheduler, \<open>src/src/cacheflow/scheduler/scheduler.{h,cpp}\<close>. Requests are heap objects owned by
  one of three queues through \<open>unique_ptr\<close>; \<open>request_map_\<close> and the scheduling output hold raw
  pointers to the same objects. The model therefore has an explicit store from addresses to groups,
  queues of addresses, and dereferencing that is undefined (\<open>None\<close>) for an address without an object.
  The block manager the scheduler points to is part of the state. Every public operation runs under
  the scheduler's mutex and is one atomic step.
\<close>

section \<open>State and output\<close>

record block_op =
  op_seq_id :: seq_id
  op_src :: block_id
  op_dst :: block_id

record scheduler_output =
  scheduled_groups :: "ptr list"
  preempted_groups :: "ptr list"
  swapped_in_groups :: "ptr list"
  num_batched_tokens :: nat
  block_copies :: "block_op list"
  block_swaps_in :: "block_op list"
  block_swaps_out :: "block_op list"

definition empty_output :: scheduler_output where
  "empty_output =
     \<lparr>scheduled_groups = [], preempted_groups = [], swapped_in_groups = [], num_batched_tokens = 0,
      block_copies = [], block_swaps_in = [], block_swaps_out = []\<rparr>"

record scheduler =
  sc_config :: scheduler_config
  sc_bm :: block_manager
  sc_heap :: "ptr \<rightharpoonup> sequence_group"
  sc_waiting :: "ptr list"
  sc_running :: "ptr list"
  sc_swapped :: "ptr list"
  sc_request_map :: "seq_id \<rightharpoonup> ptr"

definition scheduler_new :: "scheduler_config \<Rightarrow> block_manager \<Rightarrow> scheduler" where
  "scheduler_new c bm =
     \<lparr>sc_config = c, sc_bm = bm, sc_heap = Map.empty, sc_waiting = [], sc_running = [],
      sc_swapped = [], sc_request_map = Map.empty\<rparr>"

definition output_is_empty :: "scheduler_output \<Rightarrow> bool" where
  "output_is_empty out \<longleftrightarrow> scheduled_groups out = []"

fun sum_unfinished :: "(ptr \<rightharpoonup> sequence_group) \<Rightarrow> ptr list \<Rightarrow> nat option" where
  "sum_unfinished h [] = Some 0"
| "sum_unfinished h (p # ps) =
     do {
       g \<leftarrow> h p;
       n \<leftarrow> sum_unfinished h ps;
       Some (num_unfinished g + n)
     }"

definition output_num_seqs :: "(ptr \<rightharpoonup> sequence_group) \<Rightarrow> scheduler_output \<Rightarrow> nat option" where
  "output_num_seqs h out = sum_unfinished h (scheduled_groups out)"

section \<open>Requests\<close>

text \<open>The argument of \<open>add_request\<close> is the owning pointer \<open>p\<close> and the object \<open>g\<close> it points to.\<close>

definition add_request :: "ptr \<Rightarrow> sequence_group \<Rightarrow> scheduler \<Rightarrow> scheduler" where
  "add_request p g s =
     s\<lparr>sc_heap := (sc_heap s)(p \<mapsto> g),
       sc_request_map := (sc_request_map s)(request_id g \<mapsto> p),
       sc_waiting := sc_waiting s @ [p]\<rparr>"

definition abort_seq ::
    "sequence_data \<Rightarrow> block_manager \<Rightarrow> (sequence_data \<times> block_manager) option" where
  "abort_seq seq bm =
     (if \<not> seq_finished seq then do {
        bm1 \<leftarrow> free_blocks (sd_seq_id seq) bm;
        Some (seq\<lparr>status := FINISHED_ABORT\<rparr>, bm1)
      }
      else Some (seq, bm))"

definition abort_request :: "seq_id \<Rightarrow> scheduler \<Rightarrow> scheduler option" where
  "abort_request rid s =
     (case sc_request_map s rid of
        None \<Rightarrow> Some s
      | Some p \<Rightarrow> do {
          grp \<leftarrow> sc_heap s p;
          (seqs, bm) \<leftarrow> mapM_st abort_seq (sequences grp) (sc_bm s);
          Some (s\<lparr>sc_heap := (sc_heap s)(p \<mapsto> grp\<lparr>sequences := seqs\<rparr>), sc_bm := bm,
                  sc_request_map := (sc_request_map s)(rid := None)\<rparr>)
        })"

text \<open>The lambda \<open>remove_finished\<close>: the queue that is left, with the objects it drops destroyed.\<close>

fun remove_finished :: "ptr list \<Rightarrow> scheduler \<Rightarrow> (ptr list \<times> scheduler) option" where
  "remove_finished [] s = Some ([], s)"
| "remove_finished (p # ps) s =
     do {
       g \<leftarrow> sc_heap s p;
       if all_finished g then do {
         bm \<leftarrow> foldM (\<lambda>seq. free_blocks (sd_seq_id seq)) (sequences g) (sc_bm s);
         remove_finished ps
           (s\<lparr>sc_bm := bm, sc_request_map := (sc_request_map s)(request_id g := None),
              sc_heap := (sc_heap s)(p := None)\<rparr>)
       }
       else do {
         (qs, s1) \<leftarrow> remove_finished ps s;
         Some (p # qs, s1)
       }
     }"

definition free_finished_requests :: "scheduler \<Rightarrow> scheduler option" where
  "free_finished_requests s =
     do {
       (run, s1) \<leftarrow> remove_finished (sc_running s) s;
       (wait, s2) \<leftarrow> remove_finished (sc_waiting s) (s1\<lparr>sc_running := run\<rparr>);
       Some (s2\<lparr>sc_waiting := wait\<rparr>)
     }"

section \<open>Queries\<close>

definition num_waiting :: "scheduler \<Rightarrow> nat" where
  "num_waiting s = length (sc_waiting s)"

definition num_running :: "scheduler \<Rightarrow> nat" where
  "num_running s = length (sc_running s)"

definition num_swapped :: "scheduler \<Rightarrow> nat" where
  "num_swapped s = length (sc_swapped s)"

definition num_total :: "scheduler \<Rightarrow> nat" where
  "num_total s = length (sc_waiting s) + length (sc_running s) + length (sc_swapped s)"

definition has_pending :: "scheduler \<Rightarrow> bool" where
  "has_pending s \<longleftrightarrow> sc_waiting s \<noteq> [] \<or> sc_running s \<noteq> [] \<or> sc_swapped s \<noteq> []"

section \<open>Preemption\<close>

definition swap_out_block ::
    "seq_id \<Rightarrow> block_id \<Rightarrow> block_manager \<times> block_op list \<Rightarrow>
     (block_id \<times> block_manager \<times> block_op list) option" where
  "swap_out_block sid bid st =
     (let (bm, ops) = st in
      do {
        (cpu_bid, bm1) \<leftarrow> allocate_block sid CPU bm;
        bm2 \<leftarrow> free_block bid CUDA bm1;
        Some (cpu_bid, bm2, ops @ [\<lparr>op_seq_id = sid, op_src = bid, op_dst = cpu_bid\<rparr>])
      })"

definition swap_out_seq ::
    "sequence_data \<Rightarrow> block_manager \<times> block_op list \<Rightarrow>
     (sequence_data \<times> block_manager \<times> block_op list) option" where
  "swap_out_seq seq st =
     (if seq_finished seq then Some (seq, st)
      else do {
        (bids, st1) \<leftarrow> mapM_st (swap_out_block (sd_seq_id seq)) (logical_blocks seq) st;
        Some (seq\<lparr>status := SWAPPED, logical_blocks := bids\<rparr>, st1)
      })"

definition recompute_seq ::
    "sequence_data \<Rightarrow> block_manager \<Rightarrow> (sequence_data \<times> block_manager) option" where
  "recompute_seq seq bm =
     (if seq_finished seq then Some (seq, bm)
      else do {
        bm1 \<leftarrow> free_blocks (sd_seq_id seq) bm;
        Some (seq\<lparr>status := PREEMPTED, logical_blocks := [], output_tokens := []\<rparr>, bm1)
      })"

definition preempt ::
    "scheduler \<Rightarrow> scheduler_output \<Rightarrow> (scheduler \<times> scheduler_output) option" where
  "preempt s out =
     (if sc_running s = [] then Some (s, out)
      else
        let p = last (sc_running s) in
        do {
          victim \<leftarrow> sc_heap s p;
          if preemption_mode (sc_config s) = SWAP then do {
            (seqs, bm, ops) \<leftarrow>
              mapM_st swap_out_seq (sequences victim) (sc_bm s, block_swaps_out out);
            Some (s\<lparr>sc_heap := (sc_heap s)(p \<mapsto> victim\<lparr>sequences := seqs\<rparr>), sc_bm := bm,
                    sc_swapped := sc_swapped s @ [p], sc_running := butlast (sc_running s)\<rparr>,
                  out\<lparr>block_swaps_out := ops, preempted_groups := preempted_groups out @ [p]\<rparr>)
          }
          else do {
            (seqs, bm) \<leftarrow> mapM_st recompute_seq (sequences victim) (sc_bm s);
            Some (s\<lparr>sc_heap := (sc_heap s)(p \<mapsto> victim\<lparr>sequences := seqs\<rparr>), sc_bm := bm,
                    sc_waiting := p # sc_waiting s, sc_running := butlast (sc_running s)\<rparr>,
                  out\<lparr>preempted_groups := preempted_groups out @ [p]\<rparr>)
          }
        })"

section \<open>Scheduling phases\<close>

definition estimate_tokens :: "sequence_group \<Rightarrow> bool \<Rightarrow> nat" where
  "estimate_tokens g is_prefill = (if is_prefill then group_prompt_len g else num_unfinished g)"

fun can_append :: "block_manager \<Rightarrow> sequence_data list \<Rightarrow> bool option" where
  "can_append bm [] = Some True"
| "can_append bm (seq # seqs) =
     (if seq_finished seq then can_append bm seqs
      else do {
        blocks_needed \<leftarrow> num_blocks_needed (bm_block_size bm) seq;
        let blocks_have = length (logical_blocks seq);
        if blocks_needed > blocks_have \<and> \<not> can_allocate bm (blocks_needed - blocks_have)
        then Some False else can_append bm seqs
      })"

definition grow_seq ::
    "sequence_data \<Rightarrow> block_manager \<Rightarrow> (sequence_data \<times> block_manager) option" where
  "grow_seq seq bm =
     (if seq_finished seq then Some (seq, bm)
      else do {
        blocks_needed \<leftarrow> num_blocks_needed (bm_block_size bm) seq;
        (bids, bm1) \<leftarrow> alloc_n (allocate_block (sd_seq_id seq) CUDA)
          (blocks_needed - length (logical_blocks seq)) bm;
        Some (seq\<lparr>logical_blocks := logical_blocks seq @ bids\<rparr>, bm1)
      })"

text \<open>
  The loop over \<open>running_\<close>. Its list argument is the part of the queue from the iterator on; the queue
  itself changes only in \<open>preempt\<close>, after which the loop is left.
\<close>

fun schedule_decodes_from ::
    "ptr list \<Rightarrow> scheduler \<Rightarrow> scheduler_output \<Rightarrow> nat \<Rightarrow> nat \<Rightarrow>
     (scheduler \<times> scheduler_output \<times> nat \<times> nat) option" where
  "schedule_decodes_from [] s out budget_tokens budget_seqs = Some (s, out, budget_tokens, budget_seqs)"
| "schedule_decodes_from (p # ps) s out budget_tokens budget_seqs =
     do {
       grp \<leftarrow> sc_heap s p;
       if all_finished grp then schedule_decodes_from ps s out budget_tokens budget_seqs
       else
         let tokens_needed = estimate_tokens grp False in
         if tokens_needed > budget_tokens \<or> budget_seqs = 0 then do {
           (s1, out1) \<leftarrow> preempt s out;
           Some (s1, out1, budget_tokens, budget_seqs)
         }
         else do {
           ok \<leftarrow> can_append (sc_bm s) (sequences grp);
           if \<not> ok then do {
             (s1, out1) \<leftarrow> preempt s out;
             Some (s1, out1, budget_tokens, budget_seqs)
           }
           else do {
             (seqs, bm) \<leftarrow> mapM_st grow_seq (sequences grp) (sc_bm s);
             schedule_decodes_from ps
               (s\<lparr>sc_heap := (sc_heap s)(p \<mapsto> grp\<lparr>sequences := seqs\<rparr>), sc_bm := bm\<rparr>)
               (out\<lparr>scheduled_groups := scheduled_groups out @ [p]\<rparr>)
               (size_sub budget_tokens tokens_needed) (size_sub budget_seqs 1)
           }
         }
     }"

definition schedule_decodes ::
    "scheduler \<Rightarrow> scheduler_output \<Rightarrow> nat \<Rightarrow> nat \<Rightarrow> (scheduler \<times> scheduler_output \<times> nat \<times> nat) option" where
  "schedule_decodes s out budget_tokens budget_seqs =
     schedule_decodes_from (sc_running s) s out budget_tokens budget_seqs"

definition prefill_seq ::
    "nat \<Rightarrow> sequence_data \<Rightarrow> block_manager \<Rightarrow> (sequence_data \<times> block_manager) option" where
  "prefill_seq blocks_needed seq bm =
     do {
       (bids, bm1) \<leftarrow> alloc_n (allocate_block (sd_seq_id seq) CUDA) blocks_needed bm;
       Some (seq\<lparr>status := RUNNING, logical_blocks := logical_blocks seq @ bids\<rparr>, bm1)
     }"

text \<open>The loop over the front of \<open>waiting_\<close>; its list argument is the queue at the loop head.\<close>

fun schedule_prefills_from ::
    "ptr list \<Rightarrow> scheduler \<Rightarrow> scheduler_output \<Rightarrow> nat \<Rightarrow> nat \<Rightarrow>
     (scheduler \<times> scheduler_output \<times> nat \<times> nat) option" where
  "schedule_prefills_from [] s out budget_tokens budget_seqs = Some (s, out, budget_tokens, budget_seqs)"
| "schedule_prefills_from (p # ps) s out budget_tokens budget_seqs =
     (if budget_seqs = 0 then Some (s, out, budget_tokens, budget_seqs)
      else do {
        grp \<leftarrow> sc_heap s p;
        let tokens_needed = estimate_tokens grp True;
        if tokens_needed > budget_tokens then Some (s, out, budget_tokens, budget_seqs)
        else do {
          seq0 \<leftarrow> vec_at (sequences grp) 0;
          blocks_needed \<leftarrow> num_blocks_needed (bm_block_size (sc_bm s)) seq0;
          if \<not> can_allocate (sc_bm s) blocks_needed
          then Some (s, out, budget_tokens, budget_seqs)
          else do {
            (seqs, bm) \<leftarrow> mapM_st (prefill_seq blocks_needed) (sequences grp) (sc_bm s);
            schedule_prefills_from ps
              (s\<lparr>sc_heap := (sc_heap s)(p \<mapsto> grp\<lparr>sequences := seqs\<rparr>), sc_bm := bm,
                 sc_running := sc_running s @ [p], sc_waiting := ps\<rparr>)
              (out\<lparr>scheduled_groups := scheduled_groups out @ [p]\<rparr>)
              (size_sub budget_tokens tokens_needed) (size_sub budget_seqs 1)
          }
        }
      })"

definition schedule_prefills ::
    "scheduler \<Rightarrow> scheduler_output \<Rightarrow> nat \<Rightarrow> nat \<Rightarrow> (scheduler \<times> scheduler_output \<times> nat \<times> nat) option" where
  "schedule_prefills s out budget_tokens budget_seqs =
     schedule_prefills_from (sc_waiting s) s out budget_tokens budget_seqs"

definition swap_in_block ::
    "seq_id \<Rightarrow> block_id \<Rightarrow> block_manager \<times> block_op list \<Rightarrow>
     (block_id \<times> block_manager \<times> block_op list) option" where
  "swap_in_block sid bid st =
     (let (bm, ops) = st in
      do {
        (new_bid, bm1) \<leftarrow> allocate_block sid CUDA bm;
        Some (new_bid, bm1, ops @ [\<lparr>op_seq_id = sid, op_src = bid, op_dst = new_bid\<rparr>])
      })"

definition swap_in_seq ::
    "sequence_data \<Rightarrow> block_manager \<times> block_op list \<Rightarrow>
     (sequence_data \<times> block_manager \<times> block_op list) option" where
  "swap_in_seq seq st =
     (if seq_finished seq then Some (seq, st)
      else do {
        (bids, st1) \<leftarrow> mapM_st (swap_in_block (sd_seq_id seq)) (logical_blocks seq) st;
        Some (seq\<lparr>status := RUNNING, logical_blocks := bids\<rparr>, st1)
      })"

definition swapped_blocks :: "sequence_group \<Rightarrow> nat" where
  "swapped_blocks g =
     sum_list (map (\<lambda>seq. length (logical_blocks seq)) (filter (\<lambda>s. \<not> seq_finished s) (sequences g)))"

fun try_swap_in_from ::
    "ptr list \<Rightarrow> scheduler \<Rightarrow> scheduler_output \<Rightarrow> nat \<Rightarrow> nat \<Rightarrow>
     (scheduler \<times> scheduler_output \<times> nat \<times> nat) option" where
  "try_swap_in_from [] s out budget_tokens budget_seqs = Some (s, out, budget_tokens, budget_seqs)"
| "try_swap_in_from (p # ps) s out budget_tokens budget_seqs =
     (if budget_seqs = 0 then Some (s, out, budget_tokens, budget_seqs)
      else do {
        grp \<leftarrow> sc_heap s p;
        let tokens_needed = estimate_tokens grp False;
        if tokens_needed > budget_tokens then Some (s, out, budget_tokens, budget_seqs)
        else if \<not> can_allocate (sc_bm s) (swapped_blocks grp)
        then Some (s, out, budget_tokens, budget_seqs)
        else do {
          (seqs, bm, ops) \<leftarrow> mapM_st swap_in_seq (sequences grp) (sc_bm s, block_swaps_in out);
          try_swap_in_from ps
            (s\<lparr>sc_heap := (sc_heap s)(p \<mapsto> grp\<lparr>sequences := seqs\<rparr>), sc_bm := bm,
               sc_running := sc_running s @ [p], sc_swapped := ps\<rparr>)
            (out\<lparr>block_swaps_in := ops, swapped_in_groups := swapped_in_groups out @ [p]\<rparr>)
            (size_sub budget_tokens tokens_needed) (size_sub budget_seqs 1)
        }
      })"

text \<open>The Boolean result is returned first; \<open>schedule\<close> ignores it.\<close>

definition try_swap_in ::
    "scheduler \<Rightarrow> scheduler_output \<Rightarrow> nat \<Rightarrow> nat \<Rightarrow>
     (bool \<times> scheduler \<times> scheduler_output \<times> nat \<times> nat) option" where
  "try_swap_in s out budget_tokens budget_seqs =
     (if sc_swapped s = [] then Some (False, s, out, budget_tokens, budget_seqs)
      else do {
        (s1, out1, bt, bs) \<leftarrow> try_swap_in_from (sc_swapped s) s out budget_tokens budget_seqs;
        Some (swapped_in_groups out1 \<noteq> [], s1, out1, bt, bs)
      })"

text \<open>\<open>std::stable_sort\<close> with the comparison of the policy, on the objects the queue points to.\<close>

definition waiting_key :: "schedule_policy \<Rightarrow> sequence_group \<Rightarrow> int" where
  "waiting_key pol g =
     (case pol of FCFS \<Rightarrow> 0 | SHORTEST_REMAINING \<Rightarrow> max_tokens (sampling g) | PRIORITY \<Rightarrow> - priority g)"

definition sort_waiting_queue :: "scheduler \<Rightarrow> scheduler option" where
  "sort_waiting_queue s =
     (if policy (sc_config s) = FCFS then Some s
      else if list_all (\<lambda>p. sc_heap s p \<noteq> None) (sc_waiting s) then
        Some (s\<lparr>sc_waiting :=
          sort_key (\<lambda>p. waiting_key (policy (sc_config s)) (the (sc_heap s p))) (sc_waiting s)\<rparr>)
      else None)"

definition schedule :: "scheduler \<Rightarrow> (scheduler_output \<times> scheduler) option" where
  "schedule s =
     do {
       let budget_tokens = max_num_batched_tokens (sc_config s);
       let budget_seqs = max_num_seqs (sc_config s);
       (s1, out1, bt1, bs1) \<leftarrow> schedule_decodes s empty_output budget_tokens budget_seqs;
       (s2, out2, bt2, bs2) \<leftarrow>
         (if sc_waiting s1 \<noteq> [] then do {
            s1' \<leftarrow> sort_waiting_queue s1;
            schedule_prefills s1' out1 bt1 bs1
          }
          else Some (s1, out1, bt1, bs1));
       (s3, out3, bt3, bs3) \<leftarrow>
         (if sc_swapped s2 \<noteq> [] \<and> bt2 > 0 \<and> bs2 > 0 then do {
            (_, r) \<leftarrow> try_swap_in s2 out2 bt2 bs2;
            Some r
          }
          else Some (s2, out2, bt2, bs2));
       Some (out3\<lparr>num_batched_tokens := size_sub (max_num_batched_tokens (sc_config s3)) bt3\<rparr>, s3)
     }"

text \<open>The definitions that evaluate the model on a concrete state.\<close>

lemmas sched_eval [cf_defs] = schedule_def schedule_decodes_def schedule_prefills_def
  sort_waiting_queue_def try_swap_in_def preempt_def swap_out_seq_def swap_out_block_def recompute_seq_def
  grow_seq_def prefill_seq_def swap_in_seq_def swap_in_block_def swapped_blocks_def estimate_tokens_def
  scheduler_new_def add_request_def abort_request_def abort_seq_def free_finished_requests_def
  empty_output_def group_prompt_len_def num_unfinished_def all_finished_def seq_finished_def
  total_len_def prompt_len_def output_len_def sequence_group_new_def num_blocks_needed_def Let_def

end
