(* ===== verification/Scheduler_Queues.thy ===== *)
theory Scheduler_Queues
  imports Scheduler "HOL-Library.Multiset"
begin

text \<open>
  What the scheduler does with its queues, whatever the preemption mode: no scheduling step loses,
  duplicates or invents a request, no pointer dangles, and the token and sequence budgets of a step
  are respected and accounted for exactly.
\<close>

section \<open>Frames\<close>

definition queue :: "scheduler \<Rightarrow> ptr list" where
  "queue s = sc_waiting s @ sc_running s @ sc_swapped s"

text \<open>
  Two states related by a step that only moves requests between queues and rewrites their sequences.
\<close>

definition frame :: "scheduler \<Rightarrow> scheduler \<Rightarrow> bool" where
  "frame s s' \<longleftrightarrow>
     mset (queue s') = mset (queue s) \<and> sc_config s' = sc_config s \<and>
     sc_request_map s' = sc_request_map s \<and>
     (\<forall>p. map_option request_id (sc_heap s' p) = map_option request_id (sc_heap s p)) \<and>
     (\<forall>p. map_option group_prompt_len (sc_heap s' p) = map_option group_prompt_len (sc_heap s p))"

definition unfinished_kept :: "scheduler \<Rightarrow> scheduler \<Rightarrow> bool" where
  "unfinished_kept s s' \<longleftrightarrow>
     (\<forall>p. map_option num_unfinished (sc_heap s' p) = map_option num_unfinished (sc_heap s p))"

text \<open>Ownership of the groups: each is in exactly one queue, once, and the queues hold all of them.\<close>

definition queues_wf :: "scheduler \<Rightarrow> bool" where
  "queues_wf s \<longleftrightarrow>
     distinct (queue s) \<and> dom (sc_heap s) = set (queue s) \<and>
     (\<forall>rid p. sc_request_map s rid = Some p \<longrightarrow> (\<exists>g. sc_heap s p = Some g \<and> request_id g = rid))"

text \<open>The tokens a step charges to a list of groups, in the state the step starts from.\<close>

definition unfinished_sum :: "scheduler \<Rightarrow> ptr list \<Rightarrow> nat" where
  "unfinished_sum s ps = sum_list (map (\<lambda>p. num_unfinished (the (sc_heap s p))) ps)"

definition prompt_sum :: "scheduler \<Rightarrow> ptr list \<Rightarrow> nat" where
  "prompt_sum s ps = sum_list (map (\<lambda>p. group_prompt_len (the (sc_heap s p))) ps)"

lemma frame_refl [simp]: "frame s s"
  by (simp add: frame_def)

lemma frame_trans: "frame a b \<Longrightarrow> frame b c \<Longrightarrow> frame a c"
  by (simp add: frame_def)

lemma unfinished_kept_refl [simp]: "unfinished_kept s s"
  by (simp add: unfinished_kept_def)

lemma unfinished_kept_trans: "unfinished_kept a b \<Longrightarrow> unfinished_kept b c \<Longrightarrow> unfinished_kept a c"
  by (simp add: unfinished_kept_def)

lemma frame_queue: "frame s s' \<Longrightarrow> set (queue s') = set (queue s) \<and> (distinct (queue s') = distinct (queue s))"
  unfolding frame_def by (metis mset_eq_imp_distinct_iff mset_eq_setD)

lemma frame_dom: "frame s s' \<Longrightarrow> dom (sc_heap s') = dom (sc_heap s)"
  unfolding frame_def dom_def by (metis (mono_tags, opaque_lifting) option.map_disc_iff)

lemma frame_queues_wf:
  assumes "frame s s'" and "queues_wf s"
  shows "queues_wf s'"
proof -
  have "\<exists>g. sc_heap s' p = Some g \<and> request_id g = rid" if "sc_request_map s' rid = Some p" for rid p
  proof -
    have "sc_request_map s rid = Some p" using assms(1) that by (simp add: frame_def)
    then obtain g where g: "sc_heap s p = Some g" "request_id g = rid"
      using assms(2) unfolding queues_wf_def by blast
    have "map_option request_id (sc_heap s' p) = map_option request_id (sc_heap s p)"
      using assms(1) by (simp add: frame_def)
    with g show ?thesis by (cases "sc_heap s' p") auto
  qed
  then show ?thesis
    using assms frame_queue [OF assms(1)] frame_dom [OF assms(1)] by (auto simp: queues_wf_def)
qed

lemma frame_prompt_sum: "frame s s' \<Longrightarrow> set ps \<subseteq> dom (sc_heap s) \<Longrightarrow> prompt_sum s' ps = prompt_sum s ps"
  unfolding prompt_sum_def
proof (rule arg_cong [where f = sum_list], rule map_cong [OF refl])
  fix p
  assume "frame s s'" "set ps \<subseteq> dom (sc_heap s)" "p \<in> set ps"
  then obtain g where "sc_heap s p = Some g" by blast
  moreover have "map_option group_prompt_len (sc_heap s' p) = map_option group_prompt_len (sc_heap s p)"
    using \<open>frame s s'\<close> by (simp add: frame_def)
  ultimately show "group_prompt_len (the (sc_heap s' p)) = group_prompt_len (the (sc_heap s p))"
    by (cases "sc_heap s' p") auto
qed

lemma kept_unfinished_sum:
  assumes "\<And>p. p \<in> set ps \<Longrightarrow>
    map_option num_unfinished (sc_heap s' p) = map_option num_unfinished (sc_heap s p) \<and>
    p \<in> dom (sc_heap s)"
  shows "unfinished_sum s' ps = unfinished_sum s ps"
  unfolding unfinished_sum_def
proof (rule arg_cong [where f = sum_list], rule map_cong [OF refl])
  fix p
  assume "p \<in> set ps"
  with assms [of p] obtain g where "sc_heap s p = Some g"
    "map_option num_unfinished (sc_heap s' p) = map_option num_unfinished (sc_heap s p)" by blast
  then show "num_unfinished (the (sc_heap s' p)) = num_unfinished (the (sc_heap s p))"
    by (cases "sc_heap s' p") auto
qed

section \<open>Sequence updates that keep the group's shape\<close>

lemma group_prompt_len_map:
  "map prompt_tokens seqs = map prompt_tokens (sequences g) \<Longrightarrow>
    group_prompt_len (g\<lparr>sequences := seqs\<rparr>) = group_prompt_len g"
  by (cases seqs; cases "sequences g") (auto simp: group_prompt_len_def prompt_len_def)

lemma num_unfinished_map:
  assumes "map seq_finished seqs = map seq_finished (sequences g)"
  shows "num_unfinished (g\<lparr>sequences := seqs\<rparr>) = num_unfinished g"
proof -
  have key: "length (filter (\<lambda>s. \<not> seq_finished s) xs) = length (filter Not (map seq_finished xs))"
    for xs by (simp add: filter_map o_def)
  have "length (filter (\<lambda>s. \<not> seq_finished s) seqs) =
      length (filter (\<lambda>s. \<not> seq_finished s) (sequences g))"
    unfolding key assms ..
  then show ?thesis by (simp add: num_unfinished_def)
qed

lemma grow_seq_obs:
  assumes "grow_seq x bm = Some (y, bm')"
  shows "prompt_tokens y = prompt_tokens x" "seq_finished y = seq_finished x" "sd_seq_id y = sd_seq_id x"
  using assms by (auto simp: grow_seq_def bind_eq_Some_conv seq_finished_def split: if_splits)

lemma swap_out_seq_obs:
  assumes "swap_out_seq x st = Some (y, st')"
  shows "prompt_tokens y = prompt_tokens x" "seq_finished y = seq_finished x" "sd_seq_id y = sd_seq_id x"
  using assms by (auto simp: swap_out_seq_def bind_eq_Some_conv seq_finished_def split: if_splits)

lemma recompute_seq_obs:
  assumes "recompute_seq x bm = Some (y, bm')"
  shows "prompt_tokens y = prompt_tokens x" "seq_finished y = seq_finished x" "sd_seq_id y = sd_seq_id x"
  using assms by (auto simp: recompute_seq_def bind_eq_Some_conv seq_finished_def split: if_splits)

lemma prefill_seq_obs:
  assumes "prefill_seq n x bm = Some (y, bm')"
  shows "prompt_tokens y = prompt_tokens x" "sd_seq_id y = sd_seq_id x"
  using assms by (auto simp: prefill_seq_def bind_eq_Some_conv)

lemma swap_in_seq_obs:
  assumes "swap_in_seq x st = Some (y, st')"
  shows "prompt_tokens y = prompt_tokens x" "seq_finished y = seq_finished x" "sd_seq_id y = sd_seq_id x"
  using assms by (auto simp: swap_in_seq_def bind_eq_Some_conv seq_finished_def split: if_splits)

lemma abort_seq_obs:
  assumes "abort_seq x bm = Some (y, bm')"
  shows "prompt_tokens y = prompt_tokens x" "sd_seq_id y = sd_seq_id x" "seq_finished y"
  using assms by (auto simp: abort_seq_def bind_eq_Some_conv seq_finished_def split: if_splits)

lemma grow_map_obs:
  assumes "mapM_st grow_seq xs bm = Some (ys, bm')"
  shows "map prompt_tokens ys = map prompt_tokens xs \<and> map seq_finished ys = map seq_finished xs"
  by (intro conjI; rule mapM_st_map [OF assms]; erule grow_seq_obs)

lemma swap_out_map_obs:
  assumes "mapM_st swap_out_seq xs st = Some (ys, st')"
  shows "map prompt_tokens ys = map prompt_tokens xs \<and> map seq_finished ys = map seq_finished xs"
  by (intro conjI; rule mapM_st_map [OF assms]; erule swap_out_seq_obs)

lemma recompute_map_obs:
  assumes "mapM_st recompute_seq xs bm = Some (ys, bm')"
  shows "map prompt_tokens ys = map prompt_tokens xs \<and> map seq_finished ys = map seq_finished xs"
  by (intro conjI; rule mapM_st_map [OF assms]; erule recompute_seq_obs)

lemma swap_in_map_obs:
  assumes "mapM_st swap_in_seq xs st = Some (ys, st')"
  shows "map prompt_tokens ys = map prompt_tokens xs \<and> map seq_finished ys = map seq_finished xs"
  by (intro conjI; rule mapM_st_map [OF assms]; erule swap_in_seq_obs)

lemma prefill_map_obs:
  assumes "mapM_st (prefill_seq n) xs bm = Some (ys, bm')"
  shows "map prompt_tokens ys = map prompt_tokens xs"
  by (rule mapM_st_map [OF assms]) (erule prefill_seq_obs)

lemmas seq_map_obs = grow_map_obs swap_out_map_obs recompute_map_obs swap_in_map_obs prefill_map_obs

lemma mset_butlast_last: "xs \<noteq> [] \<Longrightarrow> mset xs = add_mset (last xs) (mset (butlast xs))"
  by (induction xs rule: rev_induct) simp_all

section \<open>The phases move requests and keep the rest\<close>

lemma preempt_frame:
  assumes "preempt s out = Some (s', out')"
  shows "frame s s'" "unfinished_kept s s'" "scheduled_groups out' = scheduled_groups out"
    "swapped_in_groups out' = swapped_in_groups out"
  using assms
  by (auto simp: preempt_def Let_def bind_eq_Some_conv frame_def unfinished_kept_def queue_def
      mset_butlast_last group_prompt_len_map num_unfinished_map dest!: seq_map_obs split: if_splits)

text \<open>The ways one iteration of each loop can go.\<close>

lemma decodes_cases:
  assumes "schedule_decodes_from (p # ps) s out bt bs = Some (s', out', bt', bs')"
  obtains (skip) g where "sc_heap s p = Some g" "all_finished g"
      "schedule_decodes_from ps s out bt bs = Some (s', out', bt', bs')"
  | (stop) g where "sc_heap s p = Some g" "\<not> all_finished g"
      "preempt s out = Some (s', out')" "bt' = bt" "bs' = bs"
  | (go) g seqs bm where "sc_heap s p = Some g" "\<not> all_finished g" "num_unfinished g \<le> bt" "0 < bs"
      "can_append (sc_bm s) (sequences g) = Some True"
      "mapM_st grow_seq (sequences g) (sc_bm s) = Some (seqs, bm)"
      "schedule_decodes_from ps
        (s\<lparr>sc_heap := (sc_heap s)(p \<mapsto> g\<lparr>sequences := seqs\<rparr>), sc_bm := bm\<rparr>)
        (out\<lparr>scheduled_groups := scheduled_groups out @ [p]\<rparr>) (bt - num_unfinished g) (bs - 1)
        = Some (s', out', bt', bs')"
proof -
  obtain g where g: "sc_heap s p = Some g"
    using assms by (auto simp: bind_eq_Some_conv)
  show thesis
  proof (cases "all_finished g")
    case True
    then show thesis using assms g skip by simp
  next
    case False
    then show thesis
      using assms g go [OF g False] stop [OF g False]
      by (auto simp: bind_eq_Some_conv Let_def estimate_tokens_def not_less Suc_le_eq split: if_splits)
  qed
qed

lemma prefills_cases:
  assumes "schedule_prefills_from (p # ps) s out bt bs = Some (s', out', bt', bs')"
  obtains (stop) "s' = s" "out' = out" "bt' = bt" "bs' = bs"
  | (go) g seq0 n seqs bm where "sc_heap s p = Some g" "group_prompt_len g \<le> bt" "0 < bs"
      "vec_at (sequences g) 0 = Some seq0"
      "num_blocks_needed (bm_block_size (sc_bm s)) seq0 = Some n" "can_allocate (sc_bm s) n"
      "mapM_st (prefill_seq n) (sequences g) (sc_bm s) = Some (seqs, bm)"
      "schedule_prefills_from ps
        (s\<lparr>sc_heap := (sc_heap s)(p \<mapsto> g\<lparr>sequences := seqs\<rparr>), sc_bm := bm,
           sc_running := sc_running s @ [p], sc_waiting := ps\<rparr>)
        (out\<lparr>scheduled_groups := scheduled_groups out @ [p]\<rparr>) (bt - group_prompt_len g) (bs - 1)
        = Some (s', out', bt', bs')"
proof (cases "s' = s \<and> out' = out \<and> bt' = bt \<and> bs' = bs")
  case True
  then show thesis using stop by blast
next
  case False
  have "0 < bs" using assms False by (cases bs) auto
  moreover obtain g where g: "sc_heap s p = Some g"
    using assms \<open>0 < bs\<close> by (auto simp: bind_eq_Some_conv Let_def)
  moreover have "group_prompt_len g \<le> bt"
    using assms False \<open>0 < bs\<close> g by (auto simp: Let_def estimate_tokens_def not_less split: if_splits)
  moreover obtain seq0 n where "vec_at (sequences g) 0 = Some seq0"
      "num_blocks_needed (bm_block_size (sc_bm s)) seq0 = Some n"
    using assms calculation by (auto simp: bind_eq_Some_conv Let_def estimate_tokens_def)
  moreover have "can_allocate (sc_bm s) n"
    using assms False calculation by (auto simp: Let_def estimate_tokens_def split: if_splits)
  ultimately show thesis
    using assms go by (auto simp: bind_eq_Some_conv Let_def estimate_tokens_def)
qed

lemma swap_in_cases:
  assumes "try_swap_in_from (p # ps) s out bt bs = Some (s', out', bt', bs')"
  obtains (stop) "s' = s" "out' = out" "bt' = bt" "bs' = bs"
  | (go) g seqs bm ops where "sc_heap s p = Some g" "num_unfinished g \<le> bt" "0 < bs"
      "can_allocate (sc_bm s) (swapped_blocks g)"
      "mapM_st swap_in_seq (sequences g) (sc_bm s, block_swaps_in out) = Some (seqs, bm, ops)"
      "try_swap_in_from ps
        (s\<lparr>sc_heap := (sc_heap s)(p \<mapsto> g\<lparr>sequences := seqs\<rparr>), sc_bm := bm,
           sc_running := sc_running s @ [p], sc_swapped := ps\<rparr>)
        (out\<lparr>block_swaps_in := ops, swapped_in_groups := swapped_in_groups out @ [p]\<rparr>)
        (bt - num_unfinished g) (bs - 1) = Some (s', out', bt', bs')"
proof (cases "s' = s \<and> out' = out \<and> bt' = bt \<and> bs' = bs")
  case True
  then show thesis using stop by blast
next
  case False
  have "0 < bs" using assms False by (cases bs) auto
  moreover obtain g where g: "sc_heap s p = Some g"
    using assms \<open>0 < bs\<close> by (auto simp: bind_eq_Some_conv Let_def)
  moreover have "num_unfinished g \<le> bt"
    using assms False \<open>0 < bs\<close> g by (auto simp: Let_def estimate_tokens_def not_less split: if_splits)
  moreover have "can_allocate (sc_bm s) (swapped_blocks g)"
    using assms False calculation by (auto simp: Let_def estimate_tokens_def split: if_splits)
  ultimately show thesis
    using assms go by (auto simp: bind_eq_Some_conv Let_def estimate_tokens_def)
qed

lemma update_group_frame:
  assumes "sc_heap s p = Some g" and "map prompt_tokens seqs = map prompt_tokens (sequences g)"
    and "mset (q1 @ q2 @ q3) = mset (queue s)"
  shows "frame s (s\<lparr>sc_heap := (sc_heap s)(p \<mapsto> g\<lparr>sequences := seqs\<rparr>), sc_bm := bm,
    sc_waiting := q1, sc_running := q2, sc_swapped := q3\<rparr>)"
  using assms by (auto simp: frame_def queue_def group_prompt_len_map)

lemma decodes_effect:
  assumes "schedule_decodes_from ps s out bt bs = Some (s', out', bt', bs')"
    and "distinct ps"
  shows "frame s s' \<and> unfinished_kept s s' \<and> swapped_in_groups out' = swapped_in_groups out \<and>
    (\<exists>new. scheduled_groups out' = scheduled_groups out @ new \<and> set new \<subseteq> set ps \<and> distinct new \<and>
       set new \<subseteq> dom (sc_heap s) \<and> bt' + unfinished_sum s new = bt \<and> bs' + length new = bs)"
  using assms
proof (induction ps arbitrary: s out bt bs)
  case Nil
  then show ?case by (auto simp: unfinished_sum_def)
next
  case (Cons p ps)
  from Cons.prems(1) show ?case
  proof (cases rule: decodes_cases)
    case (skip g)
    then show ?thesis using Cons.IH [OF skip(3)] Cons.prems(2) by auto
  next
    case (stop g)
    then show ?thesis
      using preempt_frame [OF stop(3)] by (auto simp: unfinished_sum_def intro: exI [of _ "[]"])
  next
    case (go g seqs bm)
    define s1 where "s1 = s\<lparr>sc_heap := (sc_heap s)(p \<mapsto> g\<lparr>sequences := seqs\<rparr>), sc_bm := bm\<rparr>"
    have fr: "frame s s1"
      using update_group_frame [OF go(1), of seqs "sc_waiting s" "sc_running s" "sc_swapped s" bm]
        grow_map_obs [OF go(6)] by (simp add: s1_def queue_def frame_def)
    have kp: "unfinished_kept s s1"
      using go(1) grow_map_obs [OF go(6)] by (auto simp: s1_def unfinished_kept_def num_unfinished_map)
    obtain new where IH: "frame s1 s'" "unfinished_kept s1 s'"
        "swapped_in_groups out' = swapped_in_groups out"
        "scheduled_groups out' = scheduled_groups out @ p # new" "set new \<subseteq> set ps" "distinct new"
        "set new \<subseteq> dom (sc_heap s1)" "bt' + unfinished_sum s1 new = bt - num_unfinished g"
        "bs' + length new = bs - 1"
      using Cons.IH [OF go(7) [folded s1_def]] Cons.prems(2) by auto
    have dom: "set new \<subseteq> dom (sc_heap s)" using IH(7) frame_dom [OF fr] by simp
    have "unfinished_sum s1 new = unfinished_sum s new"
      using kp dom by (intro kept_unfinished_sum) (auto simp: unfinished_kept_def)
    then have "bt' + unfinished_sum s (p # new) = bt"
      using IH(8) go(1,3) by (simp add: unfinished_sum_def)
    moreover have "bs' + length (p # new) = bs" using IH(9) go(4) by simp
    moreover have "distinct (p # new)" using IH(5,6) Cons.prems(2) by auto
    ultimately show ?thesis
      using IH dom go(1) frame_trans [OF fr] unfinished_kept_trans [OF kp]
      by (auto intro!: exI [of _ "p # new"])
  qed
qed

lemma prefills_effect:
  assumes "schedule_prefills_from ps s out bt bs = Some (s', out', bt', bs')"
    and "sc_waiting s = ps" and "distinct ps"
  shows "frame s s' \<and> swapped_in_groups out' = swapped_in_groups out \<and> sc_swapped s' = sc_swapped s \<and>
    (\<exists>new. scheduled_groups out' = scheduled_groups out @ new \<and> ps = new @ sc_waiting s' \<and>
       sc_running s' = sc_running s @ new \<and> set new \<subseteq> dom (sc_heap s) \<and>
       (\<forall>q. q \<notin> set new \<longrightarrow> sc_heap s' q = sc_heap s q) \<and>
       bt' + prompt_sum s new = bt \<and> bs' + length new = bs)"
  using assms
proof (induction ps arbitrary: s out bt bs)
  case Nil
  then show ?case by (auto simp: prompt_sum_def)
next
  case (Cons p ps)
  from Cons.prems(1) show ?case
  proof (cases rule: prefills_cases)
    case stop
    then show ?thesis using Cons.prems(2) by (auto simp: prompt_sum_def)
  next
    case (go g seq0 n seqs bm)
    define s1 where "s1 = s\<lparr>sc_heap := (sc_heap s)(p \<mapsto> g\<lparr>sequences := seqs\<rparr>), sc_bm := bm,
       sc_running := sc_running s @ [p], sc_waiting := ps\<rparr>"
    have s1: "sc_waiting s1 = ps" "sc_running s1 = sc_running s @ [p]" "sc_swapped s1 = sc_swapped s"
        "\<And>q. q \<noteq> p \<Longrightarrow> sc_heap s1 q = sc_heap s q"
      by (simp_all add: s1_def)
    have fr: "frame s s1"
      using update_group_frame [OF go(1), of seqs ps "sc_running s @ [p]" "sc_swapped s" bm]
        prefill_map_obs [OF go(7)] Cons.prems(2) by (simp add: s1_def queue_def frame_def)
    obtain new where IH: "frame s1 s'" "swapped_in_groups out' = swapped_in_groups out"
        "sc_swapped s' = sc_swapped s" "scheduled_groups out' = scheduled_groups out @ p # new"
        "ps = new @ sc_waiting s'" "sc_running s' = sc_running s @ p # new"
        "set new \<subseteq> dom (sc_heap s1)" "\<forall>q. q \<notin> set new \<longrightarrow> sc_heap s' q = sc_heap s1 q"
        "bt' + prompt_sum s1 new = bt - group_prompt_len g" "bs' + length new = bs - 1"
      using Cons.IH [OF go(8) [folded s1_def] s1(1)] s1(2,3) Cons.prems(3) by auto
    have dom: "set new \<subseteq> dom (sc_heap s)" using IH(7) frame_dom [OF fr] by simp
    have "bt' + prompt_sum s (p # new) = bt"
      using IH(9) frame_prompt_sum [OF fr dom] go(1,2) by (simp add: prompt_sum_def)
    moreover have "bs' + length (p # new) = bs" using IH(10) go(3) by simp
    ultimately show ?thesis
      using IH dom go(1) frame_trans [OF fr] s1(4) by (auto intro!: exI [of _ "p # new"])
  qed
qed

lemma swap_in_effect:
  assumes "try_swap_in_from ps s out bt bs = Some (s', out', bt', bs')"
    and "sc_swapped s = ps" and "distinct ps"
  shows "frame s s' \<and> scheduled_groups out' = scheduled_groups out \<and> sc_waiting s' = sc_waiting s \<and>
    (\<exists>new. swapped_in_groups out' = swapped_in_groups out @ new \<and> ps = new @ sc_swapped s' \<and>
       sc_running s' = sc_running s @ new \<and> set new \<subseteq> dom (sc_heap s) \<and>
       bt' + unfinished_sum s new = bt \<and> bs' + length new = bs)"
  using assms
proof (induction ps arbitrary: s out bt bs)
  case Nil
  then show ?case by (auto simp: unfinished_sum_def)
next
  case (Cons p ps)
  from Cons.prems(1) show ?case
  proof (cases rule: swap_in_cases)
    case stop
    then show ?thesis using Cons.prems(2) by (auto simp: unfinished_sum_def)
  next
    case (go g seqs bm ops)
    define s1 where "s1 = s\<lparr>sc_heap := (sc_heap s)(p \<mapsto> g\<lparr>sequences := seqs\<rparr>), sc_bm := bm,
       sc_running := sc_running s @ [p], sc_swapped := ps\<rparr>"
    have s1: "sc_swapped s1 = ps" "sc_running s1 = sc_running s @ [p]" "sc_waiting s1 = sc_waiting s"
        "\<And>q. q \<noteq> p \<Longrightarrow> sc_heap s1 q = sc_heap s q"
      by (simp_all add: s1_def)
    have fr: "frame s s1"
      using update_group_frame [OF go(1), of seqs "sc_waiting s" "sc_running s @ [p]" ps bm]
        swap_in_map_obs [OF go(5)] Cons.prems(2) by (simp add: s1_def queue_def frame_def)
    obtain new where IH: "frame s1 s'" "scheduled_groups out' = scheduled_groups out"
        "sc_waiting s' = sc_waiting s" "swapped_in_groups out' = swapped_in_groups out @ p # new"
        "ps = new @ sc_swapped s'" "sc_running s' = sc_running s @ p # new"
        "set new \<subseteq> dom (sc_heap s1)"
        "bt' + unfinished_sum s1 new = bt - num_unfinished g" "bs' + length new = bs - 1"
      using Cons.IH [OF go(6) [folded s1_def] s1(1)] s1(2,3) Cons.prems(3) by auto
    have dom: "set new \<subseteq> dom (sc_heap s)" using IH(7) frame_dom [OF fr] by simp
    have "p \<notin> set new" using IH(5) Cons.prems(3) by auto
    then have "unfinished_sum s1 new = unfinished_sum s new"
      using dom s1(4) by (intro kept_unfinished_sum) fastforce
    then have "bt' + unfinished_sum s (p # new) = bt"
      using IH(8) go(1,2) by (simp add: unfinished_sum_def)
    moreover have "bs' + length (p # new) = bs" using IH(9) go(3) by simp
    ultimately show ?thesis
      using IH dom go(1) frame_trans [OF fr] by (auto intro!: exI [of _ "p # new"])
  qed
qed

text \<open>
  A group that was scheduled for decoding is not the victim of the same step: the victim is the last
  of the running queue, at or after the iterator.
\<close>

lemma decodes_running:
  assumes "schedule_decodes_from ps s out bt bs = Some (s', out', bt', bs')"
    and "sc_running s = xs @ ps" and "set (scheduled_groups out) \<subseteq> set xs"
  shows "set (scheduled_groups out') \<subseteq> set (sc_running s')"
  using assms
proof (induction ps arbitrary: s out bt bs xs)
  case Nil
  then show ?case by auto
next
  case (Cons p ps)
  from Cons.prems(1) show ?case
  proof (cases rule: decodes_cases)
    case (skip g)
    then show ?thesis using Cons.IH [of s out bt bs "xs @ [p]"] Cons.prems by auto
  next
    case (stop g)
    have "sc_running s' = butlast (sc_running s)"
      using stop(3) Cons.prems(2) by (auto simp: preempt_def Let_def bind_eq_Some_conv split: if_splits)
    then show ?thesis
      using Cons.prems(2,3) preempt_frame(3) [OF stop(3)] by (auto simp: butlast_append)
  next
    case (go g seqs bm)
    show ?thesis by (rule Cons.IH [OF go(7), of "xs @ [p]"]) (use Cons.prems in auto)
  qed
qed

lemma sort_waiting_effect:
  assumes "sort_waiting_queue s = Some s'"
  shows "frame s s'" "sc_heap s' = sc_heap s" "sc_running s' = sc_running s"
    "sc_swapped s' = sc_swapped s" "mset (sc_waiting s') = mset (sc_waiting s)"
  using assms by (auto simp: sort_waiting_queue_def frame_def queue_def split: if_splits)

text \<open>
  One call of \<open>schedule\<close> as its three phases. An absent phase is the same as running the loop on the
  empty queue, or not at all for the swap-in.
\<close>

lemma schedule_phases:
  assumes "schedule s = Some (out, s')"
  obtains s1 out1 bt1 bs1 sw s2 out2 bt2 bs2 out3 bt3 bs3 where
    "schedule_decodes_from (sc_running s) s empty_output
       (max_num_batched_tokens (sc_config s)) (max_num_seqs (sc_config s)) = Some (s1, out1, bt1, bs1)"
    "sort_waiting_queue s1 = Some sw \<or> sw = s1"
    "schedule_prefills_from (sc_waiting sw) sw out1 bt1 bs1 = Some (s2, out2, bt2, bs2)"
    "try_swap_in_from (sc_swapped s2) s2 out2 bt2 bs2 = Some (s', out3, bt3, bs3) \<or>
     (s', out3, bt3, bs3) = (s2, out2, bt2, bs2)"
    "out = out3\<lparr>num_batched_tokens := size_sub (max_num_batched_tokens (sc_config s')) bt3\<rparr>"
proof -
  obtain s1 out1 bt1 bs1 s2 out2 bt2 bs2 out3 bt3 bs3 where
    d: "schedule_decodes s empty_output
       (max_num_batched_tokens (sc_config s)) (max_num_seqs (sc_config s)) = Some (s1, out1, bt1, bs1)"
    and p: "(if sc_waiting s1 \<noteq> [] then do {
            s1' \<leftarrow> sort_waiting_queue s1;
            schedule_prefills s1' out1 bt1 bs1
          }
          else Some (s1, out1, bt1, bs1)) = Some (s2, out2, bt2, bs2)"
    and w: "(if sc_swapped s2 \<noteq> [] \<and> bt2 > 0 \<and> bs2 > 0 then do {
            (_, r) \<leftarrow> try_swap_in s2 out2 bt2 bs2;
            Some r
          }
          else Some (s2, out2, bt2, bs2)) = Some (s', out3, bt3, bs3)"
    and o: "out = out3\<lparr>num_batched_tokens := size_sub (max_num_batched_tokens (sc_config s')) bt3\<rparr>"
    using assms unfolding schedule_def Let_def by (auto simp only: bind_eq_Some_conv split: prod.splits) auto
  have "\<exists>sw. (sort_waiting_queue s1 = Some sw \<or> sw = s1) \<and>
      schedule_prefills_from (sc_waiting sw) sw out1 bt1 bs1 = Some (s2, out2, bt2, bs2)"
    using p by (cases "sc_waiting s1 = []") (auto simp: schedule_prefills_def bind_eq_Some_conv)
  moreover have "try_swap_in_from (sc_swapped s2) s2 out2 bt2 bs2 = Some (s', out3, bt3, bs3) \<or>
     (s', out3, bt3, bs3) = (s2, out2, bt2, bs2)"
    using w by (auto simp: try_swap_in_def bind_eq_Some_conv split: if_splits)
  ultimately show thesis
    using that [of s1 out1 bt1 bs1 _ s2 out2 bt2 bs2 out3 bt3 bs3] d o
    by (auto simp: schedule_decodes_def)
qed


lemma queues_wf_parts:
  assumes "queues_wf s"
  shows "distinct (sc_waiting s)" "distinct (sc_running s)" "distinct (sc_swapped s)"
    "set (sc_waiting s) \<inter> set (sc_running s) = {}" "set (sc_running s) \<inter> set (sc_swapped s) = {}"
    "set (sc_waiting s) \<inter> set (sc_swapped s) = {}"
    "set (sc_waiting s) \<subseteq> dom (sc_heap s)" "set (sc_running s) \<subseteq> dom (sc_heap s)"
    "set (sc_swapped s) \<subseteq> dom (sc_heap s)"
  using assms by (auto simp: queues_wf_def queue_def)

lemma schedule_frame:
  assumes "schedule s = Some (out, s')" and "queues_wf s"
  shows "frame s s'"
  using assms(1)
proof (cases rule: schedule_phases)
  case (1 s1 out1 bt1 bs1 sw s2 out2 bt2 bs2 out3 bt3 bs3)
  have f1: "frame s s1" using decodes_effect [OF 1(1)] queues_wf_parts [OF assms(2)] by blast
  have f2: "frame s1 sw" using 1(2) sort_waiting_effect(1) by auto
  have w: "queues_wf sw" using f1 f2 assms(2) frame_queues_wf by blast
  have f3: "frame sw s2" using prefills_effect [OF 1(3) refl] queues_wf_parts [OF w] by blast
  have w2: "queues_wf s2" using f3 w frame_queues_wf by blast
  have f4: "frame s2 s'" using 1(4) swap_in_effect [OF _ refl] queues_wf_parts [OF w2] by fastforce
  from f1 f2 f3 f4 show ?thesis by (blast intro: frame_trans)
qed

text \<open>
  The accounting of one step: the groups it decodes were running, those it prefills were waiting or
  have just been preempted, those it swaps in were swapped out or have just been preempted.
\<close>

lemma schedule_budget:
  assumes "schedule s = Some (out, s')" and wf: "queues_wf s"
  shows "\<exists>dec pre. scheduled_groups out = dec @ pre \<and> distinct (dec @ pre @ swapped_in_groups out) \<and>
    set dec \<subseteq> set (sc_running s) \<and> set (dec @ pre @ swapped_in_groups out) \<subseteq> set (sc_running s') \<and>
    length (dec @ pre @ swapped_in_groups out) \<le> max_num_seqs (sc_config s) \<and>
    num_batched_tokens out =
      unfinished_sum s dec + prompt_sum s pre + unfinished_sum s (swapped_in_groups out) \<and>
    num_batched_tokens out \<le> max_num_batched_tokens (sc_config s)"
  using assms(1)
proof (cases rule: schedule_phases)
  case (1 s1 out1 bt1 bs1 sw s2 out2 bt2 bs2 out3 bt3 bs3)
  let ?T = "max_num_batched_tokens (sc_config s)" and ?S = "max_num_seqs (sc_config s)"
  obtain dec where d: "frame s s1" "unfinished_kept s s1" "scheduled_groups out1 = dec"
      "set dec \<subseteq> set (sc_running s)" "distinct dec" "set dec \<subseteq> dom (sc_heap s)"
      "bt1 + unfinished_sum s dec = ?T" "bs1 + length dec = ?S" "swapped_in_groups out1 = []"
    using decodes_effect [OF 1(1)] queues_wf_parts [OF wf] by (auto simp: empty_output_def)
  have run1: "set dec \<subseteq> set (sc_running s1)"
    using decodes_running [OF 1(1), of "[]"] d(3) by (simp add: empty_output_def)
  have sw: "frame s1 sw" "sc_heap sw = sc_heap s1" "sc_running sw = sc_running s1"
      "sc_swapped sw = sc_swapped s1"
    using 1(2) sort_waiting_effect by auto
  have wsw: "queues_wf sw" using d(1) sw(1) wf frame_queues_wf by blast
  obtain pre where p: "frame sw s2" "scheduled_groups out2 = dec @ pre" "swapped_in_groups out2 = []"
      "sc_swapped s2 = sc_swapped s1" "sc_waiting sw = pre @ sc_waiting s2"
      "sc_running s2 = sc_running s1 @ pre" "set pre \<subseteq> dom (sc_heap sw)"
      "\<forall>q. q \<notin> set pre \<longrightarrow> sc_heap s2 q = sc_heap sw q"
      "bt2 + prompt_sum sw pre = bt1" "bs2 + length pre = bs1"
    using prefills_effect [OF 1(3) refl] queues_wf_parts [OF wsw] d(3,9) sw by fastforce
  have ws2: "queues_wf s2" using p(1) wsw frame_queues_wf by blast
  have "\<exists>swp. frame s2 s' \<and> scheduled_groups out3 = dec @ pre \<and> swapped_in_groups out3 = swp \<and>
      sc_swapped s2 = swp @ sc_swapped s' \<and> sc_running s' = sc_running s2 @ swp \<and>
      set swp \<subseteq> dom (sc_heap s2) \<and> bt3 + unfinished_sum s2 swp = bt2 \<and> bs3 + length swp = bs2"
    using 1(4)
  proof
    assume "try_swap_in_from (sc_swapped s2) s2 out2 bt2 bs2 = Some (s', out3, bt3, bs3)"
    from swap_in_effect [OF this refl] show ?thesis using queues_wf_parts [OF ws2] p(2,3) by auto
  next
    assume "(s', out3, bt3, bs3) = (s2, out2, bt2, bs2)"
    then show ?thesis using p(2,3) by (auto simp: unfinished_sum_def)
  qed
  then obtain swp where w: "frame s2 s'" "scheduled_groups out3 = dec @ pre"
      "swapped_in_groups out3 = swp" "sc_swapped s2 = swp @ sc_swapped s'"
      "sc_running s' = sc_running s2 @ swp" "set swp \<subseteq> dom (sc_heap s2)"
      "bt3 + unfinished_sum s2 swp = bt2" "bs3 + length swp = bs2"
    by blast
  have doms: "dom (sc_heap sw) = dom (sc_heap s)" "dom (sc_heap s2) = dom (sc_heap s)"
    using frame_dom d(1) sw(1) p(1) by blast+
  have e1: "prompt_sum sw pre = prompt_sum s pre"
    using p(7) doms frame_prompt_sum frame_trans [OF d(1) sw(1)] by simp
  have dis: "set pre \<inter> set swp = {}"
    using queues_wf_parts(6) [OF wsw] p(5) w(4) p(4) sw(4) by auto
  have e2: "unfinished_sum s2 swp = unfinished_sum s swp"
    using d(2) w(6) doms dis p(8) sw(2)
    by (intro kept_unfinished_sum) (force simp: unfinished_kept_def)
  have cfg: "sc_config s' = sc_config s"
    using d(1) sw(1) p(1) w(1) by (simp add: frame_def)
  have "distinct (sc_running s' @ [])"
    using frame_queues_wf [OF w(1) ws2] queues_wf_parts(2) by auto
  then have "distinct (dec @ pre @ swp)"
    using run1 d(5) by (auto simp: w(5) p(6))
  moreover have "set (dec @ pre @ swp) \<subseteq> set (sc_running s')"
    using run1 by (auto simp: w(5) p(6))
  moreover have "length (dec @ pre @ swp) \<le> ?S"
    using d(8) p(10) w(8) by simp
  moreover have "?T - bt3 = unfinished_sum s dec + prompt_sum s pre + unfinished_sum s swp" "bt3 \<le> ?T"
    using d(7) p(9) w(7) e1 e2 by simp_all
  ultimately show ?thesis
    using d(4) w(2,3) 1(5) cfg by (intro exI [of _ dec] exI [of _ pre]) simp
qed

section \<open>Requests enter, are aborted and leave\<close>

lemma abort_map_obs:
  assumes "mapM_st abort_seq xs bm = Some (ys, bm')"
  shows "map prompt_tokens ys = map prompt_tokens xs \<and> list_all seq_finished ys"
proof
  show "map prompt_tokens ys = map prompt_tokens xs"
    by (rule mapM_st_map [OF assms]) (erule abort_seq_obs)
  show "list_all seq_finished ys"
    using assms
    by (induction xs arbitrary: bm ys) (auto simp: bind_eq_Some_conv dest: abort_seq_obs(3))
qed

lemma add_request_queues_wf:
  assumes "queues_wf s" and "p \<notin> dom (sc_heap s)"
  shows "queues_wf (add_request p g s)"
proof -
  have "sc_request_map s rid \<noteq> Some p" for rid
    using assms unfolding queues_wf_def by blast
  then show ?thesis using assms by (auto simp: queues_wf_def add_request_def queue_def)
qed

text \<open>An abort is a frame but for the entry it removes from the request map.\<close>

lemma abort_request_effect:
  assumes "abort_request rid s = Some s'" and "queues_wf s"
  shows "queues_wf s'" "queue s' = queue s" "sc_request_map s' = (sc_request_map s)(rid := None)"
    "sc_request_map s rid = Some p \<Longrightarrow> \<exists>g. sc_heap s' p = Some g \<and> request_id g = rid \<and> all_finished g"
    "sc_request_map s rid \<noteq> Some q \<Longrightarrow> sc_heap s' q = sc_heap s q"
proof -
  have none: "s' = s" if "sc_request_map s rid = None"
    using assms(1) that by (simp add: abort_request_def)
  have some: "\<exists>g seqs bm. sc_heap s p = Some g \<and> request_id g = rid \<and> list_all seq_finished seqs \<and>
      s' = s\<lparr>sc_heap := (sc_heap s)(p \<mapsto> g\<lparr>sequences := seqs\<rparr>), sc_bm := bm,
             sc_request_map := (sc_request_map s)(rid := None)\<rparr>" if "sc_request_map s rid = Some p" for p
  proof -
    have "\<exists>g. sc_heap s p = Some g \<and> request_id g = rid"
      using assms(2) \<open>sc_request_map s rid = Some p\<close> unfolding queues_wf_def by blast
    then obtain g seqs bm where "sc_heap s p = Some g" "request_id g = rid"
        "mapM_st abort_seq (sequences g) (sc_bm s) = Some (seqs, bm)"
        "s' = s\<lparr>sc_heap := (sc_heap s)(p \<mapsto> g\<lparr>sequences := seqs\<rparr>), sc_bm := bm,
               sc_request_map := (sc_request_map s)(rid := None)\<rparr>"
      using assms(1) \<open>sc_request_map s rid = Some p\<close> by (auto simp: abort_request_def bind_eq_Some_conv)
    with abort_map_obs show ?thesis by blast
  qed
  have "queue s' = queue s \<and> sc_request_map s' = (sc_request_map s)(rid := None) \<and>
      (\<forall>q. sc_request_map s rid \<noteq> Some q \<longrightarrow> sc_heap s' q = sc_heap s q) \<and> queues_wf s'"
  proof (cases "sc_request_map s rid")
    case None
    then show ?thesis using none assms(2) by (simp add: fun_upd_idem)
  next
    case (Some p)
    from some [OF this] obtain g seqs bm where "sc_heap s p = Some g" and
      s': "s' = s\<lparr>sc_heap := (sc_heap s)(p \<mapsto> g\<lparr>sequences := seqs\<rparr>), sc_bm := bm,
             sc_request_map := (sc_request_map s)(rid := None)\<rparr>" by blast
    moreover from this(1) have "request_id g = r" if "sc_request_map s r = Some p" for r
      using assms(2) that unfolding queues_wf_def by (metis option.inject)
    moreover from calculation assms(2) have "queues_wf s'" by (auto simp: queues_wf_def queue_def)
    ultimately show ?thesis using Some by (simp add: queue_def)
  qed
  then show "queue s' = queue s" "sc_request_map s' = (sc_request_map s)(rid := None)" "queues_wf s'"
    "sc_request_map s rid \<noteq> Some q \<Longrightarrow> sc_heap s' q = sc_heap s q" by blast+
  show "\<exists>g. sc_heap s' p = Some g \<and> request_id g = rid \<and> all_finished g"
    if "sc_request_map s rid = Some p"
    using some [OF that] by (auto simp: all_finished_def)
qed

lemma remove_finished_effect:
  assumes "remove_finished ps s = Some (qs, s')" and "distinct ps"
  shows "qs = filter (\<lambda>p. \<not> all_finished (the (sc_heap s p))) ps" (is ?q)
    "sc_heap s' = (sc_heap s) |` (- (set ps - set qs))" (is ?h)
    "sc_config s' = sc_config s" "sc_waiting s' = sc_waiting s" "sc_running s' = sc_running s"
    "sc_swapped s' = sc_swapped s"
    "sc_request_map s' = (sc_request_map s) |`
       {rid. \<forall>p \<in> set ps - set qs. request_id (the (sc_heap s p)) \<noteq> rid}" (is ?m)
proof -
  have "?q \<and> ?h \<and> sc_config s' = sc_config s \<and> sc_waiting s' = sc_waiting s \<and>
    sc_running s' = sc_running s \<and> sc_swapped s' = sc_swapped s \<and> ?m"
    using assms
  proof (induction ps arbitrary: s qs)
    case Nil
    then show ?case by (auto simp: restrict_map_def)
  next
    case (Cons p ps)
    then obtain g where g: "sc_heap s p = Some g" by (auto simp: bind_eq_Some_conv)
    show ?case
    proof (cases "all_finished g")
      case False
      then obtain qs1 where q: "remove_finished ps s = Some (qs1, s')" "qs = p # qs1"
        using Cons.prems(1) g by (auto simp: bind_eq_Some_conv)
      have "set (p # ps) - set (p # qs1) = set ps - set qs1" using Cons.prems(2) by auto
      then show ?thesis using Cons.IH [OF q(1)] Cons.prems(2) q(2) g False by simp
    next
      case True
      then obtain s1 where q: "remove_finished ps s1 = Some (qs, s')"
        and s1: "sc_heap s1 = (sc_heap s)(p := None)" "sc_waiting s1 = sc_waiting s"
          "sc_request_map s1 = (sc_request_map s)(request_id g := None)"
          "sc_config s1 = sc_config s" "sc_running s1 = sc_running s" "sc_swapped s1 = sc_swapped s"
        using Cons.prems(1) g by (auto simp: bind_eq_Some_conv)
      have IH: "qs = filter (\<lambda>q. \<not> all_finished (the (((sc_heap s)(p := None)) q))) ps"
          "sc_heap s' = ((sc_heap s)(p := None)) |` (- (set ps - set qs))"
          "sc_config s' = sc_config s" "sc_waiting s' = sc_waiting s" "sc_running s' = sc_running s"
          "sc_swapped s' = sc_swapped s"
          "sc_request_map s' = ((sc_request_map s)(request_id g := None)) |`
            {rid. \<forall>q \<in> set ps - set qs. request_id (the (((sc_heap s)(p := None)) q)) \<noteq> rid}"
        using Cons.IH [OF q] Cons.prems(2) unfolding distinct.simps s1 by blast+
      have flt: "filter (\<lambda>q. \<not> all_finished (the (((sc_heap s)(p := None)) q))) ps =
          filter (\<lambda>q. \<not> all_finished (the (sc_heap s q))) ps"
        using Cons.prems(2) by (intro filter_cong) auto
      have qs: "qs = filter (\<lambda>q. \<not> all_finished (the (sc_heap s q))) ps"
        using IH(1) flt by simp
      then have "p \<notin> set qs" using Cons.prems(2) by auto
      have "sc_heap s' = sc_heap s |` (- (set (p # ps) - set qs))"
        using IH(2) \<open>p \<notin> set qs\<close> by (auto simp: restrict_map_def fun_eq_iff)
      moreover have "sc_request_map s' = (sc_request_map s) |`
          {rid. \<forall>q \<in> set (p # ps) - set qs. request_id (the (sc_heap s q)) \<noteq> rid}"
      proof -
        have "set (p # ps) - set qs = insert p (set ps - set qs)" using \<open>p \<notin> set qs\<close> by auto
        moreover have "request_id (the (((sc_heap s)(p := None)) q)) = request_id (the (sc_heap s q))"
          if "q \<in> set ps - set qs" for q using that Cons.prems(2) by auto
        ultimately show ?thesis
          using IH(7) g by (auto simp: restrict_map_def fun_eq_iff)
      qed
      ultimately show ?thesis using IH(3-6) qs g True by simp
    qed
  qed
  then show ?q ?h "sc_config s' = sc_config s" "sc_waiting s' = sc_waiting s"
    "sc_running s' = sc_running s" "sc_swapped s' = sc_swapped s" ?m by blast+
qed

text \<open>Removing the finished groups of the running and the waiting queue, and only those.\<close>

lemma free_finished_effect:
  assumes "free_finished_requests s = Some s'" and wf: "queues_wf s"
  shows "queues_wf s'" "sc_swapped s' = sc_swapped s"
    "sc_running s' = filter (\<lambda>p. \<not> all_finished (the (sc_heap s p))) (sc_running s)"
    "sc_waiting s' = filter (\<lambda>p. \<not> all_finished (the (sc_heap s p))) (sc_waiting s)"
    "p \<in> set (queue s') \<Longrightarrow> sc_heap s' p = sc_heap s p"
proof -
  obtain run s1 wait s2 where r: "remove_finished (sc_running s) s = Some (run, s1)"
    and w: "remove_finished (sc_waiting s) (s1\<lparr>sc_running := run\<rparr>) = Some (wait, s2)"
    and s': "s' = s2\<lparr>sc_waiting := wait\<rparr>"
  proof -
    obtain run s1 where r: "remove_finished (sc_running s) s = Some (run, s1)"
      using assms(1) by (auto simp: free_finished_requests_def bind_eq_Some_conv)
    moreover obtain wait s2 where "remove_finished (sc_waiting s) (s1\<lparr>sc_running := run\<rparr>) = Some (wait, s2)"
      "s' = s2\<lparr>sc_waiting := wait\<rparr>"
      using assms(1) r remove_finished_effect(4) [OF r] queues_wf_parts [OF wf]
      by (auto simp: free_finished_requests_def bind_eq_Some_conv)
    ultimately show thesis using that by blast
  qed
  note re = remove_finished_effect [OF r queues_wf_parts(2) [OF wf]]
  note we = remove_finished_effect [OF w queues_wf_parts(1) [OF wf], simplified]
  note dis = queues_wf_parts [OF wf]
  show sw: "sc_swapped s' = sc_swapped s" using re we s' by simp
  show ru: "sc_running s' = filter (\<lambda>p. \<not> all_finished (the (sc_heap s p))) (sc_running s)"
    using re we s' by simp
  have h1: "sc_heap s1 p = sc_heap s p" if "p \<notin> set (sc_running s)" for p
    using that by (simp add: re(2) restrict_map_def)
  show wa: "sc_waiting s' = filter (\<lambda>p. \<not> all_finished (the (sc_heap s p))) (sc_waiting s)"
  proof -
    have "sc_waiting s' = filter (\<lambda>p. \<not> all_finished (the (sc_heap s1 p))) (sc_waiting s)"
      using we(1) s' by simp
    also have "\<dots> = filter (\<lambda>p. \<not> all_finished (the (sc_heap s p))) (sc_waiting s)"
      using dis(4) by (intro filter_cong) (auto simp: h1 disjoint_iff)
    finally show ?thesis .
  qed
  have h: "sc_heap s' = sc_heap s |` set (queue s')"
  proof -
    have "sc_heap s' = sc_heap s |` (- ((set (sc_running s) - set run) \<union> (set (sc_waiting s) - set wait)))"
      using re(2) we(2) s' by (auto simp: restrict_map_def fun_eq_iff)
    also have "\<dots> = sc_heap s |` set (queue s')"
    proof (rule ext)
      fix p
      have "p \<in> dom (sc_heap s) \<longleftrightarrow> p \<in> set (queue s)" using wf by (simp add: queues_wf_def)
      moreover have "set (queue s') = set run \<union> set wait \<union> set (sc_swapped s)"
        "set run \<subseteq> set (sc_running s)" "set wait \<subseteq> set (sc_waiting s)"
        using ru sw re(1) s' we by (auto simp: queue_def)
      ultimately show "(sc_heap s |` (- ((set (sc_running s) - set run) \<union> (set (sc_waiting s) - set wait)))) p =
          (sc_heap s |` set (queue s')) p"
        using dis(4-6) by (cases "sc_heap s p") (auto simp: restrict_map_def queue_def dom_def)
    qed
    finally show ?thesis .
  qed
  then show "p \<in> set (queue s') \<Longrightarrow> sc_heap s' p = sc_heap s p" by simp
  have sub: "set (queue s') \<subseteq> set (queue s)" "distinct (queue s')"
    using wf by (auto simp: queue_def ru wa sw queues_wf_def)
  have "dom (sc_heap s') = set (queue s')"
    using h sub(1) wf by (auto simp: queues_wf_def)
  moreover have "\<exists>g. sc_heap s' p = Some g \<and> request_id g = rid" if "sc_request_map s' rid = Some p" for rid p
  proof -
    have m: "sc_request_map s rid = Some p"
      "\<forall>q \<in> set (sc_running s) - set run. request_id (the (sc_heap s q)) \<noteq> rid"
      "\<forall>q \<in> set (sc_waiting s) - set wait. request_id (the (sc_heap s1 q)) \<noteq> rid"
      using that s' we(7) re(7) by (auto simp: restrict_map_def split: if_splits)
    then obtain g where g: "sc_heap s p = Some g" "request_id g = rid"
      using wf unfolding queues_wf_def by blast
    have "p \<in> set (queue s)" using g(1) wf by (auto simp: queues_wf_def)
    moreover have "p \<in> set run" if "p \<in> set (sc_running s)"
      using m(2) g that by (metis Diff_iff option.sel)
    moreover have "p \<in> set wait" if "p \<in> set (sc_waiting s)"
      using m(3) g that h1 [of p] dis(4) by (metis Diff_iff disjoint_iff option.sel)
    moreover have "set (queue s') = set run \<union> set wait \<union> set (sc_swapped s)"
      using ru sw re(1) s' by (auto simp: queue_def)
    ultimately have "p \<in> set (queue s')" by (auto simp: queue_def)
    with g h show ?thesis by simp
  qed
  ultimately show "queues_wf s'" using sub(2) by (simp add: queues_wf_def)
qed

end
