(* ===== verification/Batch_Manager.thy ===== *)
theory Batch_Manager
  imports Scheduler
begin

text \<open>
  The batch manager, \<open>src/src/cacheflow/scheduler/batch_manager.{h,cpp}\<close>: it flattens the scheduled
  groups into token positions for one forward pass, and hands the sampled tokens back to the
  sequences. It reads and writes the group objects through the raw pointers of the scheduling
  output, so its operations work on the scheduler's store.
\<close>

section \<open>Batches\<close>

record batch_entry =
  be_seq_id :: seq_id
  be_token :: token_id
  be_position :: int
  be_block_table :: "block_id list"
  be_is_prefill :: bool

record decode_batch =
  entries :: "batch_entry list"
  total_tokens :: nat

definition batch_clear :: decode_batch where
  "batch_clear = \<lparr>entries = [], total_tokens = 0\<rparr>"

definition batch_empty :: "decode_batch \<Rightarrow> bool" where
  "batch_empty b \<longleftrightarrow> entries b = []"

definition batch_add ::
    "seq_id \<Rightarrow> token_id \<Rightarrow> int \<Rightarrow> block_id list \<Rightarrow> bool \<Rightarrow> decode_batch \<Rightarrow> decode_batch" where
  "batch_add sid tok pos blocks prefill b =
     b\<lparr>entries := entries b @ [\<lparr>be_seq_id = sid, be_token = tok, be_position = pos,
         be_block_table = blocks, be_is_prefill = prefill\<rparr>],
       total_tokens := total_tokens b + 1\<rparr>"

record batch_stats =
  num_prefill_tokens :: nat
  num_decode_tokens :: nat
  num_sequences :: nat
  padding_tokens :: nat
  gpu_utilization_est :: real

definition zero_batch_stats :: batch_stats where
  "zero_batch_stats =
     \<lparr>num_prefill_tokens = 0, num_decode_tokens = 0, num_sequences = 0, padding_tokens = 0,
      gpu_utilization_est = 0\<rparr>"

record batch_manager =
  bt_model_config :: model_config
  bt_max_batch_tokens :: nat
  bt_max_num_seqs :: nat
  bt_current_batch :: decode_batch
  bt_last_stats :: batch_stats

definition batch_manager_new :: "model_config \<Rightarrow> scheduler_config \<Rightarrow> batch_manager" where
  "batch_manager_new m c =
     \<lparr>bt_model_config = m, bt_max_batch_tokens = max_num_batched_tokens c,
      bt_max_num_seqs = max_num_seqs c, bt_current_batch = batch_clear,
      bt_last_stats = zero_batch_stats\<rparr>"

definition max_batch_tokens :: "batch_manager \<Rightarrow> nat" where
  "max_batch_tokens bt = bt_max_batch_tokens bt"

definition current_batch_size :: "batch_manager \<Rightarrow> nat" where
  "current_batch_size bt = length (entries (bt_current_batch bt))"

definition last_stats :: "batch_manager \<Rightarrow> batch_stats" where
  "last_stats bt = bt_last_stats bt"

section \<open>Building a batch\<close>

definition batch_prefill ::
    "sequence_data \<Rightarrow> decode_batch \<times> batch_stats \<Rightarrow> decode_batch \<times> batch_stats" where
  "batch_prefill seq =
     fold (\<lambda>i (b, st).
       (batch_add (sd_seq_id seq) (prompt_tokens seq ! i) (to_i32 (int i)) (logical_blocks seq) True b,
        st\<lparr>num_prefill_tokens := num_prefill_tokens st + 1\<rparr>))
     [0..<prompt_len seq]"

text \<open>\<open>back()\<close> of an empty vector is undefined.\<close>

definition last_token :: "sequence_data \<Rightarrow> token_id option" where
  "last_token seq =
     (if output_tokens seq = [] then
        (if prompt_tokens seq = [] then None else Some (last (prompt_tokens seq)))
      else Some (last (output_tokens seq)))"

definition batch_seq ::
    "sequence_data \<Rightarrow> decode_batch \<times> batch_stats \<Rightarrow> (decode_batch \<times> batch_stats) option" where
  "batch_seq seq bst =
     (if seq_finished seq then Some bst
      else do {
        (b1, st1) \<leftarrow>
          (if output_len seq = 0 then Some (batch_prefill seq bst)
           else do {
             last_tok \<leftarrow> last_token seq;
             let (b, st) = bst;
             Some (batch_add (sd_seq_id seq) last_tok (to_i32 (int (size_sub (total_len seq) 1)))
                     (logical_blocks seq) False b,
                   st\<lparr>num_decode_tokens := num_decode_tokens st + 1\<rparr>)
           });
        Some (b1, st1\<lparr>num_sequences := num_sequences st1 + 1\<rparr>)
      })"

definition max_position :: "decode_batch \<Rightarrow> int" where
  "max_position b = fold (\<lambda>e m. max m (be_position e)) (entries b) 0"

text \<open>\<open>max_pos + 1\<close> is a signed addition.\<close>

definition compute_padding :: "decode_batch \<Rightarrow> batch_stats \<Rightarrow> batch_stats option" where
  "compute_padding b st =
     (if entries b = [] then Some st
      else do {
        width \<leftarrow> inc_i32 (max_position b);
        let actual_tokens = length (entries b);
        let padded_tokens = (num_sequences st * size_of_i32 width) mod size_max;
        Some (st\<lparr>padding_tokens :=
          (if padded_tokens > actual_tokens then padded_tokens - actual_tokens else 0)\<rparr>)
      })"

text \<open>With a budget of zero the quotient of a non-empty batch is infinite and is cut to one.\<close>

definition estimate_gpu_util :: "nat \<Rightarrow> decode_batch \<Rightarrow> batch_stats \<Rightarrow> real" where
  "estimate_gpu_util budget b st =
     (if batch_empty b then 0
      else if budget = 0 then 1
      else min (real (num_prefill_tokens st + num_decode_tokens st) / real budget) 1)"

definition build_batch ::
    "(ptr \<rightharpoonup> sequence_group) \<Rightarrow> scheduler_output \<Rightarrow> batch_manager \<Rightarrow>
     (decode_batch \<times> batch_manager) option" where
  "build_batch h out bt =
     do {
       (b, st) \<leftarrow> foldM (\<lambda>p bst. do { g \<leftarrow> h p; foldM batch_seq (sequences g) bst })
         (scheduled_groups out) (batch_clear, zero_batch_stats);
       st1 \<leftarrow> compute_padding b st;
       let st2 = st1\<lparr>gpu_utilization_est := estimate_gpu_util (bt_max_batch_tokens bt) b st1\<rparr>;
       Some (b, bt\<lparr>bt_current_batch := b, bt_last_stats := st2\<rparr>)
     }"

section \<open>Handing out the sampled tokens\<close>

text \<open>
  The loop over the sequences of a group, with the group's \<open>first_token_time\<close> and the token index.
  \<open>clock i\<close> is the reading of \<open>Clock::now()\<close> when the token with index \<open>i\<close> is handed out. The
  \<open>break\<close> leaves this loop only.
\<close>

fun update_seqs ::
    "(nat \<Rightarrow> time_point) \<Rightarrow> int \<Rightarrow> token_id list \<Rightarrow> sequence_data list \<Rightarrow> time_point option \<Rightarrow> nat \<Rightarrow>
     sequence_data list \<times> time_point option \<times> nat" where
  "update_seqs clock mx toks [] ft i = ([], ft, i)"
| "update_seqs clock mx toks (seq # seqs) ft i =
     (if seq_finished seq then
        let (ys, ft1, i1) = update_seqs clock mx toks seqs ft i in (seq # ys, ft1, i1)
      else if length toks \<le> i then (seq # seqs, ft, i)
      else
        let seq1 = append_token (toks ! i) seq;
            ft1 = (if ft = None \<and> output_len seq1 = 1 then Some (clock i) else ft);
            seq2 = (if to_i32 (int (output_len seq1)) \<ge> mx then seq1\<lparr>status := FINISHED_LENGTH\<rparr> else seq1);
            (ys, ft2, i2) = update_seqs clock mx toks seqs ft1 (i + 1)
        in (seq2 # ys, ft2, i2))"

definition update_group ::
    "(nat \<Rightarrow> time_point) \<Rightarrow> token_id list \<Rightarrow> sequence_group \<Rightarrow> nat \<Rightarrow> sequence_group \<times> nat" where
  "update_group clock toks g i =
     (let (seqs, ft, i1) =
        update_seqs clock (max_tokens (sampling g)) toks (sequences g) (first_token_time g) i
      in (g\<lparr>sequences := seqs, first_token_time := ft\<rparr>, i1))"

fun update_groups ::
    "(nat \<Rightarrow> time_point) \<Rightarrow> token_id list \<Rightarrow> ptr list \<Rightarrow> (ptr \<rightharpoonup> sequence_group) \<Rightarrow> nat \<Rightarrow>
     (ptr \<rightharpoonup> sequence_group) option" where
  "update_groups clock toks [] h i = Some h"
| "update_groups clock toks (p # ps) h i =
     do {
       g \<leftarrow> h p;
       let (g1, i1) = update_group clock toks g i;
       update_groups clock toks ps (h(p \<mapsto> g1)) i1
     }"

definition update_after_decode ::
    "(nat \<Rightarrow> time_point) \<Rightarrow> scheduler_output \<Rightarrow> token_id list \<Rightarrow> (ptr \<rightharpoonup> sequence_group) \<Rightarrow>
     (ptr \<rightharpoonup> sequence_group) option" where
  "update_after_decode clock out new_tokens h =
     update_groups clock new_tokens (scheduled_groups out) h 0"

lemmas batch_eval [cf_defs] = update_after_decode_def update_group_def append_token_def

section \<open>What a batch contains\<close>

text \<open>The entries one sequence contributes: its whole prompt at the first step, then its last token.\<close>

definition seq_entries :: "sequence_data \<Rightarrow> batch_entry list" where
  "seq_entries seq =
     (if seq_finished seq then []
      else if output_tokens seq = [] then
        map (\<lambda>i. \<lparr>be_seq_id = sd_seq_id seq, be_token = prompt_tokens seq ! i, be_position = to_i32 (int i),
                be_block_table = logical_blocks seq, be_is_prefill = True\<rparr>) [0..<prompt_len seq]
      else [\<lparr>be_seq_id = sd_seq_id seq, be_token = last (output_tokens seq),
             be_position = to_i32 (int (total_len seq - 1)),
             be_block_table = logical_blocks seq, be_is_prefill = False\<rparr>])"

definition group_entries :: "sequence_group \<Rightarrow> batch_entry list" where
  "group_entries g = concat (map seq_entries (sequences g))"

definition count_prefill :: "batch_entry list \<Rightarrow> nat" where
  "count_prefill es = length (filter be_is_prefill es)"

text \<open>The accumulated batch and its counters, for a given list of entries and number of sequences.\<close>

definition acc_batch :: "batch_entry list \<Rightarrow> nat \<Rightarrow> decode_batch \<times> batch_stats" where
  "acc_batch es n =
     (\<lparr>entries = es, total_tokens = length es\<rparr>,
      zero_batch_stats\<lparr>num_prefill_tokens := count_prefill es,
        num_decode_tokens := length es - count_prefill es, num_sequences := n\<rparr>)"

lemma count_prefill_simps [simp]:
  "count_prefill [] = 0" "count_prefill (xs @ ys) = count_prefill xs + count_prefill ys"
  "count_prefill (e # es) = (if be_is_prefill e then 1 else 0) + count_prefill es"
  by (simp_all add: count_prefill_def)

lemma count_prefill_le [simp]: "count_prefill es \<le> length es"
  by (simp add: count_prefill_def)

lemma batch_seq_acc:
  "batch_seq seq (acc_batch es n) =
     Some (acc_batch (es @ seq_entries seq) (n + of_bool (\<not> seq_finished seq)))"
proof -
  let ?e = "\<lambda>i. \<lparr>be_seq_id = sd_seq_id seq, be_token = prompt_tokens seq ! i, be_position = to_i32 (int i),
                be_block_table = logical_blocks seq, be_is_prefill = True\<rparr>"
  have pre: "fold (\<lambda>i (b, st).
       (batch_add (sd_seq_id seq) (prompt_tokens seq ! i) (to_i32 (int i)) (logical_blocks seq) True b,
        st\<lparr>num_prefill_tokens := num_prefill_tokens st + 1\<rparr>)) is (acc_batch es n) =
      acc_batch (es @ map ?e is) n" for "is" es
  proof (induction "is" arbitrary: es)
    case (Cons i "is")
    have "length es + 1 - (count_prefill es + 1) = length es - count_prefill es" by simp
    then have "(batch_add (sd_seq_id seq) (prompt_tokens seq ! i) (to_i32 (int i)) (logical_blocks seq) True
          (fst (acc_batch es n)),
        (snd (acc_batch es n))\<lparr>num_prefill_tokens := num_prefill_tokens (snd (acc_batch es n)) + 1\<rparr>) =
      acc_batch (es @ [?e i]) n"
      by (simp add: acc_batch_def batch_add_def)
    with Cons.IH [of "es @ [?e i]"] show ?case by (simp add: case_prod_beta)
  qed simp
  show ?thesis
  proof (cases "seq_finished seq")
    case True
    then show ?thesis by (simp add: batch_seq_def seq_entries_def)
  next
    case open_seq: False
    show ?thesis
    proof (cases "output_tokens seq = []")
      case True
      then show ?thesis
        using open_seq pre [of _ es]
        by (simp add: batch_seq_def batch_prefill_def seq_entries_def output_len_def acc_batch_def)
    next
      case False
      have "Suc (length es - count_prefill es) = Suc (length es) - count_prefill es"
        by (simp add: Suc_diff_le)
      moreover have "1 \<le> total_len seq" using False by (cases "output_tokens seq") (auto simp: total_len_def output_len_def)
      ultimately show ?thesis
        using open_seq False
        by (simp add: batch_seq_def seq_entries_def output_len_def acc_batch_def last_token_def batch_add_def)
    qed
  qed
qed

lemma batch_seqs_acc:
  "foldM batch_seq seqs (acc_batch es n) =
     Some (acc_batch (es @ concat (map seq_entries seqs)) (n + length (filter (\<lambda>s. \<not> seq_finished s) seqs)))"
  by (induction seqs arbitrary: es n) (simp_all add: batch_seq_acc)

lemma batch_groups_acc:
  assumes "set ps \<subseteq> dom h"
  shows "foldM (\<lambda>p bst. do { g \<leftarrow> h p; foldM batch_seq (sequences g) bst }) ps (acc_batch es n) =
    Some (acc_batch (es @ concat (map (\<lambda>p. group_entries (the (h p))) ps))
      (n + sum_list (map (\<lambda>p. num_unfinished (the (h p))) ps)))"
  using assms
proof (induction ps arbitrary: es n)
  case (Cons p ps)
  then obtain g where "h p = Some g" by auto
  with Cons show ?case by (simp add: batch_seqs_acc group_entries_def num_unfinished_def add.assoc)
qed simp

lemma max_position_bounds:
  assumes "\<And>e. e \<in> set (entries b) \<Longrightarrow> be_position e < m" and "0 < m"
  shows "0 \<le> max_position b" "max_position b < m"
proof -
  have lo: "z \<le> fold (\<lambda>e m. max m (be_position e)) es z" for es z
  proof (induction es arbitrary: z)
    case (Cons a es)
    from Cons.IH [of "max z (be_position a)"] show ?case by simp
  qed simp
  have "z < m \<Longrightarrow> (\<And>e. e \<in> set es \<Longrightarrow> be_position e < m) \<Longrightarrow>
      fold (\<lambda>e m. max m (be_position e)) es z < m" for es z
    by (induction es arbitrary: z) auto
  then show "0 \<le> max_position b" "max_position b < m"
    using lo [of 0] assms unfolding max_position_def by blast+
qed

text \<open>Positions of a sequence that fits into \<open>int32_t\<close> are exact.\<close>

lemma seq_entries_positions:
  assumes "total_len seq \<le> 2 ^ 31 - 1" and "e \<in> set (seq_entries seq)"
  shows "0 \<le> be_position e" "be_position e < int (total_len seq)" "be_position e < 2 ^ 31 - 1"
    "be_block_table e = logical_blocks seq" "be_seq_id e = sd_seq_id seq" "\<not> seq_finished seq"
proof -
  have fin: "\<not> seq_finished seq" using assms(2) by (auto simp: seq_entries_def split: if_splits)
  have *: "\<exists>k < total_len seq. be_position e = to_i32 (int k)"
  proof (cases "output_tokens seq = []")
    case True
    then obtain k where "k < prompt_len seq" "be_position e = to_i32 (int k)"
      using assms(2) fin by (auto simp: seq_entries_def)
    then show ?thesis by (intro exI [of _ k]) (simp add: total_len_def)
  next
    case False
    then have "0 < total_len seq" by (cases "output_tokens seq") (auto simp: total_len_def output_len_def)
    then show ?thesis using assms(2) fin False
      by (auto simp: seq_entries_def intro!: exI [of _ "total_len seq - 1"])
  qed
  then obtain k where k: "k < total_len seq" "be_position e = to_i32 (int k)" by blast
  moreover have "to_i32 (int k) = int k" using k(1) assms(1) by (intro to_i32_of_nat) simp
  ultimately show "0 \<le> be_position e" "be_position e < int (total_len seq)" "be_position e < 2 ^ 31 - 1"
    using assms(1) by simp_all
  show "be_block_table e = logical_blocks seq" "be_seq_id e = sd_seq_id seq" "\<not> seq_finished seq"
    using assms(2) fin by (auto simp: seq_entries_def split: if_splits)
qed


text \<open>Building a batch is total on live groups whose sequences fit into \<open>int32_t\<close>.\<close>

lemma build_batch_result:
  assumes "set (scheduled_groups out) \<subseteq> dom h"
    and "\<forall>p \<in> set (scheduled_groups out). \<forall>seq \<in> set (sequences (the (h p))). total_len seq \<le> 2 ^ 31 - 1"
  defines "es \<equiv> concat (map (\<lambda>p. group_entries (the (h p))) (scheduled_groups out))"
  shows "\<exists>st. build_batch h out bt =
      Some (\<lparr>entries = es, total_tokens = length es\<rparr>,
            bt\<lparr>bt_current_batch := \<lparr>entries = es, total_tokens = length es\<rparr>, bt_last_stats := st\<rparr>) \<and>
    num_prefill_tokens st = count_prefill es \<and>
    num_decode_tokens st = length es - count_prefill es \<and>
    num_sequences st = sum_list (map (\<lambda>p. num_unfinished (the (h p))) (scheduled_groups out)) \<and>
    0 \<le> gpu_utilization_est st \<and> gpu_utilization_est st \<le> 1"
proof -
  let ?n = "sum_list (map (\<lambda>p. num_unfinished (the (h p))) (scheduled_groups out))"
  let ?b = "\<lparr>entries = es, total_tokens = length es\<rparr>"
  have fold: "foldM (\<lambda>p bst. do { g \<leftarrow> h p; foldM batch_seq (sequences g) bst }) (scheduled_groups out)
      (batch_clear, zero_batch_stats) = Some (acc_batch es ?n)"
    using batch_groups_acc [OF assms(1), of "[]" 0]
    by (simp add: acc_batch_def batch_clear_def zero_batch_stats_def es_def)
  have "be_position e < 2 ^ 31 - 1" if e: "e \<in> set es" for e
  proof -
    obtain p seq where p: "p \<in> set (scheduled_groups out)" "seq \<in> set (sequences (the (h p)))"
        "e \<in> set (seq_entries seq)"
      using e by (auto simp: es_def group_entries_def)
    have "total_len seq \<le> 2 ^ 31 - 1" using assms(2) p(1,2) by blast
    from seq_entries_positions(3) [OF this p(3)] show ?thesis .
  qed
  then have "max_position ?b < 2 ^ 31 - 1" by (intro max_position_bounds) simp_all
  then have "\<exists>st1. compute_padding ?b (snd (acc_batch es ?n)) = Some st1 \<and>
      num_prefill_tokens st1 = count_prefill es \<and>
      num_decode_tokens st1 = length es - count_prefill es \<and> num_sequences st1 = ?n"
    by (simp add: compute_padding_def acc_batch_def Let_def)
  then obtain st1 where st1: "compute_padding ?b (snd (acc_batch es ?n)) = Some st1"
      "num_prefill_tokens st1 = count_prefill es"
      "num_decode_tokens st1 = length es - count_prefill es" "num_sequences st1 = ?n" by blast
  define u where "u = estimate_gpu_util (bt_max_batch_tokens bt) ?b st1"
  have "0 \<le> u" "u \<le> 1" by (simp_all add: u_def estimate_gpu_util_def)
  moreover have "build_batch h out bt =
      Some (?b, bt\<lparr>bt_current_batch := ?b, bt_last_stats := st1\<lparr>gpu_utilization_est := u\<rparr>\<rparr>)"
    using st1(1) by (simp add: build_batch_def fold acc_batch_def u_def)
  ultimately show ?thesis using st1(2-4) by (intro exI [of _ "st1\<lparr>gpu_utilization_est := u\<rparr>"]) simp
qed

section \<open>Who gets which token\<close>

text \<open>One sequence after it was handed a token.\<close>

definition give :: "int \<Rightarrow> token_id \<Rightarrow> sequence_data \<Rightarrow> sequence_data" where
  "give mx t seq =
     (let seq1 = append_token t seq
      in if to_i32 (int (output_len seq1)) \<ge> mx then seq1\<lparr>status := FINISHED_LENGTH\<rparr> else seq1)"

definition open_before :: "sequence_data list \<Rightarrow> nat \<Rightarrow> nat" where
  "open_before seqs j = length (filter (\<lambda>s. \<not> seq_finished s) (take j seqs))"

definition handed :: "int \<Rightarrow> token_id list \<Rightarrow> nat \<Rightarrow> sequence_data \<Rightarrow> sequence_data" where
  "handed mx toks i seq = (if seq_finished seq \<or> length toks \<le> i then seq else give mx (toks ! i) seq)"

lemma update_seqs_nth:
  assumes "update_seqs clock mx toks seqs ft i = (ys, ft', i')"
  shows "length ys = length seqs"
    and "j < length seqs \<Longrightarrow> ys ! j = handed mx toks (i + open_before seqs j) (seqs ! j)"
    and "i \<le> length toks \<Longrightarrow> i' = min (length toks) (i + open_before seqs (length seqs))"
    and "length toks < i \<Longrightarrow> i' = i"
    and "ft \<noteq> None \<Longrightarrow> ft' = ft"
proof -
  have "length ys = length seqs \<and>
    (\<forall>j < length seqs. ys ! j = handed mx toks (i + open_before seqs j) (seqs ! j)) \<and>
    (i \<le> length toks \<longrightarrow> i' = min (length toks) (i + open_before seqs (length seqs))) \<and>
    (length toks < i \<longrightarrow> i' = i) \<and> (ft \<noteq> None \<longrightarrow> ft' = ft)"
    using assms
  proof (induction seqs arbitrary: ft i ys ft' i')
    case Nil
    then show ?case by (auto simp: open_before_def)
  next
    case (Cons seq seqs)
    show ?case
    proof (cases "seq_finished seq")
      case True
      then obtain zs where z: "update_seqs clock mx toks seqs ft i = (zs, ft', i')" "ys = seq # zs"
        using Cons.prems by (auto split: prod.splits)
      show ?thesis
        using Cons.IH [OF z(1)] z(2) True
        by (auto simp: nth_Cons handed_def open_before_def split: nat.splits)
    next
      case False
      show ?thesis
      proof (cases "length toks \<le> i")
        case True
        then show ?thesis using Cons.prems False by (auto simp: handed_def)
      next
        case i: False
        then obtain zs ft1 where z: "update_seqs clock mx toks seqs ft1 (i + 1) = (zs, ft', i')"
            "ys = give mx (toks ! i) seq # zs" "ft \<noteq> None \<longrightarrow> ft1 = ft"
          using Cons.prems False by (auto simp: Let_def give_def split: prod.splits if_splits)
        show ?thesis
          using Cons.IH [OF z(1)] z(2,3) False i
          by (auto simp: nth_Cons handed_def open_before_def split: nat.splits)
      qed
    qed
  qed
  then show "length ys = length seqs"
    "j < length seqs \<Longrightarrow> ys ! j = handed mx toks (i + open_before seqs j) (seqs ! j)"
    "i \<le> length toks \<Longrightarrow> i' = min (length toks) (i + open_before seqs (length seqs))"
    "length toks < i \<Longrightarrow> i' = i" "ft \<noteq> None \<Longrightarrow> ft' = ft" by blast+
qed

lemma open_before_all: "open_before (sequences g) (length (sequences g)) = num_unfinished g"
  by (simp add: open_before_def num_unfinished_def)

text \<open>A group after its share of the tokens, whose first index is \<open>i\<close>.\<close>

lemma update_group_nth:
  assumes "update_group clock toks g i = (g', i')"
  shows "length (sequences g') = length (sequences g)"
    and "j < length (sequences g) \<Longrightarrow>
      sequences g' ! j = handed (max_tokens (sampling g)) toks (i + open_before (sequences g) j) (sequences g ! j)"
    and "i \<le> length toks \<Longrightarrow> i' = min (length toks) (i + num_unfinished g)"
    and "request_id g' = request_id g" "sampling g' = sampling g" "arrival_time g' = arrival_time g"
      "priority g' = priority g" "first_token_time g \<noteq> None \<Longrightarrow> first_token_time g' = first_token_time g"
proof -
  obtain ys ft where u: "update_seqs clock (max_tokens (sampling g)) toks (sequences g) (first_token_time g) i
      = (ys, ft, i')" and g': "g' = g\<lparr>sequences := ys, first_token_time := ft\<rparr>"
    using assms by (auto simp: update_group_def split: prod.splits)
  note un = update_seqs_nth [OF u]
  show "length (sequences g') = length (sequences g)"
    "j < length (sequences g) \<Longrightarrow>
      sequences g' ! j = handed (max_tokens (sampling g)) toks (i + open_before (sequences g) j) (sequences g ! j)"
    "i \<le> length toks \<Longrightarrow> i' = min (length toks) (i + num_unfinished g)"
    "first_token_time g \<noteq> None \<Longrightarrow> first_token_time g' = first_token_time g"
    using un by (simp_all add: g' open_before_all)
qed (use assms in \<open>auto simp: update_group_def split: prod.splits\<close>)

definition first_index :: "(ptr \<rightharpoonup> sequence_group) \<Rightarrow> ptr list \<Rightarrow> nat \<Rightarrow> nat" where
  "first_index h ps k = sum_list (map (\<lambda>p. num_unfinished (the (h p))) (take k ps))"

lemma update_groups_effect:
  assumes "set ps \<subseteq> dom h" and "distinct ps" and "i \<le> length toks"
  shows "\<exists>h'. update_groups clock toks ps h i = Some h' \<and> (\<forall>q. q \<notin> set ps \<longrightarrow> h' q = h q) \<and>
    (\<forall>k < length ps. h' (ps ! k) = Some (fst (update_group clock toks (the (h (ps ! k)))
      (min (length toks) (i + first_index h ps k)))))"
  using assms
proof (induction ps arbitrary: h i)
  case (Cons p ps)
  then obtain g where g: "h p = Some g" by auto
  obtain g1 i1 where u: "update_group clock toks g i = (g1, i1)" by fastforce
  have i1: "i1 = min (length toks) (i + num_unfinished g)"
    using update_group_nth(3) [OF u Cons.prems(3)] .
  have dom: "set ps \<subseteq> dom (h(p \<mapsto> g1))" using Cons.prems(1) by auto
  have same: "first_index (h(p \<mapsto> g1)) ps k = first_index h ps k" for k
    unfolding first_index_def using Cons.prems(2)
    by (intro arg_cong [where f = sum_list] map_cong) (auto dest: in_set_takeD)
  have nth: "(h(p \<mapsto> g1)) (ps ! k) = h (ps ! k)" if "k < length ps" for k
    using Cons.prems(2) that by (auto dest: nth_mem)
  obtain h' where h': "update_groups clock toks ps (h(p \<mapsto> g1)) i1 = Some h'"
      "\<forall>q. q \<notin> set ps \<longrightarrow> h' q = (h(p \<mapsto> g1)) q"
      "\<forall>k < length ps. h' (ps ! k) = Some (fst (update_group clock toks (the ((h(p \<mapsto> g1)) (ps ! k)))
        (min (length toks) (i1 + first_index (h(p \<mapsto> g1)) ps k))))"
  proof -
    have "distinct ps" "i1 \<le> length toks" using Cons.prems(2) i1 by simp_all
    from Cons.IH [OF dom this] show ?thesis using that by blast
  qed
  have "h' ((p # ps) ! k) = Some (fst (update_group clock toks (the (h ((p # ps) ! k)))
      (min (length toks) (i + first_index h (p # ps) k))))" if "k < length (p # ps)" for k
  proof (cases k)
    case 0
    then show ?thesis using h'(2) Cons.prems(2,3) u g by (simp add: first_index_def)
  next
    case (Suc l)
    moreover have "min (length toks) (i1 + first_index h ps l) =
        min (length toks) (i + first_index h (p # ps) (Suc l))"
      using i1 g by (simp add: first_index_def)
    ultimately show ?thesis using h'(3) that nth [of l] same by simp
  qed
  moreover have "update_groups clock toks (p # ps) h i = Some h'" using g u h'(1) by simp
  ultimately show ?case using h'(2) by auto
qed simp

lemma handed_clip: "handed mx toks (min (length toks) i + n) seq = handed mx toks (i + n) seq"
  by (auto simp: handed_def min_def)


section \<open>Properties\<close>

text \<open>Two small requests: one about to be prefilled, one that has produced a token.\<close>

definition tiny_prefill :: sequence_group where
  "tiny_prefill = (sequence_group_new 0 1 [11, 12, 13] default_sampling_params 0)
     \<lparr>sequences := [\<lparr>sd_seq_id = 1, prompt_tokens = [11, 12, 13], output_tokens = [],
        logical_blocks = [0], status = RUNNING\<rparr>]\<rparr>"

definition tiny_decode :: sequence_group where
  "tiny_decode = (sequence_group_new 0 2 [21, 22] default_sampling_params 0)
     \<lparr>sequences := [\<lparr>sd_seq_id = 2, prompt_tokens = [21, 22], output_tokens = [23],
        logical_blocks = [1], status = RUNNING\<rparr>]\<rparr>"

definition tiny_heap :: "ptr \<rightharpoonup> sequence_group" where
  "tiny_heap = [0 \<mapsto> tiny_prefill, 1 \<mapsto> tiny_decode]"

definition tiny_out :: scheduler_output where
  "tiny_out = empty_output\<lparr>scheduled_groups := [0, 1]\<rparr>"

text \<open>
  C20. A batch of live groups whose sequences fit into \<open>int32_t\<close> is always built. It holds, group by
  group and sequence by sequence, the whole prompt of an unfinished sequence without output and the
  last token of any other unfinished sequence; \<open>total_tokens\<close> and the counters of the statistics are
  exact, and the reported utilisation is between zero and one.
\<close>

theorem build_batch_contents:
  assumes "set (scheduled_groups out) \<subseteq> dom h"
    and "\<forall>p \<in> set (scheduled_groups out). \<forall>seq \<in> set (sequences (the (h p))). total_len seq \<le> 2 ^ 31 - 1"
  shows "\<exists>b bt'. build_batch h out bt = Some (b, bt') \<and>
    entries b = concat (map (\<lambda>p. group_entries (the (h p))) (scheduled_groups out)) \<and>
    total_tokens b = length (entries b) \<and> bt_current_batch bt' = b \<and>
    num_prefill_tokens (last_stats bt') = count_prefill (entries b) \<and>
    num_prefill_tokens (last_stats bt') + num_decode_tokens (last_stats bt') = total_tokens b \<and>
    output_num_seqs h out = Some (num_sequences (last_stats bt')) \<and>
    0 \<le> gpu_utilization_est (last_stats bt') \<and> gpu_utilization_est (last_stats bt') \<le> 1"
proof -
  have "output_num_seqs h out = Some (sum_list (map (\<lambda>p. num_unfinished (the (h p))) (scheduled_groups out)))"
  proof -
    have "set ps \<subseteq> dom h \<Longrightarrow> sum_unfinished h ps = Some (sum_list (map (\<lambda>p. num_unfinished (the (h p))) ps))"
      for ps by (induction ps) auto
    then show ?thesis using assms(1) by (simp add: output_num_seqs_def)
  qed
  moreover define es where "es = concat (map (\<lambda>p. group_entries (the (h p))) (scheduled_groups out))"
  moreover obtain st where "build_batch h out bt =
      Some (\<lparr>entries = es, total_tokens = length es\<rparr>,
            bt\<lparr>bt_current_batch := \<lparr>entries = es, total_tokens = length es\<rparr>, bt_last_stats := st\<rparr>)"
    "num_prefill_tokens st = count_prefill es" "num_decode_tokens st = length es - count_prefill es"
    "num_sequences st = sum_list (map (\<lambda>p. num_unfinished (the (h p))) (scheduled_groups out))"
    "0 \<le> gpu_utilization_est st" "gpu_utilization_est st \<le> 1"
    using build_batch_result [OF assms, where bt = bt, folded es_def] by blast
  ultimately show ?thesis
    using count_prefill_le [of es] by (simp add: last_stats_def)
qed

theorem build_batch_contents_witness:
  "\<exists>b bt'. build_batch tiny_heap tiny_out (batch_manager_new default_model_config default_scheduler_config) =
      Some (b, bt') \<and> map be_token (entries b) = [11, 12, 13, 23] \<and>
      map be_position (entries b) = [0, 1, 2, 2]"
proof -
  have "set (scheduled_groups tiny_out) \<subseteq> dom tiny_heap"
    by (simp add: tiny_out_def tiny_heap_def)
  moreover have "\<forall>p \<in> set (scheduled_groups tiny_out). \<forall>seq \<in> set (sequences (the (tiny_heap p))).
      total_len seq \<le> 2 ^ 31 - 1"
    by (auto simp: tiny_out_def tiny_heap_def tiny_prefill_def tiny_decode_def total_len_def
        prompt_len_def output_len_def)
  ultimately obtain b bt' where
    "build_batch tiny_heap tiny_out (batch_manager_new default_model_config default_scheduler_config) =
      Some (b, bt')"
    "entries b = concat (map (\<lambda>p. group_entries (the (tiny_heap p))) (scheduled_groups tiny_out))"
    using build_batch_contents [of tiny_out tiny_heap
        "batch_manager_new default_model_config default_scheduler_config"] by blast
  moreover have "[0..<3] = [0, 1, 2::nat]" by (simp add: upt_rec)
  ultimately show ?thesis
    by (simp add: tiny_out_def tiny_heap_def tiny_prefill_def tiny_decode_def group_entries_def
        seq_entries_def seq_finished_def prompt_len_def total_len_def output_len_def)
qed

text \<open>
  C21. The tokens of a step are handed out in order: the unfinished sequences of the scheduled groups,
  taken group by group, receive one token each until the tokens run out, and the sequence with the
  \<open>k\<close>-th turn receives the \<open>k\<close>-th token. A sequence whose output reaches the group's limit is marked
  finished, finished sequences and other groups do not change, and a recorded time of first token
  is never overwritten.
\<close>

theorem update_after_decode_in_order:
  assumes "set (scheduled_groups out) \<subseteq> dom h" and "distinct (scheduled_groups out)"
  shows "\<exists>h'. update_after_decode clock out toks h = Some h' \<and>
    (\<forall>q. q \<notin> set (scheduled_groups out) \<longrightarrow> h' q = h q) \<and>
    (\<forall>k < length (scheduled_groups out). \<exists>g g'.
       h (scheduled_groups out ! k) = Some g \<and> h' (scheduled_groups out ! k) = Some g' \<and>
       request_id g' = request_id g \<and> length (sequences g') = length (sequences g) \<and>
       (first_token_time g \<noteq> None \<longrightarrow> first_token_time g' = first_token_time g) \<and>
       (\<forall>j < length (sequences g). sequences g' ! j =
          handed (max_tokens (sampling g)) toks
            (first_index h (scheduled_groups out) k + open_before (sequences g) j) (sequences g ! j)))"
proof -
  let ?ps = "scheduled_groups out"
  obtain h' where h': "update_groups clock toks ?ps h 0 = Some h'" "\<forall>q. q \<notin> set ?ps \<longrightarrow> h' q = h q"
    "\<forall>k < length ?ps. h' (?ps ! k) = Some (fst (update_group clock toks (the (h (?ps ! k)))
      (min (length toks) (first_index h ?ps k))))"
    using update_groups_effect [OF assms, of 0 toks clock] by auto
  have "\<exists>g g'. h (?ps ! k) = Some g \<and> h' (?ps ! k) = Some g' \<and>
       request_id g' = request_id g \<and> length (sequences g') = length (sequences g) \<and>
       (first_token_time g \<noteq> None \<longrightarrow> first_token_time g' = first_token_time g) \<and>
       (\<forall>j < length (sequences g). sequences g' ! j =
          handed (max_tokens (sampling g)) toks
            (first_index h ?ps k + open_before (sequences g) j) (sequences g ! j))"
    if k: "k < length ?ps" for k
  proof -
    obtain g where g: "h (?ps ! k) = Some g" using assms(1) k by (meson domD nth_mem subsetD)
    obtain g' i' where u: "update_group clock toks g (min (length toks) (first_index h ?ps k)) = (g', i')"
      by fastforce
    show ?thesis
      using h'(3) k g u update_group_nth [OF u] by (simp add: handed_clip)
  qed
  with h' show ?thesis by (auto simp: update_after_decode_def)
qed

theorem update_after_decode_in_order_witness:
  "\<exists>h'. update_after_decode (\<lambda>_. 7) tiny_out [31, 32] tiny_heap = Some h' \<and>
    (\<exists>g'. h' 1 = Some g' \<and> map output_tokens (sequences g') = [[23, 32]])"
proof -
  have "set (scheduled_groups tiny_out) \<subseteq> dom tiny_heap" "distinct (scheduled_groups tiny_out)"
    by (simp_all add: tiny_out_def tiny_heap_def)
  from update_after_decode_in_order [OF this, of "\<lambda>_. 7" "[31, 32]"]
  obtain h' where h': "update_after_decode (\<lambda>_. 7) tiny_out [31, 32] tiny_heap = Some h'"
    and k: "\<forall>k < length (scheduled_groups tiny_out). \<exists>g g'.
       tiny_heap (scheduled_groups tiny_out ! k) = Some g \<and> h' (scheduled_groups tiny_out ! k) = Some g' \<and>
       length (sequences g') = length (sequences g) \<and>
       (\<forall>j < length (sequences g). sequences g' ! j =
          handed (max_tokens (sampling g)) [31, 32]
            (first_index tiny_heap (scheduled_groups tiny_out) k + open_before (sequences g) j) (sequences g ! j))"
    by blast
  have one: "scheduled_groups tiny_out ! 1 = 1" "1 < length (scheduled_groups tiny_out)"
    "tiny_heap 1 = Some tiny_decode" "first_index tiny_heap (scheduled_groups tiny_out) 1 = 1"
    "length (sequences tiny_decode) = 1" "open_before (sequences tiny_decode) 0 = 0"
    by (simp_all add: tiny_out_def tiny_heap_def first_index_def open_before_def tiny_prefill_def
        tiny_decode_def num_unfinished_def seq_finished_def)
  obtain g' where g': "h' 1 = Some g'" "length (sequences g') = 1"
      "sequences g' ! 0 = handed (max_tokens (sampling tiny_decode)) [31, 32] 1 (sequences tiny_decode ! 0)"
    using k [rule_format, OF one(2)] one by auto
  have "output_tokens (sequences g' ! 0) = [23, 32]"
    by (simp add: g'(3) tiny_decode_def handed_def seq_finished_def give_def append_token_def
        Let_def)
  moreover have "sequences g' = [sequences g' ! 0]" using g'(2) by (cases "sequences g'") auto
  ultimately show ?thesis using h' g'(1) by (metis list.simps(8,9))
qed

end
