(* ===== verification/Serving.thy ===== *)
theory Serving
  imports Scheduler_Queues Batch_Manager
begin

text \<open>
  The serving loop: requests arrive and may be aborted at any time, and the engine alternates
  \<open>schedule\<close>, \<open>update_after_decode\<close> and \<open>free_finished_requests\<close>. The theory states what the loop
  guarantees about the queues in either preemption mode, and that with preemption by
  recomputation the sequences in flight never share a KV-cache block, always have room for their
  tokens, and leave no block behind.
\<close>

section \<open>Blocks of the sequences in flight\<close>

text \<open>
  What holds of a group of one sequence in the running queue (\<open>run\<close>) or in the waiting queue: while
  it is unfinished its block table is what the allocator has given to it, and a waiting group
  holds nothing and has no output.
\<close>

definition group_ok :: "block_manager \<Rightarrow> bool \<Rightarrow> sequence_group \<Rightarrow> bool" where
  "group_ok bm run g \<longleftrightarrow>
     (\<exists>q. sequences g = [q] \<and> sd_seq_id q = request_id g \<and>
       (\<not> seq_finished q \<longrightarrow> logical_blocks q = gpu_held bm (request_id g)) \<and>
       (\<not> seq_finished q \<and> \<not> run \<longrightarrow> logical_blocks q = [] \<and> output_tokens q = []))"

definition blocks_inv ::
    "(device_type \<Rightarrow> block_id \<Rightarrow> nat) \<Rightarrow> (ptr \<rightharpoonup> sequence_group) \<Rightarrow> block_manager \<Rightarrow> ptr set \<Rightarrow> ptr set \<Rightarrow> bool"
  where
  "blocks_inv ext h bm W R \<longleftrightarrow>
     gpu_inv ext bm \<and> 0 < bm_block_size bm \<and> W \<inter> R = {} \<and> W \<union> R = dom h \<and>
     (\<forall>p g. h p = Some g \<longrightarrow> group_ok bm (p \<in> R) g) \<and>
     (\<forall>p p' g g'. h p = Some g \<longrightarrow> h p' = Some g' \<longrightarrow> request_id g = request_id g' \<longrightarrow> p = p') \<and>
     (\<forall>sid. gpu_held bm sid \<noteq> [] \<longrightarrow> (\<exists>p g. h p = Some g \<and> request_id g = sid))"

lemma group_ok_cong:
  "gpu_held bm' (request_id g) = gpu_held bm (request_id g) \<Longrightarrow> group_ok bm' run g = group_ok bm run g"
  by (simp add: group_ok_def)

lemma same_shape_block_size: "same_shape bm bm' \<Longrightarrow> bm_block_size bm' = bm_block_size bm"
  by (simp add: same_shape_def bm_block_size_def)

lemma same_shape_total: "same_shape bm bm' \<Longrightarrow> num_total_gpu_blocks bm' = num_total_gpu_blocks bm"
  by (auto simp: same_shape_def num_total_gpu_blocks_def blocks_for_def dest: spec [of _ CUDA])

text \<open>
  The one way a step changes the invariant's data: one group gets a new sequence and a new list of
  blocks, and possibly another queue.
\<close>

lemma blocks_inv_update:
  assumes inv: "blocks_inv ext h bm W R" and g: "h p = Some g"
    and bm': "gpu_inv ext bm'" "same_shape bm bm'" "gpu_held bm' = (gpu_held bm)(request_id g := bs)"
    and ok: "group_ok bm' (p \<in> R') (g\<lparr>sequences := seqs\<rparr>)"
    and WR: "W' \<inter> R' = {}" "W' \<union> R' = W \<union> R" "R' - {p} = R - {p}"
  shows "blocks_inv ext (h(p \<mapsto> g\<lparr>sequences := seqs\<rparr>)) bm' W' R'"
proof -
  have uniq: "\<And>p p' g g'. h p = Some g \<Longrightarrow> h p' = Some g' \<Longrightarrow> request_id g = request_id g' \<Longrightarrow> p = p'"
    using inv unfolding blocks_inv_def by blast
  have "group_ok bm' (q \<in> R') g'" if "h q = Some g'" "q \<noteq> p" for q g'
  proof -
    have "request_id g' \<noteq> request_id g" using uniq [OF that(1) g] that(2) by blast
    then have "group_ok bm' (q \<in> R') g' = group_ok bm (q \<in> R') g'"
      by (intro group_ok_cong) (simp add: bm'(3))
    moreover have "q \<in> R' \<longleftrightarrow> q \<in> R" using WR(3) that(2) by blast
    ultimately show ?thesis using inv that(1) by (simp add: blocks_inv_def)
  qed
  moreover have "dom (h(p \<mapsto> g\<lparr>sequences := seqs\<rparr>)) = dom h" using g by auto
  moreover have "\<exists>q g'. (h(p \<mapsto> g\<lparr>sequences := seqs\<rparr>)) q = Some g' \<and> request_id g' = sid"
    if "gpu_held bm' sid \<noteq> []" for sid
  proof (cases "sid = request_id g")
    case True
    then show ?thesis by (intro exI [of _ p]) simp
  next
    case False
    then have "gpu_held bm sid \<noteq> []" using that bm'(3) by simp
    then obtain q g' where "h q = Some g'" "request_id g' = sid"
      using inv unfolding blocks_inv_def by blast
    with False g show ?thesis by (intro exI [of _ q] exI [of _ g']) auto
  qed
  ultimately show ?thesis
    using inv bm'(1) same_shape_block_size [OF bm'(2)] WR(1,2) ok uniq g
    unfolding blocks_inv_def by (auto simp: fun_upd_def split: if_splits)
qed

lemma blocks_inv_remove:
  assumes inv: "blocks_inv ext h bm W R" and g: "h p = Some g"
    and bm': "gpu_inv ext bm'" "same_shape bm bm'" "gpu_held bm' = (gpu_held bm)(request_id g := [])"
  shows "blocks_inv ext (h(p := None)) bm' (W - {p}) (R - {p})"
proof -
  have uniq: "\<And>p p' g g'. h p = Some g \<Longrightarrow> h p' = Some g' \<Longrightarrow> request_id g = request_id g' \<Longrightarrow> p = p'"
    using inv unfolding blocks_inv_def by blast
  have "group_ok bm' (q \<in> R - {p}) g'" if "h q = Some g'" "q \<noteq> p" for q g'
  proof -
    have "request_id g' \<noteq> request_id g" using uniq [OF that(1) g] that(2) by blast
    then have "group_ok bm' (q \<in> R) g' = group_ok bm (q \<in> R) g'"
      by (intro group_ok_cong) (simp add: bm'(3))
    then show ?thesis using inv that by (simp add: blocks_inv_def)
  qed
  moreover have "\<exists>q g'. (h(p := None)) q = Some g' \<and> request_id g' = sid"
    if "gpu_held bm' sid \<noteq> []" for sid
  proof -
    have sid: "sid \<noteq> request_id g" "gpu_held bm sid \<noteq> []" using that bm'(3) by (auto split: if_splits)
    then obtain q g' where "h q = Some g'" "request_id g' = sid"
      using inv unfolding blocks_inv_def by blast
    with sid(1) g show ?thesis by (intro exI [of _ q] exI [of _ g']) auto
  qed
  ultimately show ?thesis
    using inv bm'(1) same_shape_block_size [OF bm'(2)] uniq
    unfolding blocks_inv_def by (auto split: if_splits)
qed

lemma blocks_inv_group:
  assumes "blocks_inv ext h bm W R" and "h p = Some g"
  obtains q where "sequences g = [q]" "sd_seq_id q = request_id g"
    "\<not> seq_finished q \<Longrightarrow> logical_blocks q = gpu_held bm (request_id g)"
    "\<not> seq_finished q \<Longrightarrow> p \<notin> R \<Longrightarrow> logical_blocks q = [] \<and> output_tokens q = []"
    "group_ok bm (p \<in> R) g"
  using assms unfolding blocks_inv_def group_ok_def by blast

section \<open>The steps on one group\<close>

lemma grow_safe:
  assumes inv: "blocks_inv ext h bm W R" and g: "h p = Some g" "p \<in> R"
    and opn: "\<not> all_finished g" and can: "can_append bm (sequences g) = Some True"
  shows "\<exists>seqs bm'. mapM_st grow_seq (sequences g) bm = Some (seqs, bm') \<and> same_shape bm bm' \<and>
    blocks_inv ext (h(p \<mapsto> g\<lparr>sequences := seqs\<rparr>)) bm' W R \<and>
    (\<exists>q. seqs = [q] \<and> \<not> seq_finished q \<and> total_len q \<le> length (logical_blocks q) * bm_block_size bm)"
proof -
  obtain q where q: "sequences g = [q]" "sd_seq_id q = request_id g"
      "\<not> seq_finished q \<Longrightarrow> logical_blocks q = gpu_held bm (request_id g)"
    using blocks_inv_group [OF inv g(1)] by metis
  have fin: "\<not> seq_finished q" using opn q(1) by (simp add: all_finished_def)
  have gi: "gpu_inv ext bm" and bs: "0 < bm_block_size bm"
    using inv by (simp_all add: blocks_inv_def)
  define need where "need = (total_len q + bm_block_size bm - 1) div bm_block_size bm"
  define k where "k = need - length (logical_blocks q)"
  have nb: "num_blocks_needed (bm_block_size bm) q = Some need"
    using bs by (simp add: need_def)
  have "k \<le> num_free_gpu_blocks bm"
    using can q(1) fin nb
    by (auto simp: k_def can_allocate_def num_free_gpu_blocks_def Let_def split: if_splits)
  then obtain bids bm' where al: "alloc_n (allocate_block (request_id g) CUDA) k bm = Some (bids, bm')"
      "gpu_inv ext bm'" "same_shape bm bm'" "length bids = k"
      "gpu_held bm' = (gpu_held bm)(request_id g := gpu_held bm (request_id g) @ bids)"
    using ka.alloc_n_some [OF gi, of k "request_id g"] by blast
  let ?q = "q\<lparr>logical_blocks := logical_blocks q @ bids\<rparr>"
  have "mapM_st grow_seq (sequences g) bm = Some ([?q], bm')"
    using q(1,2) fin nb al(1) by (simp add: grow_seq_def k_def)
  moreover have "blocks_inv ext (h(p \<mapsto> g\<lparr>sequences := [?q]\<rparr>)) bm' W R"
    using inv q fin al g(2)
    by (intro blocks_inv_update [OF inv g(1) al(2,3,5)])
      (auto simp: group_ok_def blocks_inv_def seq_finished_def)
  moreover have "need \<le> length (logical_blocks ?q)" using al(4) by (simp add: k_def)
  then have "total_len ?q \<le> length (logical_blocks ?q) * bm_block_size bm"
    using blocks_cover(2) [OF bs, of "total_len q" "length (logical_blocks ?q)"]
    by (simp add: need_def total_len_def prompt_len_def output_len_def)
  ultimately show ?thesis using al(3) fin
    by (intro exI [of _ "[?q]"] exI [of _ bm'] conjI) (auto simp: seq_finished_def)
qed

lemma prefill_safe:
  assumes inv: "blocks_inv ext h bm W R" and g: "h p = Some g" "p \<in> W"
    and opn: "\<not> all_finished g" and q0: "vec_at (sequences g) 0 = Some seq0"
    and n: "num_blocks_needed (bm_block_size bm) seq0 = Some n" "can_allocate bm n"
  shows "\<exists>seqs bm'. mapM_st (prefill_seq n) (sequences g) bm = Some (seqs, bm') \<and> same_shape bm bm' \<and>
    blocks_inv ext (h(p \<mapsto> g\<lparr>sequences := seqs\<rparr>)) bm' (W - {p}) (insert p R) \<and>
    (\<exists>q. seqs = [q] \<and> \<not> seq_finished q \<and> total_len q \<le> length (logical_blocks q) * bm_block_size bm)"
proof -
  have nR: "p \<notin> R" using inv g(2) by (auto simp: blocks_inv_def)
  obtain q where q: "sequences g = [q]" "sd_seq_id q = request_id g"
      "\<not> seq_finished q \<Longrightarrow> logical_blocks q = gpu_held bm (request_id g)"
      "\<not> seq_finished q \<Longrightarrow> logical_blocks q = [] \<and> output_tokens q = []"
    using blocks_inv_group [OF inv g(1)] nR by metis
  have fin: "\<not> seq_finished q" using opn q(1) by (simp add: all_finished_def)
  have gi: "gpu_inv ext bm" and bs: "0 < bm_block_size bm"
    using inv by (simp_all add: blocks_inv_def)
  have seq0: "seq0 = q" using q0 q(1) by (simp add: vec_at_def)
  have "n \<le> num_free_gpu_blocks bm" using n(2) by (simp add: can_allocate_def num_free_gpu_blocks_def)
  then obtain bids bm' where al: "alloc_n (allocate_block (request_id g) CUDA) n bm = Some (bids, bm')"
      "gpu_inv ext bm'" "same_shape bm bm'" "length bids = n"
      "gpu_held bm' = (gpu_held bm)(request_id g := gpu_held bm (request_id g) @ bids)"
    using ka.alloc_n_some [OF gi, of n "request_id g"] by blast
  let ?q = "q\<lparr>status := RUNNING, logical_blocks := logical_blocks q @ bids\<rparr>"
  have "mapM_st (prefill_seq n) (sequences g) bm = Some ([?q], bm')"
    using q(1,2) al(1) by (simp add: prefill_seq_def)
  moreover have "blocks_inv ext (h(p \<mapsto> g\<lparr>sequences := [?q]\<rparr>)) bm' (W - {p}) (insert p R)"
    using inv q fin al g(2)
    by (intro blocks_inv_update [OF inv g(1) al(2,3,5)])
      (auto simp: group_ok_def blocks_inv_def seq_finished_def)
  moreover have "total_len ?q \<le> length (logical_blocks ?q) * bm_block_size bm"
    using blocks_cover(1) [OF bs, of "total_len q"] n(1) seq0 q(4) [OF fin] al(4) bs
    by (simp add: total_len_def prompt_len_def output_len_def)
  ultimately show ?thesis using al(3)
    by (intro exI [of _ "[?q]"] exI [of _ bm'] conjI) (auto simp: seq_finished_def)
qed

lemma recompute_safe:
  assumes inv: "blocks_inv ext h bm W R" and g: "h p = Some g" "p \<in> R" and opn: "\<not> all_finished g"
  shows "\<exists>seqs bm'. mapM_st recompute_seq (sequences g) bm = Some (seqs, bm') \<and> same_shape bm bm' \<and>
    blocks_inv ext (h(p \<mapsto> g\<lparr>sequences := seqs\<rparr>)) bm' (insert p W) (R - {p}) \<and>
    (\<exists>q. seqs = [q] \<and> \<not> seq_finished q)"
proof -
  obtain q where q: "sequences g = [q]" "sd_seq_id q = request_id g"
    using blocks_inv_group [OF inv g(1)] by metis
  have fin: "\<not> seq_finished q" using opn q(1) by (simp add: all_finished_def)
  have gi: "gpu_inv ext bm" using inv by (simp add: blocks_inv_def)
  obtain bm' where fr: "free_blocks (request_id g) bm = Some bm'" "gpu_inv ext bm'" "same_shape bm bm'"
      "gpu_held bm' = (gpu_held bm)(request_id g := [])"
    using ka.free_some [OF gi, of "request_id g"] by blast
  let ?q = "q\<lparr>status := PREEMPTED, logical_blocks := [], output_tokens := []\<rparr>"
  have "mapM_st recompute_seq (sequences g) bm = Some ([?q], bm')"
    using q fin fr(1) by (simp add: recompute_seq_def)
  moreover have "blocks_inv ext (h(p \<mapsto> g\<lparr>sequences := [?q]\<rparr>)) bm' (insert p W) (R - {p})"
    using inv q fr g(2)
    by (intro blocks_inv_update [OF inv g(1) fr(2-4)])
      (auto simp: group_ok_def blocks_inv_def seq_finished_def)
  ultimately show ?thesis using fr(3)
    by (intro exI [of _ "[?q]"] exI [of _ bm'] conjI) (auto simp: seq_finished_def)
qed


section \<open>The invariant of the loop\<close>

text \<open>What holds as long as nothing is swapped out, whatever the preemption mode.\<close>

definition base_inv :: "(device_type \<Rightarrow> block_id \<Rightarrow> nat) \<Rightarrow> scheduler \<Rightarrow> bool" where
  "base_inv ext s \<longleftrightarrow>
     queues_wf s \<and> sc_swapped s = [] \<and>
     blocks_inv ext (sc_heap s) (sc_bm s) (set (sc_waiting s)) (set (sc_running s))"

text \<open>With preemption by recomputation nothing is ever swapped out.\<close>

definition serve_inv :: "(device_type \<Rightarrow> block_id \<Rightarrow> nat) \<Rightarrow> scheduler \<Rightarrow> bool" where
  "serve_inv ext s \<longleftrightarrow>
     queues_wf s \<and> sc_swapped s = [] \<and> preemption_mode (sc_config s) = RECOMPUTE \<and>
     blocks_inv ext (sc_heap s) (sc_bm s) (set (sc_waiting s)) (set (sc_running s))"

text \<open>No group in the store is finished: the state after \<open>free_finished_requests\<close>.\<close>

definition all_open :: "scheduler \<Rightarrow> bool" where
  "all_open s \<longleftrightarrow> (\<forall>p g. sc_heap s p = Some g \<longrightarrow> \<not> all_finished g)"

text \<open>A running group that has room for all its tokens.\<close>

definition has_room :: "scheduler \<Rightarrow> ptr \<Rightarrow> bool" where
  "has_room s p \<longleftrightarrow>
     (\<exists>g q. sc_heap s p = Some g \<and> sequences g = [q] \<and> \<not> seq_finished q \<and>
        total_len q \<le> length (logical_blocks q) * bm_block_size (sc_bm s))"

definition rooms :: "scheduler \<Rightarrow> scheduler_output \<Rightarrow> bool" where
  "rooms s out \<longleftrightarrow>
     set (scheduled_groups out) \<subseteq> set (sc_running s) \<and> (\<forall>p \<in> set (scheduled_groups out). has_room s p)"

lemma serve_inv_parts:
  assumes "serve_inv ext s"
  shows "queues_wf s" "sc_swapped s = []" "preemption_mode (sc_config s) = RECOMPUTE"
    "blocks_inv ext (sc_heap s) (sc_bm s) (set (sc_waiting s)) (set (sc_running s))"
  using assms by (simp_all add: serve_inv_def)

lemma base_inv_parts:
  assumes "base_inv ext s"
  shows "queues_wf s" "sc_swapped s = []"
    "blocks_inv ext (sc_heap s) (sc_bm s) (set (sc_waiting s)) (set (sc_running s))"
  using assms by (simp_all add: base_inv_def)

lemma serve_inv_iff: "serve_inv ext s \<longleftrightarrow> base_inv ext s \<and> preemption_mode (sc_config s) = RECOMPUTE"
  by (auto simp: serve_inv_def base_inv_def)

lemma serve_base: "serve_inv ext s \<Longrightarrow> base_inv ext s"
  by (simp add: serve_inv_iff)

lemma has_room_other:
  "has_room s p \<Longrightarrow> p \<noteq> q \<Longrightarrow> same_shape (sc_bm s) bm' \<Longrightarrow>
   sc_heap s' = (sc_heap s)(q \<mapsto> g) \<Longrightarrow> sc_bm s' = bm' \<Longrightarrow> has_room s' p"
  by (auto simp: has_room_def same_shape_block_size)

lemma all_open_update:
  "all_open s \<Longrightarrow> sc_heap s' = (sc_heap s)(p \<mapsto> g\<lparr>sequences := [q]\<rparr>) \<Longrightarrow> \<not> seq_finished q \<Longrightarrow> all_open s'"
  by (auto simp: all_open_def all_finished_def)

lemma can_append_total: "0 < bm_block_size bm \<Longrightarrow> \<exists>ok. can_append bm seqs = Some ok"
  by (induction seqs) (auto simp: Let_def)

lemma preempt_safe:
  assumes inv: "serve_inv ext s" and opn: "all_open s" and ne: "sc_running s \<noteq> []"
  shows "\<exists>s' out'. preempt s out = Some (s', out') \<and> serve_inv ext s' \<and> all_open s' \<and>
    scheduled_groups out' = scheduled_groups out \<and> sc_running s' = butlast (sc_running s) \<and>
    same_shape (sc_bm s) (sc_bm s') \<and> (\<forall>p \<noteq> last (sc_running s). has_room s p \<longrightarrow> has_room s' p)"
proof -
  let ?p = "last (sc_running s)"
  note parts = serve_inv_parts [OF inv]
  have p: "?p \<in> set (sc_running s)" using ne by simp
  then obtain g where g: "sc_heap s ?p = Some g"
    using queues_wf_parts(8) [OF parts(1)] by blast
  have "\<not> all_finished g" using opn g by (simp add: all_open_def)
  then obtain seqs bm' q where r: "mapM_st recompute_seq (sequences g) (sc_bm s) = Some (seqs, bm')"
      "same_shape (sc_bm s) bm'"
      "blocks_inv ext ((sc_heap s)(?p \<mapsto> g\<lparr>sequences := seqs\<rparr>)) bm'
        (insert ?p (set (sc_waiting s))) (set (sc_running s) - {?p})"
      "seqs = [q]" "\<not> seq_finished q"
    using recompute_safe [OF parts(4) g p] by blast
  define s' where "s' = s\<lparr>sc_heap := (sc_heap s)(?p \<mapsto> g\<lparr>sequences := seqs\<rparr>), sc_bm := bm',
    sc_waiting := ?p # sc_waiting s, sc_running := butlast (sc_running s)\<rparr>"
  have pre: "preempt s out = Some (s', out\<lparr>preempted_groups := preempted_groups out @ [?p]\<rparr>)"
    using ne g r(1) parts(3) by (simp add: preempt_def s'_def Let_def)
  have "queues_wf s'" using frame_queues_wf [OF preempt_frame(1) [OF pre] parts(1)] .
  then have "serve_inv ext s'"
    using parts r(3) butlast_set_last [OF queues_wf_parts(2) [OF parts(1)] ne]
    by (simp add: serve_inv_def s'_def)
  moreover have "all_open s'"
    using all_open_update [OF opn, where s' = s' and p = ?p and g = g and q = q] r(4,5) by (simp add: s'_def)
  moreover have "has_room s' p'" if "p' \<noteq> ?p" "has_room s p'" for p'
    using has_room_other [OF that(2,1) r(2)] by (simp add: s'_def)
  ultimately show ?thesis using pre r(2) by (auto simp: s'_def)
qed

text \<open>An iteration of the decode loop that does not preempt.\<close>

lemma decode_iteration:
  assumes inv: "base_inv ext s" and open_all: "all_open s" and run: "p \<in> set (sc_running s)"
    and new: "p \<notin> set (scheduled_groups out)" and rm: "rooms s out" and g: "sc_heap s p = Some g"
    and can: "can_append (sc_bm s) (sequences g) = Some True" and budget: "num_unfinished g \<le> bt" "0 < bs"
  shows "\<exists>s1 seqs bm'. base_inv ext s1 \<and> all_open s1 \<and> sc_running s1 = sc_running s \<and> sc_waiting s1 = sc_waiting s \<and>
    sc_config s1 = sc_config s \<and> same_shape (sc_bm s) (sc_bm s1) \<and>
    rooms s1 (out\<lparr>scheduled_groups := scheduled_groups out @ [p]\<rparr>) \<and>
    mapM_st grow_seq (sequences g) (sc_bm s) = Some (seqs, bm') \<and>
    sc_heap s1 = (sc_heap s)(p \<mapsto> g\<lparr>sequences := seqs\<rparr>) \<and>
    schedule_decodes_from (p # ps) s out bt bs = schedule_decodes_from ps s1
      (out\<lparr>scheduled_groups := scheduled_groups out @ [p]\<rparr>) (bt - num_unfinished g) (bs - 1)"
proof -
  note parts = base_inv_parts [OF inv]
  have opn: "\<not> all_finished g" using open_all g by (simp add: all_open_def)
  obtain seqs bm' q where gr: "mapM_st grow_seq (sequences g) (sc_bm s) = Some (seqs, bm')"
      "same_shape (sc_bm s) bm'"
      "blocks_inv ext ((sc_heap s)(p \<mapsto> g\<lparr>sequences := seqs\<rparr>)) bm' (set (sc_waiting s)) (set (sc_running s))"
      "seqs = [q]" "\<not> seq_finished q" "total_len q \<le> length (logical_blocks q) * bm_block_size (sc_bm s)"
    using grow_safe [OF parts(3) g run opn can] by blast
  define s1 where "s1 = s\<lparr>sc_heap := (sc_heap s)(p \<mapsto> g\<lparr>sequences := seqs\<rparr>), sc_bm := bm'\<rparr>"
  have "frame s s1"
    using update_group_frame [OF g, of seqs "sc_waiting s" "sc_running s" "sc_swapped s" bm']
      grow_map_obs [OF gr(1)] by (simp add: s1_def queue_def frame_def)
  then have "base_inv ext s1"
    using parts gr(3) frame_queues_wf by (auto simp: base_inv_def s1_def)
  moreover have "all_open s1"
    using all_open_update [OF open_all, where s' = s1 and p = p and g = g and q = q] gr(4,5) by (simp add: s1_def)
  moreover have "rooms s1 (out\<lparr>scheduled_groups := scheduled_groups out @ [p]\<rparr>)"
  proof -
    have "has_room s1 p" using gr by (simp add: has_room_def s1_def same_shape_block_size)
    moreover have "has_room s1 p'" if "has_room s p'" "p' \<noteq> p" for p'
      using has_room_other [OF that gr(2)] by (simp add: s1_def)
    ultimately show ?thesis using rm run new by (auto simp: rooms_def s1_def)
  qed
  ultimately show ?thesis using g opn can gr(1,2) budget
    by (intro exI [of _ s1] exI [of _ seqs] exI [of _ bm']) (auto simp: estimate_tokens_def s1_def Let_def)
qed

lemma decodes_safe:
  assumes "serve_inv ext s" and "all_open s" and "sc_running s = xs @ ps"
    and "rooms s out" "set (scheduled_groups out) \<subseteq> set xs"
  shows "\<exists>s' out' bt' bs'. schedule_decodes_from ps s out bt bs = Some (s', out', bt', bs') \<and>
    serve_inv ext s' \<and> all_open s' \<and> rooms s' out' \<and> same_shape (sc_bm s) (sc_bm s')"
  using assms
proof (induction ps arbitrary: s out bt bs xs)
  case Nil
  then show ?case by auto
next
  case (Cons p ps)
  note parts = serve_inv_parts [OF Cons.prems(1)]
  have run: "p \<in> set (sc_running s)" "sc_running s \<noteq> []" "distinct (sc_running s)"
    using Cons.prems(3) queues_wf_parts(2) [OF parts(1)] by auto
  obtain g where g: "sc_heap s p = Some g"
    using queues_wf_parts(8) [OF parts(1)] run(1) by blast
  have opn: "\<not> all_finished g" using Cons.prems(2) g by (simp add: all_open_def)
  have base: "base_inv ext s" using Cons.prems(1) by (simp add: serve_inv_iff)
  have notin: "p \<notin> set (scheduled_groups out)" using Cons.prems(3,5) run(3) by auto
  have bs: "0 < bm_block_size (sc_bm s)" using parts(4) by (simp add: blocks_inv_def)
  obtain ok where ok: "can_append (sc_bm s) (sequences g) = Some ok"
    using can_append_total [OF bs] by blast
  show ?case
  proof (cases "num_unfinished g > bt \<or> bs = 0 \<or> \<not> ok")
    case True
    obtain s' out' where pr: "preempt s out = Some (s', out')" "serve_inv ext s'" "all_open s'"
        "scheduled_groups out' = scheduled_groups out" "sc_running s' = butlast (sc_running s)"
        "same_shape (sc_bm s) (sc_bm s')" "\<forall>p \<noteq> last (sc_running s). has_room s p \<longrightarrow> has_room s' p"
      using preempt_safe [OF Cons.prems(1,2) run(2)] by blast
    have "schedule_decodes_from (p # ps) s out bt bs = Some (s', out', bt, bs)"
      using True g opn ok pr(1) by (auto simp: estimate_tokens_def Let_def)
    moreover have "rooms s' out'"
    proof -
      have sub: "set xs \<subseteq> set (butlast (sc_running s))"
        using Cons.prems(3) by (auto simp: butlast_append)
      have "p' \<noteq> last (sc_running s)" if "p' \<in> set (scheduled_groups out)" for p'
        using that sub Cons.prems(5) distinct_butlast_last [OF run(3,2)] by blast
      then show ?thesis
        using Cons.prems(4,5) sub pr(4,5,7) by (auto simp: rooms_def)
    qed
    ultimately show ?thesis using pr by blast
  next
    case False
    then have can: "can_append (sc_bm s) (sequences g) = Some True" "num_unfinished g \<le> bt" "0 < bs"
      using ok by simp_all
    obtain s1 where s1: "base_inv ext s1" "all_open s1" "sc_running s1 = sc_running s" "sc_config s1 = sc_config s"
        "same_shape (sc_bm s) (sc_bm s1)"
        "rooms s1 (out\<lparr>scheduled_groups := scheduled_groups out @ [p]\<rparr>)"
        "schedule_decodes_from (p # ps) s out bt bs = schedule_decodes_from ps s1
          (out\<lparr>scheduled_groups := scheduled_groups out @ [p]\<rparr>) (bt - num_unfinished g) (bs - 1)"
      using decode_iteration [OF base Cons.prems(2) run(1) notin Cons.prems(4) g can] by blast
    have "serve_inv ext s1" using s1(1,4) parts(3) by (simp add: serve_inv_iff)
    moreover have "sc_running s1 = (xs @ [p]) @ ps" using Cons.prems(3) s1(3) by simp
    moreover have "set (scheduled_groups (out\<lparr>scheduled_groups := scheduled_groups out @ [p]\<rparr>)) \<subseteq> set (xs @ [p])"
      using Cons.prems(5) by auto
    ultimately show ?thesis
      using Cons.IH [OF _ s1(2) _ s1(6), of "xs @ [p]" "bt - num_unfinished g" "bs - 1"] s1(5,7)
        same_shape_trans by fastforce
  qed
qed

text \<open>An iteration of the prefill loop that admits the head of the waiting queue.\<close>

lemma prefill_iteration:
  assumes inv: "base_inv ext s" and open_all: "all_open s" and w: "sc_waiting s = p # ps" and rm: "rooms s out"
    and g: "sc_heap s p = Some g" and v: "vec_at (sequences g) 0 = Some q0"
    and n: "num_blocks_needed (bm_block_size (sc_bm s)) q0 = Some n" and can: "can_allocate (sc_bm s) n"
    and budget: "group_prompt_len g \<le> bt" "0 < bs"
  shows "\<exists>s1 seqs bm'. base_inv ext s1 \<and> all_open s1 \<and> sc_waiting s1 = ps \<and> sc_running s1 = sc_running s @ [p] \<and>
    sc_config s1 = sc_config s \<and> same_shape (sc_bm s) (sc_bm s1) \<and>
    rooms s1 (out\<lparr>scheduled_groups := scheduled_groups out @ [p]\<rparr>) \<and>
    mapM_st (prefill_seq n) (sequences g) (sc_bm s) = Some (seqs, bm') \<and>
    sc_heap s1 = (sc_heap s)(p \<mapsto> g\<lparr>sequences := seqs\<rparr>) \<and>
    schedule_prefills_from (p # ps) s out bt bs = schedule_prefills_from ps s1
      (out\<lparr>scheduled_groups := scheduled_groups out @ [p]\<rparr>) (bt - group_prompt_len g) (bs - 1)"
proof -
  note parts = base_inv_parts [OF inv]
  have wait: "p \<in> set (sc_waiting s)" "p \<notin> set ps" "p \<notin> set (sc_running s)"
    using w queues_wf_parts(1,4) [OF parts(1)] by auto
  have opn: "\<not> all_finished g" using open_all g by (simp add: all_open_def)
  obtain seqs bm' q where gr: "mapM_st (prefill_seq n) (sequences g) (sc_bm s) = Some (seqs, bm')"
      "same_shape (sc_bm s) bm'"
      "blocks_inv ext ((sc_heap s)(p \<mapsto> g\<lparr>sequences := seqs\<rparr>)) bm'
        (set (sc_waiting s) - {p}) (insert p (set (sc_running s)))"
      "seqs = [q]" "\<not> seq_finished q" "total_len q \<le> length (logical_blocks q) * bm_block_size (sc_bm s)"
    using prefill_safe [OF parts(3) g wait(1) opn v n can] by blast
  define s1 where "s1 = s\<lparr>sc_heap := (sc_heap s)(p \<mapsto> g\<lparr>sequences := seqs\<rparr>), sc_bm := bm',
    sc_running := sc_running s @ [p], sc_waiting := ps\<rparr>"
  have "frame s s1"
    using update_group_frame [OF g, of seqs ps "sc_running s @ [p]" "sc_swapped s" bm']
      prefill_map_obs [OF gr(1)] w by (simp add: s1_def queue_def frame_def)
  moreover have "set (sc_waiting s) - {p} = set ps" using w wait(2) by auto
  ultimately have "base_inv ext s1"
    using parts gr(3) frame_queues_wf by (auto simp: base_inv_def s1_def)
  moreover have "all_open s1"
    using all_open_update [OF open_all, where s' = s1 and p = p and g = g and q = q] gr(4,5) by (simp add: s1_def)
  moreover have "rooms s1 (out\<lparr>scheduled_groups := scheduled_groups out @ [p]\<rparr>)"
  proof -
    have "p \<notin> set (scheduled_groups out)" using rm wait(3) by (auto simp: rooms_def)
    moreover have "has_room s1 p" using gr by (simp add: has_room_def s1_def same_shape_block_size)
    moreover have "has_room s1 p'" if "has_room s p'" "p' \<noteq> p" for p'
      using has_room_other [OF that gr(2)] by (simp add: s1_def)
    ultimately show ?thesis using rm by (auto simp: rooms_def s1_def)
  qed
  ultimately show ?thesis using g v n can gr(1,2) budget
    by (intro exI [of _ s1] exI [of _ seqs] exI [of _ bm']) (auto simp: estimate_tokens_def s1_def Let_def)
qed

lemma prefills_safe:
  assumes "serve_inv ext s" and "all_open s" and "sc_waiting s = ps" and "rooms s out"
  shows "\<exists>s' out' bt' bs'. schedule_prefills_from ps s out bt bs = Some (s', out', bt', bs') \<and>
    serve_inv ext s' \<and> all_open s' \<and> rooms s' out' \<and> same_shape (sc_bm s) (sc_bm s')"
  using assms
proof (induction ps arbitrary: s out bt bs)
  case Nil
  then show ?case by auto
next
  case (Cons p ps)
  note parts = serve_inv_parts [OF Cons.prems(1)]
  have wait: "p \<in> set (sc_waiting s)" "p \<notin> set ps" "p \<notin> set (sc_running s)"
    using Cons.prems(3) queues_wf_parts(1,4) [OF parts(1)] by auto
  obtain g where g: "sc_heap s p = Some g"
    using queues_wf_parts(7) [OF parts(1)] wait(1) by blast
  have base: "base_inv ext s" using Cons.prems(1) by (simp add: serve_inv_iff)
  have bs: "0 < bm_block_size (sc_bm s)" using parts(4) by (simp add: blocks_inv_def)
  obtain q0 where q0: "sequences g = [q0]" using blocks_inv_group [OF parts(4) g] by metis
  then have v: "vec_at (sequences g) 0 = Some q0" by simp
  obtain n where n: "num_blocks_needed (bm_block_size (sc_bm s)) q0 = Some n" using bs by simp
  show ?case
  proof (cases "bs = 0 \<or> group_prompt_len g > bt \<or> \<not> can_allocate (sc_bm s) n")
    case True
    then have "schedule_prefills_from (p # ps) s out bt bs = Some (s, out, bt, bs)"
      using g v n by (auto simp: estimate_tokens_def Let_def)
    then show ?thesis using Cons.prems by auto
  next
    case False
    then have can: "can_allocate (sc_bm s) n" "group_prompt_len g \<le> bt" "0 < bs" by simp_all
    obtain s1 where s1: "base_inv ext s1" "all_open s1" "sc_waiting s1 = ps" "sc_config s1 = sc_config s"
        "same_shape (sc_bm s) (sc_bm s1)"
        "rooms s1 (out\<lparr>scheduled_groups := scheduled_groups out @ [p]\<rparr>)"
        "schedule_prefills_from (p # ps) s out bt bs = schedule_prefills_from ps s1
          (out\<lparr>scheduled_groups := scheduled_groups out @ [p]\<rparr>) (bt - group_prompt_len g) (bs - 1)"
      using prefill_iteration [OF base Cons.prems(2,3,4) g v n can] by blast
    have "serve_inv ext s1" using s1(1,4) parts(3) by (simp add: serve_inv_iff)
    then show ?thesis
      using Cons.IH [OF _ s1(2,3,6), of "bt - group_prompt_len g" "bs - 1"] s1(5,7)
        same_shape_trans by fastforce
  qed
qed

lemma sort_base:
  assumes "base_inv ext s"
  shows "\<exists>s'. sort_waiting_queue s = Some s' \<and> base_inv ext s' \<and> sc_heap s' = sc_heap s \<and>
    sc_running s' = sc_running s \<and> sc_bm s' = sc_bm s \<and> sc_config s' = sc_config s \<and>
    mset (sc_waiting s') = mset (sc_waiting s)"
proof -
  note parts = base_inv_parts [OF assms]
  have "list_all (\<lambda>p. sc_heap s p \<noteq> None) (sc_waiting s)"
    using queues_wf_parts(7) [OF parts(1)] by (auto simp: list_all_iff)
  then obtain s' where s': "sort_waiting_queue s = Some s'"
    by (cases "policy (sc_config s) = FCFS") (simp_all add: sort_waiting_queue_def)
  then have "sc_bm s' = sc_bm s" "sc_config s' = sc_config s"
    by (auto simp: sort_waiting_queue_def split: if_splits)
  moreover have "queues_wf s'" using frame_queues_wf [OF sort_waiting_effect(1) [OF s'] parts(1)] .
  moreover have "set (sc_waiting s') = set (sc_waiting s)"
    using sort_waiting_effect(5) [OF s'] by (metis set_mset_mset)
  ultimately show ?thesis using s' parts sort_waiting_effect [OF s'] by (simp add: base_inv_def)
qed

lemma sort_safe:
  assumes "serve_inv ext s"
  shows "\<exists>s'. sort_waiting_queue s = Some s' \<and> serve_inv ext s' \<and> sc_heap s' = sc_heap s \<and>
    sc_running s' = sc_running s \<and> sc_bm s' = sc_bm s"
  using sort_base [of ext s] assms by (auto simp: serve_inv_iff)

text \<open>One scheduling step from a state without finished groups is defined and safe.\<close>

lemma schedule_safe:
  assumes inv: "serve_inv ext s" and opn: "all_open s"
  shows "\<exists>out s'. schedule s = Some (out, s') \<and> serve_inv ext s' \<and> all_open s' \<and> rooms s' out \<and>
    swapped_in_groups out = [] \<and> same_shape (sc_bm s) (sc_bm s')"
proof -
  let ?bt = "max_num_batched_tokens (sc_config s)" and ?bs = "max_num_seqs (sc_config s)"
  have r0: "rooms s empty_output" by (simp add: rooms_def empty_output_def)
  obtain s1 out1 bt1 bs1 where d:
      "schedule_decodes_from (sc_running s) s empty_output ?bt ?bs = Some (s1, out1, bt1, bs1)"
      "serve_inv ext s1" "all_open s1" "rooms s1 out1" "same_shape (sc_bm s) (sc_bm s1)"
    using decodes_safe [OF inv opn _ r0, of "[]" "sc_running s" ?bt ?bs] by (auto simp: empty_output_def)
  obtain sw where w: "sort_waiting_queue s1 = Some sw" "serve_inv ext sw" "sc_heap sw = sc_heap s1"
      "sc_running sw = sc_running s1" "sc_bm sw = sc_bm s1"
    using sort_safe [OF d(2)] by blast
  have wo: "all_open sw" "rooms sw out1"
    using d(3,4) w(3-5) by (auto simp: all_open_def rooms_def has_room_def)
  obtain s2 out2 bt2 bs2 where p: "schedule_prefills_from (sc_waiting sw) sw out1 bt1 bs1 = Some (s2, out2, bt2, bs2)"
      "serve_inv ext s2" "all_open s2" "rooms s2 out2" "same_shape (sc_bm sw) (sc_bm s2)"
    using prefills_safe [OF w(2) wo(1) refl wo(2)] by blast
  obtain out' s' where res: "(if sc_waiting s1 \<noteq> [] then (s', out', bt2, bs2) = (s2, out2, bt2, bs2)
      else (s', out') = (s1, out1))" by (cases "sc_waiting s1 = []") auto
  have s': "serve_inv ext s'" "all_open s'" "rooms s' out'" "same_shape (sc_bm s) (sc_bm s')"
    using res d p w(5) same_shape_trans by (auto split: if_splits)
  have sw0: "sc_swapped s' = []" using serve_inv_parts(2) [OF s'(1)] .
  have sch: "\<exists>n. schedule s = Some (out'\<lparr>num_batched_tokens := n\<rparr>, s')"
    using d(1) w(1) p(1) res sw0
    by (auto simp: schedule_def schedule_decodes_def schedule_prefills_def Let_def split: if_splits)
  moreover have "swapped_in_groups out' = []"
  proof -
    have "swapped_in_groups out1 = []"
      using decodes_effect [OF d(1)] queues_wf_parts(2) [OF serve_inv_parts(1) [OF inv]]
      by (simp add: empty_output_def)
    moreover have "swapped_in_groups out2 = swapped_in_groups out1"
      using prefills_effect [OF p(1) refl] queues_wf_parts(1) [OF serve_inv_parts(1) [OF w(2)]] by simp
    ultimately show ?thesis using res by (auto split: if_splits)
  qed
  ultimately show ?thesis using s' by (auto simp: rooms_def)
qed

section \<open>The other operations of the loop\<close>

lemma blocks_inv_add:
  assumes inv: "blocks_inv ext h bm W R" and p: "p \<notin> dom h" and ok: "group_ok bm False g"
    and fresh: "\<forall>q g'. h q = Some g' \<longrightarrow> request_id g' \<noteq> request_id g"
  shows "blocks_inv ext (h(p \<mapsto> g)) bm (insert p W) R"
proof -
  have R: "p \<notin> R" using inv p by (auto simp: blocks_inv_def)
  have ne: "q \<noteq> p" if "h q = Some g'" for q g' using that p by auto
  have "group_ok bm (q \<in> R) g'" if "(h(p \<mapsto> g)) q = Some g'" for q g'
    using that inv ok R by (auto simp: blocks_inv_def split: if_splits)
  moreover have "q = q'"
    if "(h(p \<mapsto> g)) q = Some g1" "(h(p \<mapsto> g)) q' = Some g2" "request_id g1 = request_id g2" for q q' g1 g2
  proof (cases "q = p \<or> q' = p")
    case True
    then have "g1 = g \<and> q = p \<or> g2 = g \<and> q' = p" using that(1,2) by auto
    then show ?thesis using that fresh by (metis fun_upd_other)
  next
    case False
    then show ?thesis using that inv by (simp add: blocks_inv_def)
  qed
  moreover have "\<exists>q g'. (h(p \<mapsto> g)) q = Some g' \<and> request_id g' = sid" if held: "gpu_held bm sid \<noteq> []" for sid
  proof -
    obtain q g' where "h q = Some g'" "request_id g' = sid"
      using inv held unfolding blocks_inv_def by blast
    then show ?thesis using ne by (intro exI [of _ q] exI [of _ g']) auto
  qed
  moreover have "insert p W \<inter> R = {}" "insert p W \<union> R = dom (h(p \<mapsto> g))" "gpu_inv ext bm" "0 < bm_block_size bm"
    using inv R by (auto simp: blocks_inv_def)
  ultimately show ?thesis unfolding blocks_inv_def by blast
qed

lemma add_request_base:
  assumes inv: "base_inv ext s" and p: "p \<notin> dom (sc_heap s)"
    and fresh: "\<forall>q g. sc_heap s q = Some g \<longrightarrow> request_id g \<noteq> rid"
  shows "base_inv ext (add_request p (sequence_group_new now rid prompt sp prio) s)"
proof -
  let ?g = "sequence_group_new now rid prompt sp prio"
  note parts = base_inv_parts [OF inv]
  have "gpu_held (sc_bm s) rid = []"
    using parts(3) fresh unfolding blocks_inv_def by blast
  then have "group_ok (sc_bm s) False ?g"
    by (simp add: group_ok_def sequence_group_new_def)
  moreover have "request_id ?g = rid" by (simp add: sequence_group_new_def)
  ultimately have "blocks_inv ext ((sc_heap s)(p \<mapsto> ?g)) (sc_bm s) (insert p (set (sc_waiting s))) (set (sc_running s))"
    using fresh by (intro blocks_inv_add [OF parts(3) p]) auto
  moreover have "queues_wf (add_request p ?g s)" using add_request_queues_wf [OF parts(1) p] .
  ultimately show ?thesis
    using parts(2) by (simp add: base_inv_def add_request_def)
qed

lemma add_request_safe:
  assumes "serve_inv ext s" and "p \<notin> dom (sc_heap s)"
    and "\<forall>q g. sc_heap s q = Some g \<longrightarrow> request_id g \<noteq> rid"
  shows "serve_inv ext (add_request p (sequence_group_new now rid prompt sp prio) s)"
  using assms add_request_base [of ext s] by (simp add: serve_inv_iff) (simp add: add_request_def)

lemma abort_safe:
  assumes inv: "serve_inv ext s"
  shows "\<exists>s'. abort_request rid s = Some s' \<and> serve_inv ext s'"
proof (cases "sc_request_map s rid")
  case None
  then show ?thesis using inv by (simp add: abort_request_def)
next
  case (Some p)
  note parts = serve_inv_parts [OF inv]
  obtain g where g: "sc_heap s p = Some g" using parts(1) Some unfolding queues_wf_def by blast
  obtain q where q: "sequences g = [q]" "sd_seq_id q = request_id g"
      "group_ok (sc_bm s) (p \<in> set (sc_running s)) g"
    using blocks_inv_group [OF parts(4) g] by metis
  have gi: "gpu_inv ext (sc_bm s)" using parts(4) by (simp add: blocks_inv_def)
  obtain bm' where fr: "free_blocks (request_id g) (sc_bm s) = Some bm'" "gpu_inv ext bm'"
      "same_shape (sc_bm s) bm'" "gpu_held bm' = (gpu_held (sc_bm s))(request_id g := [])"
    using ka.free_some [OF gi, of "request_id g"] by blast
  have WR: "set (sc_waiting s) \<inter> set (sc_running s) = {}" using parts(4) by (simp add: blocks_inv_def)
  have "\<exists>seqs bm'. mapM_st abort_seq (sequences g) (sc_bm s) = Some (seqs, bm') \<and>
      blocks_inv ext ((sc_heap s)(p \<mapsto> g\<lparr>sequences := seqs\<rparr>)) bm' (set (sc_waiting s)) (set (sc_running s))"
  proof (cases "seq_finished q")
    case True
    have "(sc_heap s)(p \<mapsto> g\<lparr>sequences := [q]\<rparr>) = sc_heap s" using g q(1) by (auto simp: fun_eq_iff)
    then show ?thesis using True q(1) parts(4)
      by (intro exI [of _ "[q]"] exI [of _ "sc_bm s"]) (simp add: abort_seq_def)
  next
    case False
    let ?q = "q\<lparr>status := FINISHED_ABORT\<rparr>"
    have "blocks_inv ext ((sc_heap s)(p \<mapsto> g\<lparr>sequences := [?q]\<rparr>)) bm' (set (sc_waiting s)) (set (sc_running s))"
      using q WR by (intro blocks_inv_update [OF parts(4) g fr(2-4)]) (auto simp: group_ok_def seq_finished_def)
    then show ?thesis using False q(1,2) fr(1)
      by (intro exI [of _ "[?q]"] exI [of _ bm']) (simp add: abort_seq_def)
  qed
  then obtain seqs bm' where a: "mapM_st abort_seq (sequences g) (sc_bm s) = Some (seqs, bm')"
      "blocks_inv ext ((sc_heap s)(p \<mapsto> g\<lparr>sequences := seqs\<rparr>)) bm' (set (sc_waiting s)) (set (sc_running s))"
    by blast
  define s' where "s' = s\<lparr>sc_heap := (sc_heap s)(p \<mapsto> g\<lparr>sequences := seqs\<rparr>), sc_bm := bm',
                  sc_request_map := (sc_request_map s)(rid := None)\<rparr>"
  have ab: "abort_request rid s = Some s'" using Some g a(1) by (simp add: abort_request_def s'_def)
  have "serve_inv ext s'"
    using abort_request_effect(1) [OF ab parts(1)] parts(2,3) a(2) by (simp add: serve_inv_def s'_def)
  with ab show ?thesis by blast
qed

lemma remove_finished_safe:
  assumes "blocks_inv ext (sc_heap s) (sc_bm s) W R" and "set ps \<subseteq> W \<union> R" and "distinct ps"
  shows "\<exists>qs s'. remove_finished ps s = Some (qs, s') \<and> same_shape (sc_bm s) (sc_bm s') \<and>
    blocks_inv ext (sc_heap s') (sc_bm s') (W \<inter> dom (sc_heap s')) (R \<inter> dom (sc_heap s'))"
  using assms
proof (induction ps arbitrary: s W R)
  case Nil
  then have "W \<inter> dom (sc_heap s) = W" "R \<inter> dom (sc_heap s) = R" by (auto simp: blocks_inv_def)
  with Nil show ?case by simp
next
  case (Cons p ps)
  obtain g where g: "sc_heap s p = Some g" using Cons.prems(1,2) unfolding blocks_inv_def by auto
  show ?case
  proof (cases "all_finished g")
    case False
    then show ?thesis using Cons.IH [of s W R] Cons.prems g by auto
  next
    case True
    obtain q where q: "sequences g = [q]" "sd_seq_id q = request_id g"
      using blocks_inv_group [OF Cons.prems(1) g] by metis
    have gi: "gpu_inv ext (sc_bm s)" using Cons.prems(1) by (simp add: blocks_inv_def)
    obtain bm' where fr: "free_blocks (request_id g) (sc_bm s) = Some bm'" "gpu_inv ext bm'"
        "same_shape (sc_bm s) bm'" "gpu_held bm' = (gpu_held (sc_bm s))(request_id g := [])"
      using ka.free_some [OF gi, of "request_id g"] by blast
    define s1 where "s1 = s\<lparr>sc_bm := bm', sc_request_map := (sc_request_map s)(request_id g := None),
              sc_heap := (sc_heap s)(p := None)\<rparr>"
    have inv1: "blocks_inv ext (sc_heap s1) (sc_bm s1) (W - {p}) (R - {p})"
      using blocks_inv_remove [OF Cons.prems(1) g fr(2-4)] by (simp add: s1_def)
    have "set ps \<subseteq> (W - {p}) \<union> (R - {p})" using Cons.prems(2,3) by auto
    then obtain qs s' where r: "remove_finished ps s1 = Some (qs, s')" "same_shape (sc_bm s1) (sc_bm s')"
        "blocks_inv ext (sc_heap s') (sc_bm s') ((W - {p}) \<inter> dom (sc_heap s')) ((R - {p}) \<inter> dom (sc_heap s'))"
      using Cons.IH [OF inv1] Cons.prems(3) by (auto simp: s1_def)
    have "p \<notin> dom (sc_heap s')"
      using remove_finished_effect(2) [OF r(1)] Cons.prems(3) by (auto simp: s1_def)
    then have "(W - {p}) \<inter> dom (sc_heap s') = W \<inter> dom (sc_heap s')"
      "(R - {p}) \<inter> dom (sc_heap s') = R \<inter> dom (sc_heap s')" by auto
    moreover have "remove_finished (p # ps) s = remove_finished ps s1"
      using g True q fr(1) by (simp add: s1_def)
    moreover have "same_shape (sc_bm s) (sc_bm s')" using r(2) fr(3) same_shape_trans by (simp add: s1_def)
    ultimately show ?thesis using r(1,3) by auto
  qed
qed

lemma free_finished_base:
  assumes inv: "base_inv ext s"
  shows "\<exists>s'. free_finished_requests s = Some s' \<and> base_inv ext s' \<and> all_open s' \<and>
    sc_config s' = sc_config s \<and> same_shape (sc_bm s) (sc_bm s')"
proof -
  note parts = base_inv_parts [OF inv]
  note qs = queues_wf_parts [OF parts(1)]
  obtain run s1 where r: "remove_finished (sc_running s) s = Some (run, s1)"
      "blocks_inv ext (sc_heap s1) (sc_bm s1) (set (sc_waiting s) \<inter> dom (sc_heap s1))
        (set (sc_running s) \<inter> dom (sc_heap s1))" "same_shape (sc_bm s) (sc_bm s1)"
    using remove_finished_safe [OF parts(3) _ qs(2)] by auto
  note re = remove_finished_effect [OF r(1) qs(2)]
  let ?s1 = "s1\<lparr>sc_running := run\<rparr>"
  have sub: "set (sc_waiting s) \<subseteq> dom (sc_heap s1)" using qs(4,7) re(2) by auto
  obtain wait s2 where w: "remove_finished (sc_waiting s) ?s1 = Some (wait, s2)"
      "blocks_inv ext (sc_heap s2) (sc_bm s2) (set (sc_waiting s) \<inter> dom (sc_heap s1) \<inter> dom (sc_heap s2))
        (set (sc_running s) \<inter> dom (sc_heap s1) \<inter> dom (sc_heap s2))" "same_shape (sc_bm s1) (sc_bm s2)"
  proof -
    have "blocks_inv ext (sc_heap ?s1) (sc_bm ?s1) (set (sc_waiting s) \<inter> dom (sc_heap s1))
        (set (sc_running s) \<inter> dom (sc_heap s1))" using r(2) by simp
    from remove_finished_safe [OF this _ qs(1)] sub show ?thesis using that by auto
  qed
  define s' where "s' = s2\<lparr>sc_waiting := wait\<rparr>"
  have ff: "free_finished_requests s = Some s'"
    using r(1) w(1) re(4) by (simp add: free_finished_requests_def s'_def)
  note fe = free_finished_effect [OF ff parts(1)]
  have q': "dom (sc_heap s') = set (sc_waiting s') \<union> set (sc_running s')"
    using fe(1,2) parts(2) by (auto simp: queues_wf_def queue_def)
  have hp: "sc_heap s' = sc_heap s2" "sc_bm s' = sc_bm s2" by (simp_all add: s'_def)
  have d12: "dom (sc_heap s2) \<subseteq> dom (sc_heap s1)"
    using remove_finished_effect(2) [OF w(1) qs(1)] by auto
  have "set (sc_waiting s) \<inter> dom (sc_heap s2) = set (sc_waiting s')"
    "set (sc_running s) \<inter> dom (sc_heap s2) = set (sc_running s')"
    using q' qs(4) hp(1) fe(3,4) by auto
  moreover from this d12 have "set (sc_waiting s) \<inter> dom (sc_heap s1) \<inter> dom (sc_heap s2) = set (sc_waiting s')"
    "set (sc_running s) \<inter> dom (sc_heap s1) \<inter> dom (sc_heap s2) = set (sc_running s')" by blast+
  ultimately have "base_inv ext s'"
    using fe(1,2) parts(2) w(2) hp by (simp add: base_inv_def)
  moreover have "sc_config s' = sc_config s"
    using remove_finished_effect(3) [OF w(1) qs(1)] re(3) by (simp add: s'_def)
  moreover have "all_open s'"
  proof -
    have "\<not> all_finished g" if "sc_heap s' p = Some g" for p g
    proof -
      have p: "p \<in> set (sc_waiting s') \<union> set (sc_running s')" using that q' by auto
      then have "\<not> all_finished (the (sc_heap s p))" using fe(3,4) by auto
      moreover have "sc_heap s' p = sc_heap s p" using fe(5) [of p] p by (auto simp: queue_def)
      ultimately show ?thesis using that by (metis option.sel)
    qed
    then show ?thesis by (simp add: all_open_def)
  qed
  moreover have "same_shape (sc_bm s) (sc_bm s')" using r(3) w(3) same_shape_trans by (simp add: s'_def)
  ultimately show ?thesis using ff by blast
qed

lemma free_finished_safe:
  assumes "serve_inv ext s"
  shows "\<exists>s'. free_finished_requests s = Some s' \<and> serve_inv ext s' \<and> all_open s'"
  using free_finished_base [of ext s] assms by (auto simp: serve_inv_iff)

text \<open>Handing out tokens changes neither identifiers nor block tables.\<close>

lemma group_ok_handed:
  assumes "group_ok bm True g" and "request_id g' = request_id g"
    and "length (sequences g') = length (sequences g)"
    and "\<forall>j < length (sequences g). \<exists>i. sequences g' ! j = handed mx toks i (sequences g ! j)"
  shows "group_ok bm True g'"
proof -
  obtain q where q: "sequences g = [q]" "sd_seq_id q = request_id g"
      "\<not> seq_finished q \<longrightarrow> logical_blocks q = gpu_held bm (request_id g)"
    using assms(1) by (auto simp: group_ok_def)
  then obtain i where "sequences g' ! 0 = handed mx toks i q" "length (sequences g') = 1"
    using assms(3,4) by auto
  then have "sequences g' = [handed mx toks i q]" by (cases "sequences g'") auto
  moreover have "sd_seq_id (handed mx toks i q) = sd_seq_id q"
      "logical_blocks (handed mx toks i q) = logical_blocks q"
      "seq_finished q \<Longrightarrow> seq_finished (handed mx toks i q)"
    by (simp_all add: handed_def give_def append_token_def Let_def)
  ultimately show ?thesis using q assms(2) by (auto simp: group_ok_def)
qed

lemma update_base:
  assumes inv: "base_inv ext s" and run: "set (scheduled_groups out) \<subseteq> set (sc_running s)"
    and dist: "distinct (scheduled_groups out)"
  shows "\<exists>h'. update_after_decode clock out toks (sc_heap s) = Some h' \<and> base_inv ext (s\<lparr>sc_heap := h'\<rparr>)"
proof -
  let ?h = "sc_heap s" and ?ps = "scheduled_groups out"
  note parts = base_inv_parts [OF inv]
  have dom: "set ?ps \<subseteq> dom ?h" using run queues_wf_parts(8) [OF parts(1)] by blast
  obtain h' where h': "update_groups clock toks ?ps ?h 0 = Some h'" "\<forall>q. q \<notin> set ?ps \<longrightarrow> h' q = ?h q"
    "\<forall>k < length ?ps. h' (?ps ! k) = Some (fst (update_group clock toks (the (?h (?ps ! k)))
      (min (length toks) (first_index ?h ?ps k))))"
    using update_groups_effect [OF dom dist, of 0 toks clock] by auto
  have sched: "\<exists>g g' i i'. ?h p = Some g \<and> h' p = Some g' \<and> update_group clock toks g i = (g', i')"
    if p: "p \<in> set ?ps" for p
  proof -
    obtain k where k: "k < length ?ps" "p = ?ps ! k" using p by (auto simp: in_set_conv_nth)
    obtain g where "?h p = Some g" using dom p by auto
    with h'(3) k show ?thesis by (metis option.sel prod.collapse)
  qed
  have ids: "map_option request_id (h' p) = map_option request_id (?h p)" for p
  proof (cases "p \<in> set ?ps")
    case True
    then show ?thesis using sched [OF True] update_group_nth(4) by fastforce
  qed (use h'(2) in simp)
  have ok: "group_ok (sc_bm s) (p \<in> set (sc_running s)) g'" if hp: "h' p = Some g'" for p g'
  proof (cases "p \<in> set ?ps")
    case True
    then obtain g i i' where g: "?h p = Some g" "update_group clock toks g i = (g', i')"
      using sched [OF True] hp by auto
    have "group_ok (sc_bm s) True g"
      using blocks_inv_group [OF parts(3) g(1)] True run by (metis (full_types) subsetD)
    moreover have "\<forall>j < length (sequences g). \<exists>i. sequences g' ! j =
        handed (max_tokens (sampling g)) toks i (sequences g ! j)"
      using update_group_nth(2) [OF g(2)] by blast
    ultimately have "group_ok (sc_bm s) True g'"
      using group_ok_handed update_group_nth(1,4) [OF g(2)] by blast
    then show ?thesis using True run by auto
  next
    case False
    then show ?thesis using hp h'(2) parts(3) by (simp add: blocks_inv_def)
  qed
  have dom': "dom h' = dom ?h" using ids by (metis (no_types, lifting) dom_map_option_comp comp_def ext)
  have old: "\<exists>g. ?h p = Some g \<and> request_id g = request_id g'" if "h' p = Some g'" for p g'
    using ids [of p] that by (cases "?h p") auto
  have new: "\<exists>g'. h' p = Some g' \<and> request_id g' = request_id g" if "?h p = Some g" for p g
    using ids [of p] that by (cases "h' p") auto
  have "blocks_inv ext h' (sc_bm s) (set (sc_waiting s)) (set (sc_running s))"
  proof -
    have "q = q'" if "h' q = Some g1" "h' q' = Some g2" "request_id g1 = request_id g2" for q q' g1 g2
      using old [OF that(1)] old [OF that(2)] that(3) parts(3) unfolding blocks_inv_def by metis
    moreover have "\<exists>q g'. h' q = Some g' \<and> request_id g' = sid" if held: "gpu_held (sc_bm s) sid \<noteq> []" for sid
      using held parts(3) new unfolding blocks_inv_def by metis
    moreover have "set (sc_waiting s) \<union> set (sc_running s) = dom h'"
      using parts(3) dom' by (simp add: blocks_inv_def)
    ultimately show ?thesis using parts(3) ok unfolding blocks_inv_def by blast
  qed
  moreover have "queues_wf (s\<lparr>sc_heap := h'\<rparr>)"
  proof -
    have "\<exists>g. h' p = Some g \<and> request_id g = rid" if "sc_request_map s rid = Some p" for rid p
      using that parts(1) new unfolding queues_wf_def by metis
    then show ?thesis using parts(1) dom' by (simp add: queues_wf_def queue_def)
  qed
  ultimately show ?thesis using h'(1) parts(2) by (simp add: update_after_decode_def base_inv_def)
qed

lemma update_safe:
  assumes "serve_inv ext s" and "set (scheduled_groups out) \<subseteq> set (sc_running s)"
    and "distinct (scheduled_groups out)"
  shows "\<exists>h'. update_after_decode clock out toks (sc_heap s) = Some h' \<and> serve_inv ext (s\<lparr>sc_heap := h'\<rparr>)"
  using update_base [of ext s out clock toks] assms by (auto simp: serve_inv_iff)

section \<open>Runs of the loop\<close>

text \<open>
  The states the loop can reach, with the output of a scheduling step whose tokens have not been
  handed out yet. Requests are built by the constructor of \<open>SequenceGroup\<close>, at a fresh address and
  with an identifier no live request uses; they can be added and aborted at any moment.
  \<open>guard\<close> restricts the states in which \<open>schedule\<close> is called.
\<close>

inductive serving ::
    "(scheduler \<Rightarrow> bool) \<Rightarrow> scheduler \<Rightarrow> scheduler \<Rightarrow> scheduler_output option \<Rightarrow> bool"
  for guard :: "scheduler \<Rightarrow> bool" and s0 :: scheduler
  where
  start: "serving guard s0 s0 None"
| add: "serving guard s0 s pend \<Longrightarrow> p \<notin> dom (sc_heap s) \<Longrightarrow>
    \<forall>q g. sc_heap s q = Some g \<longrightarrow> request_id g \<noteq> rid \<Longrightarrow>
    serving guard s0 (add_request p (sequence_group_new now rid prompt sp prio) s) pend"
| abort: "serving guard s0 s pend \<Longrightarrow> abort_request rid s = Some s' \<Longrightarrow> serving guard s0 s' pend"
| sched: "serving guard s0 s None \<Longrightarrow> guard s \<Longrightarrow> schedule s = Some (out, s') \<Longrightarrow>
    serving guard s0 s' (Some out)"
| decode: "serving guard s0 s (Some out) \<Longrightarrow>
    update_after_decode clock out toks (sc_heap s) = Some h' \<Longrightarrow> serving guard s0 (s\<lparr>sc_heap := h'\<rparr>) None"
| sweep: "serving guard s0 s None \<Longrightarrow> free_finished_requests s = Some s' \<Longrightarrow> serving guard s0 s' None"

text \<open>What a pending output promises: its groups are live, in the running queue, each once.\<close>

definition pending_ok :: "scheduler \<Rightarrow> scheduler_output option \<Rightarrow> bool" where
  "pending_ok s pend \<longleftrightarrow>
     (\<forall>out. pend = Some out \<longrightarrow>
        distinct (scheduled_groups out) \<and> set (scheduled_groups out) \<subseteq> set (sc_running s))"

lemma update_queues_wf:
  assumes wf: "queues_wf s" and pend: "pending_ok s (Some out)"
    and up: "update_after_decode clock out toks (sc_heap s) = Some h'"
  shows "queues_wf (s\<lparr>sc_heap := h'\<rparr>)"
proof -
  let ?h = "sc_heap s"
  have "map_option request_id (h' p) = map_option request_id (h p)"
    if "update_groups clock toks ps h i = Some h'" for ps h h' i p
    using that
  proof (induction ps arbitrary: h i)
    case (Cons q ps)
    then obtain g where "h q = Some g" by (auto simp: bind_eq_Some_conv)
    moreover obtain g1 i1 where "update_group clock toks g i = (g1, i1)" by fastforce
    ultimately have g: "h q = Some g" "update_group clock toks g i = (g1, i1)"
        "update_groups clock toks ps (h(q \<mapsto> g1)) i1 = Some h'"
      using Cons.prems by simp_all
    then show ?case using Cons.IH [OF g(3)] update_group_nth(4) [OF g(2)] by simp
  qed simp
  then have ids: "map_option request_id (h' p) = map_option request_id (?h p)" for p
    using up by (simp add: update_after_decode_def)
  have "dom h' = dom ?h" using ids by (metis (no_types, lifting) dom_map_option_comp comp_def ext)
  moreover have "\<exists>g. h' p = Some g \<and> request_id g = rid" if m: "sc_request_map s rid = Some p" for rid p
  proof -
    obtain g where "?h p = Some g" "request_id g = rid" using wf m unfolding queues_wf_def by blast
    with ids [of p] show ?thesis by (cases "h' p") auto
  qed
  ultimately show ?thesis using wf by (simp add: queues_wf_def queue_def)
qed

lemma scheduled_pending_ok:
  assumes "schedule s = Some (out, s')" and "queues_wf s"
  shows "pending_ok s' (Some out)"
  using schedule_budget [OF assms] by (auto simp: pending_ok_def)

lemma serving_queues:
  assumes "serving guard s0 s pend" and "queues_wf s0"
  shows "queues_wf s \<and> pending_ok s pend"
  using assms(1)
proof (induction rule: serving.induct)
  case start
  then show ?case using assms(2) by (simp add: pending_ok_def)
next
  case (add s pend p rid now prompt sp prio)
  then show ?case using add_request_queues_wf by (auto simp: pending_ok_def add_request_def)
next
  case (abort s pend rid s')
  have "sc_running s' = sc_running s"
    using abort(2) by (auto simp: abort_request_def bind_eq_Some_conv split: option.splits)
  then show ?case using abort abort_request_effect(1) [OF abort(2)] by (auto simp: pending_ok_def)
next
  case (sched s out s')
  then show ?case using scheduled_pending_ok schedule_frame frame_queues_wf by blast
next
  case (decode s out clock toks h')
  then show ?case using update_queues_wf by (auto simp: pending_ok_def)
next
  case (sweep s s')
  then show ?case using free_finished_effect(1) by (auto simp: pending_ok_def)
qed

lemma serving_blocks:
  assumes "serving all_open s0 s pend" and "serve_inv ext s0"
  shows "serve_inv ext s"
  using assms(1)
proof (induction rule: serving.induct)
  case start
  then show ?case using assms(2) .
next
  case (add s pend p rid now prompt sp prio)
  then show ?case using add_request_safe by blast
next
  case (abort s pend rid s')
  then show ?case using abort_safe [of ext s rid] by simp
next
  case (sched s out s')
  then show ?case using schedule_safe [of ext s] by auto
next
  case (decode s out clock toks h')
  have "pending_ok s (Some out)"
    using serving_queues [OF decode(1)] serve_inv_parts(1) [OF assms(2)] by blast
  then show ?case using decode update_safe [of ext s out clock toks] by (auto simp: pending_ok_def)
next
  case (sweep s s')
  then show ?case using free_finished_safe [of ext s] by auto
qed

lemma base_inv_new:
  assumes "num_gpu_blocks c \<le> 2 ^ 31" and "num_cpu_blocks c \<le> 2 ^ 31" and "0 < block_size c"
  shows "base_inv no_ext (scheduler_new sc (block_manager_new c m))"
proof -
  have "seq_blocks (block_manager_new c m) t = []" for t
    by (simp add: seq_blocks_def block_manager_new_def)
  then have "gpu_inv no_ext (block_manager_new c m)"
    using block_manager_new_wf [OF assms(1,2)] by (simp add: gpu_inv_def)
  then show ?thesis
    using assms(3)
    by (auto simp: base_inv_def scheduler_new_def queues_wf_def queue_def blocks_inv_def gpu_held_def
        seq_blocks_def bm_block_size_def block_manager_new_def)
qed

lemma serve_inv_new:
  assumes "num_gpu_blocks c \<le> 2 ^ 31" and "num_cpu_blocks c \<le> 2 ^ 31" and "0 < block_size c"
    and "preemption_mode sc = RECOMPUTE"
  shows "serve_inv no_ext (scheduler_new sc (block_manager_new c m))"
  using base_inv_new [OF assms(1-3), of sc m] assms(4) by (simp add: serve_inv_iff scheduler_new_def)

end
