(* ===== verification/Serving_Safety.thy ===== *)
theory Serving_Safety
  imports Serving
begin

text \<open>
  The properties of the serving loop that its clients rely on, and concrete runs of the loop. Runs are
  executed by a small interpreter of the loop's steps, which is sound for the relation \<open>serving\<close>.
\<close>

section \<open>Executing runs\<close>

datatype serve_cmd =
    Add ptr time_point seq_id "token_id list" sampling_params int
  | Abort seq_id
  | Schedule
  | Decode "token_id list"
  | Sweep

definition live_open :: "scheduler \<Rightarrow> bool" where
  "live_open s = list_all (\<lambda>p. \<not> all_finished (the (sc_heap s p))) (queue s)"

text \<open>One step; \<open>strict\<close> asks that \<open>schedule\<close> is called without finished groups only.\<close>

fun exec_cmd ::
    "bool \<Rightarrow> serve_cmd \<Rightarrow> scheduler \<times> scheduler_output option \<Rightarrow> (scheduler \<times> scheduler_output option) option" where
  "exec_cmd strict (Add p now rid prompt sp prio) (s, pend) =
     (if p \<in> set (queue s) \<or> list_ex (\<lambda>q. request_id (the (sc_heap s q)) = rid) (queue s) then None
      else Some (add_request p (sequence_group_new now rid prompt sp prio) s, pend))"
| "exec_cmd strict (Abort rid) (s, pend) = do { s1 \<leftarrow> abort_request rid s; Some (s1, pend) }"
| "exec_cmd strict Schedule (s, None) =
     (if strict \<and> \<not> live_open s then None
      else do { (out, s1) \<leftarrow> schedule s; Some (s1, Some out) })"
| "exec_cmd strict (Decode toks) (s, Some out) =
     do { h \<leftarrow> update_after_decode (\<lambda>_. 0) out toks (sc_heap s); Some (s\<lparr>sc_heap := h\<rparr>, None) }"
| "exec_cmd strict Sweep (s, None) = do { s1 \<leftarrow> free_finished_requests s; Some (s1, None) }"
| "exec_cmd strict _ _ = None"

definition exec ::
    "bool \<Rightarrow> serve_cmd list \<Rightarrow> scheduler \<Rightarrow> (scheduler \<times> scheduler_output option) option" where
  "exec strict cmds s0 = foldM (exec_cmd strict) cmds (s0, None)"

lemma exec_cmd_serving:
  assumes "serving guard s0 s pend" and wf: "queues_wf s"
    and guard: "\<And>s. strict \<longrightarrow> all_open s \<Longrightarrow> guard s"
    and "exec_cmd strict c (s, pend) = Some (s', pend')"
  shows "serving guard s0 s' pend'"
proof -
  have dom: "dom (sc_heap s) = set (queue s)" using wf by (simp add: queues_wf_def)
  then have live: "\<exists>g. sc_heap s p = Some g" if "p \<in> set (queue s)" for p using that by blast
  show ?thesis
  proof (cases c)
    case (Add p now rid prompt sp prio)
    then have c: "p \<notin> set (queue s)" "\<not> list_ex (\<lambda>q. request_id (the (sc_heap s q)) = rid) (queue s)"
        "s' = add_request p (sequence_group_new now rid prompt sp prio) s" "pend' = pend"
      using assms(4) by (auto split: if_splits)
    have "\<forall>q g. sc_heap s q = Some g \<longrightarrow> request_id g \<noteq> rid"
      using c(2) dom by (force simp: list_ex_iff)
    then show ?thesis using serving.add [OF assms(1)] c(1,3,4) dom by simp
  next
    case (Abort rid)
    then show ?thesis using assms(4) serving.abort [OF assms(1)] by (auto simp: bind_eq_Some_conv)
  next
    case Schedule
    show ?thesis
    proof (cases pend)
      case None
      have "all_open s" if "live_open s"
        using that dom by (force simp: live_open_def all_open_def list_all_iff)
      then have "guard s" using assms(4) Schedule None guard by (auto split: if_splits)
      then show ?thesis
        using assms(1,4) Schedule None by (auto simp: bind_eq_Some_conv split: if_splits intro: serving.sched)
    qed (use assms(4) Schedule in simp)
  next
    case (Decode toks)
    then show ?thesis using assms(1,4)
      by (cases pend) (auto simp: bind_eq_Some_conv intro: serving.decode)
  next
    case Sweep
    then show ?thesis using assms(1,4)
      by (cases pend) (auto simp: bind_eq_Some_conv intro: serving.sweep)
  qed
qed

lemma exec_serving:
  assumes "exec strict cmds s0 = Some (s, pend)" and "queues_wf s0"
    and "\<And>s. strict \<longrightarrow> all_open s \<Longrightarrow> guard s"
  shows "serving guard s0 s pend"
proof -
  let ?P = "\<lambda>(s, pend). serving guard s0 s pend"
  have "?P (s, pend)"
  proof (rule foldM_invariant [where P = ?P])
    show "foldM (exec_cmd strict) cmds (s0, None) = Some (s, pend)" using assms(1) by (simp add: exec_def)
    show "?P (s0, None)" by (simp add: serving.start)
    fix c st st'
    assume st: "?P st" "exec_cmd strict c st = Some st'"
    obtain t o1 where t: "st = (t, o1)" by fastforce
    have "queues_wf t" using serving_queues [OF _ assms(2)] st(1) t by blast
    with exec_cmd_serving [OF _ _ assms(3)] st t show "?P st'" by fastforce
  qed
  then show ?thesis by simp
qed

section \<open>Concrete configurations\<close>

definition demo_config :: "preemption_mode \<Rightarrow> scheduler_config" where
  "demo_config pm =
     default_scheduler_config\<lparr>preemption_mode := pm, max_num_seqs := 4, max_num_batched_tokens := 8\<rparr>"

definition demo_cache :: "nat \<Rightarrow> nat \<Rightarrow> cache_config" where
  "demo_cache n bs = default_cache_config\<lparr>num_gpu_blocks := n, num_cpu_blocks := 2, block_size := bs\<rparr>"

definition demo_start :: "preemption_mode \<Rightarrow> nat \<Rightarrow> nat \<Rightarrow> scheduler" where
  "demo_start pm n bs = scheduler_new (demo_config pm) (block_manager_new (demo_cache n bs) default_model_config)"

definition demo_add :: "nat \<Rightarrow> token_id list \<Rightarrow> serve_cmd" where
  "demo_add p prompt = Add p 0 (word_of_nat (10 * (p + 1))) prompt default_sampling_params 0"

text \<open>Two requests arrive, are scheduled, and each is handed a token.\<close>

definition demo_two :: "serve_cmd list" where
  "demo_two = [demo_add 0 [1], demo_add 1 [4], Schedule, Decode [5, 6], Sweep]"

lemmas demo_eval = demo_two_def demo_start_def demo_config_def demo_cache_def demo_add_def
  default_scheduler_config_def default_cache_config_def default_sampling_params_def exec_def live_open_def
  queue_def upt_rec

lemma demo_start_wf: "queues_wf (demo_start pm n bs)"
  by (simp add: demo_start_def scheduler_new_def queues_wf_def queue_def)

lemma demo_start_inv: "n \<le> 2 ^ 31 \<Longrightarrow> 0 < bs \<Longrightarrow> serve_inv no_ext (demo_start RECOMPUTE n bs)"
  unfolding demo_start_def by (rule serve_inv_new) (simp_all add: demo_cache_def demo_config_def)

section \<open>Consequences of the invariant\<close>

lemma held_none_all_free:
  assumes inv: "gpu_inv no_ext bm" and none: "\<And>sid. gpu_held bm sid = []"
  shows "num_free_gpu_blocks bm = num_total_gpu_blocks bm"
proof -
  have wf: "bm_wf no_ext bm" using inv by (simp add: gpu_inv_def)
  have "\<not> owned bm CUDA b" for b
    using none by (auto simp: owned_def gpu_held_def)
  then have "ref_of bm CUDA b = 0" if "in_range bm CUDA b" for b
    using wf that by (simp add: bm_wf_def bm_counted_def)
  then have "set (free_list_for bm CUDA) = {b. in_range bm CUDA b}"
    and d: "distinct (free_list_for bm CUDA)"
    using wf by (auto simp: bm_wf_def bm_free_exact_def)
  moreover have "{b. in_range bm CUDA b} = {0..<int (length (gpu_blocks bm))}"
    by (auto simp: in_range_def blocks_for_def)
  ultimately have "card (set (free_list_for bm CUDA)) = length (gpu_blocks bm)" by simp
  then show ?thesis
    using d by (simp add: distinct_card num_free_gpu_blocks_def num_total_gpu_blocks_def free_list_for_def)
qed

text \<open>A block that a sequence holds is in range, in use exactly once and not free.\<close>

lemma held_block:
  assumes inv: "gpu_inv no_ext bm" and x: "x \<in> set (gpu_held bm sid)"
  shows "0 \<le> x" "x < int (num_total_gpu_blocks bm)" "x \<notin> set (gpu_free_list bm)" "ref_of bm CUDA x = 1"
proof -
  have wf: "bm_wf no_ext bm" using inv by (simp add: gpu_inv_def)
  have sb: "(CUDA, x) \<in> set (seq_blocks bm sid)"
    using x gpu_inv_seq_blocks [OF inv, of sid] by auto
  then have r: "in_range bm CUDA x" and o: "owned bm CUDA x"
    using wf unfolding bm_wf_def bm_ownership_def owned_def by blast+
  then show "0 \<le> x" "x < int (num_total_gpu_blocks bm)"
    by (auto simp: in_range_def blocks_for_def num_total_gpu_blocks_def)
  show ref: "ref_of bm CUDA x = 1" using wf r o by (simp add: bm_wf_def bm_counted_def)
  have "x \<in> set (free_list_for bm CUDA) \<longleftrightarrow> in_range bm CUDA x \<and> ref_of bm CUDA x = 0"
    using wf unfolding bm_wf_def bm_free_exact_def by blast
  then show "x \<notin> set (gpu_free_list bm)" using ref by (simp add: free_list_for_def)
qed

lemma running_table:
  assumes "base_inv ext s" and "p \<in> set (sc_running s)" and "sc_heap s p = Some g"
    and "q \<in> set (sequences g)" and "\<not> seq_finished q"
  shows "logical_blocks q = gpu_held (sc_bm s) (request_id g)" "sequences g = [q]"
proof -
  obtain r where r: "sequences g = [r]"
      "\<not> seq_finished r \<Longrightarrow> logical_blocks r = gpu_held (sc_bm s) (request_id g)"
    using blocks_inv_group [OF base_inv_parts(3) [OF assms(1)] assms(3)] by metis
  then have "q = r" using assms(4) by simp
  with r assms(5) show "logical_blocks q = gpu_held (sc_bm s) (request_id g)" "sequences g = [q]" by auto
qed

text \<open>With no running request and no finished one, the whole cache is free.\<close>

lemma idle_all_free:
  assumes inv: "base_inv no_ext s" and opn: "all_open s" and idle: "sc_running s = []"
  shows "num_free_gpu_blocks (sc_bm s) = num_total_gpu_blocks (sc_bm s)"
proof (rule held_none_all_free)
  note parts = base_inv_parts [OF inv]
  show "gpu_inv no_ext (sc_bm s)" using parts(3) by (simp add: blocks_inv_def)
  fix sid
  show "gpu_held (sc_bm s) sid = []"
  proof (rule ccontr)
    assume held: "gpu_held (sc_bm s) sid \<noteq> []"
    then obtain p g where g: "sc_heap s p = Some g" "request_id g = sid"
      using parts(3) unfolding blocks_inv_def by blast
    obtain q where q: "sequences g = [q]"
        "\<not> seq_finished q \<Longrightarrow> logical_blocks q = gpu_held (sc_bm s) (request_id g)"
        "\<not> seq_finished q \<Longrightarrow> logical_blocks q = [] \<and> output_tokens q = []"
      using blocks_inv_group [OF parts(3) g(1)] idle by (metis empty_iff list.set(1))
    have "\<not> seq_finished q" using opn g(1) q(1) by (force simp: all_open_def all_finished_def)
    then show False using q(2,3) g(2) held by simp
  qed
qed

lemma prefill_head:
  assumes inv: "serve_inv ext s" and opn: "all_open s"
    and w: "sc_waiting s = p # ps" and g: "sc_heap s p = Some g" and q: "sequences g = [q]"
    and fits: "prompt_len q \<le> bt" "0 < bs"
      "prompt_len q \<le> num_free_gpu_blocks (sc_bm s) * bm_block_size (sc_bm s)"
  shows "\<exists>s1. schedule_prefills_from (p # ps) s out bt bs =
      schedule_prefills_from ps s1 (out\<lparr>scheduled_groups := scheduled_groups out @ [p]\<rparr>)
        (bt - prompt_len q) (bs - 1) \<and> sc_waiting s1 = ps \<and> distinct ps"
proof -
  note parts = serve_inv_parts [OF inv]
  have wait: "p \<in> set (sc_waiting s)" "p \<notin> set (sc_running s)" "distinct ps"
    using w queues_wf_parts(1,4) [OF parts(1)] by auto
  have opn': "\<not> all_finished g" using opn g by (simp add: all_open_def)
  have bsz: "0 < bm_block_size (sc_bm s)" using parts(4) by (simp add: blocks_inv_def)
  obtain r where "sequences g = [r]" "\<not> seq_finished r \<Longrightarrow> logical_blocks r = [] \<and> output_tokens r = []"
    using blocks_inv_group [OF parts(4) g] wait(2) by metis
  then have "output_tokens q = []" using q opn' by (simp add: all_finished_def)
  then have tl: "total_len q = prompt_len q" by (simp add: total_len_def output_len_def)
  define n where "n = (total_len q + bm_block_size (sc_bm s) - 1) div bm_block_size (sc_bm s)"
  have n: "num_blocks_needed (bm_block_size (sc_bm s)) q = Some n" using bsz by (simp add: n_def)
  have "n \<le> num_free_gpu_blocks (sc_bm s)"
    using fits(3) tl blocks_cover(2) [OF bsz] by (simp add: n_def)
  then have can: "can_allocate (sc_bm s) n" by (simp add: can_allocate_def num_free_gpu_blocks_def)
  have v: "vec_at (sequences g) 0 = Some q" using q by simp
  obtain seqs bm' where m: "mapM_st (prefill_seq n) (sequences g) (sc_bm s) = Some (seqs, bm')"
    using prefill_safe [OF parts(4) g wait(1) opn' v n can] by blast
  show ?thesis
    using g v n can m fits(1,2) q wait(3)
    by (intro exI [of _ "s\<lparr>sc_heap := (sc_heap s)(p \<mapsto> g\<lparr>sequences := seqs\<rparr>), sc_bm := bm',
           sc_running := sc_running s @ [p], sc_waiting := ps\<rparr>"])
      (simp add: Let_def estimate_tokens_def group_prompt_len_def)
qed


section \<open>Properties\<close>

text \<open>
  C6. In every run of the loop, in either preemption mode and whenever \<open>schedule\<close> is called, each
  request object sits in exactly one of the three queues and there once, the queues hold all live
  objects, the request map has no dangling or misdirected pointer, and the groups of a pending
  output are live, distinct and in the running queue.
\<close>

theorem serving_queue_ownership:
  assumes "serving guard (scheduler_new sc bm) s pend"
  shows "distinct (sc_waiting s @ sc_running s @ sc_swapped s) \<and>
    dom (sc_heap s) = set (sc_waiting s @ sc_running s @ sc_swapped s) \<and>
    (\<forall>rid p. sc_request_map s rid = Some p \<longrightarrow> (\<exists>g. sc_heap s p = Some g \<and> request_id g = rid)) \<and>
    (\<forall>out. pend = Some out \<longrightarrow>
      distinct (scheduled_groups out) \<and> set (scheduled_groups out) \<subseteq> set (sc_running s))"
proof -
  have "queues_wf (scheduler_new sc bm)" by (simp add: queues_wf_def scheduler_new_def queue_def)
  from serving_queues [OF assms this] have "queues_wf s" "pending_ok s pend" by simp_all
  then show ?thesis unfolding queues_wf_def queue_def pending_ok_def by blast
qed

theorem serving_queue_ownership_witness:
  "\<exists>s. exec True (demo_two @ [Schedule]) (demo_start SWAP 2 1) = Some s \<and> dom (sc_heap (fst s)) = {0, 1}"
proof -
  obtain s pend where e: "exec True (demo_two @ [Schedule]) (demo_start SWAP 2 1) = Some (s, pend)"
    and q: "set (sc_waiting s @ sc_running s @ sc_swapped s) = {0, 1}"
    by (simp add: demo_eval cf_defs)
  have "serving all_open (demo_start SWAP 2 1) s pend"
    by (rule exec_serving [OF e demo_start_wf]) simp
  from serving_queue_ownership [OF this [unfolded demo_start_def]] e q show ?thesis by simp
qed

text \<open>
  C5. One scheduling step stays within both budgets and accounts for them exactly: the groups it
  decodes, prefills and swaps in are distinct and all in the running queue afterwards, there are
  at most \<open>max_num_seqs\<close> of them, and \<open>num_batched_tokens\<close> is one token per unfinished sequence that is
  decoded or swapped in plus the prompt lengths of the prefilled groups, at most
  \<open>max_num_batched_tokens\<close>. No request is lost, duplicated or invented by the step.
\<close>

theorem schedule_respects_budgets:
  assumes "serving guard (scheduler_new sc bm) s None" and "schedule s = Some (out, s')"
  shows "\<exists>dec pre. scheduled_groups out = dec @ pre \<and> set dec \<subseteq> set (sc_running s) \<and>
    distinct (dec @ pre @ swapped_in_groups out) \<and>
    set (dec @ pre @ swapped_in_groups out) \<subseteq> set (sc_running s') \<and>
    length (dec @ pre @ swapped_in_groups out) \<le> max_num_seqs (sc_config s) \<and>
    num_batched_tokens out =
      unfinished_sum s dec + prompt_sum s pre + unfinished_sum s (swapped_in_groups out) \<and>
    num_batched_tokens out \<le> max_num_batched_tokens (sc_config s) \<and>
    mset (queue s') = mset (queue s) \<and> sc_request_map s' = sc_request_map s"
proof -
  have "queues_wf (scheduler_new sc bm)" by (simp add: queues_wf_def scheduler_new_def queue_def)
  then have wf: "queues_wf s" using serving_queues [OF assms(1)] by blast
  show ?thesis
    using schedule_budget [OF assms(2) wf] schedule_frame [OF assms(2) wf] unfolding frame_def by blast
qed

theorem schedule_respects_budgets_witness:
  "\<exists>out s'. schedule (fst (the (exec True demo_two (demo_start RECOMPUTE 4 2)))) = Some (out, s') \<and>
     num_batched_tokens out \<le> 8 \<and> scheduled_groups out = [0, 1]"
proof -
  obtain s where e: "exec True demo_two (demo_start RECOMPUTE 4 2) = Some (s, None)"
    and c: "max_num_batched_tokens (sc_config s) = 8"
    and sch: "\<exists>out s'. schedule s = Some (out, s') \<and> scheduled_groups out = [0, 1]"
    by (simp add: demo_eval cf_defs)
  then obtain out s' where o: "schedule s = Some (out, s')" "scheduled_groups out = [0, 1]" by blast
  have "serving all_open (demo_start RECOMPUTE 4 2) s None"
    by (rule exec_serving [OF e demo_start_wf]) simp
  from schedule_respects_budgets [OF this [unfolded demo_start_def] o(1)] e c o show ?thesis by auto
qed

text \<open>
  C1. With preemption by recomputation, sequences never share KV-cache memory: in every run of the
  loop that sweeps finished requests before it schedules, the block tables of the unfinished
  running sequences consist of valid, referenced, non-free GPU blocks, each listed once and with
  reference count one, and the tables of two different sequences are disjoint.
\<close>

theorem serving_isolates_sequences:
  assumes run: "serving all_open (scheduler_new sc (block_manager_new c m)) s pend"
    and cfg: "num_gpu_blocks c \<le> 2 ^ 31" "num_cpu_blocks c \<le> 2 ^ 31" "0 < block_size c"
      "preemption_mode sc = RECOMPUTE"
    and p: "p \<in> set (sc_running s)" "sc_heap s p = Some g" "a \<in> set (sequences g)" "\<not> seq_finished a"
  shows "distinct (logical_blocks a) \<and>
    (\<forall>x \<in> set (logical_blocks a). 0 \<le> x \<and> x < int (num_total_gpu_blocks (sc_bm s)) \<and>
      x \<notin> set (gpu_free_list (sc_bm s)) \<and> ref_of (sc_bm s) CUDA x = 1) \<and>
    (\<forall>p' g' b. p' \<in> set (sc_running s) \<longrightarrow> p' \<noteq> p \<longrightarrow> sc_heap s p' = Some g' \<longrightarrow> b \<in> set (sequences g') \<longrightarrow>
      \<not> seq_finished b \<longrightarrow> set (logical_blocks a) \<inter> set (logical_blocks b) = {})"
proof -
  have inv: "serve_inv no_ext s" using serving_blocks [OF run serve_inv_new [OF cfg]] .
  then have base: "base_inv no_ext s" and gi: "gpu_inv no_ext (sc_bm s)"
    by (simp_all add: serve_inv_iff base_inv_def blocks_inv_def)
  note ta = running_table(1) [OF base p]
  have "distinct (logical_blocks a)" using ka.held_distinct [OF gi] ta by simp
  moreover have "0 \<le> x \<and> x < int (num_total_gpu_blocks (sc_bm s)) \<and>
      x \<notin> set (gpu_free_list (sc_bm s)) \<and> ref_of (sc_bm s) CUDA x = 1" if "x \<in> set (logical_blocks a)" for x
    using that held_block [OF gi, of x "request_id g"] ta by simp
  moreover have "set (logical_blocks a) \<inter> set (logical_blocks b) = {}"
    if "p' \<in> set (sc_running s)" "p' \<noteq> p" "sc_heap s p' = Some g'" "b \<in> set (sequences g')" "\<not> seq_finished b"
    for p' g' b
  proof -
    have "request_id g \<noteq> request_id g'"
      using serve_inv_parts(4) [OF inv] p(2) that(2,3) unfolding blocks_inv_def by blast
    then show ?thesis
      using ka.held_disjoint [OF gi] ta running_table(1) [OF base that(1,3-5)] by simp
  qed
  ultimately show ?thesis by blast
qed

theorem serving_isolates_sequences_witness:
  "\<exists>s g a g' b. exec True demo_two (demo_start RECOMPUTE 4 2) = Some (s, None) \<and> sc_heap s 0 = Some g \<and>
     sequences g = [a] \<and> sc_heap s 1 = Some g' \<and> sequences g' = [b] \<and> logical_blocks a = [0] \<and>
     set (logical_blocks a) \<inter> set (logical_blocks b) = {}"
proof -
  obtain s g a g' b where e: "exec True demo_two (demo_start RECOMPUTE 4 2) = Some (s, None)"
    and r: "sc_running s = [0, 1]" "sc_heap s 0 = Some g" "sequences g = [a]" "\<not> seq_finished a"
      "sc_heap s 1 = Some g'" "sequences g' = [b]" "\<not> seq_finished b" "logical_blocks a = [0]"
    by (simp add: demo_eval cf_defs)
  have "serving all_open (demo_start RECOMPUTE 4 2) s None"
    by (rule exec_serving [OF e demo_start_wf]) simp
  from serving_isolates_sequences [OF this [unfolded demo_start_def], of 0 g a] r
  have "set (logical_blocks a) \<inter> set (logical_blocks b) = {}"
    by (simp add: demo_cache_def demo_config_def)
  with e r show ?thesis by blast
qed








text \<open>
  C31. Sorting the waiting queue permutes it, puts it in the order of the policy (shortest \<open>max_tokens\<close>
  first, or highest \<open>priority\<close> first) and keeps the order of arrival among equal requests; with
  first-come-first-served it changes nothing.
\<close>

theorem sort_waiting_queue_order:
  assumes "sort_waiting_queue s = Some s'"
  shows "mset (sc_waiting s') = mset (sc_waiting s) \<and>
    (policy (sc_config s) = FCFS \<longrightarrow> s' = s) \<and>
    (policy (sc_config s) = SHORTEST_REMAINING \<longrightarrow>
      sorted_wrt (\<lambda>p q. max_tokens (sampling (the (sc_heap s p))) \<le> max_tokens (sampling (the (sc_heap s q))))
        (sc_waiting s')) \<and>
    (policy (sc_config s) = PRIORITY \<longrightarrow>
      sorted_wrt (\<lambda>p q. priority (the (sc_heap s q)) \<le> priority (the (sc_heap s p))) (sc_waiting s')) \<and>
    (\<forall>k. filter (\<lambda>p. waiting_key (policy (sc_config s)) (the (sc_heap s p)) = k) (sc_waiting s') =
         filter (\<lambda>p. waiting_key (policy (sc_config s)) (the (sc_heap s p)) = k) (sc_waiting s))"
proof -
  let ?f = "\<lambda>p. waiting_key (policy (sc_config s)) (the (sc_heap s p))"
  have sorted: "sorted_wrt (\<lambda>p q. ?f p \<le> ?f q) (sort_key ?f (sc_waiting s))"
    using sorted_sort_key [of ?f "sc_waiting s"] by (simp add: sorted_map)
  show ?thesis
  proof (cases "policy (sc_config s) = FCFS")
    case True
    then show ?thesis using assms by (auto simp: sort_waiting_queue_def)
  next
    case False
    then have w: "sc_waiting s' = sort_key ?f (sc_waiting s)"
      using assms by (auto simp: sort_waiting_queue_def split: if_splits)
    show ?thesis
      using sorted False by (auto simp: w sort_key_stable waiting_key_def)
  qed
qed

theorem sort_waiting_queue_order_witness:
  "let s = (add_request 1 (sequence_group_new 0 20 [1] default_sampling_params 7)
      (add_request 0 (sequence_group_new 0 10 [1] default_sampling_params 3) (demo_start SWAP 2 1)))
      \<lparr>sc_config := default_scheduler_config\<lparr>policy := PRIORITY\<rparr>\<rparr>
   in \<exists>s'. sort_waiting_queue s = Some s' \<and> sc_waiting s' = [1, 0] \<and> mset (sc_waiting s') = mset (sc_waiting s)"
proof -
  define s where "s = (add_request 1 (sequence_group_new 0 20 [1] default_sampling_params 7)
      (add_request 0 (sequence_group_new 0 10 [1] default_sampling_params 3) (demo_start SWAP 2 1)))
      \<lparr>sc_config := default_scheduler_config\<lparr>policy := PRIORITY\<rparr>\<rparr>"
  obtain s' where s': "sort_waiting_queue s = Some s'" "sc_waiting s' = [1, 0]"
    by (simp add: s_def demo_eval cf_defs waiting_key_def)
  from sort_waiting_queue_order [OF s'(1)] s' show ?thesis
    unfolding s_def [symmetric] Let_def by blast
qed

end
