(* ===== verification/Serving_Hazards.thy ===== *)
theory Serving_Hazards
  imports Serving_Safety
begin

text \<open>
  Where the loop does not do what it means to: behaviours of the scheduler and the batch manager that
  break isolation, resurrect aborted requests, starve running ones or mix up sampled tokens, each
  with the run or the general condition that produces it.
\<close>

section \<open>Preemption by swapping\<close>

text \<open>
  C33. With preemption by swapping (the default) isolation fails: after a preemption \<open>free_block\<close> leaves
  the swapped-out GPU block in the sequence's list, so that releasing the sequence pushes the
  block twice. In a run of the loop with two blocks, two running unfinished sequences then
  hold the same block.
\<close>

theorem swap_preemption_shares_block:
  "\<exists>s pend g g' a b. serving all_open (demo_start SWAP 2 1) s pend \<and> sc_running s = [0, 2] \<and>
     sc_heap s 0 = Some g \<and> sequences g = [a] \<and> \<not> seq_finished a \<and>
     sc_heap s 2 = Some g' \<and> sequences g' = [b] \<and> \<not> seq_finished b \<and>
     logical_blocks a = [0, 1] \<and> logical_blocks b = [1]"
proof -
  obtain s pend g g' a b where
    e: "exec True (demo_two @ [Schedule, Decode [], Abort 20, Sweep, demo_add 2 [7], Schedule])
          (demo_start SWAP 2 1) = Some (s, pend)"
    and r: "sc_running s = [0, 2]" "sc_heap s 0 = Some g" "sequences g = [a]" "\<not> seq_finished a"
      "sc_heap s 2 = Some g'" "sequences g' = [b]" "\<not> seq_finished b"
      "logical_blocks a = [0, 1]" "logical_blocks b = [1]"
    by (simp add: demo_eval cf_defs)
  have "serving all_open (demo_start SWAP 2 1) s pend"
    by (rule exec_serving [OF e demo_start_wf]) simp
  with r show ?thesis by blast
qed

text \<open>
  Swapping out a block when no CPU block is left records \<open>INVALID_BLOCK\<close> as the destination of the
  copy and still returns the GPU block to the free list, so the contents are lost.
\<close>

lemma swap_out_without_cpu_blocks:
  assumes wf: "bm_wf ext bm" and r: "in_range bm CUDA b" "ref_of bm CUDA b = 1"
    and none: "cpu_free_list bm = []"
  shows "\<exists>bm'. swap_out_block sid b (bm, ops) =
      Some (INVALID_BLOCK, bm', ops @ [\<lparr>op_seq_id = sid, op_src = b, op_dst = INVALID_BLOCK\<rparr>]) \<and>
    b \<in> set (gpu_free_list bm')"
proof -
  have core: "bm_core bm" using bm_core_wf [OF wf] .
  have al: "allocate_block sid CPU bm = Some (INVALID_BLOCK, bm)"
    using none by (intro allocate_block_empty) (simp add: free_list_for_def)
  obtain bm' where f: "free_block b CUDA bm = Some bm'" "dropped b CUDA bm bm'"
    using fb.drop_one [OF core r(1)] r(2) by auto
  have r': "in_range bm' CUDA b" using f(2) r(1) same_shape_in_range by (auto simp: dropped_def)
  have "ref_of bm' CUDA b = 0" using f(2) r by (simp add: dropped_def)
  then have "b \<in> set (free_list_for bm' CUDA)"
    using f(2) r' unfolding dropped_def bm_core_def bm_free_exact_def by blast
  then show ?thesis using al f(1) by (simp add: swap_out_block_def free_list_for_def)
qed

section \<open>Starvation\<close>

text \<open>
  C34. With preemption by recomputation the loop can make no progress for ever. When two running
  sequences fill the cache, the step preempts the younger one and at once prefills it again with
  the blocks just freed; the older one never gets a block, and after the step the scheduler is in
  exactly the state it started from.
\<close>

theorem recompute_livelock:
  "exec True (demo_two @ concat (replicate k [Schedule, Decode [6], Sweep])) (demo_start RECOMPUTE 2 1) =
     exec True demo_two (demo_start RECOMPUTE 2 1) \<and>
   (\<exists>s. exec True demo_two (demo_start RECOMPUTE 2 1) = Some (s, None) \<and> num_running s = 2)"
proof -
  have "\<exists>s. exec True demo_two (demo_start RECOMPUTE 2 1) = Some (s, None) \<and> num_running s = 2"
    by (simp add: demo_eval cf_defs num_running_def)
  then obtain s where s: "exec True demo_two (demo_start RECOMPUTE 2 1) = Some (s, None)" "num_running s = 2"
    by blast
  have "exec True (demo_two @ [Schedule, Decode [6], Sweep]) (demo_start RECOMPUTE 2 1) =
      exec True demo_two (demo_start RECOMPUTE 2 1)"
    by (simp add: demo_eval cf_defs)
  then have once: "foldM (exec_cmd True) [Schedule, Decode [6], Sweep] (s, None) = Some (s, None)"
    using s(1) unfolding exec_def foldM_append by simp
  have "foldM f (concat (replicate k it)) x = Some x" if "foldM f it x = Some x" for f it and x :: "scheduler \<times> scheduler_output option"
    using that by (induction k) (simp_all add: foldM_append)
  from this [OF once] have "foldM (exec_cmd True) (concat (replicate k [Schedule, Decode [6], Sweep])) (s, None) =
      Some (s, None)" .
  then show ?thesis using s unfolding exec_def foldM_append by simp
qed

section \<open>Aborted and multi-sequence requests\<close>

text \<open>
  A request that is aborted while it waits is resurrected by the next scheduling step: the prefill
  sets its sequences to running without looking at their status, and since the abort has removed
  it from the request map it can no longer be aborted.
\<close>

lemma aborted_waiting_request_runs:
  "\<exists>s out g q. serving (\<lambda>_. True) (demo_start pm 4 2) s (Some out) \<and>
     exec False [demo_add 0 [1, 2], Abort 10, Schedule] (demo_start pm 4 2) = Some (s, Some out) \<and>
     scheduled_groups out = [0] \<and> sc_running s = [0] \<and> sc_heap s 0 = Some g \<and> sequences g = [q] \<and>
     status q = RUNNING \<and> logical_blocks q = [0] \<and> abort_request 10 s = Some s"
proof -
  obtain s out g q where
    e: "exec False [demo_add 0 [1, 2], Abort 10, Schedule] (demo_start pm 4 2) = Some (s, Some out)"
    and r: "scheduled_groups out = [0]" "sc_running s = [0]" "sc_heap s 0 = Some g" "sequences g = [q]"
      "status q = RUNNING" "logical_blocks q = [0]" "abort_request 10 s = Some s"
    by (simp add: demo_eval cf_defs)
  have "serving (\<lambda>_. True) (demo_start pm 4 2) s (Some out)"
    by (rule exec_serving [OF e demo_start_wf]) simp
  with e r show ?thesis by blast
qed

text \<open>
  The prefill checks the free blocks for one sequence only. A group of two sequences that needs
  one block each is admitted with a single free block, and the second sequence's block table then
  holds \<open>INVALID_BLOCK\<close>.
\<close>

definition demo_pair :: sequence_group where
  "demo_pair = (sequence_group_new 0 10 [1] default_sampling_params 0)
     \<lparr>sequences := [\<lparr>sd_seq_id = 10, prompt_tokens = [1], output_tokens = [], logical_blocks = [], status = WAITING\<rparr>,
                   \<lparr>sd_seq_id = 11, prompt_tokens = [1], output_tokens = [], logical_blocks = [], status = WAITING\<rparr>]\<rparr>"

lemma multi_sequence_prefill_invalid_block:
  "\<exists>out s g. schedule (add_request 0 demo_pair (demo_start pm 1 1)) = Some (out, s) \<and>
     scheduled_groups out = [0] \<and> sc_heap s 0 = Some g \<and>
     map logical_blocks (sequences g) = [[0], [INVALID_BLOCK]]"
  by (simp add: demo_pair_def demo_eval cf_defs)

section \<open>Tokens\<close>

text \<open>
  C35. The engine samples one token per batch entry, but the batch manager consumes one token per
  sequence. When a group with a prompt of two or more tokens is prefilled in front of another group,
  the sequence of the second group is handed the token sampled for the second prompt position
  of the first.
\<close>

theorem prefill_shifts_tokens:
  assumes out: "scheduled_groups out = [p, p']" "p \<noteq> p'"
    and h: "h p = Some g" "h p' = Some g'"
    and g: "sequences g = [a]" "\<not> seq_finished a" "output_tokens a = []" "2 \<le> prompt_len a"
    and g': "sequences g' = [b]" "\<not> seq_finished b"
    and small: "total_len a \<le> 2 ^ 31 - 1" "total_len b \<le> 2 ^ 31 - 1"
    and toks: "build_batch h out bt = Some (batch, bt')" "length toks = length (entries batch)"
  shows "\<exists>h' g2. update_after_decode clock out toks h = Some h' \<and> h' p' = Some g2 \<and>
    map output_tokens (sequences g2) = [output_tokens b @ [toks ! 1]] \<and>
    be_seq_id (entries batch ! 1) = sd_seq_id a \<and> be_position (entries batch ! 1) = 1"
proof -
  have dom: "set (scheduled_groups out) \<subseteq> dom h" "distinct (scheduled_groups out)" using out h by auto
  have "\<forall>p \<in> set (scheduled_groups out). \<forall>seq \<in> set (sequences (the (h p))). total_len seq \<le> 2 ^ 31 - 1"
    using out h g(1) g'(1) small by simp
  from build_batch_result [OF dom(1) this, of bt] toks(1)
  have es: "entries batch = seq_entries a @ seq_entries b"
    using out h g(1) g'(1) by (auto simp: group_entries_def)
  have "[0..<prompt_len a] ! 1 = 1" using g(4) by simp
  then have e1: "entries batch ! 1 = \<lparr>be_seq_id = sd_seq_id a, be_token = prompt_tokens a ! 1,
      be_position = 1, be_block_table = logical_blocks a, be_is_prefill = True\<rparr>"
    using g es by (simp add: seq_entries_def nth_append)
  have len: "1 < length toks" using toks(2) es g by (simp add: seq_entries_def)
  have nu: "num_unfinished g = 1" using g by (simp add: num_unfinished_def)
  obtain h' where h': "update_groups clock toks [p, p'] h 0 = Some h'"
    "\<forall>k < length [p, p']. h' ([p, p'] ! k) = Some (fst (update_group clock toks (the (h ([p, p'] ! k)))
      (min (length toks) (0 + first_index h [p, p'] k))))"
    using update_groups_effect [of "[p, p']" h 0 toks clock] out(2) h by auto
  obtain g2 i2 where g2: "update_group clock toks g' 1 = (g2, i2)" by fastforce
  have "h' p' = Some g2"
    using h'(2) [rule_format, of 1] h nu len g2 by (simp add: first_index_def)
  moreover have "sequences g2 ! 0 = handed (max_tokens (sampling g')) toks 1 b" "length (sequences g2) = 1"
    using update_group_nth(1,2) [OF g2] g'(1) by (simp_all add: open_before_def)
  then have "map output_tokens (sequences g2) = [output_tokens b @ [toks ! 1]]"
    using g'(2) len by (cases "sequences g2") (auto simp: handed_def give_def append_token_def Let_def)
  ultimately show ?thesis using h'(1) out(1) e1 by (simp add: update_after_decode_def)
qed

theorem prefill_shifts_tokens_witness:
  "\<exists>h' g2. update_after_decode (\<lambda>_. 0) tiny_out [101, 102, 103, 104] tiny_heap = Some h' \<and> h' 1 = Some g2 \<and>
     map output_tokens (sequences g2) = [[23, 102]]"
proof -
  have b: "\<exists>batch bt'. build_batch tiny_heap tiny_out (batch_manager_new default_model_config default_scheduler_config)
      = Some (batch, bt') \<and> length (entries batch) = 4"
  proof -
    have "set (scheduled_groups tiny_out) \<subseteq> dom tiny_heap"
      by (simp add: tiny_out_def tiny_heap_def)
    moreover have "\<forall>p \<in> set (scheduled_groups tiny_out). \<forall>seq \<in> set (sequences (the (tiny_heap p))).
        total_len seq \<le> 2 ^ 31 - 1"
      by (auto simp: tiny_out_def tiny_heap_def tiny_prefill_def tiny_decode_def total_len_def prompt_len_def output_len_def)
    ultimately show ?thesis
      using build_batch_result [of tiny_out tiny_heap "batch_manager_new default_model_config default_scheduler_config"]
      by (auto simp: tiny_out_def tiny_heap_def tiny_prefill_def tiny_decode_def group_entries_def
          seq_entries_def seq_finished_def prompt_len_def)
  qed
  then obtain batch bt' where b: "build_batch tiny_heap tiny_out
      (batch_manager_new default_model_config default_scheduler_config) = Some (batch, bt')"
      "length (entries batch) = 4" by blast
  define a where "a = sequences tiny_prefill ! 0"
  define d where "d = sequences tiny_decode ! 0"
  have ad: "sequences tiny_prefill = [a]" "sequences tiny_decode = [d]" "\<not> seq_finished a" "\<not> seq_finished d"
    "output_tokens a = []" "output_tokens d = [23]" "prompt_len a = 3" "total_len a = 3" "total_len d = 3"
    by (simp_all add: a_def d_def tiny_prefill_def tiny_decode_def seq_finished_def prompt_len_def total_len_def
        output_len_def)
  have "\<exists>h' g2. update_after_decode (\<lambda>_. 0) tiny_out [101, 102, 103, 104] tiny_heap = Some h' \<and> h' 1 = Some g2 \<and>
    map output_tokens (sequences g2) = [output_tokens d @ [[101, 102, 103, 104] ! 1]] \<and>
    be_seq_id (entries batch ! 1) = sd_seq_id a \<and> be_position (entries batch ! 1) = 1"
    by (rule prefill_shifts_tokens [where p = 0 and p' = 1, OF _ _ _ _ ad(1,3,5) _ ad(2,4) _ _ b(1)])
      (simp_all add: tiny_out_def tiny_heap_def ad b(2))
  then show ?thesis by (auto simp: ad(6))
qed

end
