(* ===== verification/Serving_Typestate.thy ===== *)
theory Serving_Typestate
  imports Serving_Safety
begin

text \<open>
  The typestate of the sequences: the status a sequence of \<open>src/src/cacheflow/scheduler/request.h\<close>
  carries always agrees with the queue of \<open>src/src/cacheflow/scheduler/scheduler.h\<close> its group is in,
  for every interleaving of arrivals, aborts, scheduling steps, token updates and sweeps, and in
  both preemption modes.
\<close>

section \<open>The type of a queue\<close>

text \<open>What an unfinished sequence of a group in the waiting, running and swapped queue looks like.\<close>

definition waiting_seq :: "sequence_data \<Rightarrow> bool" where
  "waiting_seq q \<longleftrightarrow> status q \<in> {WAITING, PREEMPTED} \<and> logical_blocks q = [] \<and> output_tokens q = []"

definition running_seq :: "sequence_data \<Rightarrow> bool" where
  "running_seq q \<longleftrightarrow> status q = RUNNING"

definition swapped_seq :: "sequence_data \<Rightarrow> bool" where
  "swapped_seq q \<longleftrightarrow> status q = SWAPPED"

definition group_of :: "(sequence_data \<Rightarrow> bool) \<Rightarrow> sequence_group \<Rightarrow> bool" where
  "group_of P g \<longleftrightarrow> list_all (\<lambda>q. seq_finished q \<or> P q) (sequences g)"

definition queue_of :: "(sequence_data \<Rightarrow> bool) \<Rightarrow> (ptr \<rightharpoonup> sequence_group) \<Rightarrow> ptr list \<Rightarrow> bool" where
  "queue_of P h ps \<longleftrightarrow> (\<forall>p g. p \<in> set ps \<longrightarrow> h p = Some g \<longrightarrow> group_of P g)"

definition typed :: "scheduler \<Rightarrow> bool" where
  "typed s \<longleftrightarrow> queue_of waiting_seq (sc_heap s) (sc_waiting s) \<and>
     queue_of running_seq (sc_heap s) (sc_running s) \<and> queue_of swapped_seq (sc_heap s) (sc_swapped s)"

lemma group_of_finished: "all_finished g \<Longrightarrow> group_of P g"
  by (simp add: group_of_def all_finished_def list_all_iff)

lemma queue_ofD: "queue_of P h ps \<Longrightarrow> h p = Some g \<Longrightarrow> p \<in> set ps \<Longrightarrow> group_of P g"
  by (simp add: queue_of_def)

lemma typedD:
  assumes "typed s" and "sc_heap s p = Some g"
  shows "p \<in> set (sc_waiting s) \<Longrightarrow> group_of waiting_seq g" "p \<in> set (sc_running s) \<Longrightarrow> group_of running_seq g"
    "p \<in> set (sc_swapped s) \<Longrightarrow> group_of swapped_seq g"
  using assms queue_ofD unfolding typed_def by blast+

lemma group_ofD: "group_of P g \<Longrightarrow> q \<in> set (sequences g) \<Longrightarrow> \<not> seq_finished q \<Longrightarrow> P q"
  by (auto simp: group_of_def list_all_iff)

text \<open>One group changes and may change its queue; the others stay where they are.\<close>

lemma typed_upd:
  assumes "typed s" and "sc_heap s' = (sc_heap s)(p \<mapsto> g)"
    and "set (sc_waiting s') \<subseteq> insert p (set (sc_waiting s))" "p \<in> set (sc_waiting s') \<Longrightarrow> group_of waiting_seq g"
    and "set (sc_running s') \<subseteq> insert p (set (sc_running s))" "p \<in> set (sc_running s') \<Longrightarrow> group_of running_seq g"
    and "set (sc_swapped s') \<subseteq> insert p (set (sc_swapped s))" "p \<in> set (sc_swapped s') \<Longrightarrow> group_of swapped_seq g"
  shows "typed s'"
  using assms unfolding typed_def queue_of_def by (auto split: if_splits)

lemma mapM_st_all:
  assumes "mapM_st f xs s = Some (ys, s')" and "list_all P xs"
    and "\<And>x s y s'. P x \<Longrightarrow> f x s = Some (y, s') \<Longrightarrow> Q y"
  shows "list_all Q ys"
  using assms(1,2)
proof (induction xs arbitrary: s ys)
  case (Cons x xs)
  then show ?case by (auto simp: bind_eq_Some_conv dest: assms(3))
qed simp

lemma grow_group:
  assumes "mapM_st grow_seq (sequences g) bm = Some (seqs, bm')" and "group_of running_seq g"
  shows "group_of running_seq (g\<lparr>sequences := seqs\<rparr>)"
proof -
  have "list_all (\<lambda>q. seq_finished q \<or> running_seq q) seqs"
    by (rule mapM_st_all [OF assms(1) assms(2) [unfolded group_of_def]])
      (auto simp: grow_seq_def running_seq_def seq_finished_def bind_eq_Some_conv split: if_splits)
  then show ?thesis by (simp add: group_of_def)
qed

lemma any_group:
  assumes "mapM_st f (sequences g) s = Some (seqs, s')"
    and "\<And>x s y s'. f x s = Some (y, s') \<Longrightarrow> seq_finished y \<or> P y"
  shows "group_of P (g\<lparr>sequences := seqs\<rparr>)"
proof -
  have "list_all (\<lambda>q. seq_finished q \<or> P q) seqs"
    by (rule mapM_st_all [OF assms(1), of "\<lambda>_. True"]) (use assms(2) in \<open>auto simp: list_all_iff\<close>)
  then show ?thesis by (simp add: group_of_def)
qed

lemma recompute_group:
  assumes "mapM_st recompute_seq (sequences g) bm = Some (seqs, bm')"
  shows "group_of waiting_seq (g\<lparr>sequences := seqs\<rparr>)"
  by (rule any_group [OF assms]) (auto simp: recompute_seq_def waiting_seq_def bind_eq_Some_conv split: if_splits)

lemma swap_out_group:
  assumes "mapM_st swap_out_seq (sequences g) st = Some (seqs, st')"
  shows "group_of swapped_seq (g\<lparr>sequences := seqs\<rparr>)"
  by (rule any_group [OF assms]) (auto simp: swap_out_seq_def swapped_seq_def bind_eq_Some_conv split: if_splits)

lemma swap_in_group:
  assumes "mapM_st swap_in_seq (sequences g) st = Some (seqs, st')"
  shows "group_of running_seq (g\<lparr>sequences := seqs\<rparr>)"
  by (rule any_group [OF assms]) (auto simp: swap_in_seq_def running_seq_def bind_eq_Some_conv split: if_splits)

lemma prefill_group:
  assumes "mapM_st (prefill_seq n) (sequences g) bm = Some (seqs, bm')"
  shows "group_of running_seq (g\<lparr>sequences := seqs\<rparr>)"
  by (rule any_group [OF assms]) (auto simp: prefill_seq_def running_seq_def bind_eq_Some_conv split: if_splits)

section \<open>The operations keep it\<close>

lemma preempt_typed:
  assumes "preempt s out = Some (s', out')" and "typed s" and "distinct (queue s)"
  shows "typed s'"
proof (cases "sc_running s = []")
  case True
  then show ?thesis using assms(1,2) by (simp add: preempt_def)
next
  case False
  let ?p = "last (sc_running s)"
  have run: "?p \<in> set (sc_running s)" "set (butlast (sc_running s)) \<subseteq> set (sc_running s)"
    using False by (auto dest: in_set_butlastD)
  have out: "?p \<notin> set (sc_waiting s)" "?p \<notin> set (sc_swapped s)" using run(1) assms(3) by (auto simp: queue_def)
  have "distinct (butlast (sc_running s) @ [?p])" using False assms(3) by (simp add: queue_def)
  then have left: "?p \<notin> set (butlast (sc_running s))" by simp
  obtain g where g: "sc_heap s ?p = Some g" using assms(1) False by (auto simp: preempt_def Let_def bind_eq_Some_conv)
  show ?thesis
  proof (cases "preemption_mode (sc_config s) = SWAP")
    case True
    then obtain seqs bm ops where m: "mapM_st swap_out_seq (sequences g) (sc_bm s, block_swaps_out out) = Some (seqs, bm, ops)"
      and s': "s' = s\<lparr>sc_heap := (sc_heap s)(?p \<mapsto> g\<lparr>sequences := seqs\<rparr>), sc_bm := bm,
                    sc_swapped := sc_swapped s @ [?p], sc_running := butlast (sc_running s)\<rparr>"
      using assms(1) False g by (auto simp: preempt_def Let_def bind_eq_Some_conv)
    show ?thesis
      by (rule typed_upd [OF assms(2), of _ ?p "g\<lparr>sequences := seqs\<rparr>"])
        (use swap_out_group [OF m] run out left in \<open>auto simp: s'\<close>)
  next
    case mode: False
    then obtain seqs bm where m: "mapM_st recompute_seq (sequences g) (sc_bm s) = Some (seqs, bm)"
      and s': "s' = s\<lparr>sc_heap := (sc_heap s)(?p \<mapsto> g\<lparr>sequences := seqs\<rparr>), sc_bm := bm,
                    sc_waiting := ?p # sc_waiting s, sc_running := butlast (sc_running s)\<rparr>"
      using assms(1) False g by (auto simp: preempt_def Let_def bind_eq_Some_conv)
    show ?thesis
      by (rule typed_upd [OF assms(2), of _ ?p "g\<lparr>sequences := seqs\<rparr>"])
        (use recompute_group [OF m] run out left in \<open>auto simp: s'\<close>)
  qed
qed

lemma decodes_typed:
  assumes "schedule_decodes_from ps s out bt bs = Some (s', out', bt', bs')"
    and "typed s" and "distinct (queue s)" and "set ps \<subseteq> set (sc_running s)"
  shows "typed s'"
  using assms
proof (induction ps arbitrary: s out bt bs)
  case (Cons p ps)
  from Cons.prems(1) show ?case
  proof (cases rule: decodes_cases)
    case (skip g)
    then show ?thesis using Cons.IH Cons.prems by simp
  next
    case (stop g)
    then show ?thesis using preempt_typed Cons.prems by blast
  next
    case (go g seqs bm)
    let ?s = "s\<lparr>sc_heap := (sc_heap s)(p \<mapsto> g\<lparr>sequences := seqs\<rparr>), sc_bm := bm\<rparr>"
    have p: "p \<in> set (sc_running s)" "p \<notin> set (sc_waiting s)" "p \<notin> set (sc_swapped s)"
      using Cons.prems(3,4) by (auto simp: queue_def)
    have "group_of running_seq g" using typedD(2) [OF Cons.prems(2) go(1) p(1)] .
    from grow_group [OF go(6) this] have "typed ?s"
      by (intro typed_upd [OF Cons.prems(2), of ?s p "g\<lparr>sequences := seqs\<rparr>"]) (use p in auto)
    then show ?thesis using Cons.IH [OF go(7)] Cons.prems(3,4) by (simp add: queue_def)
  qed
qed simp

lemma prefills_typed:
  assumes "schedule_prefills_from ps s out bt bs = Some (s', out', bt', bs')"
    and "typed s" and "distinct (queue s)" and "sc_waiting s = ps"
  shows "typed s'"
  using assms
proof (induction ps arbitrary: s out bt bs)
  case (Cons p ps)
  from Cons.prems(1) show ?case
  proof (cases rule: prefills_cases)
    case stop
    then show ?thesis using Cons.prems(2) by simp
  next
    case (go g seq0 n seqs bm)
    let ?s = "s\<lparr>sc_heap := (sc_heap s)(p \<mapsto> g\<lparr>sequences := seqs\<rparr>), sc_bm := bm,
       sc_running := sc_running s @ [p], sc_waiting := ps\<rparr>"
    have p: "p \<notin> set ps" "p \<notin> set (sc_swapped s)" using Cons.prems(3,4) by (auto simp: queue_def)
    have "typed ?s"
      by (rule typed_upd [OF Cons.prems(2), of ?s p "g\<lparr>sequences := seqs\<rparr>"])
        (use prefill_group [OF go(7)] p Cons.prems(4) in auto)
    then show ?thesis using Cons.IH [OF go(8)] Cons.prems(3,4) by (auto simp: queue_def)
  qed
qed simp

lemma swap_in_typed:
  assumes "try_swap_in_from ps s out bt bs = Some (s', out', bt', bs')"
    and "typed s" and "distinct (queue s)" and "sc_swapped s = ps"
  shows "typed s'"
  using assms
proof (induction ps arbitrary: s out bt bs)
  case (Cons p ps)
  from Cons.prems(1) show ?case
  proof (cases rule: swap_in_cases)
    case stop
    then show ?thesis using Cons.prems(2) by simp
  next
    case (go g seqs bm ops)
    let ?s = "s\<lparr>sc_heap := (sc_heap s)(p \<mapsto> g\<lparr>sequences := seqs\<rparr>), sc_bm := bm,
       sc_running := sc_running s @ [p], sc_swapped := ps\<rparr>"
    have p: "p \<notin> set ps" "p \<notin> set (sc_waiting s)" using Cons.prems(3,4) by (auto simp: queue_def)
    have "typed ?s"
      by (rule typed_upd [OF Cons.prems(2), of ?s p "g\<lparr>sequences := seqs\<rparr>"])
        (use swap_in_group [OF go(5)] p Cons.prems(4) in auto)
    then show ?thesis using Cons.IH [OF go(6)] Cons.prems(3,4) by (auto simp: queue_def)
  qed
qed simp

lemma schedule_typed:
  assumes "schedule s = Some (out, s')" and "typed s" and "queues_wf s"
  shows "typed s'"
  using assms(1)
proof (cases rule: schedule_phases)
  case (1 s1 out1 bt1 bs1 sw s2 out2 bt2 bs2 out3 bt3 bs3)
  have dis: "distinct (queue t)" if "queues_wf t" for t using that by (simp add: queues_wf_def)
  have w1: "queues_wf s1"
    using decodes_effect [OF 1(1) queues_wf_parts(2) [OF assms(3)]] assms(3) frame_queues_wf by blast
  have t1: "typed s1" using decodes_typed [OF 1(1) assms(2) dis [OF assms(3)]] by simp
  have ww: "queues_wf sw" using 1(2) w1 sort_waiting_effect(1) frame_queues_wf by blast
  have tw: "typed sw"
    using 1(2)
  proof
    assume "sort_waiting_queue s1 = Some sw"
    note se = sort_waiting_effect(2-5) [OF this]
    then show "typed sw" using t1 mset_eq_setD [OF se(4)] unfolding typed_def queue_of_def by simp
  qed (use t1 in simp)
  have t2: "typed s2" using prefills_typed [OF 1(3) tw dis [OF ww] refl] .
  have "queues_wf s2" using prefills_effect [OF 1(3) refl] queues_wf_parts(1) [OF ww] ww frame_queues_wf by blast
  then show ?thesis using 1(4) swap_in_typed [OF _ t2 dis refl] t2 by blast
qed

lemma abort_typed:
  assumes "abort_request rid s = Some s'" and "typed s"
  shows "typed s'"
proof (cases "sc_request_map s rid")
  case None
  then show ?thesis using assms by (simp add: abort_request_def)
next
  case (Some p)
  then obtain g seqs bm where m: "mapM_st abort_seq (sequences g) (sc_bm s) = Some (seqs, bm)"
    and s': "s' = s\<lparr>sc_heap := (sc_heap s)(p \<mapsto> g\<lparr>sequences := seqs\<rparr>), sc_bm := bm,
               sc_request_map := (sc_request_map s)(rid := None)\<rparr>"
    using assms(1) by (auto simp: abort_request_def bind_eq_Some_conv)
  have "group_of P (g\<lparr>sequences := seqs\<rparr>)" for P
    using abort_map_obs [OF m] by (intro group_of_finished) (simp add: all_finished_def)
  then show ?thesis by (intro typed_upd [OF assms(2), of s' p "g\<lparr>sequences := seqs\<rparr>"]) (auto simp: s')
qed

lemma update_group_typed:
  assumes "update_group clock toks g i = (g', i')" and "group_of running_seq g"
  shows "group_of running_seq g'"
proof -
  have "seq_finished (sequences g' ! j) \<or> running_seq (sequences g' ! j)" if "j < length (sequences g)" for j
    using assms(2) that update_group_nth(2) [OF assms(1) that]
    by (auto simp: group_of_def list_all_length handed_def give_def append_token_def running_seq_def seq_finished_def Let_def)
  then show ?thesis using update_group_nth(1) [OF assms(1)] by (simp add: group_of_def list_all_length)
qed

lemma update_typed:
  assumes up: "update_after_decode clock out toks (sc_heap s) = Some h'" and "typed s" and "queues_wf s"
    and "set (scheduled_groups out) \<subseteq> set (sc_running s)"
  shows "typed (s\<lparr>sc_heap := h'\<rparr>)"
proof -
  have "typed (s\<lparr>sc_heap := h'\<rparr>)"
    if "update_groups clock toks ps h i = Some h'" "typed (s\<lparr>sc_heap := h\<rparr>)" "set ps \<subseteq> set (sc_running s)" for ps h i
    using that
  proof (induction ps arbitrary: h i)
    case (Cons p ps)
    then obtain g where g: "h p = Some g" by (auto simp: bind_eq_Some_conv)
    obtain g1 i1 where u: "update_group clock toks g i = (g1, i1)" by fastforce
    have "group_of running_seq g" using typedD(2) [OF Cons.prems(2), of p g] Cons.prems(3) g by simp
    from update_group_typed [OF u this] have "typed (s\<lparr>sc_heap := h(p \<mapsto> g1)\<rparr>)"
      by (intro typed_upd [OF Cons.prems(2), of _ p g1])
        (use Cons.prems(3) queues_wf_parts(4-6) [OF assms(3)] in auto)
    moreover have "update_groups clock toks ps (h(p \<mapsto> g1)) i1 = Some h'" using Cons.prems(1) g u by simp
    ultimately show ?case using Cons.IH Cons.prems(3) by simp
  qed simp
  from this [of "scheduled_groups out" "sc_heap s" 0] show ?thesis using assms by (simp add: update_after_decode_def)
qed

lemma sweep_typed:
  assumes "free_finished_requests s = Some s'" and "typed s" and "queues_wf s"
  shows "typed s'"
proof -
  note fe = free_finished_effect [OF assms(1,3)]
  have "set (sc_waiting s') \<subseteq> set (sc_waiting s)" "set (sc_running s') \<subseteq> set (sc_running s)"
    "sc_swapped s' = sc_swapped s" using fe(2-4) by auto
  moreover have "sc_heap s' p = sc_heap s p"
    if "p \<in> set (sc_waiting s') \<or> p \<in> set (sc_running s') \<or> p \<in> set (sc_swapped s')" for p
    using fe(5) [of p] that by (auto simp: queue_def)
  ultimately show ?thesis using assms(2) unfolding typed_def queue_of_def by (metis subsetD)
qed

lemma add_typed:
  assumes "typed s" and "p \<notin> set (queue s)"
  shows "typed (add_request p (sequence_group_new now rid prompt sp prio) s)"
  by (rule typed_upd [OF assms(1), of _ p "sequence_group_new now rid prompt sp prio"])
    (use assms(2) in \<open>auto simp: add_request_def queue_def sequence_group_new_def group_of_def waiting_seq_def\<close>)

lemma serving_typed:
  assumes "serving guard s0 s pend" and "queues_wf s0" and "typed s0"
  shows "typed s"
  using assms(1)
proof (induction rule: serving.induct)
  case (add s pend p rid now prompt sp prio)
  have "p \<notin> set (queue s)" using add(2) serving_queues [OF add(1) assms(2)] by (simp add: queues_wf_def)
  then show ?case using add_typed add by blast
next
  case (sched s out s')
  then show ?case using schedule_typed serving_queues [OF sched(1) assms(2)] by blast
next
  case (decode s out clock toks h')
  then show ?case using update_typed serving_queues [OF decode(1) assms(2)] by (auto simp: pending_ok_def)
next
  case (sweep s s')
  then show ?case using sweep_typed serving_queues [OF sweep(1) assms(2)] by blast
qed (use assms(3) abort_typed in auto)

section \<open>Property\<close>

text \<open>
  C7. The status of a sequence is the type of the queue its group is in: in every run of the loop, in
  either preemption mode and whenever \<open>schedule\<close> is called, an unfinished sequence of a waiting group
  is waiting or preempted, holds no block and has no output; one of a running group is running; one
  of a swapped group is swapped out.
\<close>

theorem serving_typestate:
  assumes "serving guard (scheduler_new sc bm) s pend"
    and "sc_heap s p = Some g" and "q \<in> set (sequences g)" and "\<not> seq_finished q"
  shows "(p \<in> set (sc_waiting s) \<and> status q \<in> {WAITING, PREEMPTED} \<and> logical_blocks q = [] \<and> output_tokens q = []) \<or>
    (p \<in> set (sc_running s) \<and> status q = RUNNING) \<or> (p \<in> set (sc_swapped s) \<and> status q = SWAPPED)"
proof -
  have wf: "queues_wf (scheduler_new sc bm)" by (simp add: queues_wf_def scheduler_new_def queue_def)
  have "typed (scheduler_new sc bm)" by (simp add: typed_def queue_of_def scheduler_new_def)
  then have "typed s" using serving_typed [OF assms(1) wf] by simp
  have "p \<in> set (queue s)" using serving_queues [OF assms(1) wf] assms(2) by (auto simp: queues_wf_def)
  then consider "p \<in> set (sc_waiting s)" | "p \<in> set (sc_running s)" | "p \<in> set (sc_swapped s)"
    by (auto simp: queue_def)
  then show ?thesis
    using typedD [OF \<open>typed s\<close> assms(2)] group_ofD [OF _ assms(3,4)]
    by cases (fastforce simp: waiting_seq_def running_seq_def swapped_seq_def)+
qed

theorem serving_typestate_witness:
  "\<exists>s pend g. exec True (demo_two @ [demo_add 2 [7], Schedule]) (demo_start SWAP 2 1) = Some (s, pend) \<and>
     sc_swapped s = [1] \<and> sc_heap s 1 = Some g \<and> status (hd (sequences g)) = SWAPPED"
proof -
  obtain s pend g q where e: "exec True (demo_two @ [demo_add 2 [7], Schedule]) (demo_start SWAP 2 1) = Some (s, pend)"
    and q: "sc_waiting s = []" "sc_running s = [0, 2]" "sc_swapped s = [1]" "sc_heap s 1 = Some g"
      "sequences g = [q]" "\<not> seq_finished q"
    by (simp add: demo_eval cf_defs)
  have "serving all_open (demo_start SWAP 2 1) s pend"
    by (rule exec_serving [OF e demo_start_wf]) simp
  from serving_typestate [OF this [unfolded demo_start_def] q(4), of q] q e show ?thesis by simp
qed

end
