(* ===== verification/Memory_Pool.thy ===== *)
theory Memory_Pool
  imports Block_Manager
begin

text \<open>
  The slab allocator, \<open>src/src/cacheflow/kv_cache/memory_pool.{h,cpp}\<close>, in the build without CUDA: one region
  from \<open>aligned_alloc\<close>, cut into blocks of a fixed size that a stack of free pointers hands out.
  Addresses are natural numbers and the null pointer is zero. \<open>aligned_alloc\<close> is an argument, a
  function from the size to the address of the new region, zero when it fails. Pointer
  arithmetic is on addresses; that a pool's pointers stay inside its region is a theorem.
\<close>

section \<open>State\<close>

datatype pool_error = Bad_Alloc

record memory_pool =
  mp_block_size_bytes :: nat
  mp_num_blocks :: nat
  mp_device :: device_type
  mp_base :: nat
  mp_free_stack :: "nat list"

definition null :: nat where
  "null = 0"

text \<open>The loop that pushes the blocks from the last to the first.\<close>

definition fill_stack :: "nat \<Rightarrow> nat \<Rightarrow> nat \<Rightarrow> nat list" where
  "fill_stack base bytes n = map (\<lambda>i. base + (n - i - 1) * bytes) [0..<n]"

definition memory_pool_new ::
    "(nat \<Rightarrow> nat) \<Rightarrow> nat \<Rightarrow> nat \<Rightarrow> device_type \<Rightarrow> pool_error + memory_pool" where
  "memory_pool_new aligned_alloc bytes n d =
     (let total_bytes = (bytes * n) mod size_max in
      if total_bytes = 0 then
        Inr \<lparr>mp_block_size_bytes = bytes, mp_num_blocks = n, mp_device = d, mp_base = null,
             mp_free_stack = []\<rparr>
      else
        let base = aligned_alloc total_bytes in
        if base = null then Inl Bad_Alloc
        else
          Inr \<lparr>mp_block_size_bytes = bytes, mp_num_blocks = n, mp_device = d, mp_base = base,
               mp_free_stack = fill_stack base bytes n\<rparr>)"

section \<open>Operations\<close>

definition mp_allocate :: "memory_pool \<Rightarrow> nat \<times> memory_pool" where
  "mp_allocate mp =
     (if mp_free_stack mp = [] then (null, mp)
      else (last (mp_free_stack mp), mp\<lparr>mp_free_stack := butlast (mp_free_stack mp)\<rparr>))"

definition mp_deallocate :: "nat \<Rightarrow> memory_pool \<Rightarrow> memory_pool" where
  "mp_deallocate p mp =
     (if p = null then mp else mp\<lparr>mp_free_stack := mp_free_stack mp @ [p]\<rparr>)"

definition mp_reset :: "memory_pool \<Rightarrow> memory_pool" where
  "mp_reset mp =
     mp\<lparr>mp_free_stack := fill_stack (mp_base mp) (mp_block_size_bytes mp) (mp_num_blocks mp)\<rparr>"

text \<open>The destructor: the address that is given back with \<open>std::free\<close>, if there is one.\<close>

definition mp_destroy :: "memory_pool \<Rightarrow> nat option" where
  "mp_destroy mp = (if mp_base mp = null then None else Some (mp_base mp))"

definition mp_num_free :: "memory_pool \<Rightarrow> nat" where
  "mp_num_free mp = length (mp_free_stack mp)"

definition mp_num_used :: "memory_pool \<Rightarrow> nat" where
  "mp_num_used mp = size_sub (mp_num_blocks mp) (mp_num_free mp)"

definition mp_utilization :: "memory_pool \<Rightarrow> real" where
  "mp_utilization mp =
     (if mp_num_blocks mp = 0 then 0 else real (mp_num_used mp) / real (mp_num_blocks mp))"

text \<open>The difference of the pointers is converted to \<open>size_t\<close>; a block size of zero divides by zero.\<close>

definition ptr_to_block_id :: "memory_pool \<Rightarrow> nat \<Rightarrow> block_id option" where
  "ptr_to_block_id mp p =
     (if mp_block_size_bytes mp = 0 then None
      else Some (to_i32 (int (nat ((int p - int (mp_base mp)) mod int size_max) div mp_block_size_bytes mp))))"

definition block_id_to_ptr :: "memory_pool \<Rightarrow> block_id \<Rightarrow> nat" where
  "block_id_to_ptr mp b = (mp_base mp + size_of_i32 b * mp_block_size_bytes mp) mod size_max"

section \<open>The pair of pools\<close>

record pool_manager =
  pm_gpu_pool :: memory_pool
  pm_cpu_pool :: memory_pool

definition pool_manager_new ::
    "(nat \<Rightarrow> nat) \<Rightarrow> (nat \<Rightarrow> nat) \<Rightarrow> nat \<Rightarrow> nat \<Rightarrow> nat \<Rightarrow> pool_error + pool_manager" where
  "pool_manager_new alloc1 alloc2 bytes gpu cpu =
     (case memory_pool_new alloc1 bytes gpu CUDA of
        Inl e \<Rightarrow> Inl e
      | Inr g \<Rightarrow>
          (case memory_pool_new alloc2 bytes cpu CPU of
             Inl e \<Rightarrow> Inl e
           | Inr c \<Rightarrow> Inr \<lparr>pm_gpu_pool = g, pm_cpu_pool = c\<rparr>))"

definition pool_for :: "pool_manager \<Rightarrow> device_type \<Rightarrow> memory_pool" where
  "pool_for pm d = (if d = CUDA then pm_gpu_pool pm else pm_cpu_pool pm)"

section \<open>Stacks of free slots\<close>

text \<open>
  The interface shared by the pool's free pointers and the block manager's free lists: \<open>grab\<close> takes
  the most recently returned slot, or answers with a null value when there is none.
\<close>

locale slot_stack =
  fixes grab :: "'s \<Rightarrow> 'a \<times> 's"
    and give_back :: "'a \<Rightarrow> 's \<Rightarrow> 's"
    and slots :: "'s \<Rightarrow> 'a list"
    and none :: 'a
  assumes grab_empty: "slots s = [] \<Longrightarrow> grab s = (none, s)"
    and grab_some: "slots s \<noteq> [] \<Longrightarrow> fst (grab s) = last (slots s) \<and> slots (snd (grab s)) = butlast (slots s)"
    and give_back_some: "x \<noteq> none \<Longrightarrow> slots (give_back x s) = slots s @ [x]"
begin

fun grab_n :: "nat \<Rightarrow> 's \<Rightarrow> 'a list \<times> 's" where
  "grab_n 0 s = ([], s)"
| "grab_n (Suc n) s = (let (x, s1) = grab s; (xs, s2) = grab_n n s1 in (x # xs, s2))"

text \<open>Successive grabs return the stack from its top; what they leave is the rest.\<close>

lemma grab_n_rev:
  "n \<le> length (slots s) \<Longrightarrow> slots s = slots (snd (grab_n n s)) @ rev (fst (grab_n n s)) \<and>
     length (fst (grab_n n s)) = n"
proof (induction n arbitrary: s)
  case (Suc n)
  then have ne: "slots s \<noteq> []" by auto
  obtain x s1 where g: "grab s = (x, s1)" by fastforce
  have x: "x = last (slots s)" "slots s1 = butlast (slots s)" using grab_some [OF ne] g by simp_all
  obtain xs s2 where r: "grab_n n s1 = (xs, s2)" by fastforce
  have "n \<le> length (slots s1)" using Suc.prems x(2) by simp
  from Suc.IH [OF this] have "slots s1 = slots s2 @ rev xs" "length xs = n" using r by simp_all
  then have "slots s = slots s2 @ rev (x # xs)" using x ne by (metis append.assoc append_butlast_last_id rev.simps(2))
  then show ?case using g r \<open>length xs = n\<close> by simp
qed simp

lemma grab_n_distinct:
  assumes "n \<le> length (slots s)" and "distinct (slots s)"
  shows "distinct (fst (grab_n n s))" "set (fst (grab_n n s)) \<subseteq> set (slots s)"
    "set (fst (grab_n n s)) \<inter> set (slots (snd (grab_n n s))) = {}"
proof -
  have eq: "slots s = slots (snd (grab_n n s)) @ rev (fst (grab_n n s))"
    using grab_n_rev [OF assms(1)] by blast
  have d: "distinct (slots (snd (grab_n n s)) @ rev (fst (grab_n n s)))" using assms(2) eq by simp
  then show "distinct (fst (grab_n n s))"
    "set (fst (grab_n n s)) \<inter> set (slots (snd (grab_n n s))) = {}" by auto
  have "set (slots s) = set (slots (snd (grab_n n s))) \<union> set (fst (grab_n n s))" by (subst eq) simp
  then show "set (fst (grab_n n s)) \<subseteq> set (slots s)" by blast
qed

text \<open>A slot that is returned twice is handed out twice.\<close>

lemma double_give_back:
  assumes "x \<noteq> none"
  shows "fst (grab_n 2 (give_back x (give_back x s))) = [x, x]"
proof -
  let ?s = "give_back x (give_back x s)"
  have s: "slots ?s = slots s @ [x, x]" using give_back_some [OF assms] by simp
  from grab_n_rev [of 2 ?s] s have "slots s @ [x, x] = slots (snd (grab_n 2 ?s)) @ rev (fst (grab_n 2 ?s))"
    "length (fst (grab_n 2 ?s)) = length [x, x]" by simp_all
  then have "rev (fst (grab_n 2 ?s)) = [x, x]" by (metis append_eq_append_conv length_rev)
  then show ?thesis by simp
qed

end

interpretation mps: slot_stack mp_allocate mp_deallocate mp_free_stack null
  by unfold_locales (simp_all add: mp_allocate_def mp_deallocate_def)

interpretation fls: slot_stack pop_free "\<lambda>b fl. push_free fl b" "\<lambda>fl. fl" INVALID_BLOCK
  by unfold_locales (simp_all add: pop_free_def push_free_def)

section \<open>The slots of a pool\<close>

definition slot_addr :: "memory_pool \<Rightarrow> nat \<Rightarrow> nat" where
  "slot_addr mp i = mp_base mp + i * mp_block_size_bytes mp"

definition slot_set :: "memory_pool \<Rightarrow> nat set" where
  "slot_set mp = slot_addr mp ` {..<mp_num_blocks mp}"

text \<open>
  A pool with a region that does not wrap, and the pointers its clients hold: free and held
  pointers are the slots, each once.
\<close>

definition pool_ok :: "memory_pool \<Rightarrow> nat set \<Rightarrow> bool" where
  "pool_ok mp held \<longleftrightarrow>
     0 < mp_block_size_bytes mp \<and> mp_base mp \<noteq> null \<and>
     mp_base mp + mp_num_blocks mp * mp_block_size_bytes mp \<le> size_max \<and>
     distinct (mp_free_stack mp) \<and> set (mp_free_stack mp) \<inter> held = {} \<and>
     set (mp_free_stack mp) \<union> held = slot_set mp"

lemma slot_addr_inj: "0 < mp_block_size_bytes mp \<Longrightarrow> slot_addr mp i = slot_addr mp j \<longleftrightarrow> i = j"
  by (simp add: slot_addr_def)

lemma fill_stack_slots:
  assumes "0 < mp_block_size_bytes mp"
  defines "fs \<equiv> fill_stack (mp_base mp) (mp_block_size_bytes mp) (mp_num_blocks mp)"
  shows "set fs = slot_set mp" "distinct fs" "length fs = mp_num_blocks mp"
proof -
  let ?n = "mp_num_blocks mp"
  have fs: "fs = map (slot_addr mp \<circ> (\<lambda>i. ?n - i - 1)) [0..<?n]"
    by (simp add: fs_def fill_stack_def slot_addr_def)
  have "(\<lambda>i. ?n - i - 1) ` {0..<?n} = {..<?n}"
  proof
    show "{..<?n} \<subseteq> (\<lambda>i. ?n - i - 1) ` {0..<?n}"
    proof
      fix i
      assume "i \<in> {..<?n}"
      then show "i \<in> (\<lambda>i. ?n - i - 1) ` {0..<?n}" by (intro image_eqI [of _ _ "?n - i - 1"]) auto
    qed
  qed auto
  then show "set fs = slot_set mp"
    by (simp only: fs slot_set_def set_map set_upt image_comp [symmetric])
  have "inj_on (slot_addr mp \<circ> (\<lambda>i. ?n - i - 1)) (set [0..<?n])"
    using assms(1) by (auto simp: inj_on_def slot_addr_inj)
  then show "distinct fs" unfolding fs by (simp add: distinct_map)
  show "length fs = ?n" by (simp add: fs)
qed

text \<open>Two different slots do not overlap, and every slot lies inside the region.\<close>

lemma slots_disjoint:
  assumes "p \<in> slot_set mp" "q \<in> slot_set mp" "p < q"
  shows "p + mp_block_size_bytes mp \<le> q"
proof -
  obtain i j where ij: "p = slot_addr mp i" "q = slot_addr mp j" using assms(1,2) by (auto simp: slot_set_def)
  then have "i < j" using assms(3) by (auto simp: slot_addr_def)
  then have "Suc i * mp_block_size_bytes mp \<le> j * mp_block_size_bytes mp" by (intro mult_le_mono1) simp
  then show ?thesis by (simp add: ij slot_addr_def)
qed

lemma slot_inside:
  assumes "p \<in> slot_set mp"
  shows "mp_base mp \<le> p" "p + mp_block_size_bytes mp \<le> mp_base mp + mp_num_blocks mp * mp_block_size_bytes mp"
proof -
  obtain i where i: "p = slot_addr mp i" "i < mp_num_blocks mp" using assms by (auto simp: slot_set_def)
  then have "Suc i * mp_block_size_bytes mp \<le> mp_num_blocks mp * mp_block_size_bytes mp"
    by (intro mult_le_mono1) simp
  then show "mp_base mp \<le> p" "p + mp_block_size_bytes mp \<le> mp_base mp + mp_num_blocks mp * mp_block_size_bytes mp"
    by (simp_all add: i slot_addr_def)
qed

lemma pool_new_ok:
  assumes "memory_pool_new aligned_alloc bytes n d = Inr mp" and "0 < bytes" and "0 < n"
    and "aligned_alloc (bytes * n) + bytes * n \<le> size_max" and "bytes * n < size_max"
  shows "pool_ok mp {}" "mp_num_blocks mp = n" "mp_block_size_bytes mp = bytes"
proof -
  have t: "(bytes * n) mod size_max = bytes * n" "bytes * n \<noteq> 0" using assms(2,3,5) by simp_all
  have mp: "mp = \<lparr>mp_block_size_bytes = bytes, mp_num_blocks = n, mp_device = d,
      mp_base = aligned_alloc (bytes * n), mp_free_stack = fill_stack (aligned_alloc (bytes * n)) bytes n\<rparr>"
    and b: "aligned_alloc (bytes * n) \<noteq> null"
    using assms(1) t by (auto simp: memory_pool_new_def Let_def split: if_splits)
  show "mp_num_blocks mp = n" "mp_block_size_bytes mp = bytes" by (simp_all add: mp)
  show "pool_ok mp {}"
    using fill_stack_slots [of mp] assms(2,4) b by (simp add: pool_ok_def mp mult.commute)
qed

lemma slot_set_stack [simp]: "slot_set (mp\<lparr>mp_free_stack := fs\<rparr>) = slot_set mp"
  by (simp add: slot_set_def slot_addr_def)

lemma pool_num_used:
  assumes "pool_ok mp held"
  shows "mp_num_used mp = card held"
proof -
  have c: "card (slot_set mp) = mp_num_blocks mp"
    using assms by (auto simp: slot_set_def pool_ok_def slot_addr_inj inj_on_def card_image)
  have fin: "finite held"
    using assms by (metis finite_Un finite_imageI finite_lessThan pool_ok_def slot_set_def)
  have "card (set (mp_free_stack mp)) + card held = mp_num_blocks mp"
    using assms c fin by (metis card_Un_disjoint finite_set pool_ok_def)
  moreover have "card (set (mp_free_stack mp)) = mp_num_free mp"
    using assms by (simp add: pool_ok_def mp_num_free_def distinct_card)
  ultimately show ?thesis by (simp add: mp_num_used_def)
qed


section \<open>Runs of a pool\<close>

text \<open>
  The runs in which clients only return what they hold; the second argument is the set of pointers
  they hold. The region that \<open>aligned_alloc\<close> returns does not wrap around the address space.
\<close>

inductive pool_run ::
    "(nat \<Rightarrow> nat) \<Rightarrow> nat \<Rightarrow> nat \<Rightarrow> device_type \<Rightarrow> memory_pool \<Rightarrow> nat set \<Rightarrow> bool"
  for aligned_alloc :: "nat \<Rightarrow> nat" and bytes n :: nat and d :: device_type
  where
  new: "memory_pool_new aligned_alloc bytes n d = Inr mp \<Longrightarrow> pool_run aligned_alloc bytes n d mp {}"
| alloc: "pool_run aligned_alloc bytes n d mp held \<Longrightarrow> mp_allocate mp = (p, mp') \<Longrightarrow> p \<noteq> null \<Longrightarrow>
    pool_run aligned_alloc bytes n d mp' (insert p held)"
| dealloc: "pool_run aligned_alloc bytes n d mp held \<Longrightarrow> p \<in> held \<Longrightarrow>
    pool_run aligned_alloc bytes n d (mp_deallocate p mp) (held - {p})"
| reset: "pool_run aligned_alloc bytes n d mp held \<Longrightarrow> pool_run aligned_alloc bytes n d (mp_reset mp) {}"

lemma pool_ok_allocate:
  assumes ok: "pool_ok mp held" and al: "mp_allocate mp = (p, mp')" "p \<noteq> null"
  shows "pool_ok mp' (insert p held)" "p \<notin> held"
proof -
  have ne: "mp_free_stack mp \<noteq> []" using al by (auto simp: mp_allocate_def split: if_splits)
  have p: "p = last (mp_free_stack mp)" "mp' = mp\<lparr>mp_free_stack := butlast (mp_free_stack mp)\<rparr>"
    using al(1) ne by (auto simp: mp_allocate_def)
  have d: "distinct (mp_free_stack mp)" using ok by (simp add: pool_ok_def)
  have b: "set (butlast (mp_free_stack mp)) = set (mp_free_stack mp) - {p}" "p \<in> set (mp_free_stack mp)"
    using butlast_set_last [OF d ne] ne p(1) by simp_all
  show "p \<notin> held" using ok b(2) by (auto simp: pool_ok_def)
  show "pool_ok mp' (insert p held)"
    using ok b d by (auto simp: pool_ok_def p(2) distinct_butlast)
qed

lemma pool_ok_deallocate:
  assumes ok: "pool_ok mp held" and p: "p \<in> held"
  shows "pool_ok (mp_deallocate p mp) (held - {p})"
proof -
  have "p \<in> slot_set mp" using ok p by (auto simp: pool_ok_def)
  then have "p \<noteq> null" using ok slot_inside(1) by (fastforce simp: pool_ok_def null_def)
  then show ?thesis using ok p by (auto simp: pool_ok_def mp_deallocate_def)
qed

lemma pool_ok_reset: "pool_ok mp held \<Longrightarrow> pool_ok (mp_reset mp) {}"
  using fill_stack_slots [of mp] by (simp add: pool_ok_def mp_reset_def)

lemma pool_run_ok:
  assumes "pool_run aligned_alloc bytes n d mp held" and "0 < bytes" and "0 < n"
    and "aligned_alloc (bytes * n) + bytes * n \<le> size_max" and "bytes * n < size_max"
  shows "pool_ok mp held \<and> mp_num_blocks mp = n \<and> mp_block_size_bytes mp = bytes"
  using assms(1)
proof (induction rule: pool_run.induct)
  case (new mp)
  then show ?case using pool_new_ok [OF new assms(2-5)] by simp
next
  case (alloc mp held p mp')
  then show ?case using pool_ok_allocate by (auto simp: mp_allocate_def split: if_splits)
next
  case (dealloc mp held p)
  then show ?case using pool_ok_deallocate by (auto simp: mp_deallocate_def)
next
  case (reset mp held)
  then show ?case using pool_ok_reset by (auto simp: mp_reset_def)
qed

section \<open>Properties\<close>

text \<open>
  C19. In every run in which clients return only what they hold, the blocks that clients hold lie inside
  the pool's region, are not free and do not overlap; the number of used blocks is the number of
  held ones; and an allocation fails exactly when every block is held, otherwise it returns a
  block nobody holds.
\<close>

theorem pool_blocks_never_overlap:
  assumes "pool_run aligned_alloc bytes n d mp held" and "0 < bytes" and "0 < n"
    and "aligned_alloc (bytes * n) + bytes * n \<le> size_max" and "bytes * n < size_max"
  shows "(\<forall>p \<in> held. mp_base mp \<le> p \<and> p + bytes \<le> mp_base mp + n * bytes \<and> p \<notin> set (mp_free_stack mp)) \<and>
    (\<forall>p \<in> held. \<forall>q \<in> held. p < q \<longrightarrow> p + bytes \<le> q) \<and>
    mp_num_used mp = card held \<and>
    (fst (mp_allocate mp) = null \<longleftrightarrow> card held = n) \<and> fst (mp_allocate mp) \<notin> held"
proof -
  have ok: "pool_ok mp held" and f: "mp_num_blocks mp = n" "mp_block_size_bytes mp = bytes"
    using pool_run_ok [OF assms] by simp_all
  have sub: "held \<subseteq> slot_set mp" using ok by (auto simp: pool_ok_def)
  have "null \<notin> slot_set mp" using slot_inside(1) ok by (force simp: pool_ok_def null_def)
  then have nn: "null \<notin> held" "null \<notin> set (mp_free_stack mp)" using ok by (auto simp: pool_ok_def)
  have used: "mp_num_used mp = card held" using pool_num_used [OF ok] .
  have "length (mp_free_stack mp) \<le> n"
  proof -
    have "card (set (mp_free_stack mp)) \<le> card (slot_set mp)"
      using ok by (intro card_mono) (auto simp: pool_ok_def slot_set_def)
    also have "\<dots> \<le> n" using f(1) card_image_le [of "{..<n}" "slot_addr mp"] by (simp add: slot_set_def)
    finally show ?thesis using ok by (simp add: pool_ok_def distinct_card)
  qed
  then have "card held = n - length (mp_free_stack mp)" "length (mp_free_stack mp) \<le> n"
    using used f(1) by (simp_all add: mp_num_used_def mp_num_free_def)
  then have "card held = n \<longleftrightarrow> length (mp_free_stack mp) = 0" using assms(3) by linarith
  then have "card held = n \<longleftrightarrow> mp_free_stack mp = []" by simp
  moreover have "fst (mp_allocate mp) = null \<longleftrightarrow> mp_free_stack mp = []"
    using nn(2) by (metis fst_conv last_in_set mp_allocate_def)
  moreover have "fst (mp_allocate mp) \<notin> held"
    using nn(1) pool_ok_allocate(2) [OF ok, of "fst (mp_allocate mp)" "snd (mp_allocate mp)"] by force
  moreover have "\<forall>p \<in> held. mp_base mp \<le> p \<and> p + bytes \<le> mp_base mp + n * bytes \<and> p \<notin> set (mp_free_stack mp)"
  proof
    fix p
    assume p: "p \<in> held"
    then have "p \<in> slot_set mp" "p \<notin> set (mp_free_stack mp)" using ok sub by (auto simp: pool_ok_def)
    then show "mp_base mp \<le> p \<and> p + bytes \<le> mp_base mp + n * bytes \<and> p \<notin> set (mp_free_stack mp)"
      using slot_inside [of p mp] f by simp
  qed
  moreover have "\<forall>p \<in> held. \<forall>q \<in> held. p < q \<longrightarrow> p + bytes \<le> q"
    using slots_disjoint [of _ mp] sub f(2) by blast
  ultimately show ?thesis using used by simp
qed

theorem pool_blocks_never_overlap_witness:
  "\<exists>p mp. pool_run (\<lambda>_. 64) 8 2 CPU mp {p} \<and> p = 64 \<and> mp_num_used mp = 1"
proof -
  obtain mp0 where mp0: "memory_pool_new (\<lambda>_. 64) 8 2 CPU = Inr mp0"
      "mp_allocate mp0 = (64, mp0\<lparr>mp_free_stack := [72]\<rparr>)"
    by (simp add: memory_pool_new_def Let_def size_max_def null_def fill_stack_def mp_allocate_def upt_rec)
  have run: "pool_run (\<lambda>_. 64) 8 2 CPU (mp0\<lparr>mp_free_stack := [72]\<rparr>) (insert 64 {})"
    by (rule pool_run.alloc [OF pool_run.new [OF mp0(1)] mp0(2)]) (simp add: null_def)
  from pool_blocks_never_overlap [OF this] have "mp_num_used (mp0\<lparr>mp_free_stack := [72]\<rparr>) = 1"
    by (simp add: size_max_def)
  with run show ?thesis by auto
qed

text \<open>
  Block numbers and pointers of a pool are inverse to each other: in every run of a pool with at most
  \<open>2 ^ 31\<close> blocks, converting a block number to a pointer and back gives the number, and
  converting a pointer that the pool can hand out to a number and back gives the pointer.
\<close>

lemma block_id_ptr_roundtrip:
  assumes "pool_run aligned_alloc bytes n d mp held" and "0 < bytes" and "0 < n"
    and "aligned_alloc (bytes * n) + bytes * n \<le> size_max" and "bytes * n < size_max" and "n \<le> 2 ^ 31"
  shows "(\<forall>b. 0 \<le> b \<longrightarrow> b < int n \<longrightarrow> ptr_to_block_id mp (block_id_to_ptr mp b) = Some b) \<and>
    (\<forall>p \<in> held \<union> set (mp_free_stack mp). \<exists>b. ptr_to_block_id mp p = Some b \<and> 0 \<le> b \<and> b < int n \<and>
       block_id_to_ptr mp b = p)"
proof -
  have ok: "pool_ok mp held" and f: "mp_num_blocks mp = n" "mp_block_size_bytes mp = bytes"
    using pool_run_ok [OF assms(1-5)] by simp_all
  have to: "block_id_to_ptr mp (int i) = slot_addr mp i" if "i < n" for i
  proof -
    have "slot_addr mp i + bytes \<le> size_max"
      using slot_inside(2) [of "slot_addr mp i" mp] that f ok by (force simp: slot_set_def pool_ok_def)
    then have "slot_addr mp i < size_max" using assms(2) by simp
    then show ?thesis using that assms(6) f by (simp add: block_id_to_ptr_def slot_addr_def)
  qed
  have from_ptr: "ptr_to_block_id mp (slot_addr mp i) = Some (int i)" if "i < n" for i
  proof -
    have "i * bytes < size_max"
    proof -
      have "i * bytes < n * bytes" using that assms(2) by (rule mult_less_mono1)
      then show ?thesis using assms(5) unfolding mult.commute [of n] by (rule less_trans)
    qed
    then have "nat ((int (slot_addr mp i) - int (mp_base mp)) mod int size_max) = i * bytes"
      using f by (simp add: slot_addr_def flip: of_nat_mult of_nat_mod)
    then show ?thesis using assms(2,6) that f by (simp add: ptr_to_block_id_def)
  qed
  have "ptr_to_block_id mp (block_id_to_ptr mp b) = Some b" if "0 \<le> b" "b < int n" for b
    using to [of "nat b"] from_ptr [of "nat b"] that by simp
  moreover have "\<exists>b. ptr_to_block_id mp p = Some b \<and> 0 \<le> b \<and> b < int n \<and> block_id_to_ptr mp b = p"
    if "p \<in> held \<union> set (mp_free_stack mp)" for p
  proof -
    have "p \<in> slot_set mp" using that ok by (auto simp: pool_ok_def)
    then obtain i where "i < n" "p = slot_addr mp i" using f(1) by (auto simp: slot_set_def)
    then show ?thesis using to from_ptr by (intro exI [of _ "int i"]) simp
  qed
  ultimately show ?thesis by blast
qed

text \<open>
  Nothing stops a block from being returned twice: after two deallocations of the same pointer the
  next two allocations both return it.
\<close>

lemma double_deallocate_hands_out_twice:
  assumes "p \<noteq> null"
  shows "\<exists>mp1 mp2. mp_allocate (mp_deallocate p (mp_deallocate p mp)) = (p, mp1) \<and> mp_allocate mp1 = (p, mp2)"
  using mps.double_give_back [OF assms, of mp]
  by (auto simp: numeral_2_eq_2 split: prod.splits)

text \<open>
  The size of the region is computed modulo \<open>2 ^ 64\<close> and not checked. When the product wraps to a
  smaller positive size, the constructor succeeds and the free stack holds a block that does not
  lie inside the region; when it wraps to zero, the empty pool reports full utilisation.
\<close>

lemma pool_size_wraps:
  assumes "0 < n" and "0 < bytes" and "size_max \<le> bytes * n"
    and "aligned_alloc ((bytes * n) mod size_max) \<noteq> null"
  shows "\<exists>mp. memory_pool_new aligned_alloc bytes n d = Inr mp \<and>
    (if (bytes * n) mod size_max = 0
     then mp_num_free mp = 0 \<and> mp_utilization mp = 1
     else \<exists>p \<in> set (mp_free_stack mp). mp_base mp + (bytes * n) mod size_max < p + bytes)"
proof (cases "(bytes * n) mod size_max = 0")
  case True
  then show ?thesis using assms(1)
    by (simp add: memory_pool_new_def mp_num_free_def mp_utilization_def mp_num_used_def)
next
  case False
  let ?base = "aligned_alloc ((bytes * n) mod size_max)"
  have "(bytes * n) mod size_max < size_max" by (simp add: size_max_def)
  then have lt: "(bytes * n) mod size_max < bytes * n" using assms(3) by linarith
  have "fill_stack ?base bytes n ! 0 = ?base + (n - 1) * bytes" "length (fill_stack ?base bytes n) = n"
    using assms(1) by (simp_all add: fill_stack_def)
  then have mem: "?base + (n - 1) * bytes \<in> set (fill_stack ?base bytes n)" using assms(1) by (metis nth_mem)
  have "(n - 1) * bytes + bytes = bytes * n" using assms(1) by (cases n) (simp_all add: mult.commute)
  then show ?thesis using False assms(4) mem lt by (auto simp: memory_pool_new_def Let_def intro!: bexI [OF _ mem])
qed

text \<open>
  The region is given back exactly once at the end, whatever happened in between: the operations keep
  the base address that the destructor frees.
\<close>

lemma destroy_frees_region:
  assumes "memory_pool_new aligned_alloc bytes n d = Inr mp"
  shows "mp_destroy mp = (let total = (bytes * n) mod size_max in if total = 0 then None else Some (aligned_alloc total))"
    "mp_destroy (snd (mp_allocate mp')) = mp_destroy mp'" "mp_destroy (mp_deallocate p mp') = mp_destroy mp'"
    "mp_destroy (mp_reset mp') = mp_destroy mp'"
  using assms
  by (auto simp: memory_pool_new_def mp_destroy_def mp_allocate_def mp_deallocate_def mp_reset_def Let_def split: if_splits)

text \<open>
  A pool without a region has no blocks, but \<open>reset\<close> gives it as many as it was asked for, at
  offsets from the null pointer.
\<close>

lemma reset_without_region:
  assumes "memory_pool_new aligned_alloc bytes n d = Inr mp" and "(bytes * n) mod size_max = 0"
  shows "mp_base mp = null" "mp_num_free mp = 0" "mp_num_free (mp_reset mp) = n"
  using assms by (auto simp: memory_pool_new_def mp_num_free_def mp_reset_def fill_stack_def Let_def)

end
