(* ===== verification/Metrics.thy ===== *)
theory Metrics
  imports Prelude
begin

text \<open>
  The metrics, \<open>src/src/cacheflow/profiler/metrics.h\<close>: running statistics by Welford's method, a latency
  histogram and a throughput meter. Doubles are exact reals, so the theorems are about the
  algorithms and not about rounding. An access outside the bins and a conversion to an unsigned
  integer that is out of range are undefined (\<open>None\<close>).
\<close>

section \<open>Running statistics\<close>

record running_stats =
  rs_count :: nat
  rs_mean :: real
  rs_m2 :: real
  rs_min :: real
  rs_max :: real

definition running_stats_new :: running_stats where
  "running_stats_new =
     \<lparr>rs_count = 0, rs_mean = 0, rs_m2 = 0, rs_min = 10 ^ 30, rs_max = - (10 ^ 30)\<rparr>"

definition rs_update :: "real \<Rightarrow> running_stats \<Rightarrow> running_stats" where
  "rs_update x s =
     (let n = rs_count s + 1;
          delta = x - rs_mean s;
          mean = rs_mean s + delta / real n;
          delta2 = x - mean
      in \<lparr>rs_count = n, rs_mean = mean, rs_m2 = rs_m2 s + delta * delta2,
          rs_min = min (rs_min s) x, rs_max = max (rs_max s) x\<rparr>)"

definition rs_variance :: "running_stats \<Rightarrow> real" where
  "rs_variance s = (if rs_count s > 1 then rs_m2 s / real (rs_count s - 1) else 0)"

definition rs_stddev :: "running_stats \<Rightarrow> real" where
  "rs_stddev s = sqrt (rs_variance s)"

definition rs_reset :: "running_stats \<Rightarrow> running_stats" where
  "rs_reset s = \<lparr>rs_count = 0, rs_mean = 0, rs_m2 = 0, rs_min = 10 ^ 30, rs_max = - (10 ^ 30)\<rparr>"

section \<open>Histogram\<close>

record histogram =
  hg_min_val :: real
  hg_max_val :: real
  hg_bin_width :: real
  hg_bins :: "nat list"
  hg_underflow :: nat
  hg_overflow :: nat
  hg_total :: nat

text \<open>Without bins the width is infinite; it is only ever a divisor, where zero acts the same.\<close>

definition histogram_new :: "real \<Rightarrow> real \<Rightarrow> nat \<Rightarrow> histogram" where
  "histogram_new min_val max_val num_bins =
     \<lparr>hg_min_val = min_val, hg_max_val = max_val, hg_bin_width = (max_val - min_val) / real num_bins,
      hg_bins = replicate num_bins 0, hg_underflow = 0, hg_overflow = 0, hg_total = 0\<rparr>"

definition hg_record :: "real \<Rightarrow> histogram \<Rightarrow> histogram option" where
  "hg_record val h =
     (if val < hg_min_val h then Some (h\<lparr>hg_underflow := hg_underflow h + 1\<rparr>)
      else if val \<ge> hg_max_val h then Some (h\<lparr>hg_overflow := hg_overflow h + 1\<rparr>)
      else do {
        let idx = nat \<lfloor>(val - hg_min_val h) / hg_bin_width h\<rfloor>;
        let idx1 = (if idx \<ge> length (hg_bins h) then size_sub (length (hg_bins h)) 1 else idx);
        c \<leftarrow> vec_at (hg_bins h) idx1;
        Some (h\<lparr>hg_bins := (hg_bins h)[idx1 := c + 1], hg_total := hg_total h + 1\<rparr>)
      })"

text \<open>The scan over the bins: bins from index \<open>i\<close> on, and the count below them.\<close>

fun percentile_scan :: "nat list \<Rightarrow> nat \<Rightarrow> nat \<Rightarrow> nat \<Rightarrow> nat option" where
  "percentile_scan [] i cum target = None"
| "percentile_scan (b # bs) i cum target =
     (if cum + b \<ge> target then Some i else percentile_scan bs (i + 1) (cum + b) target)"

definition hg_percentile :: "real \<Rightarrow> histogram \<Rightarrow> real option" where
  "hg_percentile p h =
     (if hg_total h = 0 then Some 0
      else
        let x = p * real (hg_total h) / 100 in
        if x \<le> -1 \<or> x \<ge> real size_max then None
        else
          (case percentile_scan (hg_bins h) 0 0 (nat \<lfloor>x\<rfloor>) of
             Some i \<Rightarrow> Some (hg_min_val h + (real i + 1 / 2) * hg_bin_width h)
           | None \<Rightarrow> Some (hg_max_val h)))"

definition hg_reset :: "histogram \<Rightarrow> histogram" where
  "hg_reset h = h\<lparr>hg_bins := replicate (length (hg_bins h)) 0, hg_underflow := 0, hg_overflow := 0, hg_total := 0\<rparr>"

section \<open>Throughput meter\<close>

record throughput_meter =
  tm_total_tokens :: nat
  tm_total_time_ms :: real
  tm_intervals :: nat

definition throughput_meter_new :: throughput_meter where
  "throughput_meter_new = \<lparr>tm_total_tokens = 0, tm_total_time_ms = 0, tm_intervals = 0\<rparr>"

definition record_tokens :: "nat \<Rightarrow> throughput_meter \<Rightarrow> throughput_meter" where
  "record_tokens n t = t\<lparr>tm_total_tokens := tm_total_tokens t + n\<rparr>"

definition record_interval :: "real \<Rightarrow> throughput_meter \<Rightarrow> throughput_meter" where
  "record_interval ms t =
     t\<lparr>tm_total_time_ms := tm_total_time_ms t + ms, tm_intervals := tm_intervals t + 1\<rparr>"

definition tokens_per_sec :: "throughput_meter \<Rightarrow> real" where
  "tokens_per_sec t =
     (if tm_total_time_ms t \<le> 0 then 0 else real (tm_total_tokens t) / (tm_total_time_ms t / 1000))"

definition avg_interval_ms :: "throughput_meter \<Rightarrow> real" where
  "avg_interval_ms t = (if tm_intervals t = 0 then 0 else tm_total_time_ms t / real (tm_intervals t))"

definition tm_reset :: "throughput_meter \<Rightarrow> throughput_meter" where
  "tm_reset t = \<lparr>tm_total_tokens = 0, tm_total_time_ms = 0, tm_intervals = 0\<rparr>"

section \<open>Welford's invariant\<close>

lemma rs_update_sel [simp]:
  "rs_count (rs_update x s) = rs_count s + 1"
  "rs_mean (rs_update x s) = rs_mean s + (x - rs_mean s) / real (rs_count s + 1)"
  "rs_m2 (rs_update x s) = rs_m2 s + (x - rs_mean s) * (x - (rs_mean s + (x - rs_mean s) / real (rs_count s + 1)))"
  "rs_min (rs_update x s) = min (rs_min s) x" "rs_max (rs_update x s) = max (rs_max s) x"
  by (simp_all add: rs_update_def Let_def)

lemma welford_step:
  fixes m d :: real
  assumes "0 < N"
  shows "d * (d - d / N) = (m + d)\<^sup>2 + (N - 1) * m\<^sup>2 - N * (m + d / N)\<^sup>2"
  using assms by (simp add: field_simps power2_eq_square)

lemma welford_inv:
  defines "s \<equiv> \<lambda>xs. fold rs_update xs running_stats_new"
  shows "rs_count (s xs) = length xs"
    and "real (length xs) * rs_mean (s xs) = sum_list xs"
    and "rs_m2 (s xs) = sum_list (map (\<lambda>x. x\<^sup>2) xs) - real (length xs) * (rs_mean (s xs))\<^sup>2"
proof -
  have "rs_count (s xs) = length xs \<and> real (length xs) * rs_mean (s xs) = sum_list xs \<and>
    rs_m2 (s xs) = sum_list (map (\<lambda>x. x\<^sup>2) xs) - real (length xs) * (rs_mean (s xs))\<^sup>2"
  proof (induction xs rule: rev_induct)
    case Nil
    then show ?case by (simp add: s_def running_stats_new_def)
  next
    case (snoc x xs)
    let ?N = "real (length xs + 1)" and ?m = "rs_mean (s xs)"
    let ?d = "x - ?m"
    have st: "s (xs @ [x]) = rs_update x (s xs)" by (simp add: s_def)
    have m2: "rs_m2 (s (xs @ [x])) = rs_m2 (s xs) + ?d * (?d - ?d / ?N)"
      using snoc st by (simp add: algebra_simps)
    have mean: "rs_mean (s (xs @ [x])) = ?m + ?d / ?N" using snoc st by simp
    have "?N * (?m + ?d / ?N) = real (length xs) * ?m + x" by (simp add: field_simps)
    then have "?N * rs_mean (s (xs @ [x])) = sum_list (xs @ [x])" using mean snoc by simp
    moreover have "rs_m2 (s (xs @ [x])) = sum_list (map (\<lambda>x. x\<^sup>2) (xs @ [x])) - ?N * (rs_mean (s (xs @ [x])))\<^sup>2"
      using welford_step [of ?N ?d ?m] m2 mean snoc by simp
    ultimately show ?case using st snoc by simp
  qed
  then show "rs_count (s xs) = length xs" "real (length xs) * rs_mean (s xs) = sum_list xs"
    "rs_m2 (s xs) = sum_list (map (\<lambda>x. x\<^sup>2) xs) - real (length xs) * (rs_mean (s xs))\<^sup>2" by blast+
qed

lemma sum_sq_deviation:
  fixes xs :: "real list"
  shows "sum_list (map (\<lambda>x. (x - m)\<^sup>2) xs) =
    sum_list (map (\<lambda>x. x\<^sup>2) xs) - 2 * m * sum_list xs + real (length xs) * m\<^sup>2"
  by (induction xs) (simp_all add: power2_eq_square algebra_simps)

text \<open>The mean and the sample variance of a list of values.\<close>

definition mean_of :: "real list \<Rightarrow> real" where
  "mean_of xs = sum_list xs / real (length xs)"

definition variance_of :: "real list \<Rightarrow> real" where
  "variance_of xs =
     (if length xs > 1 then sum_list (map (\<lambda>x. (x - mean_of xs)\<^sup>2) xs) / real (length xs - 1) else 0)"

lemma rs_mean_exact: "rs_mean (fold rs_update xs running_stats_new) = mean_of xs"
proof (cases xs)
  case Nil
  then show ?thesis by (simp add: running_stats_new_def mean_of_def)
next
  case Cons
  then have "real (length xs) \<noteq> 0" by simp
  then show ?thesis using welford_inv(2) [of xs] by (simp add: mean_of_def field_simps)
qed

lemma rs_variance_exact: "rs_variance (fold rs_update xs running_stats_new) = variance_of xs"
proof (cases "xs = []")
  case True
  then show ?thesis by (simp add: running_stats_new_def variance_of_def rs_variance_def)
next
  case False
  note w = welford_inv [of xs]
  have sum: "sum_list xs = real (length xs) * mean_of xs" using w(2) rs_mean_exact by simp
  have "2 * mean_of xs * sum_list xs = 2 * real (length xs) * (mean_of xs)\<^sup>2"
    by (subst sum) (simp add: power2_eq_square)
  then have "rs_m2 (fold rs_update xs running_stats_new) = sum_list (map (\<lambda>x. (x - mean_of xs)\<^sup>2) xs)"
    using w(3) rs_mean_exact sum_sq_deviation [of "mean_of xs" xs] by (simp add: algebra_simps)
  then show ?thesis using w(1) by (simp add: rs_variance_def variance_of_def)
qed

lemma rs_min_max:
  "rs_min (fold rs_update xs s) = fold (\<lambda>x m. min m x) xs (rs_min s)"
  "rs_max (fold rs_update xs s) = fold (\<lambda>x m. max m x) xs (rs_max s)"
  by (induction xs arbitrary: s) simp_all

lemma fold_min_Min_insert: "fold (\<lambda>x m. min m x) xs b = Min (insert b (set xs))" for b :: real
proof (induction xs arbitrary: b)
  case (Cons x xs)
  have "Min (insert (min b x) (set xs)) = Min (insert b (insert x (set xs)))"
    by (cases "set xs = {}") (simp_all add: Min.insert min.assoc)
  then show ?case using Cons.IH by simp
qed simp

lemma fold_max_Max_insert: "fold (\<lambda>x m. max m x) xs b = Max (insert b (set xs))" for b :: real
proof (induction xs arbitrary: b)
  case (Cons x xs)
  have "Max (insert (max b x) (set xs)) = Max (insert b (insert x (set xs)))"
    by (cases "set xs = {}") (simp_all add: Max.insert max.assoc)
  then show ?case using Cons.IH by simp
qed simp

lemma fold_min_Min:
  fixes b :: real
  assumes "xs \<noteq> []" and "\<forall>x \<in> set xs. x \<le> b"
  shows "fold (\<lambda>x m. min m x) xs b = Min (set xs)"
proof -
  have "Min (set xs) \<le> b" using assms by (meson Min_in List.finite_set set_empty)
  then show ?thesis using assms(1) by (simp add: fold_min_Min_insert Min.insert)
qed

lemma fold_max_Max:
  fixes b :: real
  assumes "xs \<noteq> []" and "\<forall>x \<in> set xs. b \<le> x"
  shows "fold (\<lambda>x m. max m x) xs b = Max (set xs)"
proof -
  have "b \<le> Max (set xs)" using assms by (meson Max_in List.finite_set set_empty)
  then show ?thesis using assms(1) by (simp add: fold_max_Max_insert Max.insert)
qed

section \<open>Histogram invariant\<close>

definition hg_wf :: "histogram \<Rightarrow> bool" where
  "hg_wf h \<longleftrightarrow> hg_bins h \<noteq> [] \<and> length (hg_bins h) < size_max \<and> hg_total h = sum_list (hg_bins h)"

lemma sum_list_inc: "i < length bs \<Longrightarrow> sum_list (bs[i := bs ! i + 1]) = sum_list bs + (1 :: nat)"
  by (induction bs arbitrary: i) (auto split: nat.split)

lemma hg_record_wf:
  assumes "hg_wf h"
  shows "\<exists>h'. hg_record val h = Some h' \<and> hg_wf h' \<and> hg_bin_width h' = hg_bin_width h \<and>
    hg_min_val h' = hg_min_val h \<and> hg_max_val h' = hg_max_val h \<and> length (hg_bins h') = length (hg_bins h) \<and>
    hg_underflow h' + hg_overflow h' + hg_total h' = hg_underflow h + hg_overflow h + hg_total h + 1"
proof -
  define idx where "idx = nat \<lfloor>(val - hg_min_val h) / hg_bin_width h\<rfloor>"
  define i where "i = (if idx \<ge> length (hg_bins h) then size_sub (length (hg_bins h)) 1 else idx)"
  have "0 < length (hg_bins h)" using assms by (simp add: hg_wf_def)
  then have "i < length (hg_bins h)" by (simp add: i_def Suc_leI)
  then show ?thesis
    using assms sum_list_inc [of i "hg_bins h"]
    by (auto simp: hg_record_def Let_def hg_wf_def idx_def [symmetric] i_def [symmetric])
qed

lemma hg_run:
  "hg_wf h0 \<Longrightarrow> foldM hg_record vals h0 = Some h \<Longrightarrow> hg_wf h \<and> hg_bin_width h = hg_bin_width h0 \<and>
     hg_min_val h = hg_min_val h0 \<and> hg_max_val h = hg_max_val h0 \<and> length (hg_bins h) = length (hg_bins h0) \<and>
     hg_underflow h + hg_overflow h + hg_total h = hg_underflow h0 + hg_overflow h0 + hg_total h0 + length vals"
proof (induction vals arbitrary: h0)
  case (Cons v vals)
  obtain h1 where h1: "hg_record v h0 = Some h1" "hg_wf h1" "hg_bin_width h1 = hg_bin_width h0"
      "hg_min_val h1 = hg_min_val h0" "hg_max_val h1 = hg_max_val h0" "length (hg_bins h1) = length (hg_bins h0)"
      "hg_underflow h1 + hg_overflow h1 + hg_total h1 = hg_underflow h0 + hg_overflow h0 + hg_total h0 + 1"
    using hg_record_wf [OF Cons.prems(1)] by blast
  then show ?case using Cons.IH [OF h1(2)] Cons.prems(2) by simp
qed simp

lemma hg_wf_new: "0 < bins \<Longrightarrow> bins < size_max \<Longrightarrow> hg_wf (histogram_new lo hi bins)"
  by (simp add: hg_wf_def histogram_new_def sum_list_replicate)

lemma rank_bounds:
  fixes p :: real
  assumes "0 \<le> p" and "p \<le> 100"
  shows "0 \<le> p * real n / 100" and "p * real n / 100 \<le> real n"
  using assms(1) mult_right_mono [OF assms(2), of "real n"] by simp_all

lemma hg_percentile_defined:
  assumes "0 \<le> p" and "p \<le> 100" and "hg_total h < size_max"
  shows "\<exists>v. hg_percentile p h = Some v"
proof -
  have "real (hg_total h) < real size_max" using assms(3) by simp
  then have "\<not> (p * real (hg_total h) / 100 \<le> -1 \<or> real size_max \<le> p * real (hg_total h) / 100)"
    using rank_bounds [OF assms(1,2), of "hg_total h"] by linarith
  then show ?thesis by (auto simp: hg_percentile_def Let_def split: option.split)
qed

text \<open>The scan returns the first bin at which the cumulated count reaches the target.\<close>

lemma percentile_scan_first:
  "cum + sum_list bs \<ge> target \<Longrightarrow> bs \<noteq> [] \<Longrightarrow>
     \<exists>k < length bs. percentile_scan bs i cum target = Some (i + k) \<and>
       target \<le> cum + sum_list (take (k + 1) bs) \<and> (\<forall>j < k. cum + sum_list (take (j + 1) bs) < target)"
proof (induction bs arbitrary: i cum)
  case (Cons b bs)
  show ?case
  proof (cases "target \<le> cum + b")
    case True
    then show ?thesis by (intro exI [of _ 0]) simp
  next
    case False
    then have "target \<le> cum + b + sum_list bs" "bs \<noteq> []" using Cons.prems(1) by (auto simp: add.assoc)
    then obtain k where k: "k < length bs" "percentile_scan bs (i + 1) (cum + b) target = Some (i + 1 + k)"
        "target \<le> cum + b + sum_list (take (k + 1) bs)"
        "\<forall>j < k. cum + b + sum_list (take (j + 1) bs) < target"
      using Cons.IH [of "cum + b" "i + 1"] by blast
    have "cum + sum_list (take (j + 1) (b # bs)) < target" if "j < Suc k" for j
      using that k(4) False by (cases j) (auto simp: add.assoc)
    then show ?thesis using k False by (intro exI [of _ "Suc k"]) (simp add: add.assoc)
  qed
qed simp

section \<open>Properties\<close>

text \<open>
  C32. The running statistics are exact: after any sequence of updates the count, the mean, the sample
  variance and, for values within the initial bounds, the minimum and the maximum are those of
  the sequence.
\<close>

theorem running_stats_exact:
  assumes "xs \<noteq> []" and "\<forall>x \<in> set xs. - (10 ^ 30) \<le> x \<and> x \<le> 10 ^ 30"
  shows "let s = fold rs_update xs running_stats_new in
    rs_count s = length xs \<and> rs_mean s = mean_of xs \<and> rs_variance s = variance_of xs \<and>
    rs_min s = Min (set xs) \<and> rs_max s = Max (set xs)"
  using assms welford_inv(1) [of xs] rs_mean_exact [of xs] rs_variance_exact [of xs]
  by (simp add: Let_def rs_min_max running_stats_new_def fold_min_Min fold_max_Max)

theorem running_stats_exact_witness:
  "rs_mean (fold rs_update [1, 2, 6] running_stats_new) = 3 \<and>
   rs_variance (fold rs_update [1, 2, 6] running_stats_new) = 7"
  using running_stats_exact [of "[1, 2, 6]"] by (simp add: Let_def mean_of_def variance_of_def)

text \<open>
  The histogram loses no sample and its percentiles are ranks: recording is always defined and every
  sample is counted in a bin, as underflow or as overflow; for \<open>p\<close> between 0 and 100 the
  percentile of a non-empty histogram is the centre of the first bin at which the cumulated count
  reaches \<open>p\<close> percent of the binned samples, rounded down.
\<close>

lemma histogram_percentile_rank:
  assumes "0 < bins" and "bins < size_max"
    and "foldM hg_record vals (histogram_new lo hi bins) = Some h"
    and "0 \<le> p" and "p \<le> 100" and "hg_total h < size_max" and "0 < hg_total h"
  shows "hg_underflow h + hg_overflow h + sum_list (hg_bins h) = length vals \<and>
    (\<exists>k < bins. hg_percentile p h = Some (lo + (real k + 1 / 2) * ((hi - lo) / real bins)) \<and>
       nat \<lfloor>p * real (hg_total h) / 100\<rfloor> \<le> sum_list (take (k + 1) (hg_bins h)) \<and>
       (\<forall>j < k. sum_list (take (j + 1) (hg_bins h)) < nat \<lfloor>p * real (hg_total h) / 100\<rfloor>))"
proof -
  let ?h0 = "histogram_new lo hi bins"
  have wf0: "hg_wf ?h0" using assms(1,2) by (rule hg_wf_new)
  note r = hg_run [OF wf0 assms(3)]
  have tot: "hg_total h = sum_list (hg_bins h)" using r by (simp add: hg_wf_def)
  let ?x = "p * real (hg_total h) / 100"
  note x = rank_bounds [OF assms(4,5), of "hg_total h"]
  have le: "nat \<lfloor>?x\<rfloor> \<le> sum_list (hg_bins h)" using x tot by linarith
  have bins: "hg_bins h \<noteq> []" "length (hg_bins h) = bins" using r assms(1) by (auto simp: histogram_new_def hg_wf_def)
  obtain k where k: "k < bins" "percentile_scan (hg_bins h) 0 0 (nat \<lfloor>?x\<rfloor>) = Some k"
      "nat \<lfloor>?x\<rfloor> \<le> sum_list (take (k + 1) (hg_bins h))" "\<forall>j < k. sum_list (take (j + 1) (hg_bins h)) < nat \<lfloor>?x\<rfloor>"
    using percentile_scan_first [of "nat \<lfloor>?x\<rfloor>" 0 "hg_bins h" 0] le bins by auto
  have "real (hg_total h) < real size_max" using assms(6) by simp
  then have "\<not> (?x \<le> -1 \<or> real size_max \<le> ?x)" using x by linarith
  then have "hg_percentile p h = Some (hg_min_val h + (real k + 1 / 2) * hg_bin_width h)"
    using k(2) assms(7) by (simp add: hg_percentile_def Let_def del: divide_le_eq_numeral1)
  then have "hg_percentile p h = Some (lo + (real k + 1 / 2) * ((hi - lo) / real bins))"
    using r by (simp add: histogram_new_def)
  moreover have "hg_underflow h + hg_overflow h + sum_list (hg_bins h) = length vals"
    using r tot by (simp add: histogram_new_def)
  ultimately show ?thesis using k by blast
qed

text \<open>
  The rank is rounded down, to zero for few samples, and the scan then stops at the first bin even
  when it is empty: with fewer than \<open>100 / p\<close> samples the \<open>p\<close>-th percentile is the centre of the
  first bin, whatever was recorded.
\<close>

lemma percentile_of_few_samples:
  assumes "hg_wf h" and "0 < hg_total h" and "0 \<le> p" and "p * real (hg_total h) < 100"
  shows "hg_percentile p h = Some (hg_min_val h + hg_bin_width h / 2)"
proof -
  have x: "0 \<le> p * real (hg_total h) / 100" "p * real (hg_total h) / 100 < 1" using assms(3,4) by simp_all
  then have "\<lfloor>p * real (hg_total h) / 100\<rfloor> = 0" by (simp add: floor_eq_iff)
  moreover obtain b bs where "hg_bins h = b # bs" using assms(1) by (cases "hg_bins h") (auto simp: hg_wf_def)
  ultimately show ?thesis using x assms(2) by (simp add: hg_percentile_def Let_def size_max_def)
qed

end
