(* ===== verification/Trace.thy ===== *)
theory Trace
  imports Common
begin

text \<open>
  The trace writer, \<open>src/src/cacheflow/profiler/trace.{h,cpp}\<close>: it buffers events and writes them as a
  JSON array in the format of the Chrome trace viewer. The output file is the string written so
  far, \<open>None\<close> when the file could not be opened. Clock readings and the hash of the calling thread
  are arguments; time points count nanoseconds and durations are milliseconds, as in \<open>common.h\<close>.
\<close>

section \<open>Printing numbers\<close>

fun nat_str :: "nat \<Rightarrow> string" where
  "nat_str n = (if n < 10 then [char_of (48 + n)] else nat_str (n div 10) @ [char_of (48 + n mod 10)])"

declare nat_str.simps [simp del]

definition int_str :: "int \<Rightarrow> string" where
  "int_str i = (if i < 0 then ''-'' @ nat_str (nat (- i)) else nat_str (nat i))"

text \<open>Rounding to the nearest integer, ties to even, of a number that is not negative.\<close>

definition round_half_even :: "real \<Rightarrow> nat" where
  "round_half_even x =
     (let n = nat \<lfloor>x\<rfloor>; r = x - real n
      in if r < 1 / 2 then n else if r > 1 / 2 then n + 1 else if even n then n else n + 1)"

text \<open>The last \<open>p\<close> digits of a number, with leading zeros.\<close>

fun low_digits :: "nat \<Rightarrow> nat \<Rightarrow> string" where
  "low_digits 0 n = ''''"
| "low_digits (Suc p) n = low_digits p (n div 10) @ [char_of (48 + n mod 10)]"

text \<open>A number in fixed notation with \<open>p > 0\<close> decimals: \<open>std::fixed << std::setprecision(p)\<close>.\<close>

definition fixed_str :: "nat \<Rightarrow> real \<Rightarrow> string" where
  "fixed_str p x =
     (let n = round_half_even (\<bar>x\<bar> * 10 ^ p)
      in (if x < 0 then ''-'' else '''') @ nat_str (n div 10 ^ p) @ ''.'' @ low_digits p n)"

text \<open>\<open>std::to_string\<close> of a double prints six decimals.\<close>

definition to_string_double :: "real \<Rightarrow> string" where
  "to_string_double x = fixed_str 6 x"

section \<open>Events\<close>

datatype phase = BEGIN | END | COMPLETE | INSTANT | COUNTER

fun phase_char :: "phase \<Rightarrow> char" where
  "phase_char BEGIN = CHR ''B''"
| "phase_char END = CHR ''E''"
| "phase_char COMPLETE = CHR ''X''"
| "phase_char INSTANT = CHR ''i''"
| "phase_char COUNTER = CHR ''C''"

record trace_event =
  te_name :: string
  te_category :: string
  te_timestamp :: time_point
  te_duration :: real
  te_thread_id :: int
  te_process_id :: int
  te_phase :: phase
  te_args :: "(string \<times> string) list"

text \<open>A default-constructed event: the time point of the clock's epoch.\<close>

definition trace_event_new :: trace_event where
  "trace_event_new =
     \<lparr>te_name = '''', te_category = '''', te_timestamp = 0, te_duration = 0, te_thread_id = 0,
      te_process_id = 0, te_phase = COMPLETE, te_args = []\<rparr>"

section \<open>The writer\<close>

record trace_writer =
  tw_output_path :: string
  tw_file :: "string option"
  tw_events :: "trace_event list"
  tw_start_time :: time_point
  tw_first_event :: bool

definition nl :: string where
  "nl = [CHR 0x0A]"

definition quote :: string where
  "quote = [CHR 0x22]"

text \<open>\<open>opens\<close> tells whether the file can be opened for writing.\<close>

definition trace_writer_new :: "bool \<Rightarrow> time_point \<Rightarrow> string \<Rightarrow> trace_writer" where
  "trace_writer_new opens now path =
     \<lparr>tw_output_path = path, tw_file = (if opens then Some (''['' @ nl) else None), tw_events = [],
      tw_start_time = now, tw_first_event = True\<rparr>"

definition field :: "string \<Rightarrow> string" where
  "field k = quote @ k @ quote @ '':''"

text \<open>The loop over the arguments: a comma before every one but the first.\<close>

fun args_str :: "(string \<times> string) list \<Rightarrow> nat \<Rightarrow> string" where
  "args_str [] i = ''''"
| "args_str ((k, v) # as) i =
     (if i > 0 then '','' else '''') @ quote @ k @ quote @ '':'' @ quote @ v @ quote @ args_str as (i + 1)"

text \<open>What one event adds to the file, without the separator.\<close>

definition event_str :: "time_point \<Rightarrow> trace_event \<Rightarrow> string" where
  "event_str start ev =
     (let ts_us = real_of_int (te_timestamp ev - start) / 1000;
          dur_us = te_duration ev * 1000
      in ''  {'' @ field ''name'' @ quote @ te_name ev @ quote
         @ '','' @ field ''cat'' @ quote @ te_category ev @ quote
         @ '','' @ field ''ph'' @ quote @ [phase_char (te_phase ev)] @ quote
         @ '','' @ field ''ts'' @ fixed_str 1 ts_us
         @ '','' @ field ''dur'' @ fixed_str 1 dur_us
         @ '','' @ field ''pid'' @ int_str (te_process_id ev)
         @ '','' @ field ''tid'' @ int_str (te_thread_id ev)
         @ (if te_args ev \<noteq> [] then '','' @ field ''args'' @ ''{'' @ args_str (te_args ev) 0 @ ''}'' else '''')
         @ ''}'')"

definition write_event :: "trace_event \<Rightarrow> trace_writer \<Rightarrow> trace_writer" where
  "write_event ev w =
     (case tw_file w of
        None \<Rightarrow> w
      | Some out \<Rightarrow>
          let out1 = (if \<not> tw_first_event w then out @ '','' @ nl else out)
          in w\<lparr>tw_first_event := False, tw_file := Some (out1 @ event_str (tw_start_time w) ev)\<rparr>)"

definition write_buffer :: "trace_writer \<Rightarrow> trace_writer" where
  "write_buffer w = (fold write_event (tw_events w) w)\<lparr>tw_events := []\<rparr>"

text \<open>\<open>hash\<close> is the hash of the calling thread; its low sixteen bits replace a thread id of zero.\<close>

definition with_thread_id :: "nat \<Rightarrow> trace_event \<Rightarrow> trace_event" where
  "with_thread_id hash ev =
     (if te_thread_id ev = 0 then ev\<lparr>te_thread_id := to_i32 (int (take_bit 16 hash))\<rparr> else ev)"

definition add_event :: "nat \<Rightarrow> trace_event \<Rightarrow> trace_writer \<Rightarrow> trace_writer" where
  "add_event hash ev w =
     (let w1 = w\<lparr>tw_events := tw_events w @ [with_thread_id hash ev]\<rparr>
      in if length (tw_events w1) \<ge> 1000 then write_buffer w1 else w1)"

definition counter_event :: "time_point \<Rightarrow> string \<Rightarrow> string \<Rightarrow> real \<Rightarrow> trace_event" where
  "counter_event now name series v =
     trace_event_new\<lparr>te_name := name, te_category := ''counter'', te_phase := COUNTER,
       te_timestamp := now, te_args := [(series, to_string_double v)]\<rparr>"

definition add_counter ::
    "nat \<Rightarrow> time_point \<Rightarrow> string \<Rightarrow> string \<Rightarrow> real \<Rightarrow> trace_writer \<Rightarrow> trace_writer" where
  "add_counter hash now name series v w = add_event hash (counter_event now name series v) w"

text \<open>Flushing the stream itself does not change what has been written.\<close>

definition flush :: "trace_writer \<Rightarrow> trace_writer" where
  "flush w = write_buffer w"

definition num_events :: "trace_writer \<Rightarrow> nat" where
  "num_events w = length (tw_events w)"

text \<open>The destructor: what the file holds when it has been closed.\<close>

definition trace_writer_delete :: "trace_writer \<Rightarrow> string option" where
  "trace_writer_delete w = map_option (\<lambda>out. out @ nl @ '']'' @ nl) (tw_file (flush w))"

section \<open>Scoped spans\<close>

record trace_span =
  ts_writer :: bool
  ts_event :: trace_event

text \<open>\<open>ts_writer\<close> tells whether the span has a writer (the pointer is not null).\<close>

definition trace_span_new :: "time_point \<Rightarrow> bool \<Rightarrow> string \<Rightarrow> string \<Rightarrow> trace_span" where
  "trace_span_new now has_writer name category =
     \<lparr>ts_writer = has_writer,
      ts_event = trace_event_new\<lparr>te_name := name, te_category := category, te_phase := COMPLETE,
        te_timestamp := now\<rparr>\<rparr>"

definition add_arg :: "string \<Rightarrow> string \<Rightarrow> trace_span \<Rightarrow> trace_span" where
  "add_arg k v sp = sp\<lparr>ts_event := (ts_event sp)\<lparr>te_args := te_args (ts_event sp) @ [(k, v)]\<rparr>\<rparr>"

definition span_event :: "time_point \<Rightarrow> trace_span \<Rightarrow> trace_event" where
  "span_event now sp =
     (ts_event sp)\<lparr>te_duration := real_of_int (now - te_timestamp (ts_event sp)) / 1000000\<rparr>"

definition trace_span_delete :: "nat \<Rightarrow> time_point \<Rightarrow> trace_span \<Rightarrow> trace_writer \<Rightarrow> trace_writer" where
  "trace_span_delete hash now sp w = (if ts_writer sp then add_event hash (span_event now sp) w else w)"

section \<open>The sink interface\<close>

text \<open>
  What a client of the writer relies on: the sink holds a sequence of events, and putting an event
  appends it. The profiler's theory builds on this interface.
\<close>

locale event_sink =
  fixes put :: "'e \<Rightarrow> 'w \<Rightarrow> 'w"
    and sync :: "'w \<Rightarrow> 'w"
    and holds :: "'w \<Rightarrow> 'e list \<Rightarrow> bool"
  assumes holds_put: "holds w es \<Longrightarrow> holds (put e w) (es @ [e])"
    and holds_sync: "holds w es \<Longrightarrow> holds (sync w) es"
begin

lemma holds_put_all: "holds w es \<Longrightarrow> holds (fold put xs w) (es @ xs)"
proof (induction xs arbitrary: w es)
  case (Cons x xs)
  show ?case using Cons.IH [OF holds_put [OF Cons.prems, of x]] by simp
qed simp

end

text \<open>The text of a sequence of events, separated by a comma and a line break.\<close>

fun join_events :: "time_point \<Rightarrow> trace_event list \<Rightarrow> string" where
  "join_events start [] = ''''"
| "join_events start [ev] = event_str start ev"
| "join_events start (ev # evs) = event_str start ev @ '','' @ nl @ join_events start evs"

lemma join_events_snoc:
  "join_events start (evs @ [ev]) =
     (if evs = [] then event_str start ev else join_events start evs @ '','' @ nl @ event_str start ev)"
  by (induction start evs rule: join_events.induct) auto

text \<open>
  The writer that started at \<open>start\<close> holds the events \<open>evs\<close>: those already in the file followed by
  those in the buffer, which is never full.
\<close>

definition file_holds :: "time_point \<Rightarrow> trace_writer \<Rightarrow> trace_event list \<Rightarrow> bool" where
  "file_holds start w evs \<longleftrightarrow> tw_start_time w = start \<and>
     tw_file w = Some (''['' @ nl @ join_events start evs) \<and> tw_first_event w = (evs = [])"

definition writer_holds :: "time_point \<Rightarrow> trace_writer \<Rightarrow> trace_event list \<Rightarrow> bool" where
  "writer_holds start w evs \<longleftrightarrow>
     (\<exists>written. evs = written @ tw_events w \<and> file_holds start w written \<and> length (tw_events w) < 1000)"

lemma write_event_events [simp]: "tw_events (write_event ev w) = tw_events w"
  by (simp add: write_event_def Let_def split: option.split)

lemma file_holds_events [simp]: "file_holds start (w\<lparr>tw_events := es\<rparr>) evs = file_holds start w evs"
  by (simp add: file_holds_def)

lemma file_holds_write: "file_holds start w evs \<Longrightarrow> file_holds start (write_event ev w) (evs @ [ev])"
  by (auto simp: file_holds_def write_event_def Let_def join_events_snoc)

lemma file_holds_write_all:
  "file_holds start w evs \<Longrightarrow> file_holds start (fold write_event xs w) (evs @ xs)"
proof (induction xs arbitrary: w evs)
  case (Cons x xs)
  show ?case using Cons.IH [OF file_holds_write [OF Cons.prems, of x]] by simp
qed simp

lemma writer_holds_write_buffer:
  assumes "file_holds start w written"
  shows "writer_holds start (write_buffer w) (written @ tw_events w)"
  unfolding writer_holds_def
  using file_holds_write_all [OF assms, of "tw_events w"] by (simp add: write_buffer_def)

lemma writer_holds_add:
  assumes "writer_holds start w evs"
  shows "writer_holds start (add_event hash ev w) (evs @ [with_thread_id hash ev])"
proof -
  obtain written where w: "evs = written @ tw_events w" "file_holds start w written"
    using assms by (auto simp: writer_holds_def)
  let ?w1 = "w\<lparr>tw_events := tw_events w @ [with_thread_id hash ev]\<rparr>"
  show ?thesis
  proof (cases "length (tw_events ?w1) \<ge> 1000")
    case True
    have "writer_holds start (write_buffer ?w1) (written @ tw_events ?w1)"
      by (rule writer_holds_write_buffer) (simp add: w)
    then show ?thesis using True w by (simp add: add_event_def Let_def)
  next
    case False
    then show ?thesis using w by (auto simp: add_event_def Let_def writer_holds_def)
  qed
qed

lemma writer_holds_flush: "writer_holds start w evs \<Longrightarrow> writer_holds start (flush w) evs"
  using writer_holds_write_buffer by (auto simp: flush_def writer_holds_def [of _ w])

text \<open>The writer is such a sink; an event is put together with the hash of the calling thread.\<close>

interpretation tws: event_sink "\<lambda>(hash, ev). add_event hash ev" flush
    "\<lambda>w hes. writer_holds start w (map (\<lambda>(hash, ev). with_thread_id hash ev) hes)" for start
  by unfold_locales (auto intro: writer_holds_add writer_holds_flush)

section \<open>Runs of the writer\<close>

datatype trace_cmd =
    Add nat trace_event
  | Counter nat time_point string string real
  | Span_End nat time_point trace_span
  | Flush

fun trace_exec :: "trace_cmd \<Rightarrow> trace_writer \<Rightarrow> trace_writer" where
  "trace_exec (Add hash ev) w = add_event hash ev w"
| "trace_exec (Counter hash now name series v) w = add_counter hash now name series v w"
| "trace_exec (Span_End hash now sp) w = trace_span_delete hash now sp w"
| "trace_exec Flush w = flush w"

text \<open>The events a command contributes.\<close>

fun cmd_events :: "trace_cmd \<Rightarrow> trace_event list" where
  "cmd_events (Add hash ev) = [with_thread_id hash ev]"
| "cmd_events (Counter hash now name series v) = [with_thread_id hash (counter_event now name series v)]"
| "cmd_events (Span_End hash now sp) = (if ts_writer sp then [with_thread_id hash (span_event now sp)] else [])"
| "cmd_events Flush = []"

lemma writer_holds_exec:
  "writer_holds start w evs \<Longrightarrow> writer_holds start (trace_exec c w) (evs @ cmd_events c)"
  by (cases c) (simp_all add: add_counter_def trace_span_delete_def writer_holds_add writer_holds_flush)

lemma writer_holds_run:
  "writer_holds start w evs \<Longrightarrow> writer_holds start (fold trace_exec cs w) (evs @ concat (map cmd_events cs))"
proof (induction cs arbitrary: w evs)
  case (Cons c cs)
  show ?case using Cons.IH [OF writer_holds_exec [OF Cons.prems, of c]] by simp
qed simp

lemma writer_holds_new: "writer_holds now (trace_writer_new True now path) []"
  by (simp add: writer_holds_def file_holds_def trace_writer_new_def)

lemma writer_holds_delete:
  assumes "writer_holds start w evs"
  shows "trace_writer_delete w = Some (''['' @ nl @ join_events start evs @ nl @ '']'' @ nl)"
proof -
  have "tw_events (flush w) = []" by (simp add: flush_def write_buffer_def)
  then show ?thesis using writer_holds_flush [OF assms]
    by (simp add: writer_holds_def file_holds_def trace_writer_delete_def)
qed

lemma closed_write: "tw_file w = None \<Longrightarrow> write_event ev w = w"
  by (simp add: write_event_def)

lemma closed_write_all: "tw_file w = None \<Longrightarrow> fold write_event evs w = w"
  by (induction evs) (simp_all add: closed_write)

lemma closed_delete: "tw_file w = None \<Longrightarrow> trace_writer_delete w = None"
  by (simp add: trace_writer_delete_def flush_def write_buffer_def closed_write_all)

lemma closed_exec: "tw_file w = None \<Longrightarrow> tw_file (trace_exec c w) = None"
  by (cases c)
     (simp_all add: add_counter_def trace_span_delete_def add_event_def flush_def write_buffer_def
       closed_write_all closed_write Let_def)

lemma closed_run: "tw_file w = None \<Longrightarrow> tw_file (fold trace_exec cs w) = None"
  by (induction cs arbitrary: w) (simp_all add: closed_exec)

text \<open>
  C29. The trace file is complete: whatever is traced, with or without intermediate flushes, once
  the writer is destroyed the file is a bracketed list of all events, each once and in the order
  they were added, separated by a comma; fewer than a thousand events are ever buffered. If the
  file cannot be opened nothing is written and nothing fails.
\<close>

theorem trace_file_complete:
  "trace_writer_delete (fold trace_exec cs (trace_writer_new opens now path)) =
     (if opens then Some (''['' @ nl @ join_events now (concat (map cmd_events cs)) @ nl @ '']'' @ nl) else None) \<and>
   (opens \<longrightarrow> num_events (fold trace_exec cs (trace_writer_new opens now path)) < 1000)"
proof (cases opens)
  case True
  have h: "writer_holds now (fold trace_exec cs (trace_writer_new True now path)) (concat (map cmd_events cs))"
    using writer_holds_run [OF writer_holds_new] by simp
  then show ?thesis using True writer_holds_delete [OF h] by (auto simp: writer_holds_def num_events_def)
next
  case False
  have "tw_file (fold trace_exec cs (trace_writer_new False now path)) = None"
    by (rule closed_run) (simp add: trace_writer_new_def)
  then show ?thesis using False by (simp add: closed_delete)
qed

theorem trace_file_complete_witness:
  "trace_writer_delete (fold trace_exec
       [Counter 7 2500 ''n'' ''k'' (1 / 2), Flush, Counter 7 3000 ''m'' ''k'' 2] (trace_writer_new True 1000 ''t'')) =
     Some (''['' @ nl @
       event_str 1000 ((counter_event 2500 ''n'' ''k'' (1 / 2))\<lparr>te_thread_id := 7\<rparr>) @ '','' @ nl @
       event_str 1000 ((counter_event 3000 ''m'' ''k'' 2)\<lparr>te_thread_id := 7\<rparr>) @ nl @ '']'' @ nl)"
  using trace_file_complete [of "[Counter 7 2500 ''n'' ''k'' (1 / 2), Flush, Counter 7 3000 ''m'' ''k'' 2]"
    True 1000 "''t''"]
  by (simp add: with_thread_id_def counter_event_def trace_event_new_def take_bit_eq_mod)

end
