(* ===== verification/Prefix_Cache.thy ===== *)
theory Prefix_Cache
  imports Block_Manager "HOL-Library.AList" "HOL-Library.Product_Lexorder"
begin

text \<open>
  The prefix cache, \<open>src/src/cacheflow/kv_cache/prefix_cache.{h,cpp}\<close>: a trie over tokens whose nodes at
  multiples of the block size carry a KV-cache block. The children of a node are an association
  list; the order of its entries stands for the unspecified iteration order of
  \<open>std::unordered_map\<close>, which only eviction observes, before it sorts. The block manager that the
  cache points to is an argument and a result of the operations that call it. A block size of
  zero divides by zero and is undefined (\<open>None\<close>).
\<close>

section \<open>The trie\<close>

datatype trie_node =
  Trie_Node
    (tn_block_id: block_id)
    (tn_tokens_in_block: nat)
    (tn_last_access: nat)
    (tn_ref_count: int)
    (tn_children: "(token_id \<times> trie_node) list")

definition new_trie_node :: trie_node where
  "new_trie_node = Trie_Node INVALID_BLOCK 0 0 0 []"

definition child :: "token_id \<Rightarrow> trie_node \<Rightarrow> trie_node option" where
  "child x t = map_of (tn_children t) x"

definition set_child :: "token_id \<Rightarrow> trie_node \<Rightarrow> trie_node \<Rightarrow> trie_node" where
  "set_child x c t =
     Trie_Node (tn_block_id t) (tn_tokens_in_block t) (tn_last_access t) (tn_ref_count t)
       (AList.update x c (tn_children t))"

definition touch :: "nat \<Rightarrow> trie_node \<Rightarrow> trie_node" where
  "touch now t = Trie_Node (tn_block_id t) (tn_tokens_in_block t) now (tn_ref_count t) (tn_children t)"

definition fill_node :: "block_id \<Rightarrow> nat \<Rightarrow> trie_node \<Rightarrow> trie_node" where
  "fill_node b n t = Trie_Node b n (tn_last_access t) 1 (tn_children t)"

definition set_ref :: "int \<Rightarrow> trie_node \<Rightarrow> trie_node" where
  "set_ref r t = Trie_Node (tn_block_id t) (tn_tokens_in_block t) (tn_last_access t) r (tn_children t)"

section \<open>State\<close>

record prefix_stats =
  ps_lookups :: nat
  ps_hits :: nat
  ps_misses :: nat
  ps_insertions :: nat
  ps_evictions :: nat
  ps_cached_blocks :: nat

definition zero_prefix_stats :: prefix_stats where
  "zero_prefix_stats =
     \<lparr>ps_lookups = 0, ps_hits = 0, ps_misses = 0, ps_insertions = 0, ps_evictions = 0,
      ps_cached_blocks = 0\<rparr>"

record prefix_cache =
  pc_config :: cache_config
  pc_root :: trie_node
  pc_stats :: prefix_stats
  pc_access_clock :: nat

record lookup_result =
  lr_cached_blocks :: "block_id list"
  lr_matched_tokens :: nat

definition prefix_cache_new :: "cache_config \<Rightarrow> prefix_cache" where
  "prefix_cache_new c =
     \<lparr>pc_config = c, pc_root = new_trie_node, pc_stats = zero_prefix_stats, pc_access_clock = 0\<rparr>"

section \<open>Lookup\<close>

text \<open>The loop: remaining tokens, index, result so far, clock; the nodes on the path are rewritten.\<close>

fun lookup_walk ::
    "nat \<Rightarrow> token_id list \<Rightarrow> nat \<Rightarrow> lookup_result \<Rightarrow> nat \<Rightarrow> trie_node \<Rightarrow>
     (lookup_result \<times> nat \<times> trie_node) option" where
  "lookup_walk bs [] i r clk t = Some (r, clk, t)"
| "lookup_walk bs (x # xs) i r clk t =
     (case child x t of
        None \<Rightarrow> Some (r, clk, t)
      | Some c \<Rightarrow>
          if bs = 0 then None
          else if (i + 1) mod bs = 0 \<and> tn_block_id c \<noteq> INVALID_BLOCK then do {
            (r1, clk1, c1) \<leftarrow> lookup_walk bs xs (i + 1)
              \<lparr>lr_cached_blocks = lr_cached_blocks r @ [tn_block_id c], lr_matched_tokens = i + 1\<rparr>
              (clk + 1) (touch (clk + 1) c);
            Some (r1, clk1, set_child x c1 t)
          }
          else do {
            (r1, clk1, c1) \<leftarrow> lookup_walk bs xs (i + 1) r clk c;
            Some (r1, clk1, set_child x c1 t)
          })"

definition pc_lookup :: "token_id list \<Rightarrow> prefix_cache \<Rightarrow> (lookup_result \<times> prefix_cache) option" where
  "pc_lookup prefix pc =
     do {
       (r, clk, t) \<leftarrow> lookup_walk (block_size (pc_config pc)) prefix 0
         \<lparr>lr_cached_blocks = [], lr_matched_tokens = 0\<rparr> (pc_access_clock pc) (pc_root pc);
       let st = (pc_stats pc)\<lparr>ps_lookups := ps_lookups (pc_stats pc) + 1\<rparr>;
       let st1 = (if lr_cached_blocks r \<noteq> [] then st\<lparr>ps_hits := ps_hits st + 1\<rparr>
                  else st\<lparr>ps_misses := ps_misses st + 1\<rparr>);
       Some (r, pc\<lparr>pc_root := t, pc_access_clock := clk, pc_stats := st1\<rparr>)
     }"

section \<open>Insertion\<close>

text \<open>The loop: remaining tokens and blocks, index; clock, statistics and block manager are threaded.\<close>

fun insert_walk ::
    "nat \<Rightarrow> token_id list \<Rightarrow> block_id list \<Rightarrow> nat \<Rightarrow> nat \<times> prefix_stats \<times> block_manager \<Rightarrow> trie_node \<Rightarrow>
     ((nat \<times> prefix_stats \<times> block_manager) \<times> trie_node) option" where
  "insert_walk bs [] blocks i st t = Some (st, t)"
| "insert_walk bs (x # xs) [] i st t = Some (st, t)"
| "insert_walk bs (x # xs) (b # blocks) i st t =
     (let c = (case child x t of None \<Rightarrow> new_trie_node | Some c \<Rightarrow> c) in
      if bs = 0 then None
      else if (i + 1) mod bs = 0 then do {
        let (clk, stats, bm) = st;
        (c1, stats1, bm1) \<leftarrow>
          (if tn_block_id c = INVALID_BLOCK then do {
             bm1 \<leftarrow> increment_ref b CUDA bm;
             Some (fill_node b bs c,
                   stats\<lparr>ps_insertions := ps_insertions stats + 1,
                         ps_cached_blocks := ps_cached_blocks stats + 1\<rparr>, bm1)
           }
           else Some (c, stats, bm));
        (st2, c2) \<leftarrow> insert_walk bs xs blocks (i + 1) (clk + 1, stats1, bm1) (touch (clk + 1) c1);
        Some (st2, set_child x c2 t)
      }
      else do {
        (st2, c2) \<leftarrow> insert_walk bs xs (b # blocks) (i + 1) st c;
        Some (st2, set_child x c2 t)
      })"

definition pc_insert ::
    "token_id list \<Rightarrow> block_id list \<Rightarrow> prefix_cache \<times> block_manager \<Rightarrow> (prefix_cache \<times> block_manager) option" where
  "pc_insert tokens blocks st =
     (let (pc, bm) = st in
      do {
        ((clk, stats, bm1), t) \<leftarrow> insert_walk (block_size (pc_config pc)) tokens blocks 0
          (pc_access_clock pc, pc_stats pc, bm) (pc_root pc);
        Some (pc\<lparr>pc_root := t, pc_access_clock := clk, pc_stats := stats\<rparr>, bm1)
      })"

section \<open>Release\<close>

fun release_walk :: "nat \<Rightarrow> token_id list \<Rightarrow> nat \<Rightarrow> trie_node \<Rightarrow> trie_node option" where
  "release_walk bs [] i t = Some t"
| "release_walk bs (x # xs) i t =
     (case child x t of
        None \<Rightarrow> Some t
      | Some c \<Rightarrow>
          if bs = 0 then None
          else do {
            c1 \<leftarrow> (if (i + 1) mod bs = 0 \<and> tn_block_id c \<noteq> INVALID_BLOCK
                   then do { n \<leftarrow> dec_i32 (tn_ref_count c); Some (set_ref n c) }
                   else Some c);
            c2 \<leftarrow> release_walk bs xs (i + 1) c1;
            Some (set_child x c2 t)
          })"

definition pc_release :: "token_id list \<Rightarrow> prefix_cache \<Rightarrow> prefix_cache option" where
  "pc_release prefix pc =
     do {
       t \<leftarrow> release_walk (block_size (pc_config pc)) prefix 0 (pc_root pc);
       Some (pc\<lparr>pc_root := t\<rparr>)
     }"

section \<open>Eviction\<close>

fun collect_eviction_candidates :: "trie_node \<Rightarrow> (nat \<times> block_id) list"
  and collect_from_children :: "(token_id \<times> trie_node) list \<Rightarrow> (nat \<times> block_id) list" where
  "collect_eviction_candidates (Trie_Node b n la rc ch) =
     (if b \<noteq> INVALID_BLOCK \<and> rc \<le> 0 then [(la, b)] else []) @ collect_from_children ch"
| "collect_from_children [] = []"
| "collect_from_children ((_, c) # cs) = collect_eviction_candidates c @ collect_from_children cs"

text \<open>The loop over the sorted candidates: number of blocks still to be freed.\<close>

fun evict_from ::
    "(nat \<times> block_id) list \<Rightarrow> nat \<Rightarrow> nat \<Rightarrow> prefix_stats \<times> block_manager \<Rightarrow> (prefix_stats \<times> block_manager) option" where
  "evict_from [] n freed st = Some st"
| "evict_from ((ts, bid) # cs) n freed st =
     (if freed \<ge> n then Some st
      else do {
        let (stats, bm) = st;
        bm1 \<leftarrow> decrement_ref bid CUDA bm;
        evict_from cs n (freed + 1)
          (stats\<lparr>ps_evictions := ps_evictions stats + 1,
                 ps_cached_blocks := size_sub (ps_cached_blocks stats) 1\<rparr>, bm1)
      })"

definition evict_lru :: "nat \<Rightarrow> prefix_cache \<times> block_manager \<Rightarrow> (prefix_cache \<times> block_manager) option" where
  "evict_lru num_blocks_to_free st =
     (let (pc, bm) = st;
          candidates = sort (collect_eviction_candidates (pc_root pc))
      in do {
        (stats, bm1) \<leftarrow> evict_from candidates num_blocks_to_free 0 (pc_stats pc, bm);
        Some (pc\<lparr>pc_stats := stats\<rparr>, bm1)
      })"

section \<open>Statistics and the unused walk\<close>

definition num_cached_blocks :: "prefix_cache \<Rightarrow> nat" where
  "num_cached_blocks pc = ps_cached_blocks (pc_stats pc)"

definition num_cached_prefixes :: "prefix_cache \<Rightarrow> nat" where
  "num_cached_prefixes pc = ps_insertions (pc_stats pc)"

definition hit_rate :: "prefix_cache \<Rightarrow> real" where
  "hit_rate pc =
     (if ps_lookups (pc_stats pc) = 0 then 0
      else real (ps_hits (pc_stats pc)) / real (ps_lookups (pc_stats pc)))"

definition pc_reset_stats :: "prefix_cache \<Rightarrow> prefix_cache" where
  "pc_reset_stats pc = pc\<lparr>pc_stats := zero_prefix_stats\<rparr>"

text \<open>The node that is reached (null when the path ends and nodes are not created) and the new trie.\<close>

fun walk_nodes :: "token_id list \<Rightarrow> bool \<Rightarrow> trie_node \<Rightarrow> trie_node option \<times> trie_node" where
  "walk_nodes [] create t = (Some t, t)"
| "walk_nodes (x # xs) create t =
     (case child x t of
        Some c \<Rightarrow> let (r, c1) = walk_nodes xs create c in (r, set_child x c1 t)
      | None \<Rightarrow>
          if \<not> create then (None, t)
          else let (r, c1) = walk_nodes xs create new_trie_node in (r, set_child x c1 t))"

definition walk_trie :: "token_id list \<Rightarrow> nat \<Rightarrow> bool \<Rightarrow> prefix_cache \<Rightarrow> trie_node option \<times> prefix_cache" where
  "walk_trie tokens block_boundary create pc =
     (let (r, t) = walk_nodes (take block_boundary tokens) create (pc_root pc)
      in (r, pc\<lparr>pc_root := t\<rparr>))"

lemmas prefix_eval [cf_defs] = pc_lookup_def pc_insert_def pc_release_def evict_lru_def prefix_cache_new_def
  new_trie_node_def child_def set_child_def touch_def fill_node_def set_ref_def zero_prefix_stats_def
  increment_ref_def decrement_ref_def

section \<open>The cache as a map from prefixes to blocks\<close>

fun node_at :: "trie_node \<Rightarrow> token_id list \<Rightarrow> trie_node option" where
  "node_at t [] = Some t"
| "node_at t (x # xs) = (case child x t of None \<Rightarrow> None | Some c \<Rightarrow> node_at c xs)"

definition cached :: "trie_node \<Rightarrow> token_id list \<Rightarrow> block_id option" where
  "cached t path =
     (case node_at t path of
        None \<Rightarrow> None
      | Some n \<Rightarrow> if tn_block_id n = INVALID_BLOCK then None else Some (tn_block_id n))"

text \<open>
  Every node below the root at a depth that is a multiple of the block size carries a block; \<open>i\<close> is
  the depth of the given node.
\<close>

definition boundaries_filled :: "nat \<Rightarrow> nat \<Rightarrow> trie_node \<Rightarrow> bool" where
  "boundaries_filled bs i t \<longleftrightarrow>
     (\<forall>path n. path \<noteq> [] \<longrightarrow> node_at t path = Some n \<longrightarrow> (i + length path) mod bs = 0 \<longrightarrow>
        tn_block_id n \<noteq> INVALID_BLOCK)"

lemma child_set_child [simp]: "child y (set_child x c t) = (if y = x then Some c else child y t)"
  by (simp add: child_def set_child_def update_conv')

lemma set_child_sel [simp]:
  "tn_block_id (set_child x c t) = tn_block_id t" "tn_ref_count (set_child x c t) = tn_ref_count t"
  "tn_last_access (set_child x c t) = tn_last_access t"
  by (simp_all add: set_child_def)

lemma touch_sel [simp]:
  "tn_block_id (touch n t) = tn_block_id t" "tn_children (touch n t) = tn_children t" "child x (touch n t) = child x t"
  "tn_ref_count (touch n t) = tn_ref_count t"
  by (simp_all add: touch_def child_def)

lemma fill_sel [simp]:
  "tn_block_id (fill_node b n t) = b" "tn_children (fill_node b n t) = tn_children t"
  "child x (fill_node b n t) = child x t"
  by (simp_all add: fill_node_def child_def)

lemma set_ref_sel [simp]:
  "tn_block_id (set_ref r t) = tn_block_id t" "tn_children (set_ref r t) = tn_children t"
  "child x (set_ref r t) = child x t"
  by (simp_all add: set_ref_def child_def)

lemma new_node_sel [simp]:
  "tn_block_id new_trie_node = INVALID_BLOCK" "tn_children new_trie_node = []" "child x new_trie_node = None"
  by (simp_all add: new_trie_node_def child_def)

lemma cached_Nil [simp]:
  "cached t [] = (if tn_block_id t = INVALID_BLOCK then None else Some (tn_block_id t))"
  by (simp add: cached_def)

lemma cached_Cons [simp]:
  "cached t (x # xs) = (case child x t of None \<Rightarrow> None | Some c \<Rightarrow> cached c xs)"
  by (simp add: cached_def split: option.split)

lemma cached_new [simp]: "cached new_trie_node xs = None"
  by (cases xs) simp_all

lemma cached_update:
  assumes "\<And>ys. cached c1 ys = (case child x t of None \<Rightarrow> None | Some c \<Rightarrow> cached c ys)"
  shows "cached (set_child x c1 t) path = cached t path"
  using assms by (cases path) (auto split: option.split)

text \<open>Lookups and releases do not change what is cached.\<close>

lemma cached_touch [simp]: "cached (touch n t) ys = cached t ys"
  by (cases ys) simp_all

lemma cached_set_ref [simp]: "cached (set_ref n t) ys = cached t ys"
  by (cases ys) simp_all

text \<open>One iteration on an existing child, with its two cases merged.\<close>

definition block_hit :: "nat \<Rightarrow> nat \<Rightarrow> trie_node \<Rightarrow> bool" where
  "block_hit bs i c \<longleftrightarrow> (i + 1) mod bs = 0 \<and> tn_block_id c \<noteq> INVALID_BLOCK"

lemma lookup_walk_child:
  assumes "child x t = Some c" and "0 < bs"
  shows "lookup_walk bs (x # xs) i r clk t =
    map_option (\<lambda>(r1, clk1, c1). (r1, clk1, set_child x c1 t))
      (lookup_walk bs xs (i + 1)
        (if block_hit bs i c
         then \<lparr>lr_cached_blocks = lr_cached_blocks r @ [tn_block_id c], lr_matched_tokens = i + 1\<rparr> else r)
        (if block_hit bs i c then clk + 1 else clk)
        (if block_hit bs i c then touch (clk + 1) c else c))"
  using assms by (simp add: block_hit_def map_conv_bind_option split_def comp_def)

lemma lookup_walk_cached:
  "lookup_walk bs xs i r clk t = Some (r', clk', t') \<Longrightarrow> cached t' path = cached t path"
proof (induction xs arbitrary: i r clk t r' clk' t' path)
  case (Cons x xs)
  show ?case
  proof (cases "child x t")
    case None
    then show ?thesis using Cons.prems by simp
  next
    case (Some c)
    have bs: "0 < bs" using Cons.prems Some by (cases bs) auto
    let ?c = "if block_hit bs i c then touch (clk + 1) c else c"
    obtain r2 k2 c1 where w: "lookup_walk bs xs (i + 1) r2 k2 ?c = Some (r', clk', c1)" "t' = set_child x c1 t"
      using Cons.prems unfolding lookup_walk_child [OF Some bs] by auto
    have "cached c1 ys = cached c ys" for ys
      using Cons.IH [OF w(1)] by simp
    then show ?thesis using w(2) Some by (intro trans [OF _ cached_update [of c1 x t path]]) simp_all
  qed
qed simp

lemma release_walk_cached:
  "release_walk bs xs i t = Some t' \<Longrightarrow> cached t' path = cached t path"
proof (induction xs arbitrary: i t t' path)
  case (Cons x xs)
  show ?case
  proof (cases "child x t")
    case None
    then show ?thesis using Cons.prems by simp
  next
    case (Some c)
    then obtain c1 c2 where w: "release_walk bs xs (i + 1) c1 = Some c2" "t' = set_child x c2 t"
        "c1 = c \<or> (\<exists>n. c1 = set_ref n c)"
      using Cons.prems by (auto simp: bind_eq_Some_conv split: if_splits)
    have "cached c2 ys = cached c ys" for ys
      using Cons.IH [OF w(1)] w(3) by auto
    then show ?thesis using w(2) Some by (intro trans [OF _ cached_update [of c2 x t path]]) simp_all
  qed
qed simp

end
