(* ===== verification/Profiler.thy ===== *)
theory Profiler
  imports Metrics Trace Prefix_Cache Scheduler
begin

text \<open>
  The profiler, \<open>src/src/cacheflow/profiler/profiler.{h,cpp}\<close>: it feeds the metrics and the trace
  from the engine's steps and from the life of the requests, and takes snapshots. The block
  manager, the prefix cache and the scheduler that it points to are optional arguments (\<open>None\<close> is the
  null pointer), as are the readings of the clock and the hash of the calling thread. An operation
  is undefined when the histogram it updates is (\<open>None\<close>).
\<close>

record profiler_config =
  enable_tracing :: bool
  enable_metrics :: bool
  trace_path :: string
  histogram_min :: real
  histogram_max :: real
  histogram_bins :: nat

definition default_profiler_config :: profiler_config where
  "default_profiler_config =
     \<lparr>enable_tracing = True, enable_metrics = True, trace_path = ''cacheflow_trace.json'',
      histogram_min = 0, histogram_max = 500, histogram_bins = 500\<rparr>"

record request_record =
  rr_start :: time_point
  rr_first_token :: time_point
  rr_got_first_token :: bool

record profiler =
  pf_config :: profiler_config
  step_latency :: running_stats
  ttft_stats :: running_stats
  tpot_stats :: running_stats
  latency_hist :: histogram
  throughput :: throughput_meter
  active_requests :: "seq_id \<rightharpoonup> request_record"
  pf_trace_writer :: "trace_writer option"
  step_start :: time_point
  total_requests :: nat

definition profiler_new :: "bool \<Rightarrow> time_point \<Rightarrow> profiler_config \<Rightarrow> profiler" where
  "profiler_new opens now c =
     \<lparr>pf_config = c, step_latency = running_stats_new, ttft_stats = running_stats_new,
      tpot_stats = running_stats_new,
      latency_hist = histogram_new (histogram_min c) (histogram_max c) (histogram_bins c),
      throughput = throughput_meter_new, active_requests = Map.empty,
      pf_trace_writer = (if enable_tracing c then Some (trace_writer_new opens now (trace_path c)) else None),
      step_start = 0, total_requests = 0\<rparr>"

text \<open>Passing an event to the trace writer, if there is one.\<close>

definition trace_event_to :: "nat \<Rightarrow> trace_event \<Rightarrow> profiler \<Rightarrow> profiler" where
  "trace_event_to hash ev p = p\<lparr>pf_trace_writer := map_option (add_event hash ev) (pf_trace_writer p)\<rparr>"

definition trace_counter_to ::
    "nat \<Rightarrow> time_point \<Rightarrow> string \<Rightarrow> string \<Rightarrow> real \<Rightarrow> profiler \<Rightarrow> profiler" where
  "trace_counter_to hash now name series v p =
     p\<lparr>pf_trace_writer := map_option (add_counter hash now name series v) (pf_trace_writer p)\<rparr>"

text \<open>A duration in milliseconds between two time points.\<close>

definition ms_between :: "time_point \<Rightarrow> time_point \<Rightarrow> real" where
  "ms_between t0 t1 = real_of_int (t1 - t0) / 1000000"

section \<open>Steps\<close>

definition begin_step_event :: "time_point \<Rightarrow> nat \<Rightarrow> trace_event" where
  "begin_step_event now num_tokens =
     trace_event_new\<lparr>te_name := ''decode_step'', te_category := ''engine'', te_phase := BEGIN,
       te_timestamp := now, te_args := [(''num_tokens'', nat_str num_tokens)]\<rparr>"

definition begin_step :: "nat \<Rightarrow> time_point \<Rightarrow> nat \<Rightarrow> profiler \<Rightarrow> profiler" where
  "begin_step hash now num_tokens p =
     trace_event_to hash (begin_step_event now num_tokens)
       (p\<lparr>step_start := now, throughput := record_tokens num_tokens (throughput p)\<rparr>)"

definition end_step_event :: "time_point \<Rightarrow> trace_event" where
  "end_step_event now =
     trace_event_new\<lparr>te_name := ''decode_step'', te_category := ''engine'', te_phase := END,
       te_timestamp := now\<rparr>"

text \<open>The clock is read twice, for the event and for the counter.\<close>

definition end_step ::
    "nat \<Rightarrow> time_point \<Rightarrow> time_point \<Rightarrow> block_manager option \<Rightarrow> real \<Rightarrow> profiler \<Rightarrow> profiler option" where
  "end_step hash now1 now2 bm step_time_ms p =
     do {
       h \<leftarrow> hg_record step_time_ms (latency_hist p);
       let p1 = p\<lparr>step_latency := rs_update step_time_ms (step_latency p), latency_hist := h,
                  throughput := record_interval step_time_ms (throughput p)\<rparr>;
       let p2 = trace_event_to hash (end_step_event now1) p1;
       Some (case bm of
               None \<Rightarrow> p2
             | Some b \<Rightarrow> trace_counter_to hash now2 ''gpu_cache_usage'' ''utilization'' (gpu_cache_usage b) p2)
     }"

definition mark :: "nat \<Rightarrow> time_point \<Rightarrow> string \<Rightarrow> profiler \<Rightarrow> profiler" where
  "mark hash now label p =
     trace_event_to hash (trace_event_new\<lparr>te_name := label, te_category := ''mark'', te_phase := INSTANT,
       te_timestamp := now\<rparr>) p"

section \<open>Requests\<close>

definition record_request_start :: "time_point \<Rightarrow> seq_id \<Rightarrow> profiler \<Rightarrow> profiler" where
  "record_request_start now i p =
     p\<lparr>active_requests := (active_requests p)(i \<mapsto>
       \<lparr>rr_start = now, rr_first_token = 0, rr_got_first_token = False\<rparr>)\<rparr>"

definition record_first_token :: "time_point \<Rightarrow> seq_id \<Rightarrow> profiler \<Rightarrow> profiler" where
  "record_first_token now i p =
     (case active_requests p i of
        None \<Rightarrow> p
      | Some r \<Rightarrow>
          p\<lparr>active_requests := (active_requests p)(i \<mapsto> r\<lparr>rr_first_token := now, rr_got_first_token := True\<rparr>),
            ttft_stats := rs_update (ms_between (rr_start r) now) (ttft_stats p)\<rparr>)"

definition record_request_end ::
    "nat \<Rightarrow> time_point \<Rightarrow> time_point \<Rightarrow> seq_id \<Rightarrow> nat \<Rightarrow> profiler \<Rightarrow> profiler" where
  "record_request_end hash now1 now2 i num_output p =
     (case active_requests p i of
        None \<Rightarrow> p
      | Some r \<Rightarrow>
          let p1 = (if rr_got_first_token r \<and> num_output > 1
                    then p\<lparr>tpot_stats := rs_update (ms_between (rr_first_token r) now1 / real (num_output - 1))
                             (tpot_stats p)\<rparr>
                    else p);
              p2 = p1\<lparr>total_requests := total_requests p1 + 1,
                      active_requests := (active_requests p1)(i := None)\<rparr>
          in trace_counter_to hash now2 ''requests_completed'' ''count'' (real (total_requests p2)) p2)"

definition record_prefill :: "nat \<Rightarrow> time_point \<Rightarrow> seq_id \<Rightarrow> nat \<Rightarrow> real \<Rightarrow> profiler \<Rightarrow> profiler" where
  "record_prefill hash now i len time_ms p =
     trace_event_to hash (trace_event_new\<lparr>te_name := ''prefill'', te_category := ''decode'',
       te_phase := COMPLETE, te_timestamp := now, te_duration := time_ms,
       te_args := [(''seq_id'', nat_str (unat i)), (''prompt_len'', nat_str len)]\<rparr>) p"

definition record_decode :: "nat \<Rightarrow> time_point \<Rightarrow> seq_id \<Rightarrow> real \<Rightarrow> profiler \<Rightarrow> profiler" where
  "record_decode hash now i time_ms p =
     trace_event_to hash (trace_event_new\<lparr>te_name := ''decode'', te_category := ''decode'',
       te_phase := COMPLETE, te_timestamp := now, te_duration := time_ms,
       te_args := [(''seq_id'', nat_str (unat i))]\<rparr>) p"

section \<open>Snapshots\<close>

record metrics_snapshot =
  throughput_tok_per_sec :: real
  avg_latency_ms :: real
  p50_latency_ms :: real
  p90_latency_ms :: real
  p95_latency_ms :: real
  p99_latency_ms :: real
  latency_stddev_ms :: real
  avg_ttft_ms :: real
  avg_tpot_ms :: real
  snap_gpu_cache_usage :: real
  snap_cpu_cache_usage :: real
  prefix_cache_hit_rate :: real
  internal_fragmentation :: real
  external_fragmentation :: real
  num_running_seqs :: nat
  num_waiting_seqs :: nat
  num_swapped_seqs :: nat
  total_tokens_generated :: nat
  total_requests_served :: nat

definition snapshot ::
    "block_manager option \<Rightarrow> prefix_cache option \<Rightarrow> scheduler option \<Rightarrow> profiler \<Rightarrow> metrics_snapshot option" where
  "snapshot bm pc sched p =
     do {
       p50 \<leftarrow> hg_percentile 50 (latency_hist p);
       p90 \<leftarrow> hg_percentile 90 (latency_hist p);
       p95 \<leftarrow> hg_percentile 95 (latency_hist p);
       p99 \<leftarrow> hg_percentile 99 (latency_hist p);
       let frag = map_option (\<lambda>b. compute_fragmentation b CUDA) bm;
       Some \<lparr>throughput_tok_per_sec = tokens_per_sec (throughput p),
             avg_latency_ms = rs_mean (step_latency p),
             p50_latency_ms = p50, p90_latency_ms = p90, p95_latency_ms = p95, p99_latency_ms = p99,
             latency_stddev_ms = rs_stddev (step_latency p),
             avg_ttft_ms = rs_mean (ttft_stats p), avg_tpot_ms = rs_mean (tpot_stats p),
             snap_gpu_cache_usage = (case bm of None \<Rightarrow> 0 | Some b \<Rightarrow> gpu_cache_usage b),
             snap_cpu_cache_usage = (case bm of None \<Rightarrow> 0 | Some b \<Rightarrow> cpu_cache_usage b),
             prefix_cache_hit_rate = (case pc of None \<Rightarrow> 0 | Some c \<Rightarrow> hit_rate c),
             internal_fragmentation = (case frag of None \<Rightarrow> 0 | Some f \<Rightarrow> fs_internal_fragmentation f),
             external_fragmentation = (case frag of None \<Rightarrow> 0 | Some f \<Rightarrow> fs_external_fragmentation f),
             num_running_seqs = (case sched of None \<Rightarrow> 0 | Some s \<Rightarrow> num_running s),
             num_waiting_seqs = (case sched of None \<Rightarrow> 0 | Some s \<Rightarrow> num_waiting s),
             num_swapped_seqs = (case sched of None \<Rightarrow> 0 | Some s \<Rightarrow> num_swapped s),
             total_tokens_generated = tm_total_tokens (throughput p),
             total_requests_served = total_requests p\<rparr>
     }"

definition profiler_reset :: "profiler \<Rightarrow> profiler" where
  "profiler_reset p =
     p\<lparr>step_latency := rs_reset (step_latency p), ttft_stats := rs_reset (ttft_stats p),
       tpot_stats := rs_reset (tpot_stats p), latency_hist := hg_reset (latency_hist p),
       throughput := tm_reset (throughput p), active_requests := Map.empty, total_requests := 0\<rparr>"

section \<open>The log a profiler stands for\<close>

text \<open>
  The abstract profiler keeps every sample: the list of the step latencies, of the times to the
  first token and of the times per output token, the open requests and the traced events.
\<close>

record profile_log =
  pl_tokens :: nat
  pl_latencies :: "real list"
  pl_ttfts :: "real list"
  pl_tpots :: "real list"
  pl_active :: "seq_id \<rightharpoonup> time_point \<times> time_point option"
  pl_served :: nat
  pl_events :: "(nat \<times> trace_event) list"

definition empty_log :: profile_log where
  "empty_log = \<lparr>pl_tokens = 0, pl_latencies = [], pl_ttfts = [], pl_tpots = [], pl_active = Map.empty,
     pl_served = 0, pl_events = []\<rparr>"

datatype profiler_cmd =
    Begin_Step nat time_point nat
  | End_Step nat time_point time_point "block_manager option" real
  | Mark nat time_point string
  | Request_Start time_point seq_id
  | First_Token time_point seq_id
  | Request_End nat time_point time_point seq_id nat
  | Prefill nat time_point seq_id nat real
  | Decode nat time_point seq_id real
  | Reset

fun profiler_exec :: "profiler_cmd \<Rightarrow> profiler \<Rightarrow> profiler option" where
  "profiler_exec (Begin_Step hash now n) p = Some (begin_step hash now n p)"
| "profiler_exec (End_Step hash now1 now2 bm ms) p = end_step hash now1 now2 bm ms p"
| "profiler_exec (Mark hash now label) p = Some (mark hash now label p)"
| "profiler_exec (Request_Start now i) p = Some (record_request_start now i p)"
| "profiler_exec (First_Token now i) p = Some (record_first_token now i p)"
| "profiler_exec (Request_End hash now1 now2 i n) p = Some (record_request_end hash now1 now2 i n p)"
| "profiler_exec (Prefill hash now i len ms) p = Some (record_prefill hash now i len ms p)"
| "profiler_exec (Decode hash now i ms) p = Some (record_decode hash now i ms p)"
| "profiler_exec Reset p = Some (profiler_reset p)"

text \<open>The same commands on the log; a request that is not open is ignored.\<close>

definition log_event :: "nat \<Rightarrow> trace_event \<Rightarrow> profile_log \<Rightarrow> profile_log" where
  "log_event hash ev l = l\<lparr>pl_events := pl_events l @ [(hash, ev)]\<rparr>"

fun log_exec :: "profiler_cmd \<Rightarrow> profile_log \<Rightarrow> profile_log" where
  "log_exec (Begin_Step hash now n) l =
     log_event hash (begin_step_event now n) (l\<lparr>pl_tokens := pl_tokens l + n\<rparr>)"
| "log_exec (End_Step hash now1 now2 bm ms) l =
     (let l1 = log_event hash (end_step_event now1) (l\<lparr>pl_latencies := pl_latencies l @ [ms]\<rparr>)
      in case bm of
           None \<Rightarrow> l1
         | Some b \<Rightarrow> log_event hash (counter_event now2 ''gpu_cache_usage'' ''utilization'' (gpu_cache_usage b)) l1)"
| "log_exec (Mark hash now label) l =
     log_event hash (trace_event_new\<lparr>te_name := label, te_category := ''mark'', te_phase := INSTANT,
       te_timestamp := now\<rparr>) l"
| "log_exec (Request_Start now i) l = l\<lparr>pl_active := (pl_active l)(i \<mapsto> (now, None))\<rparr>"
| "log_exec (First_Token now i) l =
     (case pl_active l i of
        None \<Rightarrow> l
      | Some (t0, _) \<Rightarrow> l\<lparr>pl_active := (pl_active l)(i \<mapsto> (t0, Some now)),
                         pl_ttfts := pl_ttfts l @ [ms_between t0 now]\<rparr>)"
| "log_exec (Request_End hash now1 now2 i n) l =
     (case pl_active l i of
        None \<Rightarrow> l
      | Some (_, first) \<Rightarrow>
          log_event hash (counter_event now2 ''requests_completed'' ''count'' (real (pl_served l + 1)))
            (l\<lparr>pl_tpots := pl_tpots l @
                 (case first of Some t1 \<Rightarrow> if n > 1 then [ms_between t1 now1 / real (n - 1)] else [] | None \<Rightarrow> []),
               pl_served := pl_served l + 1, pl_active := (pl_active l)(i := None)\<rparr>))"
| "log_exec (Prefill hash now i len ms) l =
     log_event hash (trace_event_new\<lparr>te_name := ''prefill'', te_category := ''decode'', te_phase := COMPLETE,
       te_timestamp := now, te_duration := ms,
       te_args := [(''seq_id'', nat_str (unat i)), (''prompt_len'', nat_str len)]\<rparr>) l"
| "log_exec (Decode hash now i ms) l =
     log_event hash (trace_event_new\<lparr>te_name := ''decode'', te_category := ''decode'', te_phase := COMPLETE,
       te_timestamp := now, te_duration := ms, te_args := [(''seq_id'', nat_str (unat i))]\<rparr>) l"
| "log_exec Reset l = empty_log\<lparr>pl_events := pl_events l\<rparr>"

section \<open>Refinement\<close>

text \<open>The open requests and the trace writer, seen abstractly.\<close>

definition open_request :: "request_record \<Rightarrow> time_point \<times> time_point option" where
  "open_request r = (rr_start r, if rr_got_first_token r then Some (rr_first_token r) else None)"

definition traced :: "bool \<Rightarrow> time_point \<Rightarrow> trace_writer option \<Rightarrow> (nat \<times> trace_event) list \<Rightarrow> bool" where
  "traced opens now ow hes =
     (case ow of
        None \<Rightarrow> True
      | Some w \<Rightarrow> if opens then writer_holds now w (map (\<lambda>(hash, ev). with_thread_id hash ev) hes)
                 else tw_file w = None)"

definition profiles :: "bool \<Rightarrow> time_point \<Rightarrow> profiler_config \<Rightarrow> profiler \<Rightarrow> profile_log \<Rightarrow> bool" where
  "profiles opens now c p l \<longleftrightarrow>
     step_latency p = fold rs_update (pl_latencies l) running_stats_new \<and>
     ttft_stats p = fold rs_update (pl_ttfts l) running_stats_new \<and>
     tpot_stats p = fold rs_update (pl_tpots l) running_stats_new \<and>
     foldM hg_record (pl_latencies l) (histogram_new (histogram_min c) (histogram_max c) (histogram_bins c))
       = Some (latency_hist p) \<and>
     tm_total_tokens (throughput p) = pl_tokens l \<and>
     tm_total_time_ms (throughput p) = sum_list (pl_latencies l) \<and>
     pl_active l = map_option open_request \<circ> active_requests p \<and>
     total_requests p = pl_served l \<and>
     (pf_trace_writer p = None \<longleftrightarrow> \<not> enable_tracing c) \<and>
     traced opens now (pf_trace_writer p) (pl_events l)"

lemma traced_put:
  assumes "traced opens now ow hes"
  shows "traced opens now (map_option (add_event hash ev) ow) (hes @ [(hash, ev)])"
proof (cases ow)
  case None
  then show ?thesis by (simp add: traced_def)
next
  case (Some w)
  show ?thesis
  proof (cases opens)
    case True
    then show ?thesis using assms Some tws.holds_put [of now w hes "(hash, ev)"] by (simp add: traced_def)
  next
    case False
    then show ?thesis using assms Some closed_exec [of w "Add hash ev"] by (simp add: traced_def)
  qed
qed

lemma profiles_event:
  assumes "profiles opens now c p l"
  shows "profiles opens now c (trace_event_to hash ev p) (log_event hash ev l)"
  using assms traced_put [of opens now "pf_trace_writer p" "pl_events l" hash ev]
  by (simp add: profiles_def trace_event_to_def log_event_def)

lemma trace_counter_event: "trace_counter_to hash now name series v = trace_event_to hash (counter_event now name series v)"
  by (simp add: fun_eq_iff trace_counter_to_def trace_event_to_def add_counter_def [abs_def])

lemma profiles_new: "profiles opens now c (profiler_new opens now c) empty_log"
  by (simp add: profiles_def profiler_new_def empty_log_def throughput_meter_new_def fun_eq_iff traced_def
      writer_holds_new trace_writer_new_def [of False])

lemma profiles_hist:
  assumes "profiles opens now c p l" and "0 < histogram_bins c" and "histogram_bins c < size_max"
  shows "hg_wf (latency_hist p)" and "hg_total (latency_hist p) \<le> length (pl_latencies l)"
    and "hg_reset (latency_hist p) = histogram_new (histogram_min c) (histogram_max c) (histogram_bins c)"
proof -
  note r = hg_run [OF hg_wf_new [OF assms(2,3), of "histogram_min c" "histogram_max c"]]
  have h: "foldM hg_record (pl_latencies l) (histogram_new (histogram_min c) (histogram_max c) (histogram_bins c))
       = Some (latency_hist p)" using assms(1) by (simp add: profiles_def)
  show "hg_wf (latency_hist p)" using r [OF h] by simp
  show "hg_total (latency_hist p) \<le> length (pl_latencies l)" using r [OF h] by (simp add: histogram_new_def)
  show "hg_reset (latency_hist p) = histogram_new (histogram_min c) (histogram_max c) (histogram_bins c)"
    using r [OF h] by (simp add: hg_reset_def histogram_new_def)
qed

lemma profiles_begin:
  assumes "profiles opens now c p l"
  shows "profiles opens now c (begin_step hash t n p) (log_exec (Begin_Step hash t n) l)"
  unfolding begin_step_def log_exec.simps
  by (rule profiles_event) (use assms in \<open>simp add: profiles_def record_tokens_def\<close>)

lemma profiles_end:
  assumes "profiles opens now c p l" and "0 < histogram_bins c" and "histogram_bins c < size_max"
  shows "\<exists>p'. end_step hash t1 t2 bm ms p = Some p' \<and>
    profiles opens now c p' (log_exec (End_Step hash t1 t2 bm ms) l)"
proof -
  obtain h where h: "hg_record ms (latency_hist p) = Some h"
    using hg_record_wf [OF profiles_hist(1) [OF assms]] by blast
  let ?p1 = "p\<lparr>step_latency := rs_update ms (step_latency p), latency_hist := h,
    throughput := record_interval ms (throughput p)\<rparr>"
  have "profiles opens now c ?p1 (l\<lparr>pl_latencies := pl_latencies l @ [ms]\<rparr>)"
    using assms(1) h by (simp add: profiles_def record_interval_def foldM_append)
  from profiles_event [OF this, of hash "end_step_event t1"] show ?thesis
    using h profiles_event
    by (cases bm) (simp_all add: end_step_def Let_def trace_counter_event)
qed

lemma profiles_start:
  "profiles opens now c p l \<Longrightarrow>
     profiles opens now c (record_request_start t i p) (log_exec (Request_Start t i) l)"
  by (simp add: profiles_def record_request_start_def fun_eq_iff open_request_def)

lemma profiles_first:
  assumes "profiles opens now c p l"
  shows "profiles opens now c (record_first_token t i p) (log_exec (First_Token t i) l)"
proof (cases "active_requests p i")
  case None
  then show ?thesis using assms by (simp add: profiles_def record_first_token_def)
next
  case (Some r)
  then have "pl_active l i = Some (open_request r)" using assms by (simp add: profiles_def)
  then show ?thesis using assms Some
    by (simp add: profiles_def record_first_token_def fun_eq_iff open_request_def)
qed

lemma profiles_finish:
  assumes "profiles opens now c p l"
  shows "profiles opens now c (record_request_end hash t1 t2 i n p) (log_exec (Request_End hash t1 t2 i n) l)"
proof (cases "active_requests p i")
  case None
  then show ?thesis using assms by (simp add: profiles_def record_request_end_def)
next
  case (Some r)
  have a: "pl_active l i = Some (open_request r)" using Some assms by (simp add: profiles_def)
  have n: "total_requests p = pl_served l" using assms by (simp add: profiles_def)
  let ?p1 = "if rr_got_first_token r \<and> n > 1
    then p\<lparr>tpot_stats := rs_update (ms_between (rr_first_token r) t1 / real (n - 1)) (tpot_stats p)\<rparr> else p"
  let ?p2 = "?p1\<lparr>total_requests := total_requests ?p1 + 1, active_requests := (active_requests ?p1)(i := None)\<rparr>"
  let ?l = "l\<lparr>pl_tpots := pl_tpots l @
      (case snd (open_request r) of
         Some t \<Rightarrow> if n > 1 then [ms_between t t1 / real (n - 1)] else [] | None \<Rightarrow> []),
    pl_served := pl_served l + 1, pl_active := (pl_active l)(i := None)\<rparr>"
  have "profiles opens now c ?p2 ?l"
    using assms by (auto simp: profiles_def fun_eq_iff open_request_def)
  from profiles_event [OF this, of hash "counter_event t2 ''requests_completed'' ''count'' (real (pl_served l + 1))"]
  show ?thesis using Some a n
    by (simp add: record_request_end_def Let_def trace_counter_event open_request_def split: if_splits)
qed

lemma profiles_reset:
  assumes "profiles opens now c p l" and "0 < histogram_bins c" and "histogram_bins c < size_max"
  shows "profiles opens now c (profiler_reset p) (log_exec Reset l)"
  using assms(1) profiles_hist(3) [OF assms]
  by (simp add: profiles_def profiler_reset_def empty_log_def rs_reset_def running_stats_new_def tm_reset_def fun_eq_iff)

lemma profiles_exec:
  assumes "profiles opens now c p l" and "0 < histogram_bins c" and "histogram_bins c < size_max"
  shows "\<exists>p'. profiler_exec cmd p = Some p' \<and> profiles opens now c p' (log_exec cmd l)"
  using assms
  by (cases cmd)
     (simp_all add: mark_def record_prefill_def record_decode_def profiles_event profiles_begin profiles_end
       profiles_start profiles_first profiles_finish profiles_reset del: log_exec.simps
       add: log_exec.simps(3,7,8))

lemma profiles_run:
  assumes "0 < histogram_bins c" and "histogram_bins c < size_max"
  shows "profiles opens now c p l \<Longrightarrow>
    \<exists>p'. foldM profiler_exec cs p = Some p' \<and> profiles opens now c p' (fold log_exec cs l)"
proof (induction cs arbitrary: p l)
  case (Cons cmd cs)
  obtain p1 where "profiler_exec cmd p = Some p1" "profiles opens now c p1 (log_exec cmd l)"
    using profiles_exec [OF Cons.prems assms] by blast
  then show ?case using Cons.IH by simp
qed simp

lemma log_latencies_le: "length (pl_latencies (fold log_exec cs l)) \<le> length (pl_latencies l) + length cs"
proof (induction cs arbitrary: l)
  case (Cons cmd cs)
  have "length (pl_latencies (log_exec cmd l)) \<le> length (pl_latencies l) + 1"
    by (cases cmd) (simp_all add: log_event_def empty_log_def Let_def split: option.split prod.split)
  then show ?case using Cons.IH [of "log_exec cmd l"] by simp
qed simp

lemma traced_file:
  assumes "traced opens now (Some w) hes"
  shows "trace_writer_delete w =
    (if opens then Some (''['' @ nl @ join_events now (map (\<lambda>(hash, ev). with_thread_id hash ev) hes) @ nl @ '']'' @ nl)
     else None)"
  using assms writer_holds_delete closed_delete by (simp add: traced_def split: if_splits)



end
