(* ===== verification/Batch_Decode.thy ===== *)
theory Batch_Decode
  imports Batch_Manager Memory_Pool Profiler "HOL-Library.Multiset"
begin

text \<open>
  The decode engine, \<open>src/src/cacheflow/decode/batch_decode.{h,cpp}\<close>: it turns a batch into the flat
  arrays of the attention kernels, runs the attention of the build without CUDA, samples one token
  per entry and keeps its statistics. Floats are exact reals and \<open>None\<close> is undefined behaviour.

  Parameters stand for what the engine takes from elsewhere: the contents of the GPU pool (\<open>mem\<close>,
  a float per index from the start of the pool, \<open>None\<close> outside), the two sorting routines of the
  standard library (only \<open>std::stable_sort\<close> fixes the order of equal elements, and the engine uses
  \<open>std::sort\<close> and \<open>std::partial_sort\<close>), and the draw from the uniform distribution.
\<close>

section \<open>State\<close>

record decode_context =
  dc_batch :: decode_batch
  dc_logits :: "real list"
  dc_sampled_tokens :: "token_id list"
  dc_key_cache_ptr :: nat
  dc_value_cache_ptr :: nat
  dc_block_tables :: "int list"
  dc_context_lens :: "int option list"
  dc_slot_mapping :: "int option list"
  dc_num_seqs :: nat

text \<open>An element of an array that \<open>new\<close> leaves uninitialised is \<open>None\<close>; pointers to freed arrays are empty lists.\<close>

definition decode_context_new :: "decode_batch \<Rightarrow> nat \<Rightarrow> nat \<Rightarrow> decode_context" where
  "decode_context_new b n vocab =
     \<lparr>dc_batch = b, dc_logits = replicate (n * vocab) 0, dc_sampled_tokens = [], dc_key_cache_ptr = null,
      dc_value_cache_ptr = null, dc_block_tables = [], dc_context_lens = [], dc_slot_mapping = [], dc_num_seqs = n\<rparr>"

record engine_stats =
  es_total_steps :: nat
  es_total_tokens :: nat
  es_total_prefill_tokens :: nat
  es_total_decode_tokens :: nat
  es_total_time_ms :: real
  es_avg_step_time_ms :: real
  es_tokens_per_sec :: real

definition zero_engine_stats :: engine_stats where
  "zero_engine_stats =
     \<lparr>es_total_steps = 0, es_total_tokens = 0, es_total_prefill_tokens = 0, es_total_decode_tokens = 0,
      es_total_time_ms = 0, es_avg_step_time_ms = 0, es_tokens_per_sec = 0\<rparr>"

record decode_engine =
  en_model_config :: model_config
  en_cache_config :: cache_config
  en_stats :: engine_stats

definition decode_engine_new :: "model_config \<Rightarrow> cache_config \<Rightarrow> decode_engine" where
  "decode_engine_new m c = \<lparr>en_model_config = m, en_cache_config = c, en_stats = zero_engine_stats\<rparr>"

definition reset_engine_stats :: "decode_engine \<Rightarrow> decode_engine" where
  "reset_engine_stats e = e\<lparr>en_stats := zero_engine_stats\<rparr>"

section \<open>Preparing the block tables\<close>

definition max_table :: "batch_entry list \<Rightarrow> nat" where
  "max_table es = fold (\<lambda>e m. max m (length (be_block_table e))) es 0"

text \<open>The loop that copies one block table into its row.\<close>

definition copy_row :: "nat \<Rightarrow> nat \<Rightarrow> block_id list \<Rightarrow> int list \<Rightarrow> int list option" where
  "copy_row i max_blocks bt =
     foldM (\<lambda>b tables. vec_set tables ((i * max_blocks + b) mod size_max) (bt ! b)) [0..<length bt]"

text \<open>The slot of one entry; no slot is written when the table does not reach the position.\<close>

definition write_slot :: "int \<Rightarrow> nat \<Rightarrow> batch_entry \<Rightarrow> int option list \<Rightarrow> int option list option" where
  "write_slot bs i e slots =
     do {
       block_idx \<leftarrow> div_i32 (be_position e) bs;
       block_off \<leftarrow> mod_i32 (be_position e) bs;
       if block_idx < to_i32 (int (length (be_block_table e))) then do {
         b \<leftarrow> vec_at (be_block_table e) (size_of_i32 block_idx);
         base \<leftarrow> chk_i32 (b * bs);
         slot \<leftarrow> chk_i32 (base + block_off);
         vec_set slots i (Some slot)
       } else Some slots
     }"

definition prepare_entry ::
    "int \<Rightarrow> nat \<Rightarrow> nat \<times> batch_entry \<Rightarrow> int list \<times> int option list \<times> int option list \<Rightarrow>
     (int list \<times> int option list \<times> int option list) option" where
  "prepare_entry bs max_blocks = (\<lambda>(i, e) (tables, ctx_lens, slots).
     do {
       len \<leftarrow> inc_i32 (be_position e);
       ctx_lens1 \<leftarrow> vec_set ctx_lens i (Some len);
       tables1 \<leftarrow> copy_row i max_blocks (be_block_table e) tables;
       slots1 \<leftarrow> write_slot bs i e slots;
       Some (tables1, ctx_lens1, slots1)
     })"

definition prepare_kv_cache_inputs ::
    "model_config \<Rightarrow> cache_config \<Rightarrow> pool_manager \<Rightarrow> decode_batch \<Rightarrow> decode_context \<Rightarrow> decode_context option" where
  "prepare_kv_cache_inputs m c pm batch ctx =
     do {
       let max_blocks = max_table (entries batch);
       let num_seqs = length (entries batch);
       let bs = to_i32 (int (block_size c));
       (tables, ctx_lens, slots) \<leftarrow>
         foldM (prepare_entry bs max_blocks) (enumerate 0 (entries batch))
           (replicate ((num_seqs * max_blocks) mod size_max) 0, replicate num_seqs None,
            replicate (total_tokens batch) None);
       let base = mp_base (pm_gpu_pool pm);
       Some (ctx\<lparr>dc_block_tables := tables, dc_context_lens := ctx_lens, dc_slot_mapping := slots,
         dc_key_cache_ptr := base,
         dc_value_cache_ptr := base + 4 * ((mp_num_blocks (pm_gpu_pool pm) * size_of_i32 (n_kv_heads m) *
           size_of_i32 bs * size_of_i32 (head_dim m)) mod size_max)\<rparr>)
     }"

section \<open>Attention on the CPU\<close>

text \<open>
  Reading a float of the key cache at an index from its start. The function computes the softmax
  weights of every position and drops them, so that only its definedness can be observed.
\<close>

definition read_cache :: "(nat \<Rightarrow> real option) \<Rightarrow> int \<Rightarrow> real option" where
  "read_cache mem i = (if i < 0 then None else mem (nat i))"

definition key_offset :: "int \<Rightarrow> int \<Rightarrow> int \<Rightarrow> int \<Rightarrow> int \<Rightarrow> int \<Rightarrow> int option" where
  "key_offset kv_heads bs hdim phys kv_h off =
     do {
       a \<leftarrow> chk_i32 (phys * kv_heads);
       b \<leftarrow> chk_i32 (a + kv_h);
       d \<leftarrow> chk_i32 (b * bs);
       e \<leftarrow> chk_i32 (d + off);
       chk_i32 (e * hdim)
     }"

definition key_norm :: "(nat \<Rightarrow> real option) \<Rightarrow> int \<Rightarrow> nat \<Rightarrow> real option" where
  "key_norm mem k n =
     foldM (\<lambda>d dot. do { x \<leftarrow> read_cache mem (k + int d); Some (dot + x * x) }) [0..<n] 0"

definition score_step ::
    "model_config \<Rightarrow> int \<Rightarrow> (nat \<Rightarrow> real option) \<Rightarrow> batch_entry \<Rightarrow> int \<Rightarrow> nat \<Rightarrow>
     real list \<times> real \<Rightarrow> (real list \<times> real) option" where
  "score_step m bs mem e kv_h t st =
     do {
       blk \<leftarrow> div_i32 (int t) bs;
       off \<leftarrow> mod_i32 (int t) bs;
       if blk \<ge> to_i32 (int (length (be_block_table e))) then Some st
       else do {
         phys \<leftarrow> vec_at (be_block_table e) (size_of_i32 blk);
         k \<leftarrow> key_offset (n_kv_heads m) bs (head_dim m) phys kv_h off;
         dot \<leftarrow> key_norm mem k (nat (head_dim m));
         let s = dot * (1 / sqrt (real_of_int (head_dim m)));
         scores \<leftarrow> vec_set (fst st) t s;
         Some (scores, max (snd st) s)
       }
     }"

definition softmax_weights :: "real list \<Rightarrow> real \<Rightarrow> real list" where
  "softmax_weights scores max_score =
     (let es = map (\<lambda>s. exp (s - max_score)) scores
      in map (\<lambda>x. x * (1 / (sum_list es + 1 / 10 ^ 8))) es)"

definition attention_head ::
    "model_config \<Rightarrow> int \<Rightarrow> (nat \<Rightarrow> real option) \<Rightarrow> batch_entry \<Rightarrow> nat \<Rightarrow> real list option" where
  "attention_head m bs mem e h =
     do {
       ctx_len \<leftarrow> inc_i32 (be_position e);
       kv_group \<leftarrow> div_i32 (n_heads m) (n_kv_heads m);
       kv_h \<leftarrow> div_i32 (int h) kv_group;
       if ctx_len < 0 then None else do {
         (scores, max_score) \<leftarrow> foldM (score_step m bs mem e kv_h) [0..<nat ctx_len]
           (replicate (nat ctx_len) 0, - (10 ^ 30));
         Some (softmax_weights scores max_score)
       }
     }"

definition execute_attention_cpu ::
    "model_config \<Rightarrow> cache_config \<Rightarrow> (nat \<Rightarrow> real option) \<Rightarrow> decode_context \<Rightarrow> unit option" where
  "execute_attention_cpu m c mem ctx =
     (if dc_key_cache_ptr ctx = null \<or> dc_value_cache_ptr ctx = null then Some ()
      else foldM (\<lambda>e _. foldM (\<lambda>h _. map_option (\<lambda>_. ()) (attention_head m (to_i32 (int (block_size c))) mem e h))
                   [0..<nat (n_heads m)] ())
             (entries (dc_batch ctx)) ())"

text \<open>Afterwards the three arrays are deleted.\<close>

definition execute_attention ::
    "model_config \<Rightarrow> cache_config \<Rightarrow> (nat \<Rightarrow> real option) \<Rightarrow> decode_context \<Rightarrow> decode_context option" where
  "execute_attention m c mem ctx =
     do {
       _ \<leftarrow> execute_attention_cpu m c mem ctx;
       Some (ctx\<lparr>dc_block_tables := [], dc_context_lens := [], dc_slot_mapping := []\<rparr>)
     }"

section \<open>Sampling\<close>

type_synonym scored = "(real \<times> token_id) list"

text \<open>\<open>std::max_element\<close>: the first greatest element.\<close>

fun max_element_from :: "real list \<Rightarrow> nat \<Rightarrow> nat \<Rightarrow> real \<Rightarrow> nat" where
  "max_element_from [] i best bv = best"
| "max_element_from (x # xs) i best bv =
     (if bv < x then max_element_from xs (i + 1) i x else max_element_from xs (i + 1) best bv)"

fun max_element :: "real list \<Rightarrow> nat" where
  "max_element [] = 0"
| "max_element (x # xs) = max_element_from xs 1 0 x"

text \<open>The number of candidates that nucleus sampling keeps.\<close>

fun nucleus_cutoff :: "real \<Rightarrow> scored \<Rightarrow> nat \<Rightarrow> real \<Rightarrow> nat" where
  "nucleus_cutoff p [] j cumsum = j"
| "nucleus_cutoff p (x # xs) j cumsum =
     (if cumsum + fst x \<ge> p then j + 1 else nucleus_cutoff p xs (j + 1) (cumsum + fst x))"

fun choose_token :: "real \<Rightarrow> scored \<Rightarrow> real \<Rightarrow> token_id \<Rightarrow> token_id" where
  "choose_token r [] acc chosen = chosen"
| "choose_token r (x # xs) acc chosen =
     (if acc + fst x \<ge> r then snd x else choose_token r xs (acc + fst x) chosen)"

definition scale_logits :: "sampling_params \<Rightarrow> real list \<Rightarrow> scored" where
  "scale_logits sp lg = map (\<lambda>v. (lg ! v / temperature sp, int v)) [0..<length lg]"

definition keep_top_k :: "(nat \<Rightarrow> scored \<Rightarrow> scored) \<Rightarrow> sampling_params \<Rightarrow> scored \<Rightarrow> scored" where
  "keep_top_k psort sp scored =
     (if top_k sp > 0 \<and> top_k sp < int (length scored)
      then take (nat (top_k sp)) (psort (nat (top_k sp)) scored) else scored)"

definition normalise :: "real \<Rightarrow> scored \<Rightarrow> scored" where
  "normalise max_logit scored =
     (let es = map (\<lambda>(l, tok). (exp (l - max_logit), tok)) scored;
          sum_exp = sum_list (map fst es)
      in map (\<lambda>(l, tok). (l / sum_exp, tok)) es)"

definition keep_top_p :: "(scored \<Rightarrow> scored) \<Rightarrow> sampling_params \<Rightarrow> scored \<Rightarrow> scored" where
  "keep_top_p fsort sp scored =
     (if top_p sp < 1 then take (nucleus_cutoff (top_p sp) (fsort scored) 0 0) (fsort scored) else scored)"

text \<open>One entry, with the logits of its row; \<open>draw a b\<close> is a draw from the generator.\<close>

definition sample_one ::
    "(nat \<Rightarrow> scored \<Rightarrow> scored) \<Rightarrow> (scored \<Rightarrow> scored) \<Rightarrow> (real \<Rightarrow> real \<Rightarrow> 'g \<Rightarrow> real \<times> 'g) \<Rightarrow>
     sampling_params \<Rightarrow> real list \<Rightarrow> 'g \<Rightarrow> (token_id \<times> 'g) option" where
  "sample_one psort fsort draw sp lg g =
     (if temperature sp < 1 / 10 ^ 6 then Some (int (max_element lg), g)
      else do {
        let scored1 = keep_top_k psort sp (scale_logits sp lg);
        (max_logit, _) \<leftarrow> vec_at scored1 0;
        let scored2 = keep_top_p fsort sp (normalise max_logit scored1);
        let (r, g1) = draw 0 (sum_list (map fst scored2)) g;
        (_, first) \<leftarrow> vec_at scored2 0;
        Some (choose_token r scored2 0 first, g1)
      })"

text \<open>The row of logits of an entry; a negative vocabulary size fails to allocate.\<close>

definition logits_row :: "int \<Rightarrow> real list \<Rightarrow> nat \<Rightarrow> real list option" where
  "logits_row vocab logits i =
     (if vocab < 0 \<or> (i + 1) * nat vocab > length logits then None
      else Some (take (nat vocab) (drop (i * nat vocab) logits)))"

fun sample_from ::
    "(nat \<Rightarrow> scored \<Rightarrow> scored) \<Rightarrow> (scored \<Rightarrow> scored) \<Rightarrow> (real \<Rightarrow> real \<Rightarrow> 'g \<Rightarrow> real \<times> 'g) \<Rightarrow>
     int \<Rightarrow> real list \<Rightarrow> sampling_params list \<Rightarrow> nat \<Rightarrow> batch_entry list \<Rightarrow> 'g \<Rightarrow> (token_id list \<times> 'g) option" where
  "sample_from psort fsort draw vocab logits params i [] g = Some ([], g)"
| "sample_from psort fsort draw vocab logits params i (e # es) g =
     do {
       lg \<leftarrow> logits_row vocab logits i;
       let sp = (if i < length params then params ! i else default_sampling_params);
       (tok, g1) \<leftarrow> sample_one psort fsort draw sp lg g;
       (toks, g2) \<leftarrow> sample_from psort fsort draw vocab logits params (i + 1) es g1;
       Some (tok # toks, g2)
     }"

definition sample ::
    "(nat \<Rightarrow> scored \<Rightarrow> scored) \<Rightarrow> (scored \<Rightarrow> scored) \<Rightarrow> (real \<Rightarrow> real \<Rightarrow> 'g \<Rightarrow> real \<times> 'g) \<Rightarrow>
     model_config \<Rightarrow> real list \<Rightarrow> decode_batch \<Rightarrow> sampling_params list \<Rightarrow> 'g \<Rightarrow> (token_id list \<times> 'g) option" where
  "sample psort fsort draw m logits batch params g =
     sample_from psort fsort draw (vocab_size m) logits params 0 (entries batch) g"

section \<open>The decode step\<close>

record step_result =
  sr_new_tokens :: "token_id list"
  sr_step_time_ms :: real
  sr_tokens_processed :: nat

definition empty_step_result :: step_result where
  "empty_step_result = \<lparr>sr_new_tokens = [], sr_step_time_ms = 0, sr_tokens_processed = 0\<rparr>"

text \<open>With a total time of zero the throughput would be infinite; it is zero here.\<close>

definition count_step :: "decode_batch \<Rightarrow> real \<Rightarrow> engine_stats \<Rightarrow> engine_stats" where
  "count_step batch ms st =
     (let steps = es_total_steps st + 1;
          tokens = es_total_tokens st + total_tokens batch;
          time = es_total_time_ms st + ms;
          st1 = st\<lparr>es_total_steps := steps, es_total_tokens := tokens, es_total_time_ms := time,
                   es_avg_step_time_ms := time / real steps, es_tokens_per_sec := real tokens / (time / 1000)\<rparr>
      in fold (\<lambda>e st. if be_is_prefill e then st\<lparr>es_total_prefill_tokens := es_total_prefill_tokens st + 1\<rparr>
                      else st\<lparr>es_total_decode_tokens := es_total_decode_tokens st + 1\<rparr>) (entries batch) st1)"

text \<open>The readings of the clock, in the order they are taken, and the hash of the calling thread.\<close>

record step_clock =
  ck_hash :: nat
  ck_start :: time_point
  ck_begin :: time_point
  ck_prepared :: time_point
  ck_attention :: time_point
  ck_end :: time_point
  ck_end1 :: time_point
  ck_end2 :: time_point

text \<open>The profiler is \<open>None\<close> when it is not set or when profiling is not compiled in.\<close>

definition engine_step ::
    "(nat \<Rightarrow> scored \<Rightarrow> scored) \<Rightarrow> (scored \<Rightarrow> scored) \<Rightarrow> (real \<Rightarrow> real \<Rightarrow> 'g \<Rightarrow> real \<times> 'g) \<Rightarrow>
     (nat \<Rightarrow> real option) \<Rightarrow> pool_manager \<Rightarrow> block_manager option \<Rightarrow> step_clock \<Rightarrow> decode_batch \<Rightarrow>
     decode_engine \<times> profiler option \<times> 'g \<Rightarrow> (step_result \<times> decode_engine \<times> profiler option \<times> 'g) option" where
  "engine_step psort fsort draw mem pm bm ck batch = (\<lambda>(en, pf, g).
     if batch_empty batch then Some (empty_step_result, en, pf, g)
     else do {
       let m = en_model_config en;
       let c = en_cache_config en;
       let pf1 = map_option (begin_step (ck_hash ck) (ck_begin ck) (total_tokens batch)) pf;
       let n = length (entries batch);
       let ctx = decode_context_new batch n (nat (vocab_size m));
       ctx1 \<leftarrow> prepare_kv_cache_inputs m c pm batch ctx;
       let pf2 = map_option (mark (ck_hash ck) (ck_prepared ck) ''kv_cache_prepared'') pf1;
       ctx2 \<leftarrow> execute_attention m c mem ctx1;
       let pf3 = map_option (mark (ck_hash ck) (ck_attention ck) ''attention_done'') pf2;
       (toks, g1) \<leftarrow> sample psort fsort draw m (dc_logits ctx2) batch (replicate n default_sampling_params) g;
       let ms = ms_between (ck_start ck) (ck_end ck);
       let en1 = en\<lparr>en_stats := count_step batch ms (en_stats en)\<rparr>;
       pf4 \<leftarrow> (case pf3 of
                 None \<Rightarrow> Some None
               | Some p \<Rightarrow> map_option Some (end_step (ck_hash ck) (ck_end1 ck) (ck_end2 ck) bm ms p));
       Some (\<lparr>sr_new_tokens = toks, sr_step_time_ms = ms, sr_tokens_processed = total_tokens batch\<rparr>, en1, pf4, g1)
     })"

end
