(* ===== verification/Sampling.thy ===== *)
theory Sampling
  imports Batch_Decode
begin

text \<open>
  Correctness of the sampler. The two sorting routines of the standard library enter through the
  interface \<open>descending_sorts\<close>, which states what the standard promises of \<open>std::sort\<close> and
  \<open>std::partial_sort\<close> with a descending comparison and leaves the order of equal elements open.
\<close>

section \<open>Conforming sorts\<close>

locale descending_sorts =
  fixes psort :: "nat \<Rightarrow> scored \<Rightarrow> scored"
    and fsort :: "scored \<Rightarrow> scored"
  assumes psort_mset: "mset (psort k xs) = mset xs"
    and psort_top: "a \<in> set (take k (psort k xs)) \<Longrightarrow> b \<in> set (drop k (psort k xs)) \<Longrightarrow> fst b \<le> fst a"
    and psort_sorted: "sorted_wrt (\<lambda>a b. fst b \<le> fst a) (take k (psort k xs))"
    and fsort_mset: "mset (fsort xs) = mset xs"
    and fsort_sorted: "sorted_wrt (\<lambda>a b. fst b \<le> fst a) (fsort xs)"

text \<open>A stable sort by descending key is one of them.\<close>

definition sort_desc :: "scored \<Rightarrow> scored" where
  "sort_desc xs = sort_key (\<lambda>x. - fst x) xs"

lemma sort_desc_sorted: "sorted_wrt (\<lambda>a b. fst b \<le> fst a) (sort_desc xs)"
proof -
  have "sorted (map (\<lambda>x. - fst x) (sort_desc xs))" by (simp add: sort_desc_def)
  then show ?thesis by (simp add: sorted_wrt_map)
qed

lemma sorted_wrt_take_drop:
  "sorted_wrt R xs \<Longrightarrow> a \<in> set (take k xs) \<Longrightarrow> b \<in> set (drop k xs) \<Longrightarrow> R a b"
  by (metis append_take_drop_id sorted_wrt_append)

interpretation sds: descending_sorts "\<lambda>_. sort_desc" sort_desc
  by unfold_locales
     (simp add: sort_desc_def, use sorted_wrt_take_drop [OF sort_desc_sorted] in blast,
      intro sorted_wrt_take sort_desc_sorted, simp add: sort_desc_def, rule sort_desc_sorted)

section \<open>The stages of the sampler\<close>

lemma max_element_from_first:
  assumes "best < i" and "pre ! best = bv" and "length pre = i"
    and "\<forall>v < i. pre ! v \<le> bv" and "\<forall>v < best. pre ! v < bv"
  shows "let k = max_element_from xs i best bv in k < i + length xs \<and>
    (\<forall>v < i + length xs. (pre @ xs) ! v \<le> (pre @ xs) ! k) \<and> (\<forall>v < k. (pre @ xs) ! v < (pre @ xs) ! k)"
  using assms
proof (induction xs arbitrary: i best bv pre)
  case Nil
  then show ?case by (simp add: Let_def)
next
  case (Cons x xs)
  show ?case
  proof (cases "bv < x")
    case True
    have "\<forall>v < i + 1. (pre @ [x]) ! v \<le> x" "\<forall>v < i. (pre @ [x]) ! v < x"
      using Cons.prems True by (auto simp: nth_append less_Suc_eq)
    with Cons.IH [of i "i + 1" "pre @ [x]" x] True Cons.prems(3) show ?thesis by (simp add: Let_def nth_append)
  next
    case False
    have "\<forall>v < i + 1. (pre @ [x]) ! v \<le> bv" "\<forall>v < best. (pre @ [x]) ! v < bv"
      using Cons.prems False by (auto simp: nth_append less_Suc_eq)
    with Cons.IH [of best "i + 1" "pre @ [x]" bv] False Cons.prems show ?thesis
      by (simp add: Let_def nth_append)
  qed
qed

lemma max_element_first:
  assumes "lg \<noteq> []"
  shows "max_element lg < length lg" and "v < length lg \<Longrightarrow> lg ! v \<le> lg ! max_element lg"
    and "v < max_element lg \<Longrightarrow> lg ! v < lg ! max_element lg"
proof -
  obtain x xs where lg: "lg = x # xs" using assms by (cases lg) auto
  from max_element_from_first [of 0 1 "[x]" x xs] lg
  show "max_element lg < length lg" "v < length lg \<Longrightarrow> lg ! v \<le> lg ! max_element lg"
    "v < max_element lg \<Longrightarrow> lg ! v < lg ! max_element lg"
    by (auto simp: Let_def)
qed

lemma choose_token_mem: "choose_token r xs acc tok \<in> insert tok (snd ` set xs)"
  by (induction xs arbitrary: acc) auto

text \<open>Before the cutoff the cumulated probability stays below the threshold.\<close>

lemma nucleus_cutoff_bound:
  assumes "n < nucleus_cutoff p xs j cum" and "j < n"
  shows "cum + sum_list (map fst (take (n - j) xs)) < p"
  using assms
proof (induction xs arbitrary: j cum)
  case (Cons x xs)
  have below: "cum + fst x < p" and rec: "n < nucleus_cutoff p xs (j + 1) (cum + fst x)"
    using Cons.prems by (auto split: if_splits)
  obtain k where k: "n - j = Suc k" "n - (j + 1) = k" using Cons.prems(2) by (cases "n - j") auto
  show ?case
  proof (cases "j + 1 < n")
    case True
    then show ?thesis using Cons.IH [OF rec True] k by (simp add: add.assoc)
  next
    case False
    then have "k = 0" using k(2) by simp
    then show ?thesis using k below by simp
  qed
qed simp

lemma nucleus_cutoff_pos: "xs \<noteq> [] \<Longrightarrow> 0 < nucleus_cutoff p xs 0 cum"
proof -
  have "j \<le> nucleus_cutoff p xs j cum" for xs j cum
  proof (induction xs arbitrary: j cum)
    case (Cons x xs)
    show ?case using Cons.IH [of "j + 1" "cum + fst x"] by simp
  qed simp
  then show "xs \<noteq> [] \<Longrightarrow> 0 < nucleus_cutoff p xs 0 cum"
    by (cases xs) (auto simp: Suc_le_eq [symmetric])
qed

text \<open>The softmax over all tokens, without the shift by the largest logit.\<close>

definition softmax :: "real \<Rightarrow> real list \<Rightarrow> nat \<Rightarrow> real" where
  "softmax t lg v = exp (lg ! v / t) / (\<Sum>u < length lg. exp (lg ! u / t))"

text \<open>The shift cancels, so the normalised candidates carry their softmax probability.\<close>

lemma normalise_scale:
  "normalise c (scale_logits sp lg) = map (\<lambda>v. (softmax (temperature sp) lg v, int v)) [0..<length lg]"
proof -
  let ?t = "temperature sp"
  have "sum_list (map (\<lambda>v. exp (lg ! v / ?t - c)) [0..<length lg]) = (\<Sum>u < length lg. exp (lg ! u / ?t)) / exp c"
    by (simp add: sum_list_sum_nth atLeast0LessThan exp_diff sum_divide_distrib)
  moreover have "exp (lg ! v / ?t - c) / (S / exp c) = exp (lg ! v / ?t) / S" for v S
    by (simp add: exp_diff)
  ultimately show ?thesis
    by (simp add: normalise_def scale_logits_def Let_def comp_def case_prod_beta softmax_def)
qed

lemma softmax_nonneg: "0 \<le> softmax t lg v"
  by (simp add: softmax_def sum_nonneg)

lemma softmax_mono:
  assumes "0 < t" and "0 < length lg"
  shows "softmax t lg u < softmax t lg v \<longleftrightarrow> lg ! u < lg ! v"
proof -
  have "0 < (\<Sum>u < length lg. exp (lg ! u / t))" using assms(2) by (intro sum_pos) auto
  then show ?thesis using assms(1) by (simp add: softmax_def divide_less_cancel)
qed

lemma normalise_snd [simp]: "map snd (normalise c xs) = map snd xs"
  by (simp add: normalise_def Let_def comp_def case_prod_beta)

lemma normalise_Nil [simp]: "normalise c xs = [] \<longleftrightarrow> xs = []"
  by (simp add: normalise_def Let_def)

lemma scale_logits_snd: "map snd (scale_logits sp lg) = map int [0..<length lg]"
  by (simp add: scale_logits_def)

lemma scale_logits_length [simp]: "length (scale_logits sp lg) = length lg"
  by (simp add: scale_logits_def)

text \<open>What a sampled token has to satisfy for its parameters and its logits.\<close>

definition admissible :: "sampling_params \<Rightarrow> real list \<Rightarrow> token_id \<Rightarrow> bool" where
  "admissible sp lg tok \<longleftrightarrow> 0 \<le> tok \<and> tok < int (length lg) \<and>
     (if temperature sp < 1 / 10 ^ 6
      then (\<forall>v < length lg. lg ! v \<le> lg ! nat tok) \<and> (\<forall>v < nat tok. lg ! v < lg ! nat tok)
      else
        (0 < top_k sp \<and> top_k sp < int (length lg) \<longrightarrow>
           int (card {v. v < length lg \<and> lg ! nat tok < lg ! v}) < top_k sp) \<and>
        (top_k sp \<le> 0 \<or> int (length lg) \<le> top_k sp \<longrightarrow> top_p sp < 1 \<longrightarrow>
           (\<forall>v < length lg. lg ! v \<le> lg ! nat tok) \<or>
           (\<Sum>v | v < length lg \<and> lg ! nat tok < lg ! v. softmax (temperature sp) lg v) < top_p sp))"

text \<open>Token \<open>tok\<close> is admissible for entry \<open>k\<close> of the batch.\<close>

definition row_ok :: "int \<Rightarrow> real list \<Rightarrow> sampling_params list \<Rightarrow> nat \<Rightarrow> token_id \<Rightarrow> bool" where
  "row_ok vocab logits params k tok \<longleftrightarrow>
     admissible (if k < length params then params ! k else default_sampling_params)
       (take (nat vocab) (drop (k * nat vocab) logits)) tok"

section \<open>The sampler under any conforming sorts\<close>

context descending_sorts
begin

lemma psort_set: "set (psort k xs) = set xs"
  using psort_mset by (metis set_mset_mset)

lemma psort_length: "length (psort k xs) = length xs"
  using psort_mset by (metis size_mset)

lemma fsort_set: "set (fsort xs) = set xs"
  using fsort_mset by (metis set_mset_mset)

lemma fsort_Nil: "fsort xs = [] \<longleftrightarrow> xs = []"
  using fsort_set [of xs] by (metis set_empty)

lemma keep_top_k_subset: "set (keep_top_k psort sp xs) \<subseteq> set xs"
  using psort_set [of "nat (top_k sp)" xs] by (auto simp: keep_top_k_def dest: in_set_takeD)

lemma keep_top_k_Nil: "keep_top_k psort sp xs = [] \<longleftrightarrow> xs = []"
  using psort_length [of "nat (top_k sp)" xs] by (auto simp: keep_top_k_def)

lemma keep_top_p_subset: "set (keep_top_p fsort sp xs) \<subseteq> set xs"
  using fsort_set [of xs] by (auto simp: keep_top_p_def dest: in_set_takeD)

lemma keep_top_p_Nil: "keep_top_p fsort sp xs = [] \<longleftrightarrow> xs = []"
  using nucleus_cutoff_pos [of "fsort xs" "top_p sp" 0] fsort_Nil [of xs] by (auto simp: keep_top_p_def)

text \<open>A candidate that survives the cut to the best \<open>k\<close> has fewer than \<open>k\<close> better ones.\<close>

lemma keep_top_k_rank:
  assumes "(l, tok) \<in> set (keep_top_k psort sp (scale_logits sp lg))" and "0 < temperature sp"
    and "0 < top_k sp" and "top_k sp < int (length lg)"
  shows "int (card {v. v < length lg \<and> lg ! nat tok < lg ! v}) < top_k sp"
proof -
  let ?k = "nat (top_k sp)" and ?xs = "psort (nat (top_k sp)) (scale_logits sp lg)" and ?t = "temperature sp"
  have kept: "(l, tok) \<in> set (take ?k ?xs)" using assms by (simp add: keep_top_k_def)
  have xs: "set ?xs = (\<lambda>v. (lg ! v / ?t, int v)) ` {0..<length lg}" by (simp add: psort_set scale_logits_def)
  have l: "l = lg ! nat tok / ?t" using in_set_takeD [OF kept] xs by auto
  let ?better = "{v. v < length lg \<and> lg ! nat tok < lg ! v}"
  have mem: "int v \<in> snd ` set (take ?k ?xs)" if "v \<in> ?better" for v
  proof -
    have "(lg ! v / ?t, int v) \<in> set ?xs" using that xs by auto
    moreover have "l < lg ! v / ?t" using that l assms(2) by (simp add: divide_strict_right_mono)
    then have "(lg ! v / ?t, int v) \<notin> set (drop ?k ?xs)" using psort_top [OF kept] by fastforce
    ultimately have "(lg ! v / ?t, int v) \<in> set (take ?k ?xs)"
      by (metis Un_iff append_take_drop_id set_append)
    then show ?thesis by force
  qed
  have "insert tok (int ` ?better) \<subseteq> snd ` set (take ?k ?xs)" using mem kept by force
  then have "card (insert tok (int ` ?better)) \<le> card (snd ` set (take ?k ?xs))" by (intro card_mono) simp_all
  also have "\<dots> \<le> length (take ?k ?xs)" by (metis card_length card_image_le le_trans List.finite_set)
  also have "\<dots> \<le> ?k" by simp
  finally have "card (insert tok (int ` ?better)) \<le> ?k" .
  moreover have "tok \<notin> int ` ?better" by auto
  then have "card (insert tok (int ` ?better)) = Suc (card ?better)" by (simp add: card_image)
  ultimately show ?thesis using assms(3) by linarith
qed

text \<open>
  A candidate that survives the nucleus cut is the best one, or the better ones together stay
  below the threshold.
\<close>

lemma keep_top_p_mass:
  assumes "(l, tok) \<in> set (keep_top_p fsort sp (normalise c (scale_logits sp lg)))" and "top_p sp < 1"
    and "0 < temperature sp" and "0 < length lg"
  shows "(\<forall>v < length lg. lg ! v \<le> lg ! nat tok) \<or>
    (\<Sum>v | v < length lg \<and> lg ! nat tok < lg ! v. softmax (temperature sp) lg v) < top_p sp"
proof -
  let ?t = "temperature sp"
  define f where "f = (\<lambda>v. (softmax ?t lg v, int v))"
  define ys where "ys = fsort (normalise c (scale_logits sp lg))"
  have ms: "mset ys = mset (map f [0..<length lg])"
    unfolding ys_def f_def by (simp only: fsort_mset normalise_scale)
  have inj: "inj_on f A" for A by (simp add: f_def inj_on_def)
  have dist: "distinct ys" using ms mset_eq_imp_distinct_iff [OF ms] inj by (simp add: distinct_map)
  have set_ys: "set ys = f ` {0..<length lg}" using mset_eq_setD [OF ms] by simp
  let ?cut = "nucleus_cutoff (top_p sp) ys 0 0"
  obtain j where j: "j < length ys" "j < ?cut" "ys ! j = (l, tok)"
    using assms(1,2) by (auto simp: keep_top_p_def ys_def [symmetric] in_set_conv_nth)
  have lt: "(l, tok) = f (nat tok)" using j(1,3) set_ys nth_mem [OF j(1)] by (auto simp: f_def)
  let ?better = "{v. v < length lg \<and> lg ! nat tok < lg ! v}"
  have early: "f v \<in> set (take j ys)" if v: "v \<in> ?better" for v
  proof -
    have "l < fst (f v)" using v lt softmax_mono [OF assms(3,4)] by (simp add: f_def)
    have "f v \<in> set ys" using v set_ys by auto
    then obtain i where i: "i < length ys" "ys ! i = f v" by (auto simp: in_set_conv_nth)
    have "i < j"
    proof (rule ccontr)
      assume "\<not> i < j"
      then have "fst (ys ! i) \<le> fst (ys ! j)"
        using sorted_wrt_nth_less [OF fsort_sorted [of "normalise c (scale_logits sp lg)"], folded ys_def, of j i] i(1)
        by (cases "i = j") auto
      then show False using i(2) j(3) \<open>l < fst (f v)\<close> by simp
    qed
    then show ?thesis using i by (auto simp: in_set_conv_nth intro!: exI [of _ i])
  qed
  show ?thesis
  proof (cases "j = 0")
    case True
    then show ?thesis using early by (force simp: not_less [symmetric])
  next
    case False
    have "(\<Sum>v \<in> ?better. softmax ?t lg v) = (\<Sum>x \<in> f ` ?better. fst x)"
      by (subst sum.reindex [OF inj]) (simp add: f_def)
    also have "\<dots> \<le> (\<Sum>x \<in> set (take j ys). fst x)"
    proof (rule sum_mono2)
      show "f ` ?better \<subseteq> set (take j ys)" using early by blast
      fix x assume "x \<in> set (take j ys) - f ` ?better"
      then have "x \<in> set ys" by (auto dest: in_set_takeD)
      then show "0 \<le> fst x" using set_ys by (auto simp: f_def softmax_nonneg)
    qed simp
    also have "\<dots> = sum_list (map fst (take j ys))" using dist by (simp add: sum_list_distinct_conv_sum_set)
    also have "\<dots> < top_p sp" using nucleus_cutoff_bound [OF j(2)] False by simp
    finally show ?thesis by blast
  qed
qed

lemma sample_one_spec:
  assumes "lg \<noteq> []"
  shows "\<exists>tok g'. sample_one psort fsort draw sp lg g = Some (tok, g') \<and> admissible sp lg tok"
proof (cases "temperature sp < 1 / 10 ^ 6")
  case True
  then show ?thesis using max_element_first [OF assms] by (simp add: sample_one_def admissible_def)
next
  case False
  then have t: "0 < temperature sp" by (simp add: not_less order_less_le_trans [rotated])
  let ?s1 = "keep_top_k psort sp (scale_logits sp lg)"
  have s0: "scale_logits sp lg \<noteq> []" using assms by (simp add: scale_logits_def)
  then obtain c t0 s1' where s1: "?s1 = (c, t0) # s1'" using keep_top_k_Nil by (cases ?s1) auto
  let ?s2 = "keep_top_p fsort sp (normalise c ?s1)"
  have "?s2 \<noteq> []" using s1 keep_top_p_Nil by simp
  then obtain x s2' where s2: "?s2 = x # s2'" by (cases ?s2) auto
  define tok where "tok = choose_token (fst (draw 0 (sum_list (map fst ?s2)) g)) ?s2 0 (snd x)"
  have run: "sample_one psort fsort draw sp lg g = Some (tok, snd (draw 0 (sum_list (map fst ?s2)) g))"
    using False s1 s2 unfolding tok_def by (simp add: sample_one_def Let_def case_prod_beta)
  have "tok \<in> insert (snd x) (snd ` set ?s2)" unfolding tok_def by (rule choose_token_mem)
  then have "tok \<in> snd ` set ?s2" using s2 by auto
  then obtain l where l: "(l, tok) \<in> set ?s2" by force
  then have "(l, tok) \<in> set (normalise c ?s1)" using keep_top_p_subset by blast
  then have "tok \<in> set (map snd (normalise c ?s1))" by (metis image_eqI set_map snd_conv)
  then have "tok \<in> set (map snd ?s1)" by (simp only: normalise_snd)
  then obtain l1 where l1: "(l1, tok) \<in> set ?s1" by auto
  then have "(l1, tok) \<in> set (scale_logits sp lg)" using keep_top_k_subset by blast
  then have range: "0 \<le> tok" "nat tok < length lg" by (auto simp: scale_logits_def)
  have "int (card {v. v < length lg \<and> lg ! nat tok < lg ! v}) < top_k sp"
    if "0 < top_k sp" "top_k sp < int (length lg)" using keep_top_k_rank [OF l1 t that] .
  moreover have "(\<forall>v < length lg. lg ! v \<le> lg ! nat tok) \<or>
      (\<Sum>v | v < length lg \<and> lg ! nat tok < lg ! v. softmax (temperature sp) lg v) < top_p sp"
    if "top_k sp \<le> 0 \<or> int (length lg) \<le> top_k sp" "top_p sp < 1"
  proof (rule keep_top_p_mass)
    have "?s1 = scale_logits sp lg" using that(1) by (auto simp: keep_top_k_def)
    then show "(l, tok) \<in> set (keep_top_p fsort sp (normalise c (scale_logits sp lg)))" using l by simp
  qed (use that t assms in auto)
  ultimately have "admissible sp lg tok" using range False by (auto simp: admissible_def)
  then show ?thesis using run by blast
qed

text \<open>Every entry gets an admissible token from its own row of logits.\<close>

lemma sample_from_spec:
  assumes "0 < vocab" and "length logits = (i + length es) * nat vocab"
  shows "\<exists>toks g'. sample_from psort fsort draw vocab logits params i es g = Some (toks, g') \<and>
    length toks = length es \<and> (\<forall>j < length es. row_ok vocab logits params (i + j) (toks ! j))"
  using assms(2)
proof (induction es arbitrary: i g)
  case (Cons e es)
  let ?lg = "take (nat vocab) (drop (i * nat vocab) logits)"
  let ?sp = "if i < length params then params ! i else default_sampling_params"
  have "(i + 1) * nat vocab \<le> length logits" using Cons.prems by (simp add: mult_right_mono)
  then have row: "logits_row vocab logits i = Some ?lg" and ne: "?lg \<noteq> []"
    using assms(1) by (auto simp: logits_row_def)
  obtain tok g1 where tok: "sample_one psort fsort draw ?sp ?lg g = Some (tok, g1)" "row_ok vocab logits params i tok"
    using sample_one_spec [OF ne, of draw ?sp g] unfolding row_ok_def by (elim exE conjE)
  have "length logits = (i + 1 + length es) * nat vocab" using Cons.prems by simp
  from Cons.IH [OF this, of g1] obtain toks g2 where
      toks: "sample_from psort fsort draw vocab logits params (i + 1) es g1 = Some (toks, g2)"
      "length toks = length es" "\<forall>j < length es. row_ok vocab logits params (i + 1 + j) (toks ! j)"
    by blast
  have "sample_from psort fsort draw vocab logits params i (e # es) g = Some (tok # toks, g2)"
    using row tok(1) toks(1) by (simp add: Let_def del: take_drop split del: if_split)
  moreover have "row_ok vocab logits params (i + j) ((tok # toks) ! j)" if "j < length (e # es)" for j
    using that tok(2) toks(3) by (cases j) simp_all
  ultimately show ?case using toks(2) by (metis length_Cons)
qed simp

end

section \<open>Properties\<close>

text \<open>
  C26. Sampling is total and honours its parameters. For any conforming sorting routines and any
  generator, a batch of \<open>n\<close> entries with \<open>n\<close> rows of logits yields one token per entry, each a valid
  token of the vocabulary. A temperature below \<open>10^-6\<close> selects the first token with the greatest
  logit. Otherwise, if \<open>top_k\<close> restricts the choice, fewer than \<open>top_k\<close> tokens have a greater logit
  than the chosen one; and if only \<open>top_p\<close> does, the chosen token is a most likely one or the softmax
  probabilities of the more likely ones sum to less than \<open>top_p\<close>.
\<close>

theorem sample_admissible:
  assumes "descending_sorts psort fsort" and "0 < vocab_size m"
    and "length logits = length (entries batch) * nat (vocab_size m)"
  shows "\<exists>toks g'. sample psort fsort draw m logits batch params g = Some (toks, g') \<and>
    length toks = length (entries batch) \<and>
    (\<forall>i < length (entries batch).
       admissible (if i < length params then params ! i else default_sampling_params)
         (take (nat (vocab_size m)) (drop (i * nat (vocab_size m)) logits)) (toks ! i))"
proof -
  have "length logits = (0 + length (entries batch)) * nat (vocab_size m)" using assms(3) by simp
  from descending_sorts.sample_from_spec [OF assms(1,2) this, of draw params g]
  show ?thesis unfolding row_ok_def sample_def by (simp only: add_0)
qed

theorem sample_admissible_witness:
  "\<exists>toks g'. sample (\<lambda>_. sort_desc) sort_desc (\<lambda>a b g. (a, g)) (default_model_config\<lparr>vocab_size := 3\<rparr>) [1, 5, 2]
       \<lparr>entries = [\<lparr>be_seq_id = 7, be_token = 4, be_position = 0, be_block_table = [0], be_is_prefill = False\<rparr>],
        total_tokens = 1\<rparr> [default_sampling_params\<lparr>top_k := 1\<rparr>] () = Some (toks, g') \<and> length toks = 1 \<and>
     admissible (default_sampling_params\<lparr>top_k := 1\<rparr>) [1, 5, 2] (toks ! 0)"
proof -
  let ?m = "default_model_config\<lparr>vocab_size := 3\<rparr>" and ?p = "default_sampling_params\<lparr>top_k := 1\<rparr>"
  let ?b = "\<lparr>entries = [\<lparr>be_seq_id = 7, be_token = 4, be_position = 0, be_block_table = [0], be_is_prefill = False\<rparr>],
        total_tokens = 1\<rparr>"
  have "0 < vocab_size ?m" "length [1, 5, 2 :: real] = length (entries ?b) * nat (vocab_size ?m)" by simp_all
  from sample_admissible [OF sds.descending_sorts_axioms this, of "\<lambda>a b g. (a, g)" "[?p]" "()"]
  obtain toks g' where t: "sample (\<lambda>_. sort_desc) sort_desc (\<lambda>a b g. (a, g)) ?m [1, 5, 2] ?b [?p] () = Some (toks, g')"
      "length toks = 1"
      "\<forall>i < length (entries ?b). admissible (if i < length [?p] then [?p] ! i else default_sampling_params)
         (take (nat (vocab_size ?m)) (drop (i * nat (vocab_size ?m)) [1, 5, 2])) (toks ! i)"
    by auto
  have "admissible ?p [1, 5, 2] (toks ! 0)" using t(3) [rule_format, of 0] by simp
  with t(1,2) show ?thesis by blast
qed

end
