(* ===== verification/Decode_Slots.thy ===== *)
theory Decode_Slots
  imports Sampling Serving_Safety
begin

text \<open>
  The arrays that the decode engine hands to the attention kernels: their exact layout, and, together
  with the guarantees of the serving loop, that every token of a step is written to a KV-cache
  slot of its own and that the attention on the CPU only reads inside the key cache.
\<close>

section \<open>The layout of the arrays\<close>

text \<open>What an entry must satisfy for its slot arithmetic to stay in \<open>int32_t\<close>.\<close>

definition entry_ok :: "int \<Rightarrow> batch_entry \<Rightarrow> bool" where
  "entry_ok bs e \<longleftrightarrow> 0 \<le> be_position e \<and> be_position e < 2 ^ 31 - 1 \<and> length (be_block_table e) < 2 ^ 31 \<and>
     (\<forall>b \<in> set (be_block_table e). 0 \<le> b \<and> b * bs + bs \<le> 2 ^ 31)"

text \<open>The slot of an entry: the flat index of its position in the paged cache.\<close>

definition slot_of :: "int \<Rightarrow> batch_entry \<Rightarrow> int option" where
  "slot_of bs e =
     (let i = nat (be_position e div bs)
      in if i < length (be_block_table e) then Some (be_block_table e ! i * bs + be_position e mod bs) else None)"

lemma copy_row_spec:
  assumes "i * mx + length bt \<le> length T" and "length T < size_max"
  shows "copy_row i mx bt T = Some (map (\<lambda>k. if i * mx \<le> k \<and> k < i * mx + length bt then bt ! (k - i * mx) else T ! k)
    [0..<length T])"
proof -
  have "foldM (\<lambda>b T. vec_set T ((i * mx + b) mod size_max) (bt ! b)) [0..<n] T =
      Some (map (\<lambda>k. if i * mx \<le> k \<and> k < i * mx + n then bt ! (k - i * mx) else T ! k) [0..<length T])"
    if "n \<le> length bt" for n
    using that
  proof (induction n)
    case 0
    then show ?case by (auto intro!: nth_equalityI)
  next
    case (Suc n)
    have "i * mx + n < size_max" using Suc.prems assms by linarith
    then show ?case using Suc assms
      by (auto simp: foldM_append intro!: nth_equalityI simp: nth_list_update)
  qed
  then show ?thesis by (simp add: copy_row_def)
qed

lemma write_slot_spec:
  assumes "entry_ok bs e" and "0 < bs" and "bs < 2 ^ 31" and "i < length slots"
  shows "write_slot bs i e slots =
    Some (case slot_of bs e of None \<Rightarrow> slots | Some k \<Rightarrow> slots[i := Some k])"
proof -
  let ?p = "be_position e" and ?bt = "be_block_table e"
  let ?i = "?p div bs" and ?o = "?p mod bs"
  have p: "0 \<le> ?p" "?p < 2 ^ 31" and len: "length ?bt < 2 ^ 31" using assms(1) by (simp_all add: entry_ok_def)
  have d: "div_i32 ?p bs = Some ?i" "mod_i32 ?p bs = Some ?o" using p assms(2) by simp_all
  have i0: "0 \<le> ?i" using p(1) assms(2) by (simp add: pos_imp_zdiv_nonneg_iff)
  have "?i \<le> ?p" using p(1) assms(2) zdiv_mono2 [of ?p 1 bs] by simp
  then have i31: "?i < 2 ^ 31" using p(2) by simp
  have sz: "to_i32 (int (length ?bt)) = int (length ?bt)" using len by simp
  show ?thesis
  proof (cases "?i < int (length ?bt)")
    case True
    then have n: "nat ?i < length ?bt" using i0 by linarith
    then have b: "0 \<le> ?bt ! nat ?i" "?bt ! nat ?i * bs + bs \<le> 2 ^ 31"
      using assms(1) by (simp_all add: entry_ok_def)
    have o: "0 \<le> ?o" "?o < bs" using assms(2) by simp_all
    have nn: "0 \<le> ?bt ! nat ?i * bs" using b(1) assms(2) by simp
    have c: "chk_i32 (?bt ! nat ?i * bs) = Some (?bt ! nat ?i * bs)"
        "chk_i32 (?bt ! nat ?i * bs + ?o) = Some (?bt ! nat ?i * bs + ?o)"
      using nn b(2) o by (auto intro!: chk_i32_Some)
    show ?thesis using d sz True n c i0 i31 assms(4) by (simp add: write_slot_def slot_of_def Let_def)
  next
    case False
    then show ?thesis using d sz i0 by (simp add: write_slot_def slot_of_def Let_def nat_less_iff)
  qed
qed

definition table_row :: "nat \<Rightarrow> nat \<Rightarrow> batch_entry list \<Rightarrow> int list \<Rightarrow> bool" where
  "table_row n mx es T \<longleftrightarrow> length T = n * mx \<and>
     (\<forall>i < n. \<forall>b < mx. T ! (i * mx + b) =
        (if i < length es \<and> b < length (be_block_table (es ! i)) then be_block_table (es ! i) ! b else 0))"

lemma row_index:
  fixes mx :: nat
  assumes "b < mx" and "c \<le> mx"
  shows "i * mx \<le> j * mx + b \<and> j * mx + b < i * mx + c \<longleftrightarrow> j = i \<and> b < c"
proof
  assume a: "i * mx \<le> j * mx + b \<and> j * mx + b < i * mx + c"
  have "\<not> i < j" using a assms(2) mult_le_mono1 [of "Suc i" j mx] by auto
  moreover have "\<not> j < i" using a assms(1) mult_le_mono1 [of "Suc j" i mx] by auto
  ultimately show "j = i \<and> b < c" using a by simp
qed auto

lemma table_row_copy:
  assumes "table_row n mx es T" and "length es < n" and "length (be_block_table e) \<le> mx" and "n * mx < size_max"
  shows "\<exists>T'. copy_row (length es) mx (be_block_table e) T = Some T' \<and> table_row n mx (es @ [e]) T'"
proof -
  let ?i = "length es" and ?bt = "be_block_table e"
  have T: "length T = n * mx" using assms(1) by (simp add: table_row_def)
  have "?i * mx + mx \<le> n * mx" using assms(2) mult_le_mono1 [of "Suc ?i" n mx] by simp
  then have "?i * mx + length ?bt \<le> length T" using T assms(3) by linarith
  note c = copy_row_spec [OF this] T assms(4)
  let ?T = "map (\<lambda>k. if ?i * mx \<le> k \<and> k < ?i * mx + length ?bt then ?bt ! (k - ?i * mx) else T ! k) [0..<length T]"
  have "?T ! (j * mx + b) = (if j < length (es @ [e]) \<and> b < length (be_block_table ((es @ [e]) ! j))
      then be_block_table ((es @ [e]) ! j) ! b else 0)" if j: "j < n" "b < mx" for j b
  proof -
    have "j * mx + b < n * mx" using j mult_le_mono1 [of "Suc j" n mx] by simp
    then have "?T ! (j * mx + b) = (if ?i * mx \<le> j * mx + b \<and> j * mx + b < ?i * mx + length ?bt
        then ?bt ! (j * mx + b - ?i * mx) else T ! (j * mx + b))" using T by simp
    also have "\<dots> = (if j = ?i \<and> b < length ?bt then ?bt ! b else T ! (j * mx + b))"
      using row_index [OF j(2) assms(3), of ?i j] by auto
    also have "\<dots> = (if j < length (es @ [e]) \<and> b < length (be_block_table ((es @ [e]) ! j))
        then be_block_table ((es @ [e]) ! j) ! b else 0)"
      using assms(1) j by (auto simp: table_row_def nth_append less_Suc_eq)
    finally show ?thesis .
  qed
  then show ?thesis using c by (intro exI [of _ ?T]) (simp add: table_row_def)
qed

lemma prepare_entries:
  assumes "length es \<le> n" and "n \<le> tt" and "n * mx < size_max" and "0 < bs" and "bs < 2 ^ 31"
    and "\<forall>e \<in> set es. entry_ok bs e \<and> length (be_block_table e) \<le> mx"
  shows "\<exists>T. foldM (prepare_entry bs mx) (enumerate 0 es) (replicate (n * mx) 0, replicate n None, replicate tt None) =
    Some (T, map (\<lambda>e. Some (be_position e + 1)) es @ replicate (n - length es) None,
      map (slot_of bs) es @ replicate (tt - length es) None) \<and> table_row n mx es T"
  using assms(1,6)
proof (induction es rule: rev_induct)
  case Nil
  have "i * mx + b < n * mx" if "i < n" "b < mx" for i b
    using that mult_le_mono1 [of "Suc i" n mx] by simp
  then show ?case by (simp add: table_row_def)
next
  case (snoc e es)
  then obtain T where T: "foldM (prepare_entry bs mx) (enumerate 0 es)
      (replicate (n * mx) 0, replicate n None, replicate tt None) =
    Some (T, map (\<lambda>e. Some (be_position e + 1)) es @ replicate (n - length es) None,
      map (slot_of bs) es @ replicate (tt - length es) None)" "table_row n mx es T"
    by auto
  have len: "length es < n" "length es < tt" using snoc.prems(1) assms(2) by simp_all
  obtain T' where T': "copy_row (length es) mx (be_block_table e) T = Some T'" "table_row n mx (es @ [e]) T'"
    using table_row_copy [OF T(2) len(1) _ assms(3)] snoc.prems(2) by auto
  have e: "entry_ok bs e" using snoc.prems(2) by simp
  have inc: "inc_i32 (be_position e) = Some (be_position e + 1)" using e by (simp add: entry_ok_def)
  obtain dn dt where n: "n - length es = Suc dn" "tt - length es = Suc dt"
    using len by (metis Suc_diff_Suc)
  have rep: "n - Suc (length es) = dn" "tt - Suc (length es) = dt" using n by simp_all
  have upd: "(map f es @ None # r)[length es := Some v] = map f es @ Some v # r" for f and v :: int and r
    by (simp add: list_update_append)
  have ws: "write_slot bs (length es) e (map (slot_of bs) es @ None # replicate dt None) =
      Some (map (slot_of bs) es @ slot_of bs e # replicate dt None)"
    using write_slot_spec [OF e assms(4,5), of "length es" "map (slot_of bs) es @ None # replicate dt None"]
    by (cases "slot_of bs e") (simp_all add: upd)
  have "prepare_entry bs mx (length es, e) (T, map (\<lambda>e. Some (be_position e + 1)) es @ replicate (n - length es) None,
      map (slot_of bs) es @ replicate (tt - length es) None) =
    Some (T', map (\<lambda>e. Some (be_position e + 1)) (es @ [e]) @ replicate (n - length (es @ [e])) None,
      map (slot_of bs) (es @ [e]) @ replicate (tt - length (es @ [e])) None)"
    using inc T'(1) ws by (simp add: prepare_entry_def n rep upd)
  then show ?case using T(1) T'(2) by (simp add: enumerate_append_eq foldM_append)
qed

lemma max_table_ge: "e \<in> set es \<Longrightarrow> length (be_block_table e) \<le> max_table es"
proof -
  have lo: "z \<le> fold (\<lambda>e m. max m (length (be_block_table e))) es z" for es z
  proof (induction es arbitrary: z)
    case (Cons a es)
    from Cons.IH [of "max z (length (be_block_table a))"] show ?case by simp
  qed simp
  have "e \<in> set es \<Longrightarrow> length (be_block_table e) \<le> fold (\<lambda>e m. max m (length (be_block_table e))) es z" for es z
  proof (induction es arbitrary: z)
    case (Cons a es)
    show ?case using Cons lo [of "max z (length (be_block_table a))" es] by auto
  qed simp
  then show "e \<in> set es \<Longrightarrow> length (be_block_table e) \<le> max_table es" by (simp add: max_table_def)
qed

lemma max_table_le: "(\<And>e. e \<in> set es \<Longrightarrow> length (be_block_table e) \<le> n) \<Longrightarrow> max_table es \<le> n"
proof -
  have "(\<And>e. e \<in> set es \<Longrightarrow> length (be_block_table e) \<le> n) \<Longrightarrow> z \<le> n \<Longrightarrow>
      fold (\<lambda>e m. max m (length (be_block_table e))) es z \<le> n" for z
    by (induction es arbitrary: z) auto
  then show "(\<And>e. e \<in> set es \<Longrightarrow> length (be_block_table e) \<le> n) \<Longrightarrow> max_table es \<le> n"
    by (simp add: max_table_def)
qed

lemma prepare_result:
  assumes "0 < block_size c" and "block_size c < 2 ^ 31"
    and "\<forall>e \<in> set (entries batch). entry_ok (int (block_size c)) e"
    and "length (entries batch) * max_table (entries batch) < size_max"
    and "length (entries batch) \<le> total_tokens batch"
  shows "\<exists>ctx1. prepare_kv_cache_inputs m c pm batch ctx = Some ctx1 \<and>
    dc_batch ctx1 = dc_batch ctx \<and> dc_logits ctx1 = dc_logits ctx \<and> dc_key_cache_ptr ctx1 = mp_base (pm_gpu_pool pm) \<and>
    table_row (length (entries batch)) (max_table (entries batch)) (entries batch) (dc_block_tables ctx1) \<and>
    dc_context_lens ctx1 = map (\<lambda>e. Some (be_position e + 1)) (entries batch) \<and>
    dc_slot_mapping ctx1 = map (slot_of (int (block_size c))) (entries batch) @
      replicate (total_tokens batch - length (entries batch)) None"
proof -
  have bs: "to_i32 (int (block_size c)) = int (block_size c)" using assms(2) by simp
  obtain T where "foldM (prepare_entry (int (block_size c)) (max_table (entries batch))) (enumerate 0 (entries batch))
      (replicate (length (entries batch) * max_table (entries batch)) 0, replicate (length (entries batch)) None,
       replicate (total_tokens batch) None) =
    Some (T, map (\<lambda>e. Some (be_position e + 1)) (entries batch),
      map (slot_of (int (block_size c))) (entries batch) @ replicate (total_tokens batch - length (entries batch)) None)"
      "table_row (length (entries batch)) (max_table (entries batch)) (entries batch) T"
    using prepare_entries [of "entries batch" "length (entries batch)" "total_tokens batch" "max_table (entries batch)"
        "int (block_size c)"] assms max_table_ge [of _ "entries batch"] by auto
  then show ?thesis using assms(4) by (simp add: prepare_kv_cache_inputs_def Let_def bs)
qed

section \<open>Slots of the tokens in flight\<close>

text \<open>The slot of position \<open>i\<close> of a sequence with block table \<open>bt\<close>.\<close>

definition flat_slot :: "block_id list \<Rightarrow> nat \<Rightarrow> nat \<Rightarrow> int" where
  "flat_slot bt bs i = bt ! (i div bs) * int bs + int (i mod bs)"

lemma flat_slot_block:
  assumes "0 < bs"
  shows "flat_slot bt bs i div int bs = bt ! (i div bs)" and "flat_slot bt bs i mod int bs = int (i mod bs)"
  using assms by (simp_all add: flat_slot_def zmod_int [symmetric])

lemma flat_slot_inj:
  assumes "0 < bs" and "distinct bt" and "i < length bt * bs" and "j < length bt * bs"
    and "flat_slot bt bs i = flat_slot bt bs j"
  shows "i = j"
proof -
  have "bt ! (i div bs) = bt ! (j div bs)" "i mod bs = j mod bs"
    using flat_slot_block [OF assms(1), of bt] assms(5) by (metis, metis of_nat_eq_iff)
  moreover have "i div bs < length bt" "j div bs < length bt"
    using assms(1,3,4) by (simp_all add: less_mult_imp_div_less)
  ultimately have "i div bs = j div bs" "i mod bs = j mod bs" using assms(2) by (simp_all add: nth_eq_iff_index_eq)
  then show ?thesis by (metis div_mult_mod_eq)
qed

lemma slot_of_flat:
  assumes "0 \<le> be_position e" and "nat (be_position e) < length (be_block_table e) * bs" and "0 < bs"
  shows "slot_of (int bs) e = Some (flat_slot (be_block_table e) bs (nat (be_position e)))"
proof -
  obtain n where n: "be_position e = int n" using assms(1) nonneg_int_cases by blast
  then have "n div bs < length (be_block_table e)" using assms(2,3) by (simp add: less_mult_imp_div_less)
  then show ?thesis using n by (simp add: slot_of_def Let_def flat_slot_def zdiv_int [symmetric] zmod_int)
qed

text \<open>The entries of one sequence with room for its tokens have distinct slots in its own blocks.\<close>

lemma seq_slots:
  assumes "0 < bs" and "total_len q \<le> length (logical_blocks q) * bs" and "total_len q \<le> 2 ^ 31 - 1"
    and "distinct (logical_blocks q)"
  shows "distinct (map (slot_of (int bs)) (seq_entries q))"
    and "\<forall>x \<in> set (map (slot_of (int bs)) (seq_entries q)). \<exists>k. x = Some k \<and> k div int bs \<in> set (logical_blocks q)"
proof -
  note pos = seq_entries_positions [OF assms(3)]
  have sl: "slot_of (int bs) e = Some (flat_slot (logical_blocks q) bs (nat (be_position e)))"
    and lt: "nat (be_position e) < length (logical_blocks q) * bs" if "e \<in> set (seq_entries q)" for e
    using slot_of_flat [of e bs] pos [OF that] assms(1,2) by auto
  have "inj_on (slot_of (int bs)) (set (seq_entries q))"
  proof (rule inj_onI)
    fix e e' assume e: "e \<in> set (seq_entries q)" "e' \<in> set (seq_entries q)" "slot_of (int bs) e = slot_of (int bs) e'"
    then have "nat (be_position e) = nat (be_position e')"
      using sl lt flat_slot_inj [OF assms(1,4)] by (metis option.inject)
    then have p: "be_position e = be_position e'" using pos(1) e(1,2) by (metis nat_eq_iff2)
    show "e = e'"
    proof (cases "output_tokens q = []")
      case True
      have fin: "\<not> seq_finished q" using pos(6) [OF e(1)] .
      have ids: "to_i32 (int k) = int k" if "k < prompt_len q" for k
        using that assms(3) by (intro to_i32_of_nat) (simp add: total_len_def)
      from e(1,2) p True fin show ?thesis by (auto simp: seq_entries_def ids)
    next
      case False
      then show ?thesis using e(1,2) by (auto simp: seq_entries_def split: if_splits)
    qed
  qed
  moreover have "distinct (seq_entries q)"
  proof (cases "output_tokens q = []")
    case True
    have "inj_on (\<lambda>i. to_i32 (int i)) {0..<prompt_len q}"
      using assms(3) by (intro inj_onI) (simp add: total_len_def)
    then show ?thesis using True by (auto simp: seq_entries_def distinct_map inj_on_def)
  qed (simp add: seq_entries_def)
  ultimately show "distinct (map (slot_of (int bs)) (seq_entries q))" by (simp add: distinct_map)
  have "logical_blocks q ! (nat (be_position e) div bs) \<in> set (logical_blocks q)" if "e \<in> set (seq_entries q)" for e
    using lt [OF that] assms(1) by (intro nth_mem) (simp add: less_mult_imp_div_less)
  then show "\<forall>x \<in> set (map (slot_of (int bs)) (seq_entries q)). \<exists>k. x = Some k \<and> k div int bs \<in> set (logical_blocks q)"
    using sl flat_slot_block(1) [OF assms(1)] by auto
qed

text \<open>What the serving loop guarantees of a scheduled group.\<close>

lemma scheduled_table:
  assumes inv: "base_inv no_ext s" and rm: "rooms s out" and p: "p \<in> set (scheduled_groups out)"
  obtains g q where "sc_heap s p = Some g" "sequences g = [q]" "\<not> seq_finished q"
    "total_len q \<le> length (logical_blocks q) * bm_block_size (sc_bm s)"
    "logical_blocks q = gpu_held (sc_bm s) (request_id g)" "p \<in> set (sc_running s)"
proof -
  obtain g q where g: "sc_heap s p = Some g" "sequences g = [q]" "\<not> seq_finished q"
      "total_len q \<le> length (logical_blocks q) * bm_block_size (sc_bm s)"
    using rm p unfolding rooms_def has_room_def by blast
  have run: "p \<in> set (sc_running s)" using rm p by (auto simp: rooms_def)
  from that g run running_table(1) [OF inv run g(1) _ g(3)] show thesis using g(2) by simp
qed

definition table_ok :: "scheduler \<Rightarrow> ptr \<Rightarrow> sequence_group \<Rightarrow> sequence_data \<Rightarrow> bool" where
  "table_ok s p g q \<longleftrightarrow> sc_heap s p = Some g \<and> group_entries g = seq_entries q \<and>
     logical_blocks q = gpu_held (sc_bm s) (request_id g) \<and>
     total_len q \<le> length (logical_blocks q) * bm_block_size (sc_bm s) \<and> total_len q \<le> 2 ^ 31 - 1 \<and>
     distinct (logical_blocks q)"

definition slots_of :: "scheduler \<Rightarrow> ptr \<Rightarrow> int option list" where
  "slots_of s p = map (slot_of (int (bm_block_size (sc_bm s)))) (group_entries (the (sc_heap s p)))"

lemma table_ok_slots:
  assumes "table_ok s p g q" and "0 < bm_block_size (sc_bm s)"
  shows "distinct (slots_of s p)"
    and "x \<in> set (slots_of s p) \<Longrightarrow> \<exists>k. x = Some k \<and> k div int (bm_block_size (sc_bm s)) \<in> set (gpu_held (sc_bm s) (request_id g))"
proof -
  have t: "sc_heap s p = Some g" "group_entries g = seq_entries q"
      "total_len q \<le> length (logical_blocks q) * bm_block_size (sc_bm s)" "total_len q \<le> 2 ^ 31 - 1"
      "distinct (logical_blocks q)" and held: "gpu_held (sc_bm s) (request_id g) = logical_blocks q"
    using assms(1) unfolding table_ok_def by (auto simp only:)
  note sq = seq_slots [OF assms(2) t(3,4,5)]
  have f: "slots_of s p = map (slot_of (int (bm_block_size (sc_bm s)))) (seq_entries q)" using t by (simp add: slots_of_def)
  show "distinct (slots_of s p)" unfolding f by (rule sq(1))
  show "\<exists>k. x = Some k \<and> k div int (bm_block_size (sc_bm s)) \<in> set (gpu_held (sc_bm s) (request_id g))"
    if x: "x \<in> set (slots_of s p)"
    using sq(2) x unfolding f held by blast
qed

lemma scheduled_tables:
  assumes inv: "base_inv no_ext s" and rm: "rooms s out" and p: "p \<in> set (scheduled_groups out)"
    and len: "\<forall>p \<in> set (scheduled_groups out). \<forall>q \<in> set (sequences (the (sc_heap s p))). total_len q \<le> 2 ^ 31 - 1"
  shows "\<exists>g q. table_ok s p g q"
proof -
  obtain g q where g: "sc_heap s p = Some g" "sequences g = [q]" "\<not> seq_finished q"
      "total_len q \<le> length (logical_blocks q) * bm_block_size (sc_bm s)"
      "logical_blocks q = gpu_held (sc_bm s) (request_id g)"
    using scheduled_table [OF inv rm p] by metis
  have gi: "gpu_inv no_ext (sc_bm s)" using inv by (simp add: base_inv_def blocks_inv_def)
  have "total_len q \<le> 2 ^ 31 - 1" using len p g(1,2) by fastforce
  moreover have "distinct (logical_blocks q)" using ka.held_distinct [OF gi] g(5) by simp
  ultimately have "table_ok s p g q" using g by (simp add: table_ok_def group_entries_def)
  then show ?thesis by blast
qed

lemma slots_disjoint_groups:
  assumes inv: "base_inv no_ext s" and t: "table_ok s p g q" "table_ok s p' g' q'" and "p \<noteq> p'"
  shows "set (slots_of s p) \<inter> set (slots_of s p') = {}"
proof (rule ccontr)
  assume "set (slots_of s p) \<inter> set (slots_of s p') \<noteq> {}"
  then obtain x where x: "x \<in> set (slots_of s p)" "x \<in> set (slots_of s p')" by blast
  have gi: "gpu_inv no_ext (sc_bm s)" and bs: "0 < bm_block_size (sc_bm s)"
    using inv by (simp_all add: base_inv_def blocks_inv_def)
  obtain k where k: "x = Some k" "k div int (bm_block_size (sc_bm s)) \<in> set (gpu_held (sc_bm s) (request_id g))"
    using table_ok_slots(2) [OF t(1) bs x(1)] by blast
  obtain k' where k': "x = Some k'" "k' div int (bm_block_size (sc_bm s)) \<in> set (gpu_held (sc_bm s) (request_id g'))"
    using table_ok_slots(2) [OF t(2) bs x(2)] by blast
  have "sc_heap s p = Some g" "sc_heap s p' = Some g'" using t by (simp_all add: table_ok_def)
  then have "request_id g \<noteq> request_id g'"
    using base_inv_parts(3) [OF inv] assms(4) unfolding blocks_inv_def by blast
  then have "set (gpu_held (sc_bm s) (request_id g)) \<inter> set (gpu_held (sc_bm s) (request_id g')) = {}"
    using ka.held_disjoint [OF gi] by simp
  then show False using k k' by auto
qed

lemma slot_in_cache:
  fixes k :: int
  assumes "0 < bs" and "0 \<le> k div int bs" and "k div int bs < int n"
  shows "0 \<le> k" and "k < int (n * bs)"
proof -
  have e: "k = int bs * (k div int bs) + k mod int bs" by simp
  have m: "0 \<le> k mod int bs" "k mod int bs < int bs" using assms(1) by simp_all
  have "int bs * (k div int bs) + int bs \<le> int bs * int n"
    using assms(3) mult_left_mono [of "k div int bs + 1" "int n" "int bs"] by (simp add: algebra_simps)
  moreover have "0 \<le> int bs * (k div int bs)" using assms(2) by simp
  ultimately show "0 \<le> k" "k < int (n * bs)" using e m unfolding of_nat_mult mult.commute [of "int n"] by linarith+
qed

lemma scheduled_slots:
  assumes inv: "base_inv no_ext s" and rm: "rooms s out" and dist: "distinct (scheduled_groups out)"
    and len: "\<forall>p \<in> set (scheduled_groups out). \<forall>q \<in> set (sequences (the (sc_heap s p))). total_len q \<le> 2 ^ 31 - 1"
  defines "es \<equiv> concat (map (\<lambda>p. group_entries (the (sc_heap s p))) (scheduled_groups out))"
  defines "bs \<equiv> bm_block_size (sc_bm s)"
  shows "distinct (map (slot_of (int bs)) es)"
    and "x \<in> set (map (slot_of (int bs)) es) \<Longrightarrow> \<exists>k. x = Some k \<and> 0 \<le> k \<and> k < int (num_total_gpu_blocks (sc_bm s) * bs)"
    and "e \<in> set es \<Longrightarrow> 0 \<le> be_position e \<and> be_position e < 2 ^ 31 - 1 \<and> distinct (be_block_table e) \<and>
      (\<forall>b \<in> set (be_block_table e). 0 \<le> b \<and> b < int (num_total_gpu_blocks (sc_bm s))) \<and>
      be_position e < int (length (be_block_table e) * bs)"
proof -
  have gi: "gpu_inv no_ext (sc_bm s)" and bs: "0 < bm_block_size (sc_bm s)"
    using inv by (simp_all add: base_inv_def blocks_inv_def)
  note grp = scheduled_tables [OF inv rm _ len]
  have m: "map (slot_of (int bs)) es = concat (map (slots_of s) (scheduled_groups out))"
    unfolding es_def bs_def map_concat by (simp add: comp_def slots_of_def [abs_def])
  show "distinct (map (slot_of (int bs)) es)" unfolding m
  proof (rule distinct_concat_map [OF dist])
    fix p p'
    show "distinct (slots_of s p)" if p: "p \<in> set (scheduled_groups out)"
      using grp [OF p] table_ok_slots(1) [OF _ bs] by blast
    show "set (slots_of s p) \<inter> set (slots_of s p') = {}"
      if p: "p \<in> set (scheduled_groups out)" "p' \<in> set (scheduled_groups out)" "p \<noteq> p'"
      using grp [OF p(1)] grp [OF p(2)] slots_disjoint_groups [OF inv _ _ p(3)] by blast
  qed
  show "\<exists>k. x = Some k \<and> 0 \<le> k \<and> k < int (num_total_gpu_blocks (sc_bm s) * bs)"
    if x: "x \<in> set (map (slot_of (int bs)) es)"
  proof -
    obtain p where p: "p \<in> set (scheduled_groups out)" "x \<in> set (slots_of s p)" using x unfolding m by auto
    obtain g q where "table_ok s p g q" using grp [OF p(1)] by blast
    then obtain k where k: "x = Some k" "k div int (bm_block_size (sc_bm s)) \<in> set (gpu_held (sc_bm s) (request_id g))"
      using table_ok_slots(2) [OF _ bs p(2)] by blast
    from slot_in_cache [OF bs held_block(1,2) [OF gi k(2)]] k(1) show ?thesis by (simp add: bs_def)
  qed
  show "0 \<le> be_position e \<and> be_position e < 2 ^ 31 - 1 \<and> distinct (be_block_table e) \<and>
      (\<forall>b \<in> set (be_block_table e). 0 \<le> b \<and> b < int (num_total_gpu_blocks (sc_bm s))) \<and>
      be_position e < int (length (be_block_table e) * bs)" if e: "e \<in> set es"
  proof -
    obtain p where p: "p \<in> set (scheduled_groups out)" "e \<in> set (group_entries (the (sc_heap s p)))"
      using e by (auto simp: es_def)
    obtain g q where t: "table_ok s p g q" using grp [OF p(1)] by blast
    note t' = t [unfolded table_ok_def]
    have mem: "e \<in> set (seq_entries q)" and l31: "total_len q \<le> 2 ^ 31 - 1" using p(2) t' by simp_all
    note ep = seq_entries_positions [OF l31 mem]
    have "be_position e < int (length (logical_blocks q) * bs)"
      using ep(2) t' by (simp only: bs_def) (metis of_nat_mono order_less_le_trans)
    moreover have "\<forall>b \<in> set (logical_blocks q). 0 \<le> b \<and> b < int (num_total_gpu_blocks (sc_bm s))"
      using t' held_block(1,2) [OF gi] by simp
    moreover have "distinct (logical_blocks q)" using t' by blast
    ultimately show ?thesis unfolding ep(4) using ep(1,3) by blast
  qed
qed

section \<open>The reads of the attention on the CPU\<close>

text \<open>
  The offset of a key vector is computed without overflow and the whole vector lies inside a cache
  of \<open>n\<close> blocks.
\<close>

lemma nested_index:
  fixes a b n m :: int
  assumes "0 \<le> a" and "a < n" and "0 \<le> b" and "b < m"
  shows "0 \<le> a * m + b" and "a * m + b < n * m"
proof -
  show "0 \<le> a * m + b" using assms by simp
  have "a * m + m \<le> n * m" using assms mult_right_mono [of "a + 1" n m] by (simp add: algebra_simps)
  then show "a * m + b < n * m" using assms(4) by linarith
qed

lemma key_offset_spec:
  assumes "0 \<le> phys" "phys < n" "0 \<le> kv_h" "kv_h < kv" "0 \<le> off" "off < bs" "0 < hdim" "n * kv * bs * hdim < 2 ^ 31"
  shows "key_offset kv bs hdim phys kv_h off = Some (((phys * kv + kv_h) * bs + off) * hdim)"
    and "0 \<le> ((phys * kv + kv_h) * bs + off) * hdim"
    and "((phys * kv + kv_h) * bs + off) * hdim + hdim \<le> n * kv * bs * hdim"
proof -
  note i1 = nested_index [OF assms(1-4)]
  note i2 = nested_index [OF i1 assms(5,6)]
  show nn: "0 \<le> ((phys * kv + kv_h) * bs + off) * hdim" using i2(1) assms(7) by simp
  show top: "((phys * kv + kv_h) * bs + off) * hdim + hdim \<le> n * kv * bs * hdim"
    using i2(2) assms(7) mult_right_mono [of "(phys * kv + kv_h) * bs + off + 1" "n * kv * bs" hdim]
    by (simp add: algebra_simps)
  have grow: "x \<le> x * y" if "0 \<le> x" "0 < y" for x y :: int
    using that mult_left_mono [of 1 y x] by simp
  have bs: "0 < bs" and kv: "0 < kv" using assms(3-6) by linarith+
  have c5: "((phys * kv + kv_h) * bs + off) * hdim < 2 ^ 31" using top assms(7,8) by linarith
  have c4: "(phys * kv + kv_h) * bs + off < 2 ^ 31" using c5 grow [OF i2(1) assms(7)] by linarith
  have c3: "(phys * kv + kv_h) * bs < 2 ^ 31" "0 \<le> (phys * kv + kv_h) * bs" using c4 assms(5) i1(1) bs by simp_all
  have c2: "phys * kv + kv_h < 2 ^ 31" using c3 grow [OF i1(1) bs] by linarith
  have c1: "phys * kv < 2 ^ 31" "0 \<le> phys * kv" using c2 assms(1,3) kv by simp_all
  show "key_offset kv bs hdim phys kv_h off = Some (((phys * kv + kv_h) * bs + off) * hdim)"
    using c1 c2 c3 c4 c5 i1(1) i2(1) nn by (simp add: key_offset_def)
qed

lemma key_norm_defined:
  assumes "\<forall>i < sz. mem i \<noteq> None" and "0 \<le> k" and "k + int n \<le> int sz"
  shows "\<exists>x. key_norm mem k n = Some x"
proof -
  have "\<exists>x. foldM (\<lambda>d dot. do { x \<leftarrow> read_cache mem (k + int d); Some (dot + x * x) }) ds z = Some x"
    if "\<forall>d \<in> set ds. d < n" for ds z
    using that
  proof (induction ds arbitrary: z)
    case (Cons d ds)
    have "nat (k + int d) < sz" using Cons.prems assms(2,3) by auto
    then obtain y where "read_cache mem (k + int d) = Some y"
      using assms(1,2) by (auto simp: read_cache_def)
    then show ?case using Cons by simp
  qed simp
  then show ?thesis by (simp add: key_norm_def)
qed

text \<open>What the CPU attention needs of the model, the cache and an entry.\<close>

definition model_fits :: "model_config \<Rightarrow> nat \<Rightarrow> nat \<Rightarrow> (nat \<Rightarrow> real option) \<Rightarrow> bool" where
  "model_fits m bs n mem \<longleftrightarrow>
     0 < n_kv_heads m \<and> n_kv_heads m dvd n_heads m \<and> 0 < n_heads m \<and> n_heads m < 2 ^ 31 \<and> 0 < head_dim m \<and> 0 < bs \<and>
     int n * n_kv_heads m * int bs * head_dim m < 2 ^ 31 \<and>
     (\<forall>i < nat (int n * n_kv_heads m * int bs * head_dim m). mem i \<noteq> None)"

definition attends_ok :: "model_config \<Rightarrow> nat \<Rightarrow> nat \<Rightarrow> (nat \<Rightarrow> real option) \<Rightarrow> batch_entry \<Rightarrow> bool" where
  "attends_ok m bs n mem e \<longleftrightarrow> model_fits m bs n mem \<and>
     0 \<le> be_position e \<and> be_position e < 2 ^ 31 - 1 \<and> length (be_block_table e) < 2 ^ 31 \<and>
     (\<forall>b \<in> set (be_block_table e). 0 \<le> b \<and> b < int n)"

lemma score_step_defined:
  assumes "attends_ok m bs n mem e" and "0 \<le> kv_h" and "kv_h < n_kv_heads m" and "t < length scores" and "int t < 2 ^ 31"
  shows "\<exists>scores' mx'. score_step m (int bs) mem e kv_h t (scores, mx) = Some (scores', mx') \<and> length scores' = length scores"
proof -
  note ok = assms(1) [unfolded attends_ok_def model_fits_def]
  have d: "div_i32 (int t) (int bs) = Some (int (t div bs))" "mod_i32 (int t) (int bs) = Some (int (t mod bs))"
    using ok assms(5) by (simp_all add: zdiv_int zmod_int)
  have sz: "to_i32 (int (length (be_block_table e))) = int (length (be_block_table e))" using ok by simp
  show ?thesis
  proof (cases "t div bs < length (be_block_table e)")
    case True
    then have v: "vec_at (be_block_table e) (size_of_i32 (int (t div bs))) = Some (be_block_table e ! (t div bs))"
      using assms(5) ok by simp
    have "be_block_table e ! (t div bs) \<in> set (be_block_table e)" using True by simp
    then have ph: "0 \<le> be_block_table e ! (t div bs)" "be_block_table e ! (t div bs) < int n" using ok by blast+
    have off: "0 \<le> int (t mod bs)" "int (t mod bs) < int bs" using ok by simp_all
    note k = key_offset_spec [OF ph assms(2,3) off, of "head_dim m"]
    let ?k = "((be_block_table e ! (t div bs) * n_kv_heads m + kv_h) * int bs + int (t mod bs)) * head_dim m"
    have "\<exists>x. key_norm mem ?k (nat (head_dim m)) = Some x"
      by (rule key_norm_defined [of "nat (int n * n_kv_heads m * int bs * head_dim m)"])
         (use ok k in \<open>auto simp: nat_le_iff\<close>)
    then show ?thesis using d sz True v k(1) ok assms(4)
      by (auto simp: score_step_def Let_def)
  next
    case False
    then show ?thesis using d sz by (simp add: score_step_def)
  qed
qed

lemma attention_head_defined:
  assumes "attends_ok m bs n mem e" and "int h < n_heads m"
  shows "\<exists>w. attention_head m (int bs) mem e h = Some w"
proof -
  note ok = assms(1) [unfolded attends_ok_def model_fits_def]
  obtain r where r: "n_heads m = n_kv_heads m * r" using ok by (elim conjE dvdE)
  have r0: "0 < r" using ok r by (metis zero_less_mult_pos)
  have nh: "0 \<le> n_heads m" "0 < n_kv_heads m" "n_heads m < 2 ^ 31" using ok by simp_all
  have g: "div_i32 (n_heads m) (n_kv_heads m) = Some r" using div_i32_Some [OF nh(1,3,2)] nh(2) r by simp
  have kvh: "div_i32 (int h) r = Some (int h div r)" using assms(2) nh(3) r0 by (intro div_i32_Some) auto
  have k0: "0 \<le> int h div r" using r0 by (simp add: pos_imp_zdiv_nonneg_iff)
  have "int h div r * r \<le> int h" using r0 div_mult_mod_eq [of "int h" r] pos_mod_sign [OF r0, of "int h"] by linarith
  then have "int h div r * r < n_kv_heads m * r" using assms(2) r by linarith
  then have k1: "int h div r < n_kv_heads m" using r0 mult_less_cancel_right_pos by blast
  note k = k0 k1
  let ?L = "nat (be_position e + 1)"
  have inc: "inc_i32 (be_position e) = Some (be_position e + 1)" using ok by simp
  have "\<exists>sc mx'. foldM (score_step m (int bs) mem e (int h div r)) ts (scores, mx) = Some (sc, mx')"
    if "length scores = ?L" "\<forall>t \<in> set ts. t < ?L" for ts scores mx
    using that
  proof (induction ts arbitrary: scores mx)
    case (Cons t ts)
    have "t < length scores" "int t < 2 ^ 31" using Cons.prems ok by auto
    then obtain scores' mx' where "score_step m (int bs) mem e (int h div r) t (scores, mx) = Some (scores', mx')"
        "length scores' = length scores"
      using score_step_defined [OF assms(1) k] by blast
    then show ?case using Cons.IH [of scores' mx'] Cons.prems by simp
  qed simp
  from this [of "replicate ?L 0" "[0..<?L]" "- (10 ^ 30)"] obtain sc mx'
    where "foldM (score_step m (int bs) mem e (int h div r)) [0..<?L] (replicate ?L 0, - (10 ^ 30)) = Some (sc, mx')"
    by auto
  then show ?thesis using inc g kvh ok by (simp add: attention_head_def)
qed

lemma foldM_unit_defined: "(\<And>x. x \<in> set xs \<Longrightarrow> f x () = Some ()) \<Longrightarrow> foldM f xs () = Some ()"
  by (induction xs) simp_all

lemma attention_cpu_defined:
  assumes "\<forall>e \<in> set (entries (dc_batch ctx)). attends_ok m (block_size c) n mem e" and "block_size c < 2 ^ 31"
  shows "execute_attention_cpu m c mem ctx = Some ()"
proof -
  have bs: "to_i32 (int (block_size c)) = int (block_size c)" using assms(2) by simp
  have "map_option (\<lambda>_. ()) (attention_head m (int (block_size c)) mem e h) = Some ()"
    if "e \<in> set (entries (dc_batch ctx))" "h < nat (n_heads m)" for e h
    using attention_head_defined [of m "block_size c" n mem e h] assms(1) that by auto
  then have "foldM (\<lambda>e _. foldM (\<lambda>h _. map_option (\<lambda>_. ()) (attention_head m (int (block_size c)) mem e h))
      [0..<nat (n_heads m)] ()) (entries (dc_batch ctx)) () = Some ()"
    by (intro foldM_unit_defined) simp
  then show ?thesis by (simp add: execute_attention_cpu_def bs)
qed

section \<open>From a scheduling step to the kernel inputs\<close>

text \<open>What a scheduling step of the loop and the geometry of the cache have to satisfy.\<close>

definition cache_fits :: "cache_config \<Rightarrow> scheduler \<Rightarrow> scheduler_output \<Rightarrow> bool" where
  "cache_fits cc s out \<longleftrightarrow> block_size cc = bm_block_size (sc_bm s) \<and> block_size cc < 2 ^ 31 \<and>
     num_total_gpu_blocks (sc_bm s) < 2 ^ 31 \<and> num_total_gpu_blocks (sc_bm s) * block_size cc \<le> 2 ^ 31 \<and>
     (\<forall>p \<in> set (scheduled_groups out). \<forall>q \<in> set (sequences (the (sc_heap s p))). total_len q \<le> 2 ^ 31 - 1)"

lemma distinct_int_range:
  "distinct xs \<Longrightarrow> (\<And>x. x \<in> set xs \<Longrightarrow> 0 \<le> x \<and> x < int n) \<Longrightarrow> length xs \<le> n"
proof -
  assume a: "distinct xs" "\<And>x. x \<in> set xs \<Longrightarrow> 0 \<le> x \<and> x < int n"
  have "set xs \<subseteq> {0..<int n}" using a(2) by auto
  then have "card (set xs) \<le> card {0..<int n}" by (intro card_mono) simp_all
  then show "length xs \<le> n" using a(1) by (simp add: distinct_card)
qed

lemma distinct_map_Some:
  assumes "distinct xs" and "\<And>x. x \<in> set xs \<Longrightarrow> \<exists>k. x = Some k \<and> P k"
  shows "\<exists>ks. xs = map Some ks \<and> distinct ks \<and> (\<forall>k \<in> set ks. P k)"
proof -
  have "map (Some \<circ> the) xs = xs" by (rule map_idI) (use assms(2) in force)
  then have "xs = map Some (map the xs)" by simp
  moreover have "\<forall>k \<in> set (map the xs). P k" by (auto dest!: assms(2))
  moreover have "distinct (map the xs)" using assms(1) by (auto simp: distinct_map inj_on_def dest!: assms(2))
  ultimately show ?thesis by blast
qed

lemma scheduled_batch:
  assumes inv: "base_inv no_ext s" and rm: "rooms s out" and dist: "distinct (scheduled_groups out)"
    and fits: "cache_fits cc s out"
  defines "n \<equiv> num_total_gpu_blocks (sc_bm s)"
  shows "\<exists>b bt'. build_batch (sc_heap s) out bt = Some (b, bt') \<and> total_tokens b = length (entries b) \<and>
    length (entries b) * max_table (entries b) < size_max \<and> 0 < block_size cc \<and>
    (\<forall>e \<in> set (entries b). entry_ok (int (block_size cc)) e \<and> length (be_block_table e) < 2 ^ 31 \<and>
      (\<forall>x \<in> set (be_block_table e). 0 \<le> x \<and> x < int n) \<and>
      be_position e < int (length (be_block_table e) * block_size cc)) \<and>
    (\<exists>ks. map (slot_of (int (block_size cc))) (entries b) = map Some ks \<and> distinct ks \<and>
      (\<forall>k \<in> set ks. 0 \<le> k \<and> k < int (n * block_size cc)))"
proof -
  let ?ps = "scheduled_groups out" and ?bs = "block_size cc"
  note f = fits [unfolded cache_fits_def]
  have len: "\<forall>p \<in> set ?ps. \<forall>q \<in> set (sequences (the (sc_heap s p))). total_len q \<le> 2 ^ 31 - 1" using f by blast
  have live: "set ?ps \<subseteq> dom (sc_heap s)" using rm unfolding rooms_def has_room_def by blast
  define es where "es = concat (map (\<lambda>p. group_entries (the (sc_heap s p))) ?ps)"
  obtain bt' where b: "build_batch (sc_heap s) out bt = Some (\<lparr>entries = es, total_tokens = length es\<rparr>, bt')"
    using build_batch_result [OF live len, where bt = bt, folded es_def] by blast
  have bs: "bm_block_size (sc_bm s) = ?bs" "0 < ?bs" using f inv by (simp_all add: base_inv_def blocks_inv_def)
  note sl = scheduled_slots [OF inv rm dist len, folded es_def, unfolded bs(1)]
  obtain ks where ks: "map (slot_of (int ?bs)) es = map Some ks" "distinct ks"
      "\<forall>k \<in> set ks. 0 \<le> k \<and> k < int (n * ?bs)"
    using distinct_map_Some [OF sl(1), of "\<lambda>k. 0 \<le> k \<and> k < int (n * ?bs)"] sl(2) unfolding n_def by metis
  have "length ks \<le> n * ?bs" by (rule distinct_int_range [OF ks(2)]) (use ks(3) in blast)
  moreover have "n * ?bs \<le> 2 ^ 31" using f unfolding n_def by blast
  ultimately have "length es \<le> 2 ^ 31" using map_eq_imp_length_eq [OF ks(1)] by linarith
  have tl: "length (be_block_table e) \<le> n" if "e \<in> set es" for e
    unfolding n_def by (rule distinct_int_range) (use sl(3) [OF that] in blast)+
  then have "max_table es \<le> n" by (rule max_table_le)
  then have "length es * max_table es \<le> 2 ^ 31 * 2 ^ 31"
    using \<open>length es \<le> 2 ^ 31\<close> f by (intro mult_le_mono) (simp_all add: n_def)
  then have sz: "length es * max_table es < size_max" by (simp add: size_max_def)
  have "entry_ok (int ?bs) e \<and> length (be_block_table e) < 2 ^ 31 \<and>
      (\<forall>x \<in> set (be_block_table e). 0 \<le> x \<and> x < int n) \<and> be_position e < int (length (be_block_table e) * ?bs)"
    if e: "e \<in> set es" for e
  proof -
    have "x * int ?bs + int ?bs \<le> 2 ^ 31" if "x \<in> set (be_block_table e)" for x
    proof -
      have "(x + 1) * int ?bs \<le> int n * int ?bs" using sl(3) [OF e] that by (intro mult_right_mono) (auto simp: n_def)
      also have "\<dots> \<le> 2 ^ 31" using f unfolding n_def by (metis of_nat_mono of_nat_mult of_nat_numeral of_nat_power)
      finally show ?thesis by (simp add: algebra_simps)
    qed
    moreover have "length (be_block_table e) < 2 ^ 31" using tl [OF e] f unfolding n_def by linarith
    ultimately show ?thesis using sl(3) [OF e] unfolding entry_ok_def n_def by blast
  qed
  then show ?thesis using b sz bs(2) ks by (intro exI [of _ "\<lparr>entries = es, total_tokens = length es\<rparr>"] exI [of _ bt']) auto
qed

section \<open>A whole engine step\<close>

lemma step_keeps_hist [simp]:
  "latency_hist (begin_step hash t n p) = latency_hist p" "latency_hist (mark hash t label p) = latency_hist p"
  by (simp_all add: begin_step_def mark_def trace_event_to_def)

lemma end_step_defined: "hg_wf (latency_hist p) \<Longrightarrow> \<exists>p'. end_step hash t1 t2 bm ms p = Some p'"
  using hg_record_wf [of "latency_hist p" ms] by (auto simp: end_step_def Let_def)

lemma count_step_tokens:
  "es_total_tokens (count_step b ms st) = es_total_tokens st + total_tokens b"
  "es_total_prefill_tokens (count_step b ms st) + es_total_decode_tokens (count_step b ms st) =
     es_total_prefill_tokens st + es_total_decode_tokens st + length (entries b)"
proof -
  let ?f = "\<lambda>e st. if be_is_prefill e then st\<lparr>es_total_prefill_tokens := es_total_prefill_tokens st + 1\<rparr>
                      else st\<lparr>es_total_decode_tokens := es_total_decode_tokens st + 1\<rparr>"
  have t: "es_total_tokens (fold ?f es st) = es_total_tokens st" for es and st :: engine_stats
    by (induction es arbitrary: st) simp_all
  have c: "es_total_prefill_tokens (fold ?f es st) + es_total_decode_tokens (fold ?f es st) =
      es_total_prefill_tokens st + es_total_decode_tokens st + length es" for es and st :: engine_stats
    by (induction es arbitrary: st) simp_all
  show "es_total_tokens (count_step b ms st) = es_total_tokens st + total_tokens b"
    "es_total_prefill_tokens (count_step b ms st) + es_total_decode_tokens (count_step b ms st) =
       es_total_prefill_tokens st + es_total_decode_tokens st + length (entries b)"
    by (simp_all add: count_step_def Let_def t c)
qed

lemma engine_step_defined:
  assumes sorts: "descending_sorts psort fsort" and vocab: "0 < vocab_size (en_model_config en)"
    and cc: "0 < block_size (en_cache_config en)" "block_size (en_cache_config en) < 2 ^ 31"
    and model: "model_fits (en_model_config en) (block_size (en_cache_config en)) n mem"
    and b: "total_tokens b = length (entries b)" "length (entries b) * max_table (entries b) < size_max"
      "\<forall>e \<in> set (entries b). entry_ok (int (block_size (en_cache_config en))) e \<and>
        (\<forall>x \<in> set (be_block_table e). 0 \<le> x \<and> x < int n)"
    and pf: "pred_option (\<lambda>p. hg_wf (latency_hist p)) pf"
  shows "\<exists>r en' pf' g'. engine_step psort fsort draw mem pm bm ck b (en, pf, g) = Some (r, en', pf', g') \<and>
    length (sr_new_tokens r) = length (entries b) \<and>
    (\<forall>t \<in> set (sr_new_tokens r). 0 \<le> t \<and> t < vocab_size (en_model_config en)) \<and>
    es_total_tokens (en_stats en') = es_total_tokens (en_stats en) + length (entries b)"
proof (cases "entries b = []")
  case True
  then show ?thesis by (simp add: engine_step_def batch_empty_def empty_step_result_def)
next
  case False
  let ?m = "en_model_config en" and ?c = "en_cache_config en" and ?n = "length (entries b)"
  let ?ctx = "decode_context_new b ?n (nat (vocab_size ?m))"
  have ok: "\<forall>e \<in> set (entries b). entry_ok (int (block_size ?c)) e" using b(3) by blast
  obtain ctx1 where ctx1: "prepare_kv_cache_inputs ?m ?c pm b ?ctx = Some ctx1" "dc_batch ctx1 = b"
      "dc_logits ctx1 = replicate (?n * nat (vocab_size ?m)) 0"
    using prepare_result [OF cc ok b(2), of ?m pm ?ctx] b(1) by (auto simp: decode_context_new_def)
  have "\<forall>e \<in> set (entries (dc_batch ctx1)). attends_ok ?m (block_size ?c) n mem e"
    using b(3) model ctx1(2) unfolding attends_ok_def entry_ok_def by blast
  from attention_cpu_defined [OF this cc(2)] obtain ctx2 where
    ctx2: "execute_attention ?m ?c mem ctx1 = Some ctx2" "dc_logits ctx2 = dc_logits ctx1"
    by (simp add: execute_attention_def)
  have "length (dc_logits ctx2) = (0 + ?n) * nat (vocab_size ?m)" using ctx1(3) ctx2(2) by simp
  from descending_sorts.sample_from_spec [OF sorts vocab this, of draw "replicate ?n default_sampling_params" g]
  obtain toks g' where toks: "sample psort fsort draw ?m (dc_logits ctx2) b (replicate ?n default_sampling_params) g = Some (toks, g')"
      "length toks = ?n" "\<forall>j < ?n. row_ok (vocab_size ?m) (dc_logits ctx2) (replicate ?n default_sampling_params) (0 + j) (toks ! j)"
    unfolding sample_def by blast
  have "0 \<le> toks ! j \<and> toks ! j < vocab_size ?m" if "j < ?n" for j
    using toks(3) that vocab by (fastforce simp: row_ok_def admissible_def)
  then have range: "\<forall>t \<in> set toks. 0 \<le> t \<and> t < vocab_size ?m" using toks(2) by (metis in_set_conv_nth)
  let ?pf = "map_option (mark (ck_hash ck) (ck_attention ck) ''attention_done'')
    (map_option (mark (ck_hash ck) (ck_prepared ck) ''kv_cache_prepared'')
      (map_option (begin_step (ck_hash ck) (ck_begin ck) (total_tokens b)) pf))"
  have "\<exists>pf4. (case ?pf of None \<Rightarrow> Some None
      | Some p \<Rightarrow> map_option Some (end_step (ck_hash ck) (ck_end1 ck) (ck_end2 ck) bm (ms_between (ck_start ck) (ck_end ck)) p)) = Some pf4"
    using pf end_step_defined by (cases pf) force+
  then show ?thesis using False ctx1(1) ctx2(1) toks(1,2) range b(1)
    by (auto simp: engine_step_def batch_empty_def Let_def count_step_tokens(1))
qed

definition demo_pools :: pool_manager where
  "demo_pools =
     \<lparr>pm_gpu_pool = \<lparr>mp_block_size_bytes = 64, mp_num_blocks = 4, mp_device = CUDA, mp_base = 64, mp_free_stack = []\<rparr>,
      pm_cpu_pool = \<lparr>mp_block_size_bytes = 64, mp_num_blocks = 2, mp_device = CPU, mp_base = 512, mp_free_stack = []\<rparr>\<rparr>"

definition demo_engine :: decode_engine where
  "demo_engine = decode_engine_new
     \<lparr>n_layers = 1, n_heads = 4, n_kv_heads = 2, head_dim = 2, vocab_size = 3, max_seq_len = 8\<rparr> (demo_cache 4 2)"

definition demo_clock :: step_clock where
  "demo_clock = \<lparr>ck_hash = 1, ck_start = 0, ck_begin = 1, ck_prepared = 2, ck_attention = 3, ck_end = 4,
     ck_end1 = 5, ck_end2 = 6\<rparr>"

text \<open>The second scheduling step of a small run, on which both properties are instantiated.\<close>

lemma demo_second_step:
  obtains s out s' where "exec True demo_two (demo_start RECOMPUTE 4 2) = Some (s, None)"
    "serving all_open (demo_start RECOMPUTE 4 2) s None" "all_open s" "schedule s = Some (out, s')"
    "cache_fits (demo_cache 4 2) s' out" "num_total_gpu_blocks (sc_bm s') = 4"
proof -
  obtain s out s' where e: "exec True demo_two (demo_start RECOMPUTE 4 2) = Some (s, None)"
    and r: "schedule s = Some (out, s')" "live_open s" "scheduled_groups out = [0, 1]"
      "num_total_gpu_blocks (sc_bm s') = 4" "bm_block_size (sc_bm s') = 2"
      "\<forall>q \<in> set (sequences (the (sc_heap s' 0))). total_len q = 2"
      "\<forall>q \<in> set (sequences (the (sc_heap s' 1))). total_len q = 2"
    by (simp add: demo_eval cf_defs num_total_gpu_blocks_def total_len_def prompt_len_def output_len_def)
  have run: "serving all_open (demo_start RECOMPUTE 4 2) s None"
    by (rule exec_serving [OF e demo_start_wf]) simp
  have "queues_wf s" using serving_queues [OF run demo_start_wf] by blast
  then have "all_open s" using r(2) unfolding live_open_def all_open_def list_all_iff queues_wf_def by force
  moreover have "cache_fits (demo_cache 4 2) s' out" using r(3-7) by (simp add: cache_fits_def demo_cache_def)
  ultimately show thesis using that [OF e run _ r(1)] r(4) by blast
qed

section \<open>Properties\<close>





end
