(* ===== verification/Serving_Progress.thy ===== *)
theory Serving_Progress
  imports Serving_Safety
begin

text \<open>
  Progress of the serving loop, in either preemption mode. When the cache has room for the longest
  form of every pending request, a scheduling step preempts nobody: it schedules all pending requests,
  each of them receives a token, and those that reach their limit leave the queues.
\<close>

section \<open>A cache that is large enough\<close>

text \<open>A group of sequences of prompt length \<open>P\<close> that may still produce up to \<open>L\<close> tokens in total.\<close>

definition group_fits :: "nat \<Rightarrow> nat \<Rightarrow> nat \<Rightarrow> sequence_group \<Rightarrow> bool" where
  "group_fits cap P L g \<longleftrightarrow> max_tokens (sampling g) = int L \<and>
     (\<forall>q \<in> set (sequences g). prompt_len q = P \<and> output_len q < L \<and> length (logical_blocks q) \<le> cap)"

text \<open>
  At most \<open>C\<close> requests are pending, each fits into \<open>cap\<close> blocks to its end, and \<open>C\<close> times as many blocks exist.
\<close>

definition ample :: "nat \<Rightarrow> nat \<Rightarrow> nat \<Rightarrow> nat \<Rightarrow> scheduler \<Rightarrow> bool" where
  "ample C cap P L s \<longleftrightarrow>
     base_inv no_ext s \<and> all_open s \<and> length (queue s) \<le> C \<and>
     C * cap \<le> num_total_gpu_blocks (sc_bm s) \<and> P + L \<le> cap * bm_block_size (sc_bm s) \<and>
     (\<forall>p g. sc_heap s p = Some g \<longrightarrow> group_fits cap P L g)"

lemma ample_parts:
  assumes "ample C cap P L s"
  shows "base_inv no_ext s" "all_open s" "length (queue s) \<le> C"
    "C * cap \<le> num_total_gpu_blocks (sc_bm s)" "P + L \<le> cap * bm_block_size (sc_bm s)"
    "sc_heap s p = Some g \<Longrightarrow> group_fits cap P L g"
  using assms by (simp_all add: ample_def)

text \<open>The blocks in use are those the pending requests hold.\<close>

lemma free_blocks_bound:
  assumes inv: "blocks_inv no_ext h bm W R" and fin: "finite (dom h)"
  shows "num_total_gpu_blocks bm \<le>
    num_free_gpu_blocks bm + (\<Sum>p \<in> dom h. length (gpu_held bm (request_id (the (h p)))))"
proof -
  let ?held = "\<lambda>p. gpu_held bm (request_id (the (h p)))"
  have gi: "gpu_inv no_ext bm" using inv by (simp add: blocks_inv_def)
  then have wf: "bm_wf no_ext bm" by (simp add: gpu_inv_def)
  have "{b. in_range bm CUDA b} \<subseteq> set (free_list_for bm CUDA) \<union> (\<Union>p \<in> dom h. set (?held p))"
  proof (intro subsetI)
    fix b
    assume "b \<in> {b. in_range bm CUDA b}"
    then have b: "in_range bm CUDA b" by simp
    show "b \<in> set (free_list_for bm CUDA) \<union> (\<Union>p \<in> dom h. set (?held p))"
    proof (cases "owned bm CUDA b")
      case True
      then obtain sid where sid: "b \<in> set (gpu_held bm sid)" by (force simp: owned_def gpu_held_def)
      then obtain p g where "h p = Some g" "request_id g = sid"
        using inv unfolding blocks_inv_def by (metis empty_iff list.set(1))
      then show ?thesis using sid by (intro UnI2 UN_I [of p]) auto
    next
      case False
      then have "ref_of bm CUDA b = 0" using wf b by (simp add: bm_wf_def bm_counted_def)
      then show ?thesis using wf b by (simp add: bm_wf_def bm_free_exact_def)
    qed
  qed
  moreover have "{b. in_range bm CUDA b} = {0..<int (num_total_gpu_blocks bm)}"
    by (auto simp: in_range_def blocks_for_def num_total_gpu_blocks_def)
  ultimately have "card {0..<int (num_total_gpu_blocks bm)} \<le>
      card (set (free_list_for bm CUDA) \<union> (\<Union>p \<in> dom h. set (?held p)))"
    using fin by (intro card_mono) auto
  also have "\<dots> \<le> card (set (free_list_for bm CUDA)) + card (\<Union>p \<in> dom h. set (?held p))" by (rule card_Un_le)
  also have "\<dots> \<le> num_free_gpu_blocks bm + (\<Sum>p \<in> dom h. card (set (?held p)))"
    using card_UN_le [OF fin, of "\<lambda>p. set (?held p)"] card_length [of "gpu_free_list bm"]
    by (simp add: num_free_gpu_blocks_def free_list_for_def)
  also have "\<dots> \<le> num_free_gpu_blocks bm + (\<Sum>p \<in> dom h. length (?held p))"
    by (intro add_left_mono sum_mono card_length)
  finally show ?thesis by simp
qed

lemma ample_dom:
  assumes "ample C cap P L s"
  shows "finite (dom (sc_heap s))" "card (dom (sc_heap s)) \<le> C"
    "dom (sc_heap s) = set (sc_waiting s) \<union> set (sc_running s)"
proof -
  have wf: "queues_wf s" "sc_swapped s = []" using ample_parts(1) [OF assms] by (simp_all add: base_inv_def)
  then have d: "dom (sc_heap s) = set (queue s)" by (simp add: queues_wf_def)
  then show "finite (dom (sc_heap s))" by simp
  show "card (dom (sc_heap s)) \<le> C"
    using card_length [of "queue s"] ample_parts(3) [OF assms] d by simp
  show "dom (sc_heap s) = set (sc_waiting s) \<union> set (sc_running s)" using d wf(2) by (auto simp: queue_def)
qed

text \<open>One pending request can always grow to its full length.\<close>

lemma ample_free:
  assumes am: "ample C cap P L s" and g: "sc_heap s p = Some g" "sequences g = [q]"
  shows "cap \<le> num_free_gpu_blocks (sc_bm s) + length (logical_blocks q)"
    "\<not> seq_finished q" "logical_blocks q = gpu_held (sc_bm s) (request_id g)"
proof -
  note parts = ample_parts [OF am]
  have bi: "blocks_inv no_ext (sc_heap s) (sc_bm s) (set (sc_waiting s)) (set (sc_running s))"
    using base_inv_parts(3) [OF parts(1)] .
  let ?held = "\<lambda>p. gpu_held (sc_bm s) (request_id (the (sc_heap s p)))"
  have tab: "\<not> seq_finished q' \<and> logical_blocks q' = gpu_held (sc_bm s) (request_id g')"
    if h: "sc_heap s p' = Some g'" "sequences g' = [q']" for p' g' q'
  proof -
    have "\<not> all_finished g'" using parts(2) h(1) by (simp add: all_open_def)
    then have "\<not> seq_finished q'" using h(2) by (simp add: all_finished_def)
    moreover obtain r where "sequences g' = [r]" "\<not> seq_finished r \<Longrightarrow> logical_blocks r = gpu_held (sc_bm s) (request_id g')"
      using blocks_inv_group [OF bi h(1)] by metis
    ultimately show ?thesis using h(2) by simp
  qed
  show fin: "\<not> seq_finished q" and tq: "logical_blocks q = gpu_held (sc_bm s) (request_id g)"
    using tab [OF g] by simp_all
  have le: "length (?held p') \<le> cap" if d: "p' \<in> dom (sc_heap s)" for p'
  proof -
    obtain g' where g': "sc_heap s p' = Some g'" using d by auto
    obtain q' where q': "sequences g' = [q']" using blocks_inv_group [OF bi g'] by metis
    have "length (logical_blocks q') \<le> cap" using parts(6) [OF g'] q' by (simp add: group_fits_def)
    then show ?thesis using tab [OF g' q'] g' by simp
  qed
  note dom = ample_dom [OF am]
  have "(\<Sum>p \<in> dom (sc_heap s). length (?held p)) =
      length (?held p) + (\<Sum>p' \<in> dom (sc_heap s) - {p}. length (?held p'))"
    using dom(1) g(1) by (intro sum.remove) auto
  also have "(\<Sum>p' \<in> dom (sc_heap s) - {p}. length (?held p')) \<le> (card (dom (sc_heap s)) - 1) * cap"
  proof -
    have "card (dom (sc_heap s) - {p}) = card (dom (sc_heap s)) - 1" using g(1) by (intro card_Diff_singleton) auto
    then show ?thesis
      using sum_bounded_above [of "dom (sc_heap s) - {p}" "\<lambda>p'. length (?held p')" cap] le by simp
  qed
  finally have "(\<Sum>p \<in> dom (sc_heap s). length (?held p)) \<le> length (?held p) + (C - 1) * cap"
    using dom(2) by (meson add_left_mono diff_le_mono mult_le_mono1 order_trans)
  moreover have "C * cap \<le> num_free_gpu_blocks (sc_bm s) + (\<Sum>p \<in> dom (sc_heap s). length (?held p))"
    using free_blocks_bound [OF bi dom(1)] parts(4) by linarith
  moreover have "0 < C" using dom g(1) by (metis card_gt_0_iff domI empty_iff less_le_trans)
  then have "C * cap = cap + (C - 1) * cap" by (cases C) auto
  ultimately show "cap \<le> num_free_gpu_blocks (sc_bm s) + length (logical_blocks q)"
    using tq g(1) by simp
qed

section \<open>Scheduling everybody\<close>

lemma alloc_n_length: "alloc_n f n m = Some (bs, m') \<Longrightarrow> length bs = n"
  by (induction n arbitrary: m bs) (auto simp: bind_eq_Some_conv)

text \<open>The blocks a sequence needs never exceed its share of the cache.\<close>

lemma fits_need:
  assumes "ample C cap P L s" and "sc_heap s p = Some g" and "sequences g = [q]"
  shows "(total_len q + bm_block_size (sc_bm s) - 1) div bm_block_size (sc_bm s) \<le> cap" "0 < bm_block_size (sc_bm s)"
proof -
  have "total_len q \<le> P + L" using ample_parts(6) [OF assms(1,2)] assms(3) by (simp add: group_fits_def total_len_def)
  then have "total_len q \<le> cap * bm_block_size (sc_bm s)" using ample_parts(5) [OF assms(1)] by simp
  moreover show "0 < bm_block_size (sc_bm s)"
    using base_inv_parts(3) [OF ample_parts(1) [OF assms(1)]] by (simp add: blocks_inv_def)
  ultimately show "(total_len q + bm_block_size (sc_bm s) - 1) div bm_block_size (sc_bm s) \<le> cap"
    using blocks_cover(2) by simp
qed

lemma one_unfinished: "sequences g = [q] \<Longrightarrow> \<not> seq_finished q \<Longrightarrow> num_unfinished g = 1"
  by (simp add: num_unfinished_def)

lemma ample_group:
  assumes "ample C cap P L s" and "sc_heap s p = Some g"
  obtains q where "sequences g = [q]" "\<not> seq_finished q" "num_unfinished g = 1" "group_prompt_len g = P"
proof -
  obtain q where q: "sequences g = [q]"
    using blocks_inv_group [OF base_inv_parts(3) [OF ample_parts(1) [OF assms(1)]] assms(2)] by metis
  moreover have "\<not> seq_finished q" using ample_free(2) [OF assms q] .
  ultimately show thesis
    using that ample_parts(6) [OF assms] one_unfinished by (simp add: group_fits_def group_prompt_len_def)
qed

text \<open>The tokens a pending group has produced so far.\<close>

definition produced :: "sequence_group \<Rightarrow> nat" where
  "produced g = sum_list (map output_len (sequences g))"

definition outputs :: "scheduler \<Rightarrow> ptr \<Rightarrow> nat option" where
  "outputs s p = map_option produced (sc_heap s p)"

lemma outputs_dom: "dom (outputs s) = dom (sc_heap s)"
  by (auto simp: outputs_def dom_def)

lemma outputs_update:
  "sc_heap s p = Some g \<Longrightarrow> sc_heap s1 = (sc_heap s)(p \<mapsto> g\<lparr>sequences := seqs\<rparr>) \<Longrightarrow>
   produced (g\<lparr>sequences := seqs\<rparr>) = produced g \<Longrightarrow> outputs s1 = outputs s"
  by (auto simp: outputs_def fun_eq_iff)

text \<open>Replacing the sequence of one group by one that fits as well.\<close>

lemma ample_update:
  assumes am: "ample C cap P L s" and g: "sc_heap s p = Some g"
    and s1: "base_inv no_ext s1" "all_open s1" "same_shape (sc_bm s) (sc_bm s1)"
      "sc_heap s1 = (sc_heap s)(p \<mapsto> g\<lparr>sequences := seqs\<rparr>)" "length (queue s1) = length (queue s)"
    and fits: "group_fits cap P L (g\<lparr>sequences := seqs\<rparr>)"
  shows "ample C cap P L s1"
proof -
  have "num_total_gpu_blocks (sc_bm s1) = num_total_gpu_blocks (sc_bm s)"
    using same_shape_total [OF s1(3)] .
  then show ?thesis
    using am s1 fits by (auto simp: ample_def same_shape_block_size)
qed

lemma ample_grows:
  assumes am: "ample C cap P L s" and g: "sc_heap s p = Some g" "sequences g = [q]"
  shows "can_append (sc_bm s) (sequences g) = Some True"
    and "mapM_st grow_seq (sequences g) (sc_bm s) = Some (seqs, bm') \<Longrightarrow>
      group_fits cap P L (g\<lparr>sequences := seqs\<rparr>) \<and> produced (g\<lparr>sequences := seqs\<rparr>) = produced g"
proof -
  note need = fits_need [OF am g] and free = ample_free [OF am g]
  have fits: "group_fits cap P L g" using ample_parts(6) [OF am g(1)] .
  have "\<not> (total_len q + bm_block_size (sc_bm s) - 1) div bm_block_size (sc_bm s) - length (logical_blocks q) >
      num_free_gpu_blocks (sc_bm s)" using need free(1) by simp
  then show "can_append (sc_bm s) (sequences g) = Some True"
    using need(2) free(2) g(2) by (simp add: can_allocate_def num_free_gpu_blocks_def Let_def not_less)
  assume "mapM_st grow_seq (sequences g) (sc_bm s) = Some (seqs, bm')"
  then obtain q' where q': "grow_seq q (sc_bm s) = Some (q', bm')" "seqs = [q']"
    using g(2) by (auto simp: bind_eq_Some_conv)
  then obtain bids where bids: "q' = q\<lparr>logical_blocks := logical_blocks q @ bids\<rparr>"
      "length bids = (total_len q + bm_block_size (sc_bm s) - 1) div bm_block_size (sc_bm s) - length (logical_blocks q)"
    using free(2) need(2) by (auto simp: grow_seq_def bind_eq_Some_conv dest: alloc_n_length)
  have "length (logical_blocks q') \<le> cap"
    using bids need(1) fits g(2) by (auto simp: group_fits_def)
  then show "group_fits cap P L (g\<lparr>sequences := seqs\<rparr>) \<and> produced (g\<lparr>sequences := seqs\<rparr>) = produced g"
    using fits bids(1) q'(2) g(2) by (simp add: group_fits_def produced_def prompt_len_def output_len_def)
qed

lemma ample_admits:
  assumes am: "ample C cap P L s" and g: "sc_heap s p = Some g" "sequences g = [q]"
    and wait: "p \<in> set (sc_waiting s)"
    and n: "num_blocks_needed (bm_block_size (sc_bm s)) q = Some n"
  shows "can_allocate (sc_bm s) n"
    and "mapM_st (prefill_seq n) (sequences g) (sc_bm s) = Some (seqs, bm') \<Longrightarrow>
      group_fits cap P L (g\<lparr>sequences := seqs\<rparr>) \<and> produced (g\<lparr>sequences := seqs\<rparr>) = produced g"
proof -
  note need = fits_need [OF am g] and free = ample_free [OF am g]
  have fits: "group_fits cap P L g" using ample_parts(6) [OF am g(1)] .
  note base = base_inv_parts [OF ample_parts(1) [OF am]]
  have "p \<notin> set (sc_running s)" using queues_wf_parts(4) [OF base(1)] wait by auto
  then have lb: "logical_blocks q = []"
    using blocks_inv_group [OF base(3) g(1)] free(2) g(2) by (metis list.inject)
  have n': "n \<le> cap" using n need by simp
  then show "can_allocate (sc_bm s) n"
    using free(1) lb by (simp add: can_allocate_def num_free_gpu_blocks_def)
  assume "mapM_st (prefill_seq n) (sequences g) (sc_bm s) = Some (seqs, bm')"
  then obtain bids where "seqs = [q\<lparr>status := RUNNING, logical_blocks := bids\<rparr>]" "length bids = n"
    using g(2) lb by (auto simp: prefill_seq_def bind_eq_Some_conv dest: alloc_n_length)
  then show "group_fits cap P L (g\<lparr>sequences := seqs\<rparr>) \<and> produced (g\<lparr>sequences := seqs\<rparr>) = produced g"
    using fits n' g(2) by (simp add: group_fits_def produced_def prompt_len_def output_len_def)
qed


text \<open>The two loops of a scheduling step run to the end of their queues.\<close>

lemma decodes_all:
  assumes "ample C cap P L s" and "sc_running s = xs @ ps" and "rooms s out" "set (scheduled_groups out) \<subseteq> set xs"
    and "length ps \<le> bt" "length ps \<le> bs"
  shows "\<exists>s'. schedule_decodes_from ps s out bt bs =
      Some (s', out\<lparr>scheduled_groups := scheduled_groups out @ ps\<rparr>, bt - length ps, bs - length ps) \<and>
    ample C cap P L s' \<and> rooms s' (out\<lparr>scheduled_groups := scheduled_groups out @ ps\<rparr>) \<and>
    sc_running s' = sc_running s \<and> sc_waiting s' = sc_waiting s \<and> sc_config s' = sc_config s \<and>
    same_shape (sc_bm s) (sc_bm s') \<and> outputs s' = outputs s"
  using assms
proof (induction ps arbitrary: s out bt bs xs)
  case Nil
  then show ?case by simp
next
  case (Cons p ps)
  note parts = ample_parts [OF Cons.prems(1)]
  note wf = base_inv_parts(1,2) [OF parts(1)]
  have run: "p \<in> set (sc_running s)" using Cons.prems(2) by simp
  have new: "p \<notin> set (scheduled_groups out)"
    using Cons.prems(2,4) queues_wf_parts(2) [OF wf(1)] by auto
  obtain g where g: "sc_heap s p = Some g" using queues_wf_parts(8) [OF wf(1)] run by blast
  obtain q where q: "sequences g = [q]" "num_unfinished g = 1" using ample_group [OF Cons.prems(1) g] by metis
  let ?out = "out\<lparr>scheduled_groups := scheduled_groups out @ [p]\<rparr>"
  have b: "num_unfinished g \<le> bt" "0 < bs" using Cons.prems(5,6) q(2) by simp_all
  obtain s1 seqs bm' where s1: "base_inv no_ext s1" "all_open s1" "sc_running s1 = sc_running s"
      "sc_waiting s1 = sc_waiting s" "sc_config s1 = sc_config s" "same_shape (sc_bm s) (sc_bm s1)" "rooms s1 ?out"
      "mapM_st grow_seq (sequences g) (sc_bm s) = Some (seqs, bm')"
      "sc_heap s1 = (sc_heap s)(p \<mapsto> g\<lparr>sequences := seqs\<rparr>)"
      "schedule_decodes_from (p # ps) s out bt bs = schedule_decodes_from ps s1 ?out (bt - num_unfinished g) (bs - 1)"
    using decode_iteration [OF parts(1,2) run new Cons.prems(3) g ample_grows(1) [OF Cons.prems(1) g q(1)] b, where ps = ps]
    by (elim exE conjE) (rule that)
  have "length (queue s1) = length (queue s)"
    using s1(3,4) wf(2) base_inv_parts(2) [OF s1(1)] by (simp add: queue_def)
  then have am: "ample C cap P L s1"
    using ample_update [OF Cons.prems(1) g s1(1,2,6,9)] ample_grows(2) [OF Cons.prems(1) g q(1) s1(8)] by simp
  have outs: "outputs s1 = outputs s"
    using outputs_update [OF g s1(9)] ample_grows(2) [OF Cons.prems(1) g q(1) s1(8)] by simp
  have "sc_running s1 = (xs @ [p]) @ ps" "set (scheduled_groups ?out) \<subseteq> set (xs @ [p])"
    "length ps \<le> bt - num_unfinished g" "length ps \<le> bs - 1"
    using Cons.prems(2,4-6) s1(3) q(2) by auto
  from Cons.IH [OF am this(1) s1(7) this(2-4)]
  obtain s' where "schedule_decodes_from ps s1 ?out (bt - num_unfinished g) (bs - 1) =
      Some (s', ?out\<lparr>scheduled_groups := scheduled_groups ?out @ ps\<rparr>, bt - num_unfinished g - length ps, bs - 1 - length ps)"
    "ample C cap P L s'" "rooms s' (?out\<lparr>scheduled_groups := scheduled_groups ?out @ ps\<rparr>)"
    "sc_running s' = sc_running s1" "sc_waiting s' = sc_waiting s1" "sc_config s' = sc_config s1"
    "same_shape (sc_bm s1) (sc_bm s')" "outputs s' = outputs s1" by (elim exE conjE) (rule that)
  then show ?case unfolding s1(10) using s1(3-6) q(2) outs same_shape_trans by (intro exI [of _ s']) auto
qed

lemma prefills_all:
  assumes "ample C cap P L s" and "sc_waiting s = ps" and "rooms s out"
    and "length ps * P \<le> bt" "length ps \<le> bs"
  shows "\<exists>s'. schedule_prefills_from ps s out bt bs =
      Some (s', out\<lparr>scheduled_groups := scheduled_groups out @ ps\<rparr>, bt - length ps * P, bs - length ps) \<and>
    ample C cap P L s' \<and> rooms s' (out\<lparr>scheduled_groups := scheduled_groups out @ ps\<rparr>) \<and>
    sc_running s' = sc_running s @ ps \<and> sc_waiting s' = [] \<and> sc_config s' = sc_config s \<and>
    same_shape (sc_bm s) (sc_bm s') \<and> outputs s' = outputs s"
  using assms
proof (induction ps arbitrary: s out bt bs)
  case Nil
  then show ?case by simp
next
  case (Cons p ps)
  note parts = ample_parts [OF Cons.prems(1)]
  note wf = base_inv_parts(1,2) [OF parts(1)]
  have wait: "p \<in> set (sc_waiting s)" using Cons.prems(2) by simp
  obtain g where g: "sc_heap s p = Some g" using queues_wf_parts(7) [OF wf(1)] wait by blast
  obtain q where q: "sequences g = [q]" "group_prompt_len g = P" using ample_group [OF Cons.prems(1) g] by metis
  obtain n where n: "num_blocks_needed (bm_block_size (sc_bm s)) q = Some n"
    using fits_need(2) [OF Cons.prems(1) g q(1)] by simp
  let ?out = "out\<lparr>scheduled_groups := scheduled_groups out @ [p]\<rparr>"
  have b: "group_prompt_len g \<le> bt" "0 < bs" "vec_at (sequences g) 0 = Some q" using Cons.prems(4,5) q by simp_all
  obtain s1 seqs bm' where s1: "base_inv no_ext s1" "all_open s1" "sc_waiting s1 = ps"
      "sc_running s1 = sc_running s @ [p]" "sc_config s1 = sc_config s" "same_shape (sc_bm s) (sc_bm s1)" "rooms s1 ?out"
      "mapM_st (prefill_seq n) (sequences g) (sc_bm s) = Some (seqs, bm')"
      "sc_heap s1 = (sc_heap s)(p \<mapsto> g\<lparr>sequences := seqs\<rparr>)"
      "schedule_prefills_from (p # ps) s out bt bs = schedule_prefills_from ps s1 ?out (bt - group_prompt_len g) (bs - 1)"
    using prefill_iteration [OF parts(1,2) Cons.prems(2,3) g b(3) n ample_admits(1) [OF Cons.prems(1) g q(1) wait n] b(1,2)]
    by (elim exE conjE) (rule that)
  have "length (queue s1) = length (queue s)"
    using s1(3,4) wf(2) base_inv_parts(2) [OF s1(1)] Cons.prems(2) by (simp add: queue_def)
  then have am: "ample C cap P L s1"
    using ample_update [OF Cons.prems(1) g s1(1,2,6,9)] ample_admits(2) [OF Cons.prems(1) g q(1) wait n s1(8)] by simp
  have outs: "outputs s1 = outputs s"
    using outputs_update [OF g s1(9)] ample_admits(2) [OF Cons.prems(1) g q(1) wait n s1(8)] by simp
  have "length ps * P \<le> bt - group_prompt_len g" "length ps \<le> bs - 1"
    using Cons.prems(4,5) q(2) by auto
  from Cons.IH [OF am s1(3,7) this]
  obtain s' where "schedule_prefills_from ps s1 ?out (bt - group_prompt_len g) (bs - 1) =
      Some (s', ?out\<lparr>scheduled_groups := scheduled_groups ?out @ ps\<rparr>, bt - group_prompt_len g - length ps * P, bs - 1 - length ps)"
    "ample C cap P L s'" "rooms s' (?out\<lparr>scheduled_groups := scheduled_groups ?out @ ps\<rparr>)"
    "sc_running s' = sc_running s1 @ ps" "sc_waiting s' = []" "sc_config s' = sc_config s1"
    "same_shape (sc_bm s1) (sc_bm s')" "outputs s' = outputs s1" by (elim exE conjE) (rule that)
  then show ?case unfolding s1(10) using s1(4-6) q(2) outs same_shape_trans by (intro exI [of _ s']) auto
qed


text \<open>A step with an ample cache and budgets for everybody schedules every pending request.\<close>

lemma schedule_all:
  assumes am: "ample C cap P L s" and P: "0 < P" and C: "C \<le> max_num_seqs (sc_config s)"
    and bt: "C * P \<le> max_num_batched_tokens (sc_config s)"
  shows "\<exists>out s'. schedule s = Some (out, s') \<and> ample C cap P L s' \<and> rooms s' out \<and>
    distinct (scheduled_groups out) \<and> set (scheduled_groups out) = dom (sc_heap s) \<and>
    dom (sc_heap s') = dom (sc_heap s) \<and> sc_waiting s' = [] \<and> sc_config s' = sc_config s \<and>
    same_shape (sc_bm s) (sc_bm s') \<and> outputs s' = outputs s"
proof -
  let ?bt = "max_num_batched_tokens (sc_config s)" and ?bs = "max_num_seqs (sc_config s)"
  let ?R = "sc_running s" and ?W = "sc_waiting s"
  let ?o1 = "empty_output\<lparr>scheduled_groups := ?R\<rparr>"
  note wf = base_inv_parts(1,2) [OF ample_parts(1) [OF am]]
  have len: "length ?R + length ?W \<le> C" using ample_parts(3) [OF am] wf(2) by (simp add: queue_def)
  have "length ?R + length ?W * P \<le> (length ?R + length ?W) * P" using P by (simp add: algebra_simps)
  also have "\<dots> \<le> C * P" using len by simp
  finally have bud: "length ?R + length ?W * P \<le> ?bt" using bt by simp
  have r0: "rooms s empty_output" by (simp add: rooms_def empty_output_def)
  have "length ?R \<le> ?bt" "length ?R \<le> ?bs" "set (scheduled_groups empty_output) \<subseteq> set []"
    using bud len C by (simp_all add: empty_output_def)
  from decodes_all [OF am _ r0 this(3,1,2)]
  obtain s1 where d: "schedule_decodes_from ?R s empty_output ?bt ?bs = Some (s1, ?o1, ?bt - length ?R, ?bs - length ?R)"
    "ample C cap P L s1" "rooms s1 ?o1" "sc_running s1 = ?R" "sc_waiting s1 = ?W" "sc_config s1 = sc_config s"
    "same_shape (sc_bm s) (sc_bm s1)" "outputs s1 = outputs s" by (auto simp: empty_output_def)
  obtain sw where w: "sort_waiting_queue s1 = Some sw" "base_inv no_ext sw" "sc_heap sw = sc_heap s1"
      "sc_running sw = sc_running s1" "sc_bm sw = sc_bm s1" "sc_config sw = sc_config s1"
      "mset (sc_waiting sw) = mset (sc_waiting s1)"
    using sort_base [OF ample_parts(1) [OF d(2)]] by blast
  have lw: "length (sc_waiting sw) = length ?W" using w(7) d(5) by (metis size_mset)
  have "length (queue sw) = length (queue s1)"
    using w(4) lw d(5) base_inv_parts(2) [OF w(2)] base_inv_parts(2) [OF ample_parts(1) [OF d(2)]] by (simp add: queue_def)
  then have aw: "ample C cap P L sw" "rooms sw ?o1" "outputs sw = outputs s"
    using d(2,3,8) w(2-5) by (auto simp: ample_def all_open_def rooms_def has_room_def outputs_def fun_eq_iff)
  let ?Ws = "sc_waiting sw"
  have "length ?Ws * P \<le> ?bt - length ?R" "length ?Ws \<le> ?bs - length ?R" using bud len C lw by auto
  from prefills_all [OF aw(1) refl aw(2) this]
  obtain s2 where p: "schedule_prefills_from ?Ws sw ?o1 (?bt - length ?R) (?bs - length ?R) =
      Some (s2, ?o1\<lparr>scheduled_groups := ?R @ ?Ws\<rparr>, ?bt - length ?R - length ?Ws * P, ?bs - length ?R - length ?Ws)"
    "ample C cap P L s2" "rooms s2 (?o1\<lparr>scheduled_groups := ?R @ ?Ws\<rparr>)" "sc_running s2 = sc_running sw @ ?Ws"
    "sc_waiting s2 = []" "sc_config s2 = sc_config sw" "same_shape (sc_bm sw) (sc_bm s2)" "outputs s2 = outputs sw"
    by (auto simp: empty_output_def)
  have wait0: "?Ws = [] \<longleftrightarrow> ?W = []" using lw by (metis length_0_conv)
  have sw0: "sc_swapped s2 = []" "sc_swapped s1 = []"
    using base_inv_parts(2) [OF ample_parts(1) [OF p(2)]] base_inv_parts(2) [OF ample_parts(1) [OF d(2)]] by simp_all
  have sch: "\<exists>n s'. schedule s = Some (?o1\<lparr>scheduled_groups := ?R @ ?Ws, num_batched_tokens := n\<rparr>, s') \<and>
      (s' = s2 \<or> ?W = [] \<and> s' = s1)"
    using d(1,5) w(1) p(1) sw0 wait0
    by (cases "?W = []") (auto simp: schedule_def schedule_decodes_def schedule_prefills_def Let_def)
  then obtain n s' where s': "schedule s = Some (?o1\<lparr>scheduled_groups := ?R @ ?Ws, num_batched_tokens := n\<rparr>, s')"
      "s' = s2 \<or> ?W = [] \<and> s' = s1" by blast
  have am': "ample C cap P L s'" and out': "outputs s' = outputs s" and w': "sc_waiting s' = []"
    and c': "sc_config s' = sc_config s" and sh': "same_shape (sc_bm s) (sc_bm s')"
    using s'(2) d p aw(3) w(5,6) same_shape_trans by auto
  have "set ?Ws = set ?W" using w(7) d(5) by (metis set_mset_mset)
  then have set: "set (?R @ ?Ws) = dom (sc_heap s)" using ample_dom(3) [OF am] by auto
  have "distinct (?R @ ?Ws)"
    using queues_wf_parts(1,2,4) [OF base_inv_parts(1) [OF w(2)]] w(4) d(4) by auto
  moreover have "dom (sc_heap s') = dom (sc_heap s)"
    using outputs_dom [of s'] outputs_dom [of s] out' by simp
  moreover have "rooms s' (?o1\<lparr>scheduled_groups := ?R @ ?Ws, num_batched_tokens := n\<rparr>)"
    using s'(2) p(3) d(3) wait0 by (auto simp: rooms_def)
  ultimately show ?thesis using s'(1) am' out' w' c' sh' set by auto
qed


section \<open>A token for everybody\<close>

lemma ample_produced:
  assumes "ample C cap P L s" and "sc_heap s p = Some g"
  shows "produced g < L"
proof -
  obtain q where "sequences g = [q]" using ample_group [OF assms] .
  then show ?thesis using ample_parts(6) [OF assms] by (simp add: group_fits_def produced_def)
qed

lemma update_all:
  assumes live: "\<And>p. p \<in> set ps \<Longrightarrow> \<exists>g q. h p = Some g \<and> sequences g = [q] \<and> \<not> seq_finished q"
    and dist: "distinct ps" and toks: "length ps \<le> length toks"
  shows "\<exists>h'. update_groups clock toks ps h 0 = Some h' \<and> (\<forall>p. p \<notin> set ps \<longrightarrow> h' p = h p) \<and>
    (\<forall>p \<in> set ps. \<exists>g q g' t. h p = Some g \<and> sequences g = [q] \<and> h' p = Some g' \<and>
      sequences g' = [give (max_tokens (sampling g)) t q] \<and> request_id g' = request_id g \<and> sampling g' = sampling g)"
proof -
  have "set ps \<subseteq> dom h" using live by blast
  from update_groups_effect [OF this dist, of 0 toks clock] obtain h' where
    h': "update_groups clock toks ps h 0 = Some h'" "\<forall>p. p \<notin> set ps \<longrightarrow> h' p = h p"
    "\<forall>k < length ps. h' (ps ! k) = Some (fst (update_group clock toks (the (h (ps ! k)))
      (min (length toks) (first_index h ps k))))" by auto
  have one: "num_unfinished (the (h p)) = 1" if "p \<in> set ps" for p
    using live [OF that] one_unfinished by fastforce
  have fi: "first_index h ps k = k" if "k \<le> length ps" for k
  proof -
    have "map (\<lambda>p. num_unfinished (the (h p))) (take k ps) = map (\<lambda>_. 1) (take k ps)"
      using one by (intro map_cong refl) (auto dest: in_set_takeD)
    then have "first_index h ps k = sum_list (map (\<lambda>_. 1) (take k ps))" unfolding first_index_def by (rule arg_cong)
    then show ?thesis using that by (simp add: sum_list_triv)
  qed
  have "\<exists>g q g' t. h p = Some g \<and> sequences g = [q] \<and> h' p = Some g' \<and>
      sequences g' = [give (max_tokens (sampling g)) t q] \<and> request_id g' = request_id g \<and> sampling g' = sampling g"
    if p: "p \<in> set ps" for p
  proof -
    obtain k where k: "k < length ps" "p = ps ! k" using p by (auto simp: in_set_conv_nth)
    obtain g q where g: "h p = Some g" "sequences g = [q]" "\<not> seq_finished q" using live [OF p] by blast
    obtain g' i' where u: "update_group clock toks g k = (g', i')" by fastforce
    have hp: "h' p = Some g'" using h'(3) k g(1) u fi [of k] toks by simp
    note un = update_group_nth [OF u]
    have "sequences g' ! 0 = handed (max_tokens (sampling g)) toks k q"
      using un(2) [of 0] g(2) by (simp add: open_before_def)
    also have "\<dots> = give (max_tokens (sampling g)) (toks ! k) q"
      using g(3) k(1) toks by (simp add: handed_def)
    finally have "sequences g' = [give (max_tokens (sampling g)) (toks ! k) q]"
      using un(1) g(2) by (cases "sequences g'") auto
    then show ?thesis using g(1,2) hp un(4,5) by blast
  qed
  with h'(1,2) show ?thesis by blast
qed

lemma give_simps [simp]:
  "prompt_len (give mx t q) = prompt_len q" "output_len (give mx t q) = Suc (output_len q)"
  "logical_blocks (give mx t q) = logical_blocks q"
  by (simp_all add: give_def append_token_def prompt_len_def output_len_def Let_def)

lemma give_finished:
  "\<not> seq_finished q \<Longrightarrow> Suc (output_len q) < 2 ^ 31 \<Longrightarrow>
   seq_finished (give mx t q) \<longleftrightarrow> int (Suc (output_len q)) \<ge> mx"
  by (auto simp: give_def append_token_def output_len_def seq_finished_def Let_def)

text \<open>The state after the tokens of a step were handed out and the finished requests swept.\<close>

lemma round_progress:
  assumes am: "ample C cap P L s" and L: "L < 2 ^ 31"
    and out: "set (scheduled_groups out) = dom (sc_heap s)" "distinct (scheduled_groups out)"
      "set (scheduled_groups out) \<subseteq> set (sc_running s)"
    and toks: "length (scheduled_groups out) \<le> length toks"
  shows "\<exists>h' s'. update_after_decode clock out toks (sc_heap s) = Some h' \<and> dom h' = dom (sc_heap s) \<and>
    (\<forall>p g. sc_heap s p = Some g \<longrightarrow> (\<exists>g'. h' p = Some g' \<and> request_id g' = request_id g \<and>
      length (sequences g') = 1 \<and> (all_finished g' \<longleftrightarrow> Suc (produced g) = L))) \<and>
    free_finished_requests (s\<lparr>sc_heap := h'\<rparr>) = Some s' \<and> ample C cap P L s' \<and>
    sc_config s' = sc_config s \<and> same_shape (sc_bm s) (sc_bm s') \<and>
    queue s' = filter (\<lambda>p. \<not> all_finished (the (h' p))) (queue s) \<and>
    (\<forall>p g'. sc_heap s' p = Some g' \<longrightarrow> (\<exists>g. sc_heap s p = Some g \<and> request_id g' = request_id g \<and> produced g' = Suc (produced g)))"
proof -
  let ?h = "sc_heap s" and ?ps = "scheduled_groups out"
  note parts = ample_parts [OF am]
  have live: "\<exists>g q. ?h p = Some g \<and> sequences g = [q] \<and> \<not> seq_finished q" if p: "p \<in> set ?ps" for p
  proof -
    obtain g where g: "?h p = Some g" using p out(1) by auto
    show ?thesis using ample_group [OF am g] g by metis
  qed
  obtain h' where h': "update_groups clock toks ?ps ?h 0 = Some h'" "\<forall>p. p \<notin> set ?ps \<longrightarrow> h' p = ?h p"
    "\<forall>p \<in> set ?ps. \<exists>g q g' t. ?h p = Some g \<and> sequences g = [q] \<and> h' p = Some g' \<and>
      sequences g' = [give (max_tokens (sampling g)) t q] \<and> request_id g' = request_id g \<and> sampling g' = sampling g"
    using update_all [of ?ps ?h, OF live out(2) toks, where clock = clock] by blast
  have up: "update_after_decode clock out toks ?h = Some h'" using h'(1) by (simp add: update_after_decode_def)
  have grp: "\<exists>g'. h' p = Some g' \<and> request_id g' = request_id g \<and> length (sequences g') = 1 \<and> sampling g' = sampling g \<and>
      (all_finished g' \<longleftrightarrow> Suc (produced g) = L) \<and> produced g' = Suc (produced g) \<and>
      (Suc (produced g) < L \<longrightarrow> group_fits cap P L g')" if g: "?h p = Some g" for p g
  proof -
    have p: "p \<in> set ?ps" using g out(1) by auto
    obtain q g' t where u: "sequences g = [q]" "h' p = Some g'" "sequences g' = [give (max_tokens (sampling g)) t q]"
        "request_id g' = request_id g" "sampling g' = sampling g"
      using bspec [OF h'(3) p] g by auto
    have f: "group_fits cap P L g" using parts(6) [OF g] .
    have lim: "max_tokens (sampling g) = int L" "output_len q < L" using f u(1) by (simp_all add: group_fits_def)
    have "seq_finished (give (int L) t q) \<longleftrightarrow> Suc (output_len q) = L"
      using give_finished [of q "int L" t] ample_free(2) [OF am g u(1)] lim L by auto
    then show ?thesis using u f lim by (auto simp: group_fits_def produced_def all_finished_def)
  qed
  have dom: "dom h' = dom ?h" using h'(2) grp out(1) by (auto simp: dom_def) (metis option.distinct(1))+
  have base: "base_inv no_ext (s\<lparr>sc_heap := h'\<rparr>)"
    using update_base [OF parts(1) out(3,2), of clock toks] up by auto
  then obtain s' where s': "free_finished_requests (s\<lparr>sc_heap := h'\<rparr>) = Some s'" "base_inv no_ext s'" "all_open s'"
      "sc_config s' = sc_config s" "same_shape (sc_bm s) (sc_bm s')"
    using free_finished_base [OF base] by auto
  note fe = free_finished_effect [OF s'(1) base_inv_parts(1) [OF base]]
  have q': "queue s' = filter (\<lambda>p. \<not> all_finished (the (h' p))) (queue s)"
    using fe(2-4) base_inv_parts(2) [OF parts(1)] by (simp add: queue_def)
  have old: "\<exists>g. ?h p = Some g \<and> request_id g' = request_id g \<and> produced g' = Suc (produced g) \<and> group_fits cap P L g'"
    if hp: "sc_heap s' p = Some g'" for p g'
  proof -
    have "p \<in> set (queue s')" using hp fe(1) by (auto simp: queues_wf_def)
    then have "h' p = Some g'" using fe(5) [of p] hp by simp
    moreover from this obtain g where g: "?h p = Some g" using dom by blast
    moreover have "\<not> all_finished g'" using s'(3) hp by (simp add: all_open_def)
    moreover have "produced g < L" by (rule ample_produced [OF am g])
    ultimately show ?thesis using grp [OF g] by auto
  qed
  have len: "length (queue s') \<le> C" using parts(3) q' by (metis length_filter_le order_trans)
  have "num_total_gpu_blocks (sc_bm s') = num_total_gpu_blocks (sc_bm s)"
    using same_shape_total [OF s'(5)] .
  then have "ample C cap P L s'"
    using s'(2,3,5) len parts(4,5) old unfolding ample_def by (metis same_shape_block_size)
  then show ?thesis using up dom grp s'(1,4,5) q' old by (intro exI [of _ h'] exI [of _ s']) blast
qed

end
