(* ===== verification/Bench_Rounds.thy ===== *)
theory Bench_Rounds
  imports Decode_Slots Serving_Progress
begin

text \<open>
  What the drivers under \<open>src/benchmarks\<close> have in common: they keep a bounded number of requests in
  flight, and each round schedules, builds a batch, decodes it, hands out the tokens, tells the
  profiler and sweeps. Everything a driver takes from its surroundings is in an environment: the
  standard sorts, the generators, the memory of the pools, fresh addresses and the readings of the
  clock. The theory shows that a round serves everybody when the cache is large enough.
\<close>

section \<open>Model\<close>

record bench_config =
  bc_model :: model_config
  bc_cache :: cache_config
  bc_scheduler :: scheduler_config
  bc_num_requests :: nat
  bc_warmup_requests :: nat
  bc_prompt_len :: nat
  bc_output_len :: nat
  bc_num_concurrent :: nat
  bc_num_iterations :: nat
  bc_enable_prefix_cache :: bool
  bc_shared_prefix_ratio :: real
  bc_output_dir :: string
  bc_output_format :: string
  bc_verbose :: bool

text \<open>The initial values of the fields.\<close>

definition default_bench_config :: bench_config where
  "default_bench_config =
     \<lparr>bc_model = default_model_config, bc_cache = default_cache_config, bc_scheduler = default_scheduler_config,
      bc_num_requests = 100, bc_warmup_requests = 10, bc_prompt_len = 128, bc_output_len = 256,
      bc_num_concurrent = 1, bc_num_iterations = 3, bc_enable_prefix_cache = True, bc_shared_prefix_ratio = 0,
      bc_output_dir = ''results'', bc_output_format = ''csv'', bc_verbose = False\<rparr>"

text \<open>Random tokens; \<open>token_dist\<close> draws one.\<close>

fun draw_tokens :: "('r \<Rightarrow> token_id \<times> 'r) \<Rightarrow> nat \<Rightarrow> 'r \<Rightarrow> token_id list \<times> 'r" where
  "draw_tokens token_dist 0 rng = ([], rng)"
| "draw_tokens token_dist (Suc n) rng =
     (let (t, rng1) = token_dist rng; (ts, rng2) = draw_tokens token_dist n rng1 in (t # ts, rng2))"

text \<open>The environment; readings of the clock are indexed by the round, the request or the sequence.\<close>

record 'g bench_env =
  ev_psort :: "nat \<Rightarrow> scored \<Rightarrow> scored"
  ev_fsort :: "scored \<Rightarrow> scored"
  ev_draw :: "real \<Rightarrow> real \<Rightarrow> 'g \<Rightarrow> real \<times> 'g"
  ev_mem :: "nat \<Rightarrow> real option"
  ev_pools :: pool_manager
  ev_new :: "(ptr \<rightharpoonup> sequence_group) \<Rightarrow> ptr"
  ev_hash :: nat
  ev_opens :: bool
  ev_created :: time_point
  ev_arrival :: "nat \<Rightarrow> time_point"
  ev_started :: "nat \<Rightarrow> time_point"
  ev_step_clock :: "nat \<Rightarrow> step_clock"
  ev_token_time :: "nat \<Rightarrow> nat \<Rightarrow> time_point"
  ev_first_time :: "nat \<Rightarrow> seq_id \<Rightarrow> time_point"
  ev_end_time :: "nat \<Rightarrow> seq_id \<Rightarrow> time_point"
  ev_count_time :: "nat \<Rightarrow> seq_id \<Rightarrow> time_point"

record 'g bench_state =
  bn_scheduler :: scheduler
  bn_batch_manager :: batch_manager
  bn_engine :: decode_engine
  bn_profiler :: profiler
  bn_rng :: 'g
  bn_next_id :: seq_id
  bn_submitted :: nat
  bn_completed :: nat

definition bench_scheduler :: "bench_config \<Rightarrow> scheduler_config" where
  "bench_scheduler cfg =
     (bc_scheduler cfg)\<lparr>max_num_seqs := bc_num_concurrent cfg,
       max_num_batched_tokens :=
         (bc_num_concurrent cfg * ((bc_prompt_len cfg + bc_output_len cfg) mod size_max)) mod size_max\<rparr>"

definition bench_start :: "'g bench_env \<Rightarrow> bench_config \<Rightarrow> 'g \<Rightarrow> 'g bench_state" where
  "bench_start env cfg g =
     \<lparr>bn_scheduler = scheduler_new (bench_scheduler cfg) (block_manager_new (bc_cache cfg) (bc_model cfg)),
      bn_batch_manager = batch_manager_new (bc_model cfg) (bench_scheduler cfg),
      bn_engine = decode_engine_new (bc_model cfg) (bc_cache cfg),
      bn_profiler = profiler_new (ev_opens env) (ev_created env) default_profiler_config,
      bn_rng = g, bn_next_id = 0, bn_submitted = 0, bn_completed = 0\<rparr>"

text \<open>Submitting the next request: its prompt, the default parameters with the output length as limit.\<close>

definition submit_prompt :: "'g bench_env \<Rightarrow> bench_config \<Rightarrow> token_id list \<Rightarrow> 'g bench_state \<Rightarrow> 'g bench_state" where
  "submit_prompt env cfg prompt st =
     (let sp = default_sampling_params\<lparr>max_tokens := to_i32 (int (bc_output_len cfg))\<rparr>;
          grp = sequence_group_new (ev_arrival env (bn_submitted st)) (bn_next_id st) prompt sp 0;
          s = bn_scheduler st
      in st\<lparr>bn_profiler := record_request_start (ev_started env (bn_submitted st)) (bn_next_id st) (bn_profiler st),
            bn_scheduler := add_request (ev_new env (sc_heap s)) grp s,
            bn_next_id := bn_next_id st + 1, bn_submitted := bn_submitted st + 1\<rparr>)"

definition submit_request ::
    "'g bench_env \<Rightarrow> bench_config \<Rightarrow> token_id list list \<Rightarrow> 'g bench_state \<Rightarrow> 'g bench_state option" where
  "submit_request env cfg prompts st =
     do {
       prompt \<leftarrow> vec_at prompts (bn_submitted st);
       Some (submit_prompt env cfg prompt st)
     }"

function submit_requests ::
    "'g bench_env \<Rightarrow> bench_config \<Rightarrow> token_id list list \<Rightarrow> 'g bench_state \<Rightarrow> 'g bench_state option" where
  "submit_requests env cfg prompts st =
     (if bn_submitted st < bc_num_requests cfg \<and>
         num_running (bn_scheduler st) + num_waiting (bn_scheduler st) < bc_num_concurrent cfg
      then do {
        st1 \<leftarrow> submit_request env cfg prompts st;
        submit_requests env cfg prompts st1
      }
      else Some st)"
  by pat_completeness auto
termination
  by (relation "measure (\<lambda>(env, cfg, prompts, st). bc_num_requests cfg - bn_submitted st)")
    (auto simp: submit_request_def submit_prompt_def bind_eq_Some_conv Let_def)

declare submit_requests.simps [simp del]

text \<open>The loop over the scheduled groups that closes the finished requests.\<close>

definition note_completed ::
    "nat \<Rightarrow> (seq_id \<Rightarrow> time_point) \<Rightarrow> (seq_id \<Rightarrow> time_point) \<Rightarrow> (ptr \<rightharpoonup> sequence_group) \<Rightarrow> ptr \<Rightarrow>
     profiler \<times> nat \<Rightarrow> (profiler \<times> nat) option" where
  "note_completed hash now1 now2 h p = (\<lambda>(pf, completed).
     do {
       grp \<leftarrow> h p;
       if all_finished grp then do {
         seq \<leftarrow> vec_at (sequences grp) 0;
         Some (record_request_end hash (now1 (request_id grp)) (now2 (request_id grp)) (request_id grp) (output_len seq) pf,
               completed + 1)
       }
       else Some (pf, completed)
     })"

text \<open>
  One round; the Boolean tells that nothing was scheduled, which ends the loop. \<open>tell\<close> is what a driver
  tells the profiler after the tokens of round \<open>k\<close> were handed out, before it closes finished requests.
\<close>

type_synonym token_notes = "nat \<Rightarrow> (ptr \<rightharpoonup> sequence_group) \<Rightarrow> ptr list \<Rightarrow> profiler \<Rightarrow> profiler option"

definition bench_round :: "token_notes \<Rightarrow> 'g bench_env \<Rightarrow> nat \<Rightarrow> 'g bench_state \<Rightarrow> (bool \<times> 'g bench_state) option" where
  "bench_round tell env k st =
     do {
       (out, s1) \<leftarrow> schedule (bn_scheduler st);
       if output_is_empty out then Some (True, st\<lparr>bn_scheduler := s1\<rparr>)
       else do {
         (batch, bt) \<leftarrow> build_batch (sc_heap s1) out (bn_batch_manager st);
         (r, en, pfo, g) \<leftarrow> engine_step (ev_psort env) (ev_fsort env) (ev_draw env) (ev_mem env) (ev_pools env)
           (Some (sc_bm s1)) (ev_step_clock env k) batch (bn_engine st, Some (bn_profiler st), bn_rng st);
         pf \<leftarrow> pfo;
         h \<leftarrow> update_after_decode (ev_token_time env k) out (sr_new_tokens r) (sc_heap s1);
         pf1 \<leftarrow> tell k h (scheduled_groups out) pf;
         (pf2, completed) \<leftarrow> foldM (note_completed (ev_hash env) (ev_end_time env k) (ev_count_time env k) h)
           (scheduled_groups out) (pf1, bn_completed st);
         s2 \<leftarrow> free_finished_requests (s1\<lparr>sc_heap := h\<rparr>);
         Some (False, st\<lparr>bn_scheduler := s2, bn_batch_manager := bt, bn_engine := en, bn_profiler := pf2,
                         bn_rng := g, bn_completed := completed\<rparr>)
       }
     }"

text \<open>The loop with fuel: \<open>None\<close> is undefined behaviour or a run that is longer than the fuel.\<close>

fun bench_loop ::
    "token_notes \<Rightarrow> 'g bench_env \<Rightarrow> bench_config \<Rightarrow> token_id list list \<Rightarrow> nat \<Rightarrow> nat \<Rightarrow> 'g bench_state \<Rightarrow> 'g bench_state option" where
  "bench_loop tell env cfg prompts k 0 st = None"
| "bench_loop tell env cfg prompts k (Suc fuel) st =
     (if bn_completed st < bc_num_requests cfg then do {
        st1 \<leftarrow> submit_requests env cfg prompts st;
        (empty, st2) \<leftarrow> bench_round tell env k st1;
        if empty then Some st2 else bench_loop tell env cfg prompts (Suc k) fuel st2
      }
      else Some st)"

section \<open>Results\<close>

record bench_result =
  br_benchmark_name :: string
  br_throughput_tok_per_sec :: real
  br_avg_latency_ms :: real
  br_p50_latency_ms :: real
  br_p90_latency_ms :: real
  br_p95_latency_ms :: real
  br_p99_latency_ms :: real
  br_latency_stddev_ms :: real
  br_avg_ttft_ms :: real
  br_avg_tpot_ms :: real
  br_gpu_cache_utilization :: real
  br_fragmentation :: real
  br_prefix_cache_hit_rate :: real
  br_num_requests :: nat
  br_concurrent_level :: nat

text \<open>The fields the drivers copy from a snapshot.\<close>

definition snapshot_result :: "string \<Rightarrow> metrics_snapshot \<Rightarrow> nat \<Rightarrow> nat \<Rightarrow> bench_result" where
  "snapshot_result name snap num_requests concurrent =
     \<lparr>br_benchmark_name = name,
      br_throughput_tok_per_sec = throughput_tok_per_sec snap,
      br_avg_latency_ms = avg_latency_ms snap,
      br_p50_latency_ms = p50_latency_ms snap, br_p90_latency_ms = p90_latency_ms snap,
      br_p95_latency_ms = p95_latency_ms snap, br_p99_latency_ms = p99_latency_ms snap,
      br_latency_stddev_ms = latency_stddev_ms snap,
      br_avg_ttft_ms = avg_ttft_ms snap, br_avg_tpot_ms = avg_tpot_ms snap,
      br_gpu_cache_utilization = snap_gpu_cache_usage snap,
      br_fragmentation = internal_fragmentation snap,
      br_prefix_cache_hit_rate = 0,
      br_num_requests = num_requests, br_concurrent_level = concurrent\<rparr>"

definition bench_snapshot :: "'g bench_state \<Rightarrow> metrics_snapshot option" where
  "bench_snapshot st = snapshot (Some (sc_bm (bn_scheduler st))) None (Some (bn_scheduler st)) (bn_profiler st)"

section \<open>Facts about the draws\<close>

lemma draw_tokens_length: "length (fst (draw_tokens token_dist n rng)) = n"
  by (induction n arbitrary: rng) (auto split: prod.splits simp: Let_def, metis fst_conv)

section \<open>What a round does to the engine and the profiler\<close>

text \<open>The part of the profiler that the driver's bookkeeping is about.\<close>

definition books :: "profiler \<Rightarrow> (seq_id \<rightharpoonup> request_record) \<times> nat" where
  "books p = (active_requests p, total_requests p)"

lemma trace_keeps [simp]:
  "books (trace_event_to hash ev p) = books p" "latency_hist (trace_event_to hash ev p) = latency_hist p"
  "books (trace_counter_to hash now name series v p) = books p"
  "latency_hist (trace_counter_to hash now name series v p) = latency_hist p"
  by (simp_all add: books_def trace_event_to_def trace_counter_to_def)

lemma step_keeps_books [simp]: "books (begin_step hash now n p) = books p" "books (mark hash now label p) = books p"
  by (simp_all add: begin_step_def mark_def) (simp add: books_def)

lemma hg_record_total: "hg_record v h = Some h' \<Longrightarrow> hg_total h' \<le> hg_total h + 1"
  by (auto simp: hg_record_def Let_def bind_eq_Some_conv split: if_splits)

lemma end_step_keeps:
  assumes "end_step hash t1 t2 bm ms p = Some p'" and "hg_wf (latency_hist p)"
  shows "hg_wf (latency_hist p')" "books p' = books p" "hg_total (latency_hist p') \<le> hg_total (latency_hist p) + 1"
proof -
  obtain h where "hg_record ms (latency_hist p) = Some h" "hg_wf h" "hg_total h \<le> hg_total (latency_hist p) + 1"
    using hg_record_wf [OF assms(2), of ms] hg_record_total by blast
  then show "hg_wf (latency_hist p')" "books p' = books p" "hg_total (latency_hist p') \<le> hg_total (latency_hist p) + 1"
    using assms(1) by (auto simp: end_step_def Let_def books_def split: option.splits)
       (auto simp: trace_event_to_def trace_counter_to_def)
qed

lemma engine_step_keeps:
  assumes "engine_step psort fsort draw mem pm bm ck b (en, Some pf, g) = Some (r, en', pfo, g')"
    and "hg_wf (latency_hist pf)"
  shows "en_model_config en' = en_model_config en" "en_cache_config en' = en_cache_config en"
    "\<exists>pf'. pfo = Some pf' \<and> hg_wf (latency_hist pf') \<and> books pf' = books pf \<and>
      hg_total (latency_hist pf') \<le> hg_total (latency_hist pf) + 1"
proof -
  show "en_model_config en' = en_model_config en" "en_cache_config en' = en_cache_config en"
    using assms(1) by (auto simp: engine_step_def Let_def bind_eq_Some_conv split: if_splits)
  show "\<exists>pf'. pfo = Some pf' \<and> hg_wf (latency_hist pf') \<and> books pf' = books pf \<and>
      hg_total (latency_hist pf') \<le> hg_total (latency_hist pf) + 1"
  proof (cases "batch_empty b")
    case True
    then show ?thesis using assms by (auto simp: engine_step_def)
  next
    case False
    then obtain p1 p2 where "end_step (ck_hash ck) (ck_end1 ck) (ck_end2 ck) bm (ms_between (ck_start ck) (ck_end ck)) p1 = Some p2"
        "pfo = Some p2" "latency_hist p1 = latency_hist pf" "books p1 = books pf"
      using assms(1) by (auto simp: engine_step_def Let_def bind_eq_Some_conv)
    then show ?thesis using end_step_keeps [of _ _ _ _ _ p1 p2] assms(2) by simp
  qed
qed

lemma record_first_token_keeps:
  "dom (active_requests (record_first_token now i p)) = dom (active_requests p)"
  "total_requests (record_first_token now i p) = total_requests p"
  "latency_hist (record_first_token now i p) = latency_hist p"
  by (auto simp: record_first_token_def split: option.splits)

lemma record_end_keeps:
  assumes "active_requests p i \<noteq> None"
  shows "active_requests (record_request_end hash t1 t2 i n p) = (active_requests p)(i := None)"
    "total_requests (record_request_end hash t1 t2 i n p) = total_requests p + 1"
    "latency_hist (record_request_end hash t1 t2 i n p) = latency_hist p"
  using assms by (auto simp: record_request_end_def trace_counter_to_def Let_def)

lemma note_completed_closes:
  assumes "\<And>p. p \<in> set ps \<Longrightarrow> \<exists>g. h p = Some g \<and> sequences g \<noteq> [] \<and> request_id g \<in> dom (active_requests pf)"
    and "distinct (map (\<lambda>p. request_id (the (h p))) ps)"
  defines "fs \<equiv> filter (\<lambda>p. all_finished (the (h p))) ps"
  shows "\<exists>pf'. foldM (note_completed hash t1 t2 h) ps (pf, n) = Some (pf', n + length fs) \<and>
    dom (active_requests pf') = dom (active_requests pf) - (\<lambda>p. request_id (the (h p))) ` set fs \<and>
    total_requests pf' = total_requests pf + length fs \<and> latency_hist pf' = latency_hist pf"
  using assms(1,2) unfolding fs_def
proof (induction ps arbitrary: pf n)
  case (Cons p ps)
  obtain g where g: "h p = Some g" "sequences g \<noteq> []" "request_id g \<in> dom (active_requests pf)"
    using Cons.prems(1) by force
  show ?case
  proof (cases "all_finished g")
    case False
    then have "foldM (note_completed hash t1 t2 h) (p # ps) (pf, n) = foldM (note_completed hash t1 t2 h) ps (pf, n)"
      using g by (simp add: note_completed_def)
    then show ?thesis using Cons.IH [of pf n] Cons.prems g False by simp
  next
    case True
    define pf1 where "pf1 = record_request_end hash (t1 (request_id g)) (t2 (request_id g)) (request_id g)
      (output_len (sequences g ! 0)) pf"
    have "active_requests pf (request_id g) \<noteq> None" using g(3) by auto
    note ends = record_end_keeps [OF this, where hash = hash, folded pf1_def]
    have "foldM (note_completed hash t1 t2 h) (p # ps) (pf, n) = foldM (note_completed hash t1 t2 h) ps (pf1, n + 1)"
      using g True by (simp add: note_completed_def pf1_def)
    moreover have "\<exists>g'. h p' = Some g' \<and> sequences g' \<noteq> [] \<and> request_id g' \<in> dom (active_requests pf1)"
      if p': "p' \<in> set ps" for p'
    proof -
      obtain g' where g': "h p' = Some g'" "sequences g' \<noteq> []" "request_id g' \<in> dom (active_requests pf)"
        using Cons.prems(1) [of p'] p' by auto
      have "request_id (the (h p')) \<noteq> request_id (the (h p))" using Cons.prems(2) p' by (auto simp: image_iff)
      then show ?thesis using g' g(1) by (auto simp: pf1_def ends(1))
    qed
    ultimately obtain pf' where "foldM (note_completed hash t1 t2 h) (p # ps) (pf, n) =
        Some (pf', n + 1 + length (filter (\<lambda>p. all_finished (the (h p))) ps))"
      "dom (active_requests pf') = dom (active_requests pf1) - (\<lambda>p. request_id (the (h p))) ` set (filter (\<lambda>p. all_finished (the (h p))) ps)"
      "total_requests pf' = total_requests pf1 + length (filter (\<lambda>p. all_finished (the (h p))) ps)"
      "latency_hist pf' = latency_hist pf1"
      using Cons.IH [of pf1 "n + 1"] Cons.prems(2) by auto
    then show ?thesis using True g(1) ends by (auto simp: pf1_def)
  qed
qed simp

section \<open>The invariant of the driver\<close>

definition bench_inv :: "bench_config \<Rightarrow> nat \<Rightarrow> 'g bench_state \<Rightarrow> bool" where
  "bench_inv cfg cap st \<longleftrightarrow>
     ample (bc_num_concurrent cfg) cap (bc_prompt_len cfg) (bc_output_len cfg) (bn_scheduler st) \<and>
     sc_config (bn_scheduler st) = bench_scheduler cfg \<and>
     bm_block_size (sc_bm (bn_scheduler st)) = block_size (bc_cache cfg) \<and>
     num_total_gpu_blocks (sc_bm (bn_scheduler st)) = num_gpu_blocks (bc_cache cfg) \<and>
     bn_submitted st \<le> bc_num_requests cfg \<and>
     bn_completed st + length (queue (bn_scheduler st)) = bn_submitted st \<and>
     bn_next_id st = word_of_nat (bn_submitted st) \<and>
     (\<forall>p g. sc_heap (bn_scheduler st) p = Some g \<longrightarrow> (\<exists>i < bn_submitted st. request_id g = word_of_nat i)) \<and>
     en_model_config (bn_engine st) = bc_model cfg \<and> en_cache_config (bn_engine st) = bc_cache cfg \<and>
     hg_wf (latency_hist (bn_profiler st)) \<and>
     dom (active_requests (bn_profiler st)) = request_id ` ran (sc_heap (bn_scheduler st)) \<and>
     total_requests (bn_profiler st) = bn_completed st"

text \<open>The tokens that are still to be produced.\<close>

definition work :: "bench_config \<Rightarrow> 'g bench_state \<Rightarrow> nat" where
  "work cfg st = (bc_num_requests cfg - bn_submitted st) * bc_output_len cfg +
     (\<Sum>p \<in> dom (sc_heap (bn_scheduler st)). bc_output_len cfg - produced (the (sc_heap (bn_scheduler st) p)))"

lemma bench_inv_parts:
  assumes "bench_inv cfg cap st"
  shows "ample (bc_num_concurrent cfg) cap (bc_prompt_len cfg) (bc_output_len cfg) (bn_scheduler st)"
    "sc_config (bn_scheduler st) = bench_scheduler cfg"
    "bm_block_size (sc_bm (bn_scheduler st)) = block_size (bc_cache cfg)"
    "num_total_gpu_blocks (sc_bm (bn_scheduler st)) = num_gpu_blocks (bc_cache cfg)"
    "bn_submitted st \<le> bc_num_requests cfg"
    "bn_completed st + length (queue (bn_scheduler st)) = bn_submitted st"
    "bn_next_id st = word_of_nat (bn_submitted st)"
    "\<forall>p g. sc_heap (bn_scheduler st) p = Some g \<longrightarrow> (\<exists>i < bn_submitted st. request_id g = word_of_nat i)"
    "en_model_config (bn_engine st) = bc_model cfg" "en_cache_config (bn_engine st) = bc_cache cfg"
    "hg_wf (latency_hist (bn_profiler st))"
    "dom (active_requests (bn_profiler st)) = request_id ` ran (sc_heap (bn_scheduler st))"
    "total_requests (bn_profiler st) = bn_completed st"
  using assms by (simp_all add: bench_inv_def)

lemma bench_queue_len:
  assumes "bench_inv cfg cap st"
  shows "num_running (bn_scheduler st) + num_waiting (bn_scheduler st) = length (queue (bn_scheduler st))"
  using base_inv_parts(2) [OF ample_parts(1) [OF bench_inv_parts(1) [OF assms]]]
  by (simp add: queue_def num_running_def num_waiting_def)

text \<open>A new request fits when there is room for one more.\<close>

lemma ample_add:
  assumes am: "ample C cap P L s" and new: "p \<notin> dom (sc_heap s)"
    and fresh: "\<forall>q g. sc_heap s q = Some g \<longrightarrow> request_id g \<noteq> rid"
    and room: "length (queue s) < C" and prompt: "length prompt = P" and L: "0 < L" and sp: "max_tokens sp = int L"
  shows "ample C cap P L (add_request p (sequence_group_new now rid prompt sp prio) s)"
proof -
  let ?s = "add_request p (sequence_group_new now rid prompt sp prio) s"
  have "base_inv no_ext ?s" by (rule add_request_base [OF ample_parts(1) [OF am] new fresh])
  moreover have "all_open ?s"
    using ample_parts(2) [OF am]
    by (auto simp: all_open_def add_request_def sequence_group_new_def all_finished_def seq_finished_def)
  moreover have "group_fits cap P L g" if "sc_heap ?s q = Some g" for q g
    using that ample_parts(6) [OF am, of q g] prompt L sp
    by (auto simp: add_request_def sequence_group_new_def group_fits_def prompt_len_def output_len_def split: if_splits)
  moreover have "length (queue ?s) = Suc (length (queue s))" by (simp add: queue_def add_request_def)
  moreover have "sc_bm ?s = sc_bm s" by (simp add: add_request_def)
  ultimately show ?thesis using ample_parts(4,5) [OF am] room unfolding ample_def by auto
qed

lemma word_of_nat_less_neq: "i < n \<Longrightarrow> n < 2 ^ 64 \<Longrightarrow> word_of_nat i \<noteq> (word_of_nat n :: 64 word)"
proof
  assume a: "i < n" "n < 2 ^ 64" and "word_of_nat i = (word_of_nat n :: 64 word)"
  then have "unat (word_of_nat i :: 64 word) = unat (word_of_nat n :: 64 word)" by simp
  with a show False by (simp add: unat_of_nat)
qed

lemma ran_upd_new: "m p = None \<Longrightarrow> ran (m(p \<mapsto> v)) = insert v (ran m)"
  by (rule ran_map_upd)

lemma submit_request_inv:
  assumes inv: "bench_inv cfg cap st" and more: "bn_submitted st < bc_num_requests cfg"
    and room: "length (queue (bn_scheduler st)) < bc_num_concurrent cfg"
    and ids: "bc_num_requests cfg \<le> 2 ^ 64" and new: "\<forall>h. finite (dom h) \<longrightarrow> ev_new env h \<notin> dom h"
    and L: "0 < bc_output_len cfg" "bc_output_len cfg < 2 ^ 31"
    and prompts: "length prompts = bc_num_requests cfg" "\<forall>p \<in> set prompts. length p = bc_prompt_len cfg"
  shows "\<exists>st'. submit_request env cfg prompts st = Some st' \<and> bench_inv cfg cap st' \<and> work cfg st' = work cfg st \<and>
    bn_submitted st' = bn_submitted st + 1 \<and> bn_completed st' = bn_completed st \<and>
    latency_hist (bn_profiler st') = latency_hist (bn_profiler st)"
proof -
  let ?s = "bn_scheduler st" and ?i = "bn_submitted st"
  let ?p = "ev_new env (sc_heap ?s)"
  let ?sp = "default_sampling_params\<lparr>max_tokens := to_i32 (int (bc_output_len cfg))\<rparr>"
  let ?g = "sequence_group_new (ev_arrival env ?i) (bn_next_id st) (prompts ! ?i) ?sp 0"
  note parts = bench_inv_parts [OF inv]
  define st' where "st' = st\<lparr>bn_profiler := record_request_start (ev_started env ?i) (bn_next_id st) (bn_profiler st),
    bn_scheduler := add_request ?p ?g ?s, bn_next_id := bn_next_id st + 1, bn_submitted := ?i + 1\<rparr>"
  have sub: "submit_request env cfg prompts st = Some st'"
    using more prompts(1) by (simp add: submit_request_def submit_prompt_def st'_def Let_def)
  have fin: "finite (dom (sc_heap ?s))" using ample_dom(1) [OF parts(1)] .
  have p: "?p \<notin> dom (sc_heap ?s)" using new fin by blast
  have fresh: "\<forall>q g. sc_heap ?s q = Some g \<longrightarrow> request_id g \<noteq> bn_next_id st"
    using parts(7,8) word_of_nat_less_neq more ids by (metis less_le_trans)
  have am: "ample (bc_num_concurrent cfg) cap (bc_prompt_len cfg) (bc_output_len cfg) (add_request ?p ?g ?s)"
    using more prompts L by (intro ample_add [OF parts(1) p fresh room]) simp_all
  have heap: "sc_heap (add_request ?p ?g ?s) = (sc_heap ?s)(?p \<mapsto> ?g)" by (simp add: add_request_def)
  have same: "sc_config (add_request ?p ?g ?s) = sc_config ?s" "sc_bm (add_request ?p ?g ?s) = sc_bm ?s"
    "length (queue (add_request ?p ?g ?s)) = Suc (length (queue ?s))"
    by (simp_all add: add_request_def queue_def)
  have rid: "request_id ?g = bn_next_id st" by (simp add: sequence_group_new_def)
  have "request_id ` ran (sc_heap (add_request ?p ?g ?s)) = insert (bn_next_id st) (request_id ` ran (sc_heap ?s))"
    using p rid by (simp add: heap ran_upd_new domIff)
  then have act: "dom (active_requests (bn_profiler st')) = request_id ` ran (sc_heap (bn_scheduler st'))"
    using parts(12) by (simp add: st'_def record_request_start_def)
  have id': "\<exists>i < bn_submitted st'. request_id g = word_of_nat i" if "sc_heap (bn_scheduler st') q = Some g" for q g
  proof (cases "q = ?p")
    case True
    then have "g = ?g" using that heap by (simp add: st'_def)
    then show ?thesis using parts(7) rid by (intro exI [of _ ?i]) (simp add: st'_def)
  next
    case False
    then have "sc_heap ?s q = Some g" using that by (simp add: st'_def heap)
    with parts(8) obtain i where "i < ?i" "request_id g = word_of_nat i" by blast
    then show ?thesis by (intro exI [of _ i]) (simp add: st'_def)
  qed
  have bi: "bench_inv cfg cap st'"
    unfolding bench_inv_def using am act id' parts same more
    by (auto simp: st'_def record_request_start_def)
  have "work cfg st' = work cfg st"
  proof -
    let ?f = "\<lambda>h p. bc_output_len cfg - produced (the (h p))"
    have "(\<Sum>q \<in> dom ((sc_heap ?s)(?p \<mapsto> ?g)). ?f ((sc_heap ?s)(?p \<mapsto> ?g)) q) =
        ?f ((sc_heap ?s)(?p \<mapsto> ?g)) ?p + (\<Sum>q \<in> dom (sc_heap ?s). ?f ((sc_heap ?s)(?p \<mapsto> ?g)) q)"
      using fin p by simp
    also have "(\<Sum>q \<in> dom (sc_heap ?s). ?f ((sc_heap ?s)(?p \<mapsto> ?g)) q) = (\<Sum>q \<in> dom (sc_heap ?s). ?f (sc_heap ?s) q)"
      using p by (intro sum.cong) auto
    also have "?f ((sc_heap ?s)(?p \<mapsto> ?g)) ?p = bc_output_len cfg"
      by (simp add: sequence_group_new_def produced_def output_len_def)
    finally have "(\<Sum>q \<in> dom ((sc_heap ?s)(?p \<mapsto> ?g)). ?f ((sc_heap ?s)(?p \<mapsto> ?g)) q) =
        bc_output_len cfg + (\<Sum>q \<in> dom (sc_heap ?s). ?f (sc_heap ?s) q)" .
    moreover have "bc_num_requests cfg - ?i = Suc (bc_num_requests cfg - (?i + 1))" using more by simp
    ultimately show ?thesis by (simp add: work_def st'_def heap)
  qed
  with sub bi show ?thesis by (auto simp: st'_def record_request_start_def)
qed

lemma submit_requests_inv:
  assumes "bench_inv cfg cap st"
    and ids: "bc_num_requests cfg \<le> 2 ^ 64" and new: "\<forall>h. finite (dom h) \<longrightarrow> ev_new env h \<notin> dom h"
    and L: "0 < bc_output_len cfg" "bc_output_len cfg < 2 ^ 31"
    and prompts: "length prompts = bc_num_requests cfg" "\<forall>p \<in> set prompts. length p = bc_prompt_len cfg"
  shows "\<exists>st'. submit_requests env cfg prompts st = Some st' \<and> bench_inv cfg cap st' \<and> work cfg st' = work cfg st \<and>
    bn_completed st' = bn_completed st \<and> latency_hist (bn_profiler st') = latency_hist (bn_profiler st) \<and>
    (bn_submitted st' = bc_num_requests cfg \<or> bc_num_concurrent cfg \<le> length (queue (bn_scheduler st')))"
  using assms(1)
proof (induction "bc_num_requests cfg - bn_submitted st" arbitrary: st)
  case 0
  have "bn_submitted st = bc_num_requests cfg" using 0 bench_inv_parts(5) [OF 0(2)] by simp
  then show ?case using 0(2) by (simp add: submit_requests.simps [of env])
next
  case (Suc n)
  note q = bench_queue_len [OF Suc.prems]
  show ?case
  proof (cases "length (queue (bn_scheduler st)) < bc_num_concurrent cfg")
    case False
    then show ?thesis using Suc.prems q by (simp add: submit_requests.simps [of env])
  next
    case True
    have more: "bn_submitted st < bc_num_requests cfg" using Suc.hyps(2) by simp
    obtain st1 where st1: "submit_request env cfg prompts st = Some st1" "bench_inv cfg cap st1"
        "work cfg st1 = work cfg st" "bn_submitted st1 = bn_submitted st + 1" "bn_completed st1 = bn_completed st"
        "latency_hist (bn_profiler st1) = latency_hist (bn_profiler st)"
      using submit_request_inv [OF Suc.prems more True ids new L prompts] by blast
    have "n = bc_num_requests cfg - bn_submitted st1" using Suc.hyps(2) st1(4) by simp
    from Suc.hyps(1) [OF this st1(2)] st1 more True q show ?thesis by (simp add: submit_requests.simps [of env cfg prompts st])
  qed
qed

section \<open>A round\<close>

text \<open>The configurations for which the run is analysed, with \<open>cap\<close> blocks for each request in flight.\<close>

definition bench_ok :: "'g bench_env \<Rightarrow> bench_config \<Rightarrow> nat \<Rightarrow> bool" where
  "bench_ok env cfg cap \<longleftrightarrow>
     0 < bc_prompt_len cfg \<and> 0 < bc_output_len cfg \<and> 0 < bc_num_concurrent cfg \<and>
     bc_prompt_len cfg + bc_output_len cfg < 2 ^ 31 \<and> bc_num_requests cfg \<le> 2 ^ 64 \<and>
     bc_num_requests cfg * bc_output_len cfg < 2 ^ 64 \<and>
     bc_num_concurrent cfg * (bc_prompt_len cfg + bc_output_len cfg) < 2 ^ 64 \<and>
     0 < block_size (bc_cache cfg) \<and> block_size (bc_cache cfg) < 2 ^ 31 \<and> num_gpu_blocks (bc_cache cfg) < 2 ^ 31 \<and>
     num_cpu_blocks (bc_cache cfg) \<le> 2 ^ 31 \<and> num_gpu_blocks (bc_cache cfg) * block_size (bc_cache cfg) \<le> 2 ^ 31 \<and>
     bc_prompt_len cfg + bc_output_len cfg \<le> cap * block_size (bc_cache cfg) \<and>
     bc_num_concurrent cfg * cap \<le> num_gpu_blocks (bc_cache cfg) \<and>
     descending_sorts (ev_psort env) (ev_fsort env) \<and> 0 < vocab_size (bc_model cfg) \<and>
     model_fits (bc_model cfg) (block_size (bc_cache cfg)) (num_gpu_blocks (bc_cache cfg)) (ev_mem env) \<and>
     (\<forall>h. finite (dom h) \<longrightarrow> ev_new env h \<notin> dom h)"

text \<open>Every unfinished sequence has an entry in the batch.\<close>

lemma batch_covers:
  assumes am: "ample C cap P L s" and "0 < P" and out: "set (scheduled_groups out) = dom (sc_heap s)"
    and b: "entries b = concat (map (\<lambda>p. group_entries (the (sc_heap s p))) (scheduled_groups out))"
  shows "length (scheduled_groups out) \<le> length (entries b)"
proof -
  have one: "1 \<le> length (group_entries (the (sc_heap s p)))" if p: "p \<in> set (scheduled_groups out)" for p
  proof -
    obtain g where g: "sc_heap s p = Some g" using p out by auto
    obtain q where q: "sequences g = [q]" "\<not> seq_finished q" using ample_group [OF am g] .
    have "prompt_len q = P" using ample_parts(6) [OF am g] q(1) by (simp add: group_fits_def)
    then show ?thesis using g q assms(2) by (simp add: group_entries_def seq_entries_def)
  qed
  have "length (scheduled_groups out) = sum_list (map (\<lambda>_. 1) (scheduled_groups out))" by (simp add: sum_list_triv)
  also have "\<dots> \<le> sum_list (map (\<lambda>p. length (group_entries (the (sc_heap s p)))) (scheduled_groups out))"
    using one by (intro sum_list_mono)
  finally show ?thesis by (simp add: b length_concat comp_def)
qed

text \<open>Decoding what an ample scheduler has scheduled.\<close>

lemma bench_decode:
  assumes ok: "bench_ok env cfg cap" and am: "ample C cap (bc_prompt_len cfg) (bc_output_len cfg) s"
    and rm: "rooms s out" and out: "distinct (scheduled_groups out)" "set (scheduled_groups out) = dom (sc_heap s)"
    and cache: "bm_block_size (sc_bm s) = block_size (bc_cache cfg)"
      "num_total_gpu_blocks (sc_bm s) = num_gpu_blocks (bc_cache cfg)"
    and en: "en_model_config en = bc_model cfg" "en_cache_config en = bc_cache cfg" and pf: "hg_wf (latency_hist pf)"
  shows "\<exists>b bt' r en' pf' g'. build_batch (sc_heap s) out bt = Some (b, bt') \<and>
    engine_step (ev_psort env) (ev_fsort env) (ev_draw env) (ev_mem env) (ev_pools env) bm ck b (en, Some pf, g)
      = Some (r, en', Some pf', g') \<and> length (scheduled_groups out) \<le> length (sr_new_tokens r) \<and>
    en_model_config en' = bc_model cfg \<and> en_cache_config en' = bc_cache cfg \<and> hg_wf (latency_hist pf') \<and> books pf' = books pf \<and>
    hg_total (latency_hist pf') \<le> hg_total (latency_hist pf) + 1 \<and>
    length (sr_new_tokens r) = sum_list (map (\<lambda>p. length (group_entries (the (sc_heap s p)))) (scheduled_groups out))"
proof -
  note ok = ok [unfolded bench_ok_def]
  have tl: "\<forall>p \<in> set (scheduled_groups out). \<forall>q \<in> set (sequences (the (sc_heap s p))). total_len q \<le> 2 ^ 31 - 1"
  proof (intro ballI)
    fix p q
    assume a: "p \<in> set (scheduled_groups out)" "q \<in> set (sequences (the (sc_heap s p)))"
    then obtain g where g: "sc_heap s p = Some g" using out(2) by auto
    have "total_len q < bc_prompt_len cfg + bc_output_len cfg"
      using ample_parts(6) [OF am g] a(2) g by (simp add: group_fits_def total_len_def)
    then show "total_len q \<le> 2 ^ 31 - 1" using ok by linarith
  qed
  have fits: "cache_fits (en_cache_config en) s out"
    using ok tl cache en by (simp add: cache_fits_def)
  obtain b bt' where b: "build_batch (sc_heap s) out bt = Some (b, bt')" "total_tokens b = length (entries b)"
      "length (entries b) * max_table (entries b) < size_max" "0 < block_size (en_cache_config en)"
      "\<forall>e \<in> set (entries b). entry_ok (int (block_size (en_cache_config en))) e \<and>
        (\<forall>x \<in> set (be_block_table e). 0 \<le> x \<and> x < int (num_total_gpu_blocks (sc_bm s)))"
    using scheduled_batch [OF ample_parts(1) [OF am] rm out(1) fits, of bt] by blast
  have "block_size (en_cache_config en) < 2 ^ 31" "0 < vocab_size (en_model_config en)"
    "descending_sorts (ev_psort env) (ev_fsort env)"
    "model_fits (en_model_config en) (block_size (en_cache_config en)) (num_total_gpu_blocks (sc_bm s)) (ev_mem env)"
    "pred_option (\<lambda>p. hg_wf (latency_hist p)) (Some pf)"
    using ok en cache pf by simp_all
  from engine_step_defined [OF this(3,2) b(4) this(1,4) b(2,3,5) this(5), of "ev_draw env" "ev_pools env" bm ck g]
  obtain r en' pfo g' where r: "engine_step (ev_psort env) (ev_fsort env) (ev_draw env) (ev_mem env) (ev_pools env) bm ck b
      (en, Some pf, g) = Some (r, en', pfo, g')" "length (sr_new_tokens r) = length (entries b)" by blast
  note keep = engine_step_keeps [OF r(1) pf]
  have live: "set (scheduled_groups out) \<subseteq> dom (sc_heap s)" using out(2) by simp
  have es: "entries b = concat (map (\<lambda>p. group_entries (the (sc_heap s p))) (scheduled_groups out))"
    using build_batch_result [OF live tl, of bt] b(1) by auto
  then have "length (sr_new_tokens r) = sum_list (map (\<lambda>p. length (group_entries (the (sc_heap s p)))) (scheduled_groups out))"
    using r(2) by (simp add: length_concat comp_def)
  moreover from batch_covers [OF am _ out(2) es] have "length (scheduled_groups out) \<le> length (sr_new_tokens r)"
    using ok r(2) by simp
  ultimately show ?thesis using b(1) r(1) keep en by metis
qed

text \<open>Work left over after everybody has received a token.\<close>

lemma work_decreases:
  assumes fin: "finite D" and ne: "D \<noteq> {}" and sub: "D' \<subseteq> D"
    and old: "\<And>p. p \<in> D \<Longrightarrow> f p < L" and new: "\<And>p. p \<in> D' \<Longrightarrow> f' p = Suc (f p)"
  shows "(\<Sum>p \<in> D'. L - f' p) < (\<Sum>p \<in> D. L - (f p :: nat))"
proof -
  have "(\<Sum>p \<in> D'. L - f' p) = (\<Sum>p \<in> D'. L - Suc (f p))" using new by (intro sum.cong) simp_all
  also have "\<dots> \<le> (\<Sum>p \<in> D. L - Suc (f p))" using fin sub by (intro sum_mono2) simp_all
  also have "\<dots> < (\<Sum>p \<in> D. L - f p)" using fin ne old by (intro sum_strict_mono) (simp_all add: diff_less_mono2)
  finally show ?thesis .
qed

lemma queue_set:
  assumes "ample C cap P L s"
  shows "set (queue s) = dom (sc_heap s)" "distinct (queue s)"
  using base_inv_parts(1) [OF ample_parts(1) [OF assms]] by (simp_all add: queues_wf_def)

lemma ample_ids_inj:
  assumes "ample C cap P L s"
  shows "inj_on (\<lambda>p. request_id (the (sc_heap s p))) (dom (sc_heap s))"
proof (rule inj_onI)
  fix p p'
  assume "p \<in> dom (sc_heap s)" "p' \<in> dom (sc_heap s)" "request_id (the (sc_heap s p)) = request_id (the (sc_heap s p'))"
  then show "p = p'"
    using base_inv_parts(3) [OF ample_parts(1) [OF assms]] unfolding blocks_inv_def by (metis domD option.sel)
qed

lemma ids_image: "request_id ` ran h = (\<lambda>p. request_id (the (h p))) ` dom h"
  by (auto simp: ran_def image_iff dom_def) (metis option.sel)

lemma length_filter_not: "length (filter P xs) + length (filter (\<lambda>x. \<not> P x) xs) = length xs"
  by (induction xs) auto

lemma round_books:
  assumes am: "ample C cap P L s1" and am2: "ample C cap P L s2"
    and out: "distinct ps" "set ps = dom (sc_heap s1)"
    and h': "\<forall>p g. sc_heap s1 p = Some g \<longrightarrow> (\<exists>g'. h' p = Some g' \<and> request_id g' = request_id g \<and> length (sequences g') = 1)"
    and q2: "queue s2 = filter (\<lambda>p. \<not> all_finished (the (h' p))) (queue s1)"
    and ids2: "\<forall>p g'. sc_heap s2 p = Some g' \<longrightarrow> (\<exists>g. sc_heap s1 p = Some g \<and> request_id g' = request_id g)"
    and act: "dom (active_requests pf) = request_id ` ran (sc_heap s1)"
  shows "\<exists>pf2 n'. foldM (note_completed hash tend tcount h') ps (pf, n) = Some (pf2, n + n') \<and> n' + length (queue s2) = length (queue s1) \<and>
    dom (active_requests pf2) = request_id ` ran (sc_heap s2) \<and> total_requests pf2 = total_requests pf + n' \<and>
    latency_hist pf2 = latency_hist pf"
proof -
  let ?D = "dom (sc_heap s1)" and ?rid = "\<lambda>p. request_id (the (sc_heap s1 p))"
  let ?fin = "\<lambda>p. all_finished (the (h' p))"
  have live: "\<exists>g'. h' p = Some g' \<and> request_id g' = ?rid p \<and> sequences g' \<noteq> []" if "p \<in> ?D" for p
    using that h' by force
  have rid': "request_id (the (h' p)) = ?rid p" if "p \<in> ?D" for p using live [OF that] by force
  have "map (\<lambda>p. request_id (the (h' p))) ps = map ?rid ps" using rid' out(2) by simp
  moreover have "distinct (map ?rid ps)" using out ample_ids_inj [OF am] by (simp add: distinct_map)
  ultimately have dist: "distinct (map (\<lambda>p. request_id (the (h' p))) ps)" by (simp only:)
  have pres: "\<exists>g. h' p = Some g \<and> sequences g \<noteq> [] \<and> request_id g \<in> dom (active_requests pf)" if "p \<in> set ps" for p
    using live [of p] that out(2) act ids_image [of "sc_heap s1"] by force
  define fs where "fs = filter ?fin ps"
  obtain pf2 where pf2: "foldM (note_completed hash tend tcount h') ps (pf, n) = Some (pf2, n + length fs)"
      "dom (active_requests pf2) = dom (active_requests pf) - (\<lambda>p. request_id (the (h' p))) ` set fs"
      "total_requests pf2 = total_requests pf + length fs" "latency_hist pf2 = latency_hist pf"
    using note_completed_closes [of ps h' pf hash tend tcount n, OF pres dist] unfolding fs_def by blast
  note qs = queue_set [OF am]
  have "mset ps = mset (queue s1)" using out qs by (metis set_eq_iff_mset_eq_distinct)
  then have "length fs = length (filter ?fin (queue s1))" unfolding fs_def by (metis mset_filter size_mset)
  then have len: "length fs + length (queue s2) = length (queue s1)" using q2 length_filter_not by metis
  have D2: "dom (sc_heap s2) = ?D - set fs" using queue_set [OF am2] q2 qs(1) out(2) by (auto simp: fs_def)
  have "request_id (the (sc_heap s2 p)) = ?rid p" if "p \<in> dom (sc_heap s2)" for p using that ids2 by force
  then have "request_id ` ran (sc_heap s2) = ?rid ` (?D - set fs)" unfolding ids_image D2 by (intro image_cong) (simp_all add: D2)
  also have "\<dots> = ?rid ` ?D - ?rid ` set fs"
    using ample_ids_inj [OF am] out(2) by (intro inj_on_image_set_diff [of _ ?D]) (auto simp: fs_def)
  also have "?rid ` set fs = (\<lambda>p. request_id (the (h' p))) ` set fs"
    using rid' out(2) by (intro image_cong) (auto simp: fs_def)
  finally have "dom (active_requests pf2) = request_id ` ran (sc_heap s2)"
    using pf2(2) act by (simp add: ids_image)
  then show ?thesis using pf2 len by auto
qed

text \<open>The scheduling step of a round.\<close>

lemma bench_schedules:
  assumes inv: "bench_inv cfg cap st" and ok: "bench_ok env cfg cap"
  defines "s \<equiv> bn_scheduler st"
  shows "\<exists>out s1. schedule s = Some (out, s1) \<and>
    ample (bc_num_concurrent cfg) cap (bc_prompt_len cfg) (bc_output_len cfg) s1 \<and> rooms s1 out \<and>
    distinct (scheduled_groups out) \<and> set (scheduled_groups out) = dom (sc_heap s1) \<and>
    dom (sc_heap s1) = dom (sc_heap s) \<and> sc_config s1 = sc_config s \<and> outputs s1 = outputs s \<and>
    bm_block_size (sc_bm s1) = block_size (bc_cache cfg) \<and> num_total_gpu_blocks (sc_bm s1) = num_gpu_blocks (bc_cache cfg) \<and>
    (\<forall>p. map_option request_id (sc_heap s1 p) = map_option request_id (sc_heap s p))"
proof -
  let ?P = "bc_prompt_len cfg" and ?L = "bc_output_len cfg" and ?C = "bc_num_concurrent cfg"
  note parts = bench_inv_parts [OF inv, folded s_def] and o = ok [unfolded bench_ok_def]
  note am = parts(1)
  have "?C * (?P + ?L) < size_max" "?P + ?L < size_max" using o by (simp_all add: size_max_def)
  then have "max_num_batched_tokens (sc_config s) = ?C * (?P + ?L)" "max_num_seqs (sc_config s) = ?C"
    by (simp_all add: parts(2) bench_scheduler_def)
  then have "0 < ?P" "?C \<le> max_num_seqs (sc_config s)" "?C * ?P \<le> max_num_batched_tokens (sc_config s)"
    using o by simp_all
  from schedule_all [OF am this] obtain out s1 where sch: "schedule s = Some (out, s1)" "ample ?C cap ?P ?L s1" "rooms s1 out"
      "distinct (scheduled_groups out)" "set (scheduled_groups out) = dom (sc_heap s)"
      "dom (sc_heap s1) = dom (sc_heap s)" "sc_waiting s1 = []" "sc_config s1 = sc_config s"
      "same_shape (sc_bm s) (sc_bm s1)" "outputs s1 = outputs s" by (elim exE conjE) (rule that)
  moreover have "\<forall>p. map_option request_id (sc_heap s1 p) = map_option request_id (sc_heap s p)"
    using schedule_frame [OF sch(1) base_inv_parts(1) [OF ample_parts(1) [OF am]]] by (simp add: frame_def)
  ultimately show ?thesis
    using same_shape_block_size [OF sch(9)] same_shape_total [OF sch(9)] parts(3,4) by (intro exI [of _ out] exI [of _ s1]) simp
qed

lemma outputs_produced: "outputs s1 = outputs s \<Longrightarrow> p \<in> dom (sc_heap s) \<Longrightarrow>
  produced (the (sc_heap s1 p)) = produced (the (sc_heap s p))"
  by (auto simp: outputs_def fun_eq_iff dest!: spec [of _ p])

lemma round_work:
  assumes am: "ample C cap P L s" and ne: "queue s \<noteq> []" and outs: "outputs s1 = outputs s"
    and dom: "dom (sc_heap s1) = dom (sc_heap s)"
    and old: "\<forall>p g'. sc_heap s2 p = Some g' \<longrightarrow>
      (\<exists>g. sc_heap s1 p = Some g \<and> request_id g' = request_id g \<and> produced g' = Suc (produced g))"
  shows "(\<Sum>p \<in> dom (sc_heap s2). L - produced (the (sc_heap s2 p))) < (\<Sum>p \<in> dom (sc_heap s). L - produced (the (sc_heap s p)))"
proof (rule work_decreases)
  show "finite (dom (sc_heap s))" by (rule ample_dom(1) [OF am])
  show "dom (sc_heap s) \<noteq> {}" using queue_set(1) [OF am] ne by (metis set_empty)
  show "dom (sc_heap s2) \<subseteq> dom (sc_heap s)" using old dom by blast
  show "produced (the (sc_heap s p)) < L" if "p \<in> dom (sc_heap s)" for p
    using that ample_produced [OF am] by fastforce
  show "produced (the (sc_heap s2 p)) = Suc (produced (the (sc_heap s p)))" if p: "p \<in> dom (sc_heap s2)" for p
  proof -
    obtain g g1 where "sc_heap s2 p = Some g" "sc_heap s1 p = Some g1" "produced g = Suc (produced g1)"
      using p old by blast
    then show ?thesis using outputs_produced [OF outs, of p] dom by (metis domI option.sel)
  qed
qed

text \<open>
  What the drivers rely on: the notes are defined for live groups, open or close no request and leave the
  histogram alone.
\<close>

locale bookkeeping =
  fixes tell :: token_notes
  assumes keeps: "\<forall>p \<in> set ps. h p \<noteq> None \<Longrightarrow> \<exists>pf'. tell k h ps pf = Some pf' \<and>
    dom (active_requests pf') = dom (active_requests pf) \<and> total_requests pf' = total_requests pf \<and>
    latency_hist pf' = latency_hist pf"
begin

lemma bench_round_inv:
  assumes inv: "bench_inv cfg cap st" and ok: "bench_ok env cfg cap" and ne: "queue (bn_scheduler st) \<noteq> []"
  shows "\<exists>st'. bench_round tell env k st = Some (False, st') \<and> bench_inv cfg cap st' \<and> work cfg st' < work cfg st \<and>
    hg_total (latency_hist (bn_profiler st')) \<le> hg_total (latency_hist (bn_profiler st)) + 1"
proof -
  let ?s = "bn_scheduler st" and ?P = "bc_prompt_len cfg" and ?L = "bc_output_len cfg" and ?C = "bc_num_concurrent cfg"
  note parts = bench_inv_parts [OF inv]
  note am = parts(1)
  obtain out s1 where sch: "schedule ?s = Some (out, s1)" "ample ?C cap ?P ?L s1" "rooms s1 out"
      "distinct (scheduled_groups out)" "set (scheduled_groups out) = dom (sc_heap s1)"
      "dom (sc_heap s1) = dom (sc_heap ?s)" "sc_config s1 = sc_config ?s" "outputs s1 = outputs ?s"
      "bm_block_size (sc_bm s1) = block_size (bc_cache cfg)" "num_total_gpu_blocks (sc_bm s1) = num_gpu_blocks (bc_cache cfg)"
      "\<forall>p. map_option request_id (sc_heap s1 p) = map_option request_id (sc_heap ?s p)"
    by (insert bench_schedules [OF inv ok]) (elim exE conjE, rule that)
  obtain b bt' r en' pf' g' where dec: "build_batch (sc_heap s1) out (bn_batch_manager st) = Some (b, bt')"
      "engine_step (ev_psort env) (ev_fsort env) (ev_draw env) (ev_mem env) (ev_pools env) (Some (sc_bm s1)) (ev_step_clock env k) b
        (bn_engine st, Some (bn_profiler st), bn_rng st) = Some (r, en', Some pf', g')"
      "length (scheduled_groups out) \<le> length (sr_new_tokens r)" "en_model_config en' = bc_model cfg"
      "en_cache_config en' = bc_cache cfg" "hg_wf (latency_hist pf')" "books pf' = books (bn_profiler st)"
      "hg_total (latency_hist pf') \<le> hg_total (latency_hist (bn_profiler st)) + 1"
    using bench_decode [OF ok sch(2,3,4,5,9,10) parts(9,10,11)] by blast
  have run: "set (scheduled_groups out) \<subseteq> set (sc_running s1)" using sch(3) by (simp add: rooms_def)
  have "?L < 2 ^ 31" using ok unfolding bench_ok_def by linarith
  from round_progress [OF sch(2) this sch(5,4) run dec(3), of "ev_token_time env k"]
  obtain h' s2 where up: "update_after_decode (ev_token_time env k) out (sr_new_tokens r) (sc_heap s1) = Some h'"
      "dom h' = dom (sc_heap s1)"
      "\<forall>p g. sc_heap s1 p = Some g \<longrightarrow> (\<exists>g'. h' p = Some g' \<and> request_id g' = request_id g \<and>
        length (sequences g') = 1 \<and> (all_finished g' \<longleftrightarrow> Suc (produced g) = ?L))"
      "free_finished_requests (s1\<lparr>sc_heap := h'\<rparr>) = Some s2" "ample ?C cap ?P ?L s2"
      "sc_config s2 = sc_config s1" "same_shape (sc_bm s1) (sc_bm s2)"
      "queue s2 = filter (\<lambda>p. \<not> all_finished (the (h' p))) (queue s1)"
      "\<forall>p g'. sc_heap s2 p = Some g' \<longrightarrow> (\<exists>g. sc_heap s1 p = Some g \<and> request_id g' = request_id g \<and> produced g' = Suc (produced g))"
    by (elim exE conjE) (rule that)
  have rid1: "request_id ` ran (sc_heap s1) = request_id ` ran (sc_heap ?s)"
  proof -
    have "request_id (the (sc_heap s1 p)) = request_id (the (sc_heap ?s p))" if "p \<in> dom (sc_heap ?s)" for p
      using spec [OF sch(11), of p] that sch(6) by (cases "sc_heap s1 p") auto
    then show ?thesis using sch(6) by (simp add: ids_image)
  qed
  have bk: "active_requests pf' = active_requests (bn_profiler st)" "total_requests pf' = bn_completed st"
    using dec(7) parts(13) by (simp_all add: books_def)
  have act1: "dom (active_requests pf') = request_id ` ran (sc_heap s1)" using bk(1) parts(12) rid1 by simp
  have live: "\<forall>p \<in> set (scheduled_groups out). h' p \<noteq> None" using up(2) sch(5) by auto
  obtain pf1 where nt: "tell k h' (scheduled_groups out) pf' = Some pf1"
      "dom (active_requests pf1) = dom (active_requests pf')" "total_requests pf1 = total_requests pf'"
      "latency_hist pf1 = latency_hist pf'" using keeps [OF live] by blast
  obtain pf2 n' where bks: "foldM (note_completed (ev_hash env) (ev_end_time env k) (ev_count_time env k) h') (scheduled_groups out)
        (pf1, bn_completed st) = Some (pf2, bn_completed st + n')" "n' + length (queue s2) = length (queue s1)"
      "dom (active_requests pf2) = request_id ` ran (sc_heap s2)" "total_requests pf2 = total_requests pf1 + n'"
      "latency_hist pf2 = latency_hist pf1"
  proof -
    have act: "dom (active_requests pf1) = request_id ` ran (sc_heap s1)" using nt(2) act1 by simp
    have kept: "\<forall>p g. sc_heap s1 p = Some g \<longrightarrow>
        (\<exists>g'. h' p = Some g' \<and> request_id g' = request_id g \<and> length (sequences g') = 1)" using up(3) by blast
    have orig: "\<forall>p g'. sc_heap s2 p = Some g' \<longrightarrow> (\<exists>g. sc_heap s1 p = Some g \<and> request_id g' = request_id g)"
      using up(9) by blast
    show thesis
      by (insert round_books [OF sch(2) up(5) sch(4,5) kept up(8) orig act, where hash = "ev_hash env"
          and tend = "ev_end_time env k" and tcount = "ev_count_time env k" and n = "bn_completed st"])
        (elim exE conjE, rule that)
  qed
  define st' where "st' = st\<lparr>bn_scheduler := s2, bn_batch_manager := bt', bn_engine := en', bn_profiler := pf2,
                         bn_rng := g', bn_completed := bn_completed st + n'\<rparr>"
  have "scheduled_groups out \<noteq> []" using sch(5,6) queue_set(1) [OF am] ne by (metis set_empty)
  then have "bench_round tell env k st = Some (False, st')"
    using sch(1) dec(1,2) up(1,4) nt(1) bks(1) by (simp add: bench_round_def output_is_empty_def st'_def)
  moreover have "bench_inv cfg cap st'"
  proof -
    have "length (queue s1) = length (queue ?s)"
      using queue_set [OF sch(2)] queue_set [OF am] sch(6) by (metis distinct_card)
    moreover have "bm_block_size (sc_bm s2) = block_size (bc_cache cfg)" "num_total_gpu_blocks (sc_bm s2) = num_gpu_blocks (bc_cache cfg)"
      using same_shape_block_size [OF up(7)] same_shape_total [OF up(7)] sch(9,10) by simp_all
    moreover have "\<exists>i < bn_submitted st. request_id g = word_of_nat i" if h2: "sc_heap s2 p = Some g" for p g
    proof -
      obtain g1 where "sc_heap s1 p = Some g1" "request_id g = request_id g1" using up(9) h2 by blast
      moreover from this obtain g0 where "sc_heap ?s p = Some g0" "request_id g0 = request_id g1"
        using spec [OF sch(11), of p] by (cases "sc_heap ?s p") auto
      ultimately show ?thesis using parts(8) by metis
    qed
    ultimately show ?thesis
      unfolding bench_inv_def using up(5,6) sch(7) parts(2,5,6,7) dec(4-6) nt bks bk by (auto simp: st'_def)
  qed
  moreover have "work cfg st' < work cfg st"
    using round_work [OF am ne sch(8,6) up(9)] by (simp add: work_def st'_def)
  moreover have "hg_total (latency_hist (bn_profiler st')) \<le> hg_total (latency_hist (bn_profiler st)) + 1"
    using dec(8) nt(4) bks(5) by (simp add: st'_def)
  ultimately show ?thesis by blast
qed

lemma bench_loop_returns:
  assumes "bench_inv cfg cap st" and ok: "bench_ok env cfg cap"
    and prompts: "length prompts = bc_num_requests cfg" "\<forall>p \<in> set prompts. length p = bc_prompt_len cfg"
    and "work cfg st < fuel" and "hg_total (latency_hist (bn_profiler st)) + work cfg st \<le> B"
  shows "\<exists>st'. bench_loop tell env cfg prompts k fuel st = Some st' \<and> bench_inv cfg cap st' \<and>
    bn_completed st' = bc_num_requests cfg \<and> hg_total (latency_hist (bn_profiler st')) \<le> B"
  using assms(1,5,6)
proof (induction fuel arbitrary: k st)
  case (Suc fuel)
  note o = ok [unfolded bench_ok_def] and parts = bench_inv_parts [OF Suc.prems(1)]
  have L: "bc_output_len cfg < 2 ^ 31" using o by linarith
  show ?case
  proof (cases "bn_completed st < bc_num_requests cfg")
    case False
    then show ?thesis using Suc.prems(1,3) parts(5,6) by simp
  next
    case True
    have "bc_num_requests cfg \<le> 2 ^ 64" "\<forall>h. finite (dom h) \<longrightarrow> ev_new env h \<notin> dom h" "0 < bc_output_len cfg"
      using o by simp_all
    from submit_requests_inv [OF Suc.prems(1) this L prompts] obtain st1 where st1: "submit_requests env cfg prompts st = Some st1" "bench_inv cfg cap st1" "work cfg st1 = work cfg st"
        "bn_completed st1 = bn_completed st" "latency_hist (bn_profiler st1) = latency_hist (bn_profiler st)"
        "bn_submitted st1 = bc_num_requests cfg \<or> bc_num_concurrent cfg \<le> length (queue (bn_scheduler st1))"
      by (elim exE conjE) (rule that)
    have "queue (bn_scheduler st1) \<noteq> []"
      using st1(4,6) True bench_inv_parts(6) [OF st1(2)] o by auto
    then obtain st2 where st2: "bench_round tell env k st1 = Some (False, st2)" "bench_inv cfg cap st2" "work cfg st2 < work cfg st1"
        "hg_total (latency_hist (bn_profiler st2)) \<le> hg_total (latency_hist (bn_profiler st1)) + 1"
      using bench_round_inv [OF st1(2) ok] by blast
    have "work cfg st2 < fuel" "hg_total (latency_hist (bn_profiler st2)) + work cfg st2 \<le> B"
      using st2(3,4) st1(3,5) Suc.prems(2,3) by simp_all
    from Suc.IH [OF st2(2) this, of "Suc k"] st1(1) st2(1) True show ?thesis by simp
  qed
qed simp

end

lemma bench_start_inv:
  assumes "bench_ok env cfg cap"
  shows "bench_inv cfg cap (bench_start env cfg g)" "work cfg (bench_start env cfg g) = bc_num_requests cfg * bc_output_len cfg"
    "hg_total (latency_hist (bn_profiler (bench_start env cfg g))) = 0"
proof -
  note o = assms [unfolded bench_ok_def]
  let ?bm = "block_manager_new (bc_cache cfg) (bc_model cfg)"
  let ?s = "scheduler_new (bench_scheduler cfg) ?bm"
  have "base_inv no_ext ?s" using o by (intro base_inv_new) simp_all
  moreover have bm: "bm_block_size ?bm = block_size (bc_cache cfg)" "num_total_gpu_blocks ?bm = num_gpu_blocks (bc_cache cfg)"
    by (simp_all add: bm_block_size_def num_total_gpu_blocks_def block_manager_new_def)
  ultimately have "ample (bc_num_concurrent cfg) cap (bc_prompt_len cfg) (bc_output_len cfg) ?s"
    using o by (simp add: ample_def all_open_def scheduler_new_def queue_def)
  moreover have "hg_wf (latency_hist (profiler_new (ev_opens env) (ev_created env) default_profiler_config))"
    using hg_wf_new by (simp add: profiler_new_def default_profiler_config_def size_max_def)
  ultimately show "bench_inv cfg cap (bench_start env cfg g)"
    unfolding bench_inv_def bench_start_def using bm
    by (simp add: scheduler_new_def queue_def decode_engine_new_def profiler_new_def)
  show "work cfg (bench_start env cfg g) = bc_num_requests cfg * bc_output_len cfg"
    by (simp add: work_def bench_start_def scheduler_new_def)
  show "hg_total (latency_hist (bn_profiler (bench_start env cfg g))) = 0"
    by (simp add: bench_start_def profiler_new_def histogram_new_def)
qed

text \<open>
  A finished run: nothing is pending, all GPU blocks are free and the profiler has no open request.
  A snapshot taken then reports an idle cache.
\<close>

definition finished :: "bench_config \<Rightarrow> 'g bench_state \<Rightarrow> bool" where
  "finished cfg st \<longleftrightarrow>
     bn_completed st = bc_num_requests cfg \<and> bn_submitted st = bc_num_requests cfg \<and> \<not> has_pending (bn_scheduler st) \<and>
     num_free_gpu_blocks (sc_bm (bn_scheduler st)) = num_gpu_blocks (bc_cache cfg) \<and>
     total_requests (bn_profiler st) = bc_num_requests cfg \<and> active_requests (bn_profiler st) = Map.empty"

lemma inv_finished:
  assumes inv: "bench_inv cfg cap st" and all: "bn_completed st = bc_num_requests cfg"
  shows "finished cfg st"
proof -
  note parts = bench_inv_parts [OF inv]
  have "length (queue (bn_scheduler st)) = 0" "bn_submitted st = bc_num_requests cfg" using parts(5,6) all by linarith+
  then have q: "queue (bn_scheduler st) = []" "bn_submitted st = bc_num_requests cfg" by simp_all
  then have e: "\<not> has_pending (bn_scheduler st)" "sc_running (bn_scheduler st) = []"
    by (simp_all add: has_pending_def queue_def)
  have "dom (sc_heap (bn_scheduler st)) = {}" using queue_set(1) [OF parts(1)] q(1) by simp
  then have "sc_heap (bn_scheduler st) = Map.empty" by simp
  then have "active_requests (bn_profiler st) = Map.empty" using parts(12) by simp
  moreover have "num_free_gpu_blocks (sc_bm (bn_scheduler st)) = num_gpu_blocks (bc_cache cfg)"
    using idle_all_free [OF ample_parts(1,2) [OF parts(1)] e(2)] parts(4) by simp
  ultimately show ?thesis using all q(2) e(1) parts(13) by (simp add: finished_def)
qed

lemma finished_snapshot:
  assumes inv: "bench_inv cfg cap st" and all: "bn_completed st = bc_num_requests cfg"
    and few: "hg_total (latency_hist (bn_profiler st)) < 2 ^ 64"
  shows "\<exists>snap. bench_snapshot st = Some snap \<and> snap_gpu_cache_usage snap = 0 \<and> internal_fragmentation snap = 0 \<and>
    total_requests_served snap = bc_num_requests cfg \<and> num_running_seqs snap = 0 \<and> num_waiting_seqs snap = 0"
proof -
  let ?bm = "sc_bm (bn_scheduler st)" and ?h = "latency_hist (bn_profiler st)"
  note parts = bench_inv_parts [OF inv] and fin = inv_finished [OF inv all, unfolded finished_def]
  have "\<exists>v. hg_percentile q ?h = Some v" if "0 \<le> q" "q \<le> 100" for q
    using hg_percentile_defined [OF that] few by (simp add: size_max_def)
  from this [of 50] this [of 90] this [of 95] this [of 99]
  obtain a b c d where "hg_percentile 50 ?h = Some a" "hg_percentile 90 ?h = Some b" "hg_percentile 95 ?h = Some c"
    "hg_percentile 99 ?h = Some d" by auto
  moreover have "length (gpu_blocks ?bm) = num_gpu_blocks (bc_cache cfg)" "length (free_list_for ?bm CUDA) = num_gpu_blocks (bc_cache cfg)"
    using parts(4) fin by (simp_all add: num_total_gpu_blocks_def num_free_gpu_blocks_def free_list_for_def)
  ultimately show ?thesis
    using fin by (simp add: bench_snapshot_def snapshot_def gpu_cache_usage_def compute_fragmentation_def Let_def blocks_for_def
        size_sub_def has_pending_def num_running_def num_waiting_def)
qed

section \<open>A small configuration\<close>

definition tiny_bench :: bench_config where
  "tiny_bench =
     default_bench_config\<lparr>bc_model := en_model_config demo_engine, bc_cache := demo_cache 4 2,
       bc_num_requests := 3, bc_prompt_len := 2, bc_output_len := 2, bc_num_concurrent := 2, bc_shared_prefix_ratio := 1 / 2\<rparr>"

definition tiny_env :: "unit bench_env" where
  "tiny_env =
     \<lparr>ev_psort = (\<lambda>_. sort_desc), ev_fsort = sort_desc, ev_draw = (\<lambda>a b g. (a, g)), ev_mem = (\<lambda>i. Some 0),
      ev_pools = demo_pools, ev_new = (\<lambda>h. LEAST p. p \<notin> dom h), ev_hash = 1, ev_opens = True, ev_created = 0,
      ev_arrival = (\<lambda>_. 0), ev_started = (\<lambda>_. 0), ev_step_clock = (\<lambda>_. demo_clock), ev_token_time = (\<lambda>_ _. 0),
      ev_first_time = (\<lambda>_ _. 0), ev_end_time = (\<lambda>_ _. 0), ev_count_time = (\<lambda>_ _. 0)\<rparr>"

lemma tiny_bench_ok: "bench_ok tiny_env (tiny_bench\<lparr>bc_num_concurrent := n\<rparr>) 2" if "0 < n" "n \<le> 2"
proof -
  have "(LEAST p. p \<notin> dom h) \<notin> dom h" if "finite (dom h)" for h :: "ptr \<rightharpoonup> sequence_group"
    using that ex_new_if_finite [OF infinite_UNIV_nat that] by (metis (mono_tags) LeastI)
  then show ?thesis
    using that sds.descending_sorts_axioms
    by (simp add: bench_ok_def tiny_env_def tiny_bench_def default_bench_config_def demo_cache_def demo_engine_def decode_engine_new_def
        default_cache_config_def model_fits_def)
qed

end
