(* ===== verification/Throughput_Driver.thy ===== *)
theory Throughput_Driver
  imports Bench_Rounds
begin

text \<open>
  The throughput benchmark, \<open>run_throughput_bench\<close> of \<open>src/benchmarks/bench_throughput.cpp\<close>: all prompts
  are generated first, possibly with a shared prefix, and the driver tells the profiler about first
  tokens. The theory shows that the whole run terminates and serves every request.
\<close>

section \<open>Model\<close>

text \<open>The prompts: a shared prefix and a random rest.\<close>

fun draw_prompts :: "('r \<Rightarrow> token_id \<times> 'r) \<Rightarrow> token_id list \<Rightarrow> nat \<Rightarrow> nat \<Rightarrow> 'r \<Rightarrow> token_id list list \<times> 'r" where
  "draw_prompts token_dist shared rest 0 rng = ([], rng)"
| "draw_prompts token_dist shared rest (Suc n) rng =
     (let (ts, rng1) = draw_tokens token_dist rest rng; (ps, rng2) = draw_prompts token_dist shared rest n rng1
      in ((shared @ ts) # ps, rng2))"

text \<open>The conversion of the product to \<open>size_t\<close> is undefined when it is out of range.\<close>

definition generate_prompts ::
    "('r \<Rightarrow> token_id \<times> 'r) \<Rightarrow> 'r \<Rightarrow> nat \<Rightarrow> nat \<Rightarrow> real \<Rightarrow> token_id list list option" where
  "generate_prompts token_dist rng num len shared_prefix_ratio =
     (if real len * shared_prefix_ratio \<le> - 1 \<or> real size_max \<le> real len * shared_prefix_ratio then None
      else let shared_len = nat \<lfloor>real len * shared_prefix_ratio\<rfloor>;
               (shared, rng1) = draw_tokens token_dist shared_len rng
           in Some (fst (draw_prompts token_dist shared (len - shared_len) num rng1)))"

text \<open>The loop over the scheduled groups that reports first tokens.\<close>

definition note_first_tokens ::
    "(seq_id \<Rightarrow> time_point) \<Rightarrow> (ptr \<rightharpoonup> sequence_group) \<Rightarrow> ptr \<Rightarrow> profiler \<Rightarrow> profiler option" where
  "note_first_tokens now h p pf =
     do {
       grp \<leftarrow> h p;
       Some (fold (\<lambda>seq pf. if output_len seq = 1 then record_first_token (now (sd_seq_id seq)) (sd_seq_id seq) pf else pf)
               (sequences grp) pf)
     }"

definition first_token_notes :: "'g bench_env \<Rightarrow> token_notes" where
  "first_token_notes env k h ps pf = foldM (note_first_tokens (ev_first_time env k) h) ps pf"

definition throughput_result :: "bench_config \<Rightarrow> metrics_snapshot \<Rightarrow> bench_result" where
  "throughput_result cfg snap =
     (snapshot_result ''throughput'' snap (bc_num_requests cfg) (bc_num_concurrent cfg))
       \<lparr>br_prefix_cache_hit_rate := prefix_cache_hit_rate snap\<rparr>"

text \<open>The result of the run, and the final state of the components.\<close>

definition run_throughput_bench ::
    "'g bench_env \<Rightarrow> ('r \<Rightarrow> token_id \<times> 'r) \<Rightarrow> 'r \<Rightarrow> bench_config \<Rightarrow> nat \<Rightarrow> 'g \<Rightarrow>
     (bench_result \<times> 'g bench_state) option" where
  "run_throughput_bench env token_dist rng cfg fuel g =
     do {
       prompts \<leftarrow> generate_prompts token_dist rng (bc_num_requests cfg) (bc_prompt_len cfg) (bc_shared_prefix_ratio cfg);
       st \<leftarrow> bench_loop (first_token_notes env) env cfg prompts 0 fuel (bench_start env cfg g);
       snap \<leftarrow> bench_snapshot st;
       Some (throughput_result cfg snap, st)
     }"

section \<open>Prompts\<close>

lemma draw_prompts_lengths:
  "length (fst (draw_prompts token_dist shared rest n rng)) = n \<and>
   (\<forall>p \<in> set (fst (draw_prompts token_dist shared rest n rng)). length p = length shared + rest)"
proof (induction n arbitrary: rng)
  case (Suc n)
  obtain ts rng1 where t: "draw_tokens token_dist rest rng = (ts, rng1)" by fastforce
  obtain ps rng2 where p: "draw_prompts token_dist shared rest n rng1 = (ps, rng2)" by fastforce
  have "length ts = rest" using draw_tokens_length [of token_dist rest rng] t by simp
  then show ?case using Suc.IH [of rng1] t p by simp
qed simp

lemma generate_prompts_lengths:
  assumes "0 \<le> ratio" and "ratio \<le> 1" and "len < size_max"
  shows "\<exists>ps. generate_prompts token_dist rng num len ratio = Some ps \<and> length ps = num \<and> (\<forall>p \<in> set ps. length p = len)"
proof -
  let ?k = "nat \<lfloor>real len * ratio\<rfloor>"
  obtain shared rng1 where s: "draw_tokens token_dist ?k rng = (shared, rng1)" by fastforce
  have x: "real len * ratio \<le> real len" "0 \<le> real len * ratio" using assms(1,2) by (simp_all add: mult_left_le)
  then have k: "?k \<le> len" by linarith
  have "real len < real size_max" using assms(3) by simp
  then have "\<not> (real len * ratio \<le> - 1 \<or> real size_max \<le> real len * ratio)" using x by linarith
  moreover have "length shared = ?k" using draw_tokens_length [of token_dist ?k rng] s by simp
  ultimately show ?thesis
    using draw_prompts_lengths [of token_dist shared "len - ?k" num rng1] k s
    by (simp add: generate_prompts_def Let_def)
qed

section \<open>First tokens\<close>

text \<open>The loop changes no request's presence.\<close>

lemma note_first_keeps:
  assumes "\<And>p. p \<in> set ps \<Longrightarrow> h p \<noteq> None"
  shows "\<exists>pf'. foldM (note_first_tokens now h) ps pf = Some pf' \<and> dom (active_requests pf') = dom (active_requests pf) \<and>
    total_requests pf' = total_requests pf \<and> latency_hist pf' = latency_hist pf"
  using assms
proof (induction ps arbitrary: pf)
  case (Cons p ps)
  then obtain g where g: "h p = Some g" by force
  define pf1 where "pf1 = fold (\<lambda>seq pf. if output_len seq = 1 then record_first_token (now (sd_seq_id seq)) (sd_seq_id seq) pf else pf)
               (sequences g) pf"
  have "dom (active_requests pf1) = dom (active_requests pf) \<and> total_requests pf1 = total_requests pf \<and>
      latency_hist pf1 = latency_hist pf"
    unfolding pf1_def
    by (rule fold_invariant [where P = "\<lambda>x. dom (active_requests x) = dom (active_requests pf) \<and>
          total_requests x = total_requests pf \<and> latency_hist x = latency_hist pf" and Q = "\<lambda>_. True"])
      (auto simp: record_first_token_keeps)
  moreover have "foldM (note_first_tokens now h) (p # ps) pf = foldM (note_first_tokens now h) ps pf1"
    using g by (simp add: note_first_tokens_def pf1_def)
  ultimately show ?case using Cons.IH [of pf1] Cons.prems by simp
qed simp

interpretation ftn: bookkeeping "first_token_notes env"
  by unfold_locales (use note_first_keeps in \<open>auto simp: first_token_notes_def\<close>)

section \<open>The whole run\<close>

text \<open>
  The throughput driver terminates and serves everything, in either preemption mode and under every
  policy: when the cache has \<open>cap\<close> blocks for each of the requests in flight, where \<open>cap\<close> blocks hold the
  prompt and the whole output of one request, and shared prefixes are at most the prompt, the run
  needs at most one round per token to be produced. It ends with all requests completed, nothing
  pending, every GPU block free, and a profiler that has counted exactly the requests and has
  none left open. The cache usage and the fragmentation of the result are those of the idle cache.
\<close>

lemma throughput_run_completes:
  assumes ok: "bench_ok env cfg cap" and ratio: "0 \<le> bc_shared_prefix_ratio cfg" "bc_shared_prefix_ratio cfg \<le> 1"
    and fuel: "bc_num_requests cfg * bc_output_len cfg < fuel"
  shows "\<exists>r st. run_throughput_bench env token_dist rng cfg fuel g = Some (r, st) \<and>
    bn_completed st = bc_num_requests cfg \<and> bn_submitted st = bc_num_requests cfg \<and> \<not> has_pending (bn_scheduler st) \<and>
    num_free_gpu_blocks (sc_bm (bn_scheduler st)) = num_gpu_blocks (bc_cache cfg) \<and>
    total_requests (bn_profiler st) = bc_num_requests cfg \<and> active_requests (bn_profiler st) = Map.empty \<and>
    br_gpu_cache_utilization r = 0 \<and> br_fragmentation r = 0"
proof -
  have "bc_prompt_len cfg < size_max" using ok by (simp add: bench_ok_def size_max_def)
  from generate_prompts_lengths [OF ratio this, of token_dist rng "bc_num_requests cfg"]
  obtain prompts where p: "generate_prompts token_dist rng (bc_num_requests cfg) (bc_prompt_len cfg) (bc_shared_prefix_ratio cfg) = Some prompts"
      "length prompts = bc_num_requests cfg" "\<forall>p \<in> set prompts. length p = bc_prompt_len cfg" by (elim exE conjE) (rule that)
  have w: "work cfg (bench_start env cfg g) < fuel" using bench_start_inv(2) [OF ok, of g] fuel by simp
  from ftn.bench_loop_returns [of cfg cap _ env prompts fuel _ env, OF bench_start_inv(1) [OF ok] ok p(2,3) w order_refl, where k = 0]
  obtain st where st: "bench_loop (first_token_notes env) env cfg prompts 0 fuel (bench_start env cfg g) = Some st"
      "bench_inv cfg cap st" "bn_completed st = bc_num_requests cfg"
      "hg_total (latency_hist (bn_profiler st)) \<le> hg_total (latency_hist (bn_profiler (bench_start env cfg g))) + work cfg (bench_start env cfg g)" by (elim exE conjE) (rule that)
  have "hg_total (latency_hist (bn_profiler st)) < 2 ^ 64"
    using st(4) bench_start_inv(2,3) [OF ok, of g] ok unfolding bench_ok_def by linarith
  then obtain snap where "bench_snapshot st = Some snap" "snap_gpu_cache_usage snap = 0" "internal_fragmentation snap = 0"
    using finished_snapshot [OF st(2,3)] by blast
  then show ?thesis
    using p(1) st(1) inv_finished [OF st(2,3)]
    by (simp add: run_throughput_bench_def finished_def throughput_result_def snapshot_result_def)
qed

end
