(* ===== verification/Latency_Driver.thy ===== *)
theory Latency_Driver
  imports Bench_Rounds
begin

text \<open>
  The latency benchmark, \<open>run_latency_bench\<close> of \<open>src/benchmarks/bench_latency.cpp\<close>: one request at a time,
  each served to its end before the next one arrives, and statistics over the samples. The theory
  shows that the run terminates and serves every request, and which numbers it reports: the time per
  output token is divided by the tokens of the prompt as well.
\<close>

section \<open>Model\<close>

text \<open>The driver's own readings of the clock, for each request.\<close>

record latency_clock =
  lc_start :: "nat \<Rightarrow> time_point"
  lc_first :: "nat \<Rightarrow> time_point"
  lc_end :: "nat \<Rightarrow> time_point"

record latency_samples =
  ls_latencies :: "real list"
  ls_ttfts :: "real list"
  ls_tpots :: "real list"

definition latency_scheduler :: "bench_config \<Rightarrow> scheduler_config" where
  "latency_scheduler cfg = (bc_scheduler cfg)\<lparr>max_num_seqs := 1\<rparr>"

definition latency_start :: "'g bench_env \<Rightarrow> bench_config \<Rightarrow> 'g \<Rightarrow> 'g bench_state" where
  "latency_start env cfg g =
     \<lparr>bn_scheduler = scheduler_new (latency_scheduler cfg) (block_manager_new (bc_cache cfg) (bc_model cfg)),
      bn_batch_manager = batch_manager_new (bc_model cfg) (latency_scheduler cfg),
      bn_engine = decode_engine_new (bc_model cfg) (bc_cache cfg),
      bn_profiler = profiler_new (ev_opens env) (ev_created env) default_profiler_config,
      bn_rng = g, bn_next_id = 0, bn_submitted = 0, bn_completed = 0\<rparr>"

text \<open>
  One iteration of the inner loop for request \<open>r\<close>. Besides the components it changes \<open>first_tok_time\<close>,
  \<open>None\<close> until \<open>got_first\<close> is set, and \<open>tokens_generated\<close>. The Boolean tells that nothing was scheduled.
\<close>

definition latency_round ::
    "'g bench_env \<Rightarrow> latency_clock \<Rightarrow> nat \<Rightarrow> nat \<Rightarrow> 'g bench_state \<Rightarrow> time_point option \<Rightarrow> nat \<Rightarrow>
     (bool \<times> 'g bench_state \<times> time_point option \<times> nat) option" where
  "latency_round env ck r k st first_tok_time tokens_generated =
     do {
       (out, s1) \<leftarrow> schedule (bn_scheduler st);
       if output_is_empty out then Some (True, st\<lparr>bn_scheduler := s1\<rparr>, first_tok_time, tokens_generated)
       else do {
         (batch, bt) \<leftarrow> build_batch (sc_heap s1) out (bn_batch_manager st);
         (res, en, pfo, g) \<leftarrow> engine_step (ev_psort env) (ev_fsort env) (ev_draw env) (ev_mem env) (ev_pools env)
           (Some (sc_bm s1)) (ev_step_clock env k) batch (bn_engine st, Some (bn_profiler st), bn_rng st);
         pf \<leftarrow> pfo;
         h \<leftarrow> update_after_decode (ev_token_time env k) out (sr_new_tokens res) (sc_heap s1);
         let (first1, pf1) =
           (if first_tok_time = None \<and> sr_new_tokens res \<noteq> []
            then (Some (lc_first ck r), record_first_token (ev_first_time env k (word_of_nat r)) (word_of_nat r) pf)
            else (first_tok_time, pf));
         s2 \<leftarrow> free_finished_requests (s1\<lparr>sc_heap := h\<rparr>);
         Some (False, st\<lparr>bn_scheduler := s2, bn_batch_manager := bt, bn_engine := en, bn_profiler := pf1, bn_rng := g\<rparr>,
               first1, tokens_generated + length (sr_new_tokens res))
       }
     }"

text \<open>The inner loop with fuel; it returns the number of the next round.\<close>

fun latency_loop ::
    "'g bench_env \<Rightarrow> latency_clock \<Rightarrow> nat \<Rightarrow> nat \<Rightarrow> nat \<Rightarrow> 'g bench_state \<Rightarrow> time_point option \<Rightarrow> nat \<Rightarrow>
     (nat \<times> 'g bench_state \<times> time_point option \<times> nat) option" where
  "latency_loop env ck r 0 k st first n = None"
| "latency_loop env ck r (Suc fuel) k st first n =
     (if has_pending (bn_scheduler st) then do {
        (empty, st1, first1, n1) \<leftarrow> latency_round env ck r k st first n;
        if empty then Some (k, st1, first1, n1) else latency_loop env ck r fuel (Suc k) st1 first1 n1
      }
      else Some (k, st, first, n))"

definition add_samples :: "latency_clock \<Rightarrow> nat \<Rightarrow> time_point option \<Rightarrow> nat \<Rightarrow> latency_samples \<Rightarrow> latency_samples" where
  "add_samples ck r first tokens_generated ls =
     (let ls1 = ls\<lparr>ls_latencies := ls_latencies ls @ [ms_between (lc_start ck r) (lc_end ck r)]\<rparr> in
      case first of
        None \<Rightarrow> ls1
      | Some t \<Rightarrow>
          let ls2 = ls1\<lparr>ls_ttfts := ls_ttfts ls1 @ [ms_between (lc_start ck r) t]\<rparr> in
          if tokens_generated > 1
          then ls2\<lparr>ls_tpots := ls_tpots ls2 @ [ms_between t (lc_end ck r) / real (tokens_generated - 1)]\<rparr>
          else ls2)"

text \<open>The loop over the requests: \<open>n\<close> are left, \<open>r\<close> is the next one.\<close>

fun latency_requests ::
    "'g bench_env \<Rightarrow> latency_clock \<Rightarrow> ('r \<Rightarrow> token_id \<times> 'r) \<Rightarrow> bench_config \<Rightarrow> nat \<Rightarrow> nat \<Rightarrow> nat \<Rightarrow> nat \<Rightarrow>
     'g bench_state \<Rightarrow> 'r \<Rightarrow> latency_samples \<Rightarrow> ('g bench_state \<times> latency_samples) option" where
  "latency_requests env ck token_dist cfg fuel 0 r k st rng ls = Some (st, ls)"
| "latency_requests env ck token_dist cfg fuel (Suc n) r k st rng ls =
     (let (prompt, rng1) = draw_tokens token_dist (bc_prompt_len cfg) rng in
      do {
        (k1, st1, first, tokens_generated) \<leftarrow> latency_loop env ck r fuel k (submit_prompt env cfg prompt st) None 0;
        let st2 = st1\<lparr>bn_profiler := record_request_end (ev_hash env) (ev_end_time env r (word_of_nat r))
          (ev_count_time env r (word_of_nat r)) (word_of_nat r) tokens_generated (bn_profiler st1)\<rparr>;
        latency_requests env ck token_dist cfg fuel n (Suc r) k1 st2 rng1 (add_samples ck r first tokens_generated ls)
      })"

text \<open>The lambda \<open>pct\<close>, on the sorted latencies, and an average that is zero without samples.\<close>

definition pct :: "real list \<Rightarrow> real \<Rightarrow> real option" where
  "pct xs p =
     (let idx = nat \<lfloor>p / 100 * real (length xs)\<rfloor>
      in vec_at xs (min idx (size_sub (length xs) 1)))"

definition mean_or_zero :: "real list \<Rightarrow> real" where
  "mean_or_zero xs = (if xs \<noteq> [] then sum_list xs / real (length xs) else sum_list xs)"

definition latency_result ::
    "nat \<Rightarrow> nat \<Rightarrow> latency_samples \<Rightarrow> metrics_snapshot \<Rightarrow> bench_result option" where
  "latency_result target_output_len num_requests ls snap =
     do {
       let xs = sort (ls_latencies ls);
       let avg = sum_list xs / real (length xs);
       let var = sum_list (map (\<lambda>v. (v - avg) * (v - avg)) xs) / real (length xs);
       p50 \<leftarrow> pct xs 50;
       p90 \<leftarrow> pct xs 90;
       p95 \<leftarrow> pct xs 95;
       p99 \<leftarrow> pct xs 99;
       Some \<lparr>br_benchmark_name = ''latency_output'' @ nat_str target_output_len,
             br_throughput_tok_per_sec = throughput_tok_per_sec snap, br_avg_latency_ms = avg,
             br_p50_latency_ms = p50, br_p90_latency_ms = p90, br_p95_latency_ms = p95, br_p99_latency_ms = p99,
             br_latency_stddev_ms = sqrt var, br_avg_ttft_ms = mean_or_zero (ls_ttfts ls),
             br_avg_tpot_ms = mean_or_zero (ls_tpots ls),
             br_gpu_cache_utilization = snap_gpu_cache_usage snap, br_fragmentation = internal_fragmentation snap,
             br_prefix_cache_hit_rate = 0, br_num_requests = num_requests, br_concurrent_level = 0\<rparr>
     }"

text \<open>The settings of the run; the output length is the argument of the benchmark.\<close>

definition latency_config :: "bench_config \<Rightarrow> nat \<Rightarrow> bench_config" where
  "latency_config cfg target_output_len = cfg\<lparr>bc_output_len := target_output_len, bc_num_concurrent := 1\<rparr>"

definition run_latency_bench ::
    "'g bench_env \<Rightarrow> latency_clock \<Rightarrow> ('r \<Rightarrow> token_id \<times> 'r) \<Rightarrow> 'r \<Rightarrow> bench_config \<Rightarrow> nat \<Rightarrow> nat \<Rightarrow> 'g \<Rightarrow>
     (bench_result \<times> 'g bench_state) option" where
  "run_latency_bench env ck token_dist rng cfg target_output_len fuel g =
     (let cfg1 = latency_config cfg target_output_len in
      do {
        (st, ls) \<leftarrow> latency_requests env ck token_dist cfg1 fuel (bc_num_requests cfg) 0 0 (latency_start env cfg1 g) rng
          \<lparr>ls_latencies = [], ls_ttfts = [], ls_tpots = []\<rparr>;
        snap \<leftarrow> snapshot (Some (sc_bm (bn_scheduler st))) None None (bn_profiler st);
        res \<leftarrow> latency_result target_output_len (bc_num_requests cfg) ls snap;
        Some (res, st)
      })"

section \<open>One request at a time\<close>

definition lat_inv :: "bench_config \<Rightarrow> nat \<Rightarrow> 'g bench_state \<Rightarrow> bool" where
  "lat_inv cfg cap st \<longleftrightarrow>
     ample 1 cap (bc_prompt_len cfg) (bc_output_len cfg) (bn_scheduler st) \<and>
     sc_config (bn_scheduler st) = latency_scheduler cfg \<and>
     bm_block_size (sc_bm (bn_scheduler st)) = block_size (bc_cache cfg) \<and>
     num_total_gpu_blocks (sc_bm (bn_scheduler st)) = num_gpu_blocks (bc_cache cfg) \<and>
     en_model_config (bn_engine st) = bc_model cfg \<and> en_cache_config (bn_engine st) = bc_cache cfg \<and>
     hg_wf (latency_hist (bn_profiler st))"

lemma lat_inv_parts:
  assumes "lat_inv cfg cap st"
  shows "ample 1 cap (bc_prompt_len cfg) (bc_output_len cfg) (bn_scheduler st)"
    "sc_config (bn_scheduler st) = latency_scheduler cfg"
    "bm_block_size (sc_bm (bn_scheduler st)) = block_size (bc_cache cfg)"
    "num_total_gpu_blocks (sc_bm (bn_scheduler st)) = num_gpu_blocks (bc_cache cfg)"
    "en_model_config (bn_engine st) = bc_model cfg" "en_cache_config (bn_engine st) = bc_cache cfg"
    "hg_wf (latency_hist (bn_profiler st))"
  using assms by (simp_all add: lat_inv_def)

text \<open>The bookkeeping that a round leaves alone.\<close>

definition same_books :: "'g bench_state \<Rightarrow> 'g bench_state \<Rightarrow> bool" where
  "same_books st st' \<longleftrightarrow> bn_next_id st' = bn_next_id st \<and> bn_submitted st' = bn_submitted st \<and>
     dom (active_requests (bn_profiler st')) = dom (active_requests (bn_profiler st)) \<and>
     total_requests (bn_profiler st') = total_requests (bn_profiler st)"

lemma distinct_singleton:
  assumes "distinct xs" and "set xs = {x}"
  shows "xs = [x]"
proof -
  have "length xs = 1" using distinct_card [OF assms(1)] assms(2) by simp
  then obtain y where "xs = [y]" by (auto simp: length_Suc_conv)
  then show ?thesis using assms(2) by simp
qed

lemma one_pending:
  assumes "ample 1 cap P L s" and "sc_heap s p = Some g"
  shows "queue s = [p]" "dom (sc_heap s) = {p}"
proof -
  have "p \<in> set (queue s)" using queue_set(1) [OF assms(1)] assms(2) by blast
  then show "queue s = [p]" using ample_parts(3) [OF assms(1)] by (cases "queue s") auto
  then show "dom (sc_heap s) = {p}" using queue_set(1) [OF assms(1)] by simp
qed

text \<open>The tokens of a step: the whole prompt first, then one.\<close>

lemma entries_of_group:
  assumes "ample C cap P L s" and "sc_heap s p = Some g"
  shows "length (group_entries g) = (if produced g = 0 then P else 1)"
proof -
  obtain q where q: "sequences g = [q]" "\<not> seq_finished q" using ample_group [OF assms] .
  have "prompt_len q = P" using ample_parts(6) [OF assms] q(1) by (simp add: group_fits_def)
  then show ?thesis using q by (simp add: group_entries_def seq_entries_def produced_def output_len_def)
qed

lemma latency_round_serves:
  assumes inv: "lat_inv cfg cap st" and ok: "bench_ok env cfg cap"
    and bud: "bc_prompt_len cfg \<le> max_num_batched_tokens (bc_scheduler cfg)"
    and g: "sc_heap (bn_scheduler st) p = Some g"
  shows "\<exists>st' first'. latency_round env ck r k st first n =
      Some (False, st', first', n + (if produced g = 0 then bc_prompt_len cfg else 1)) \<and>
    first' = (if first = None then Some (lc_first ck r) else first) \<and> lat_inv cfg cap st' \<and> same_books st st' \<and>
    hg_total (latency_hist (bn_profiler st')) \<le> hg_total (latency_hist (bn_profiler st)) + 1 \<and>
    (if Suc (produced g) = bc_output_len cfg then queue (bn_scheduler st') = []
     else \<exists>g'. sc_heap (bn_scheduler st') p = Some g' \<and> produced g' = Suc (produced g))"
proof -
  let ?s = "bn_scheduler st" and ?P = "bc_prompt_len cfg" and ?L = "bc_output_len cfg"
  note parts = lat_inv_parts [OF inv] and o = ok [unfolded bench_ok_def]
  note am = parts(1)
  have P: "0 < ?P" "?L < 2 ^ 31" using o by linarith+
  have "1 \<le> max_num_seqs (sc_config ?s)" "1 * ?P \<le> max_num_batched_tokens (sc_config ?s)"
    using parts(2) bud by (simp_all add: latency_scheduler_def)
  from schedule_all [OF am P(1) this] obtain out s1 where sch: "schedule ?s = Some (out, s1)" "ample 1 cap ?P ?L s1" "rooms s1 out"
      "distinct (scheduled_groups out)" "set (scheduled_groups out) = dom (sc_heap ?s)"
      "dom (sc_heap s1) = dom (sc_heap ?s)" "sc_waiting s1 = []" "sc_config s1 = sc_config ?s"
      "same_shape (sc_bm ?s) (sc_bm s1)" "outputs s1 = outputs ?s" by (elim exE conjE) (rule that)
  have bm1: "bm_block_size (sc_bm s1) = block_size (bc_cache cfg)" "num_total_gpu_blocks (sc_bm s1) = num_gpu_blocks (bc_cache cfg)"
    using same_shape_block_size [OF sch(9)] same_shape_total [OF sch(9)] parts(3,4) by simp_all
  have dom1: "dom (sc_heap s1) = {p}" "p \<in> dom (sc_heap ?s)" using sch(6) one_pending(2) [OF am g] by simp_all
  then obtain g1 where g1: "sc_heap s1 p = Some g1" by blast
  have pr: "produced g1 = produced g" using outputs_produced [OF sch(10) dom1(2)] g g1 by simp
  have live: "set (scheduled_groups out) = dom (sc_heap s1)" using sch(5,6) by simp
  then have out: "scheduled_groups out = [p]"
    using sch(4) dom1(1) distinct_singleton by metis
  obtain b bt' res en' pf' g' where dec: "build_batch (sc_heap s1) out (bn_batch_manager st) = Some (b, bt')"
      "engine_step (ev_psort env) (ev_fsort env) (ev_draw env) (ev_mem env) (ev_pools env) (Some (sc_bm s1)) (ev_step_clock env k) b
        (bn_engine st, Some (bn_profiler st), bn_rng st) = Some (res, en', Some pf', g')"
      "length (scheduled_groups out) \<le> length (sr_new_tokens res)" "en_model_config en' = bc_model cfg"
      "en_cache_config en' = bc_cache cfg" "hg_wf (latency_hist pf')" "books pf' = books (bn_profiler st)"
      "hg_total (latency_hist pf') \<le> hg_total (latency_hist (bn_profiler st)) + 1"
      "length (sr_new_tokens res) = sum_list (map (\<lambda>p. length (group_entries (the (sc_heap s1 p)))) (scheduled_groups out))"
    using bench_decode [OF ok sch(2,3,4) live bm1 parts(5-7)] by blast
  have toks: "length (sr_new_tokens res) = (if produced g = 0 then ?P else 1)" "sr_new_tokens res \<noteq> []"
    using dec(3,9) out g1 entries_of_group [OF sch(2) g1] pr by auto
  have run: "set (scheduled_groups out) \<subseteq> set (sc_running s1)" using sch(3) by (simp add: rooms_def)
  from round_progress [OF sch(2) P(2) live sch(4) run dec(3), of "ev_token_time env k"]
  obtain h' s2 where up: "update_after_decode (ev_token_time env k) out (sr_new_tokens res) (sc_heap s1) = Some h'"
      "dom h' = dom (sc_heap s1)"
      "\<forall>p g. sc_heap s1 p = Some g \<longrightarrow> (\<exists>g'. h' p = Some g' \<and> request_id g' = request_id g \<and>
        length (sequences g') = 1 \<and> (all_finished g' \<longleftrightarrow> Suc (produced g) = ?L))"
      "free_finished_requests (s1\<lparr>sc_heap := h'\<rparr>) = Some s2" "ample 1 cap ?P ?L s2"
      "sc_config s2 = sc_config s1" "same_shape (sc_bm s1) (sc_bm s2)"
      "queue s2 = filter (\<lambda>p. \<not> all_finished (the (h' p))) (queue s1)"
      "\<forall>p g'. sc_heap s2 p = Some g' \<longrightarrow> (\<exists>g. sc_heap s1 p = Some g \<and> request_id g' = request_id g \<and> produced g' = Suc (produced g))"
    by (elim exE conjE) (rule that)
  have fin: "all_finished (the (h' p)) \<longleftrightarrow> Suc (produced g) = ?L" using up(3) g1 pr by force
  have next_state: "if Suc (produced g) = ?L then queue s2 = []
     else \<exists>g'. sc_heap s2 p = Some g' \<and> produced g' = Suc (produced g)"
  proof (cases "Suc (produced g) = ?L")
    case False
    then have "queue s2 = [p]" using up(8) one_pending(1) [OF sch(2) g1] fin by simp
    then have "p \<in> dom (sc_heap s2)" using queue_set(1) [OF up(5)] by auto
    then show ?thesis using False up(9) g1 pr by fastforce
  qed (use up(8) one_pending(1) [OF sch(2) g1] fin in simp)
  define pf1 where "pf1 = (if first = None
    then record_first_token (ev_first_time env k (word_of_nat r)) (word_of_nat r) pf' else pf')"
  have pf1: "dom (active_requests pf1) = dom (active_requests (bn_profiler st))"
    "total_requests pf1 = total_requests (bn_profiler st)" "latency_hist pf1 = latency_hist pf'"
    using dec(7) record_first_token_keeps by (simp_all add: pf1_def books_def)
  define st' where "st' = st\<lparr>bn_scheduler := s2, bn_batch_manager := bt', bn_engine := en', bn_profiler := pf1, bn_rng := g'\<rparr>"
  have "latency_round env ck r k st first n =
      Some (False, st', (if first = None then Some (lc_first ck r) else first), n + (if produced g = 0 then ?P else 1))"
    using sch(1) dec(1,2) up(1,4) toks out by (simp add: latency_round_def output_is_empty_def st'_def pf1_def Let_def)
  moreover have "lat_inv cfg cap st'"
    using up(5,6) sch(8) parts(2) same_shape_block_size [OF up(7)] same_shape_total [OF up(7)] bm1 dec(4-6) pf1(3)
    by (simp add: lat_inv_def st'_def)
  moreover have "same_books st st'" using pf1 by (simp add: same_books_def st'_def)
  ultimately show ?thesis using next_state dec(8) pf1(3) by (auto simp: st'_def)
qed

lemma same_books_trans: "same_books a b \<Longrightarrow> same_books b c \<Longrightarrow> same_books a c"
  by (simp add: same_books_def)

lemma latency_loop_serves:
  assumes "lat_inv cfg cap st" and ok: "bench_ok env cfg cap"
    and bud: "bc_prompt_len cfg \<le> max_num_batched_tokens (bc_scheduler cfg)"
    and "sc_heap (bn_scheduler st) p = Some g" and "bc_output_len cfg - produced g < fuel"
  shows "\<exists>k' st'. latency_loop env ck r fuel k st first n =
      Some (k', st', if first = None then Some (lc_first ck r) else first,
        n + (if produced g = 0 then bc_prompt_len cfg else 1) + (bc_output_len cfg - Suc (produced g))) \<and>
    lat_inv cfg cap st' \<and> same_books st st' \<and> queue (bn_scheduler st') = [] \<and>
    hg_total (latency_hist (bn_profiler st')) \<le> hg_total (latency_hist (bn_profiler st)) + (bc_output_len cfg - produced g)"
  using assms(1,4,5)
proof (induction fuel arbitrary: k st first n g)
  case (Suc fuel)
  let ?L = "bc_output_len cfg"
  note am = lat_inv_parts(1) [OF Suc.prems(1)]
  have lt: "produced g < ?L" by (rule ample_produced [OF am Suc.prems(2)])
  have pend: "has_pending (bn_scheduler st)"
    using one_pending(1) [OF am Suc.prems(2)] by (auto simp: has_pending_def queue_def)
  obtain st1 where st1: "latency_round env ck r k st first n = Some (False, st1, if first = None then Some (lc_first ck r) else first,
        n + (if produced g = 0 then bc_prompt_len cfg else 1))" "lat_inv cfg cap st1" "same_books st st1"
      "hg_total (latency_hist (bn_profiler st1)) \<le> hg_total (latency_hist (bn_profiler st)) + 1"
      "if Suc (produced g) = ?L then queue (bn_scheduler st1) = []
       else \<exists>g'. sc_heap (bn_scheduler st1) p = Some g' \<and> produced g' = Suc (produced g)"
    using latency_round_serves [OF Suc.prems(1) ok bud Suc.prems(2), of ck r k first n] by blast
  show ?case
  proof (cases "Suc (produced g) = ?L")
    case True
    then have e: "queue (bn_scheduler st1) = []" using st1(5) by simp
    then have "\<not> has_pending (bn_scheduler st1)" by (simp add: has_pending_def queue_def)
    moreover obtain f where "fuel = Suc f" using Suc.prems(3) True lt by (cases fuel) auto
    ultimately have "latency_loop env ck r (Suc fuel) k st first n = Some (Suc k, st1, if first = None then Some (lc_first ck r) else first,
        n + (if produced g = 0 then bc_prompt_len cfg else 1))" using pend st1(1) by simp
    then show ?thesis using e True st1(2,3,4) lt by simp
  next
    case False
    then obtain g' where g': "sc_heap (bn_scheduler st1) p = Some g'" "produced g' = Suc (produced g)" using st1(5) by auto
    have less: "?L - produced g' < fuel" using Suc.prems(3) g'(2) lt by simp
    let ?first = "if first = None then Some (lc_first ck r) else first"
    let ?n = "n + (if produced g = 0 then bc_prompt_len cfg else 1)"
    obtain k' st' where st': "latency_loop env ck r fuel (Suc k) st1 ?first ?n = Some (k', st', ?first, ?n + 1 + (?L - Suc (produced g')))"
        "lat_inv cfg cap st'" "same_books st1 st'" "queue (bn_scheduler st') = []"
        "hg_total (latency_hist (bn_profiler st')) \<le> hg_total (latency_hist (bn_profiler st1)) + (?L - produced g')"
      using Suc.IH [OF st1(2) g'(1) less, of "Suc k" ?first ?n] g'(2) by (auto split: if_splits)
    have "1 + (?L - Suc (produced g')) = ?L - Suc (produced g)" using g'(2) lt False by simp
    moreover have "latency_loop env ck r (Suc fuel) k st first n = latency_loop env ck r fuel (Suc k) st1 ?first ?n"
      using pend st1(1) by simp
    moreover have "hg_total (latency_hist (bn_profiler st')) \<le> hg_total (latency_hist (bn_profiler st)) + (?L - produced g)"
      using st'(5) st1(4) g'(2) lt by simp
    ultimately show ?thesis using st' same_books_trans [OF st1(3)] by (intro exI [of _ k'] exI [of _ st']) (simp add: add.assoc)
  qed
qed simp

text \<open>A request that arrives at an idle engine, with its number as identifier.\<close>

definition idle_before :: "nat \<Rightarrow> 'g bench_state \<Rightarrow> bool" where
  "idle_before r st \<longleftrightarrow> queue (bn_scheduler st) = [] \<and> bn_submitted st = r \<and> bn_next_id st = word_of_nat r \<and>
     active_requests (bn_profiler st) = Map.empty \<and> total_requests (bn_profiler st) = r"

lemma submit_idle:
  assumes inv: "lat_inv cfg cap st" and ok: "bench_ok env cfg cap" and idle: "idle_before r st"
    and len: "length prompt = bc_prompt_len cfg"
  defines "st' \<equiv> submit_prompt env cfg prompt st"
  shows "lat_inv cfg cap st'" "\<exists>p g. sc_heap (bn_scheduler st') p = Some g \<and> produced g = 0"
    "bn_submitted st' = Suc r" "bn_next_id st' = word_of_nat (Suc r)" "total_requests (bn_profiler st') = r"
    "dom (active_requests (bn_profiler st')) = {word_of_nat r}" "latency_hist (bn_profiler st') = latency_hist (bn_profiler st)"
proof -
  let ?s = "bn_scheduler st"
  note parts = lat_inv_parts [OF inv] and o = ok [unfolded bench_ok_def]
  have "dom (sc_heap ?s) = {}" using queue_set(1) [OF parts(1)] idle by (simp add: idle_before_def)
  then have empty: "sc_heap ?s = Map.empty" by simp
  let ?p = "ev_new env (sc_heap ?s)"
  let ?g = "sequence_group_new (ev_arrival env (bn_submitted st)) (bn_next_id st) prompt
    (default_sampling_params\<lparr>max_tokens := to_i32 (int (bc_output_len cfg))\<rparr>) 0"
  have s': "bn_scheduler st' = add_request ?p ?g ?s" by (simp add: st'_def submit_prompt_def Let_def)
  have "bc_output_len cfg < 2 ^ 31" using o by linarith
  then have am: "ample 1 cap (bc_prompt_len cfg) (bc_output_len cfg) (add_request ?p ?g ?s)"
    using o idle empty len by (intro ample_add [OF parts(1)]) (simp_all add: idle_before_def)
  then show "lat_inv cfg cap st'"
    using parts by (simp add: lat_inv_def s') (simp add: st'_def submit_prompt_def Let_def add_request_def record_request_start_def)
  show "\<exists>p g. sc_heap (bn_scheduler st') p = Some g \<and> produced g = 0"
    by (intro exI [of _ ?p] exI [of _ ?g]) (simp add: s' add_request_def sequence_group_new_def produced_def output_len_def)
  show "bn_submitted st' = Suc r" "bn_next_id st' = word_of_nat (Suc r)" "total_requests (bn_profiler st') = r"
    "dom (active_requests (bn_profiler st')) = {word_of_nat r}" "latency_hist (bn_profiler st') = latency_hist (bn_profiler st)"
    using idle by (simp_all add: st'_def submit_prompt_def Let_def idle_before_def record_request_start_def)
qed

text \<open>The samples of the requests \<open>r\<close>, \<open>r + 1\<close>, ..., with the prompt's positions among the tokens.\<close>

definition tpot_sample :: "latency_clock \<Rightarrow> bench_config \<Rightarrow> nat \<Rightarrow> real" where
  "tpot_sample ck cfg r = ms_between (lc_first ck r) (lc_end ck r) / real (bc_prompt_len cfg + bc_output_len cfg - 2)"

lemma latency_requests_serve:
  assumes ok: "bench_ok env cfg cap" and bud: "bc_prompt_len cfg \<le> max_num_batched_tokens (bc_scheduler cfg)"
    and more: "2 < bc_prompt_len cfg + bc_output_len cfg" and fuel: "bc_output_len cfg < fuel"
    and "lat_inv cfg cap st" and "idle_before r st" and "hg_total (latency_hist (bn_profiler st)) \<le> r * bc_output_len cfg"
  shows "\<exists>st'. latency_requests env ck token_dist cfg fuel n r k st rng ls = Some (st',
      \<lparr>ls_latencies = ls_latencies ls @ map (\<lambda>i. ms_between (lc_start ck i) (lc_end ck i)) [r..<r + n],
       ls_ttfts = ls_ttfts ls @ map (\<lambda>i. ms_between (lc_start ck i) (lc_first ck i)) [r..<r + n],
       ls_tpots = ls_tpots ls @ map (tpot_sample ck cfg) [r..<r + n]\<rparr>) \<and>
    lat_inv cfg cap st' \<and> idle_before (r + n) st' \<and> hg_total (latency_hist (bn_profiler st')) \<le> (r + n) * bc_output_len cfg"
  using assms(5-7)
proof (induction n arbitrary: r k st rng ls)
  case 0
  then show ?case by simp
next
  case (Suc n)
  let ?P = "bc_prompt_len cfg" and ?L = "bc_output_len cfg"
  obtain prompt rng1 where d: "draw_tokens token_dist ?P rng = (prompt, rng1)" by fastforce
  have len: "length prompt = ?P" using draw_tokens_length [of token_dist ?P rng] d by simp
  define st0 where "st0 = submit_prompt env cfg prompt st"
  note sub = submit_idle [OF Suc.prems(1) ok Suc.prems(2) len, folded st0_def]
  obtain p g where g: "sc_heap (bn_scheduler st0) p = Some g" "produced g = 0" using sub(2) by blast
  have "?L - produced g < fuel" using fuel by simp
  from latency_loop_serves [OF sub(1) ok bud g(1) this, of ck r k None 0]
  obtain k1 st1 where st1: "latency_loop env ck r fuel k st0 None 0 = Some (k1, st1, Some (lc_first ck r), ?P + (?L - 1))"
      "lat_inv cfg cap st1" "same_books st0 st1" "queue (bn_scheduler st1) = []"
      "hg_total (latency_hist (bn_profiler st1)) \<le> hg_total (latency_hist (bn_profiler st0)) + ?L"
    using g(2) by auto
  define pf2 where "pf2 = record_request_end (ev_hash env) (ev_end_time env r (word_of_nat r))
          (ev_count_time env r (word_of_nat r)) (word_of_nat r) (?P + (?L - 1)) (bn_profiler st1)"
  have "active_requests (bn_profiler st1) (word_of_nat r) \<noteq> None" using st1(3) sub(6) by (auto simp: same_books_def)
  note ends = record_end_keeps [OF this, where hash = "ev_hash env" and n = "?P + (?L - 1)"
    and ?t1.0 = "ev_end_time env r (word_of_nat r)" and ?t2.0 = "ev_count_time env r (word_of_nat r)", folded pf2_def]
  define st2 where "st2 = st1\<lparr>bn_profiler := pf2\<rparr>"
  have "dom (active_requests pf2) = {}" using ends(1) st1(3) sub(6) by (simp add: same_books_def)
  then have idle: "idle_before (Suc r) st2"
    using ends(2) st1(3,4) sub(3-5) by (simp add: idle_before_def st2_def same_books_def)
  have inv: "lat_inv cfg cap st2" using st1(2) ends(3) by (simp add: lat_inv_def st2_def)
  have hg: "hg_total (latency_hist (bn_profiler st2)) \<le> Suc r * ?L"
    using st1(5) sub(7) ends(3) Suc.prems(3) by (simp add: st2_def)
  have "0 < ?L" using ok unfolding bench_ok_def by linarith
  then have n1: "1 < ?P + (?L - 1)" "?P + (?L - 1) - 1 = ?P + ?L - 2" using more by linarith+
  define ls1 where "ls1 = \<lparr>ls_latencies = ls_latencies ls @ [ms_between (lc_start ck r) (lc_end ck r)],
    ls_ttfts = ls_ttfts ls @ [ms_between (lc_start ck r) (lc_first ck r)], ls_tpots = ls_tpots ls @ [tpot_sample ck cfg r]\<rparr>"
  have "add_samples ck r (Some (lc_first ck r)) (?P + (?L - 1)) ls = ls1"
    using n1 by (simp add: add_samples_def Let_def tpot_sample_def ls1_def)
  then have run: "latency_requests env ck token_dist cfg fuel (Suc n) r k st rng ls =
      latency_requests env ck token_dist cfg fuel n (Suc r) k1 st2 rng1 ls1"
    using d st1(1) by (simp add: st0_def [symmetric] st2_def pf2_def Let_def)
  have up: "r + Suc n = Suc r + n" "[r..<Suc r + n] = r # [Suc r..<Suc r + n]" by (simp_all add: upt_conv_Cons del: upt_Suc)
  show ?case
    using Suc.IH [OF inv idle hg, of k1 rng1 ls1] unfolding run up
    by (simp only: ls1_def list.map append_assoc append.simps latency_samples.select_convs)
qed

section \<open>The whole run\<close>

lemma pct_defined: "xs \<noteq> [] \<Longrightarrow> \<exists>v. pct xs p = Some v"
proof -
  assume "xs \<noteq> []"
  then have "0 < length xs" by simp
  then have "min (nat \<lfloor>p / 100 * real (length xs)\<rfloor>) (size_sub (length xs) 1) < length xs" by (simp add: min_less_iff_disj Suc_leI)
  then show ?thesis by (simp add: pct_def)
qed

lemma latency_start_inv:
  assumes "bench_ok env cfg cap" and "bc_num_concurrent cfg = 1"
  shows "lat_inv cfg cap (latency_start env cfg g)" "idle_before 0 (latency_start env cfg g)"
    "hg_total (latency_hist (bn_profiler (latency_start env cfg g))) = 0"
proof -
  note o = assms(1) [unfolded bench_ok_def]
  let ?bm = "block_manager_new (bc_cache cfg) (bc_model cfg)"
  let ?s = "scheduler_new (latency_scheduler cfg) ?bm"
  have "base_inv no_ext ?s" using o by (intro base_inv_new) simp_all
  moreover have bm: "bm_block_size ?bm = block_size (bc_cache cfg)" "num_total_gpu_blocks ?bm = num_gpu_blocks (bc_cache cfg)"
    by (simp_all add: bm_block_size_def num_total_gpu_blocks_def block_manager_new_def)
  ultimately have "ample 1 cap (bc_prompt_len cfg) (bc_output_len cfg) ?s"
    using o assms(2) by (simp add: ample_def all_open_def scheduler_new_def queue_def)
  moreover have "hg_wf (latency_hist (profiler_new (ev_opens env) (ev_created env) default_profiler_config))"
    using hg_wf_new by (simp add: profiler_new_def default_profiler_config_def size_max_def)
  ultimately show "lat_inv cfg cap (latency_start env cfg g)"
    unfolding lat_inv_def latency_start_def using bm by (simp add: scheduler_new_def decode_engine_new_def)
  show "idle_before 0 (latency_start env cfg g)" "hg_total (latency_hist (bn_profiler (latency_start env cfg g))) = 0"
    by (simp_all add: idle_before_def latency_start_def scheduler_new_def queue_def profiler_new_def histogram_new_def)
qed



text \<open>Without requests the percentiles are read from an empty vector.\<close>

lemma latency_bench_no_requests:
  assumes "bc_num_requests cfg = 0"
  shows "run_latency_bench env ck token_dist rng cfg len fuel g = None"
proof -
  have "pct [] 50 = None" by (simp add: pct_def vec_at_def)
  then show ?thesis using assms by (simp add: run_latency_bench_def Let_def latency_result_def split: Option.bind_splits)
qed

end
