(* ===== verification/Scaling_Driver.thy ===== *)
theory Scaling_Driver
  imports Throughput_Driver
begin

text \<open>
  The scaling benchmark, \<open>run_scaling_point\<close> of \<open>src/benchmarks/bench_scaling.cpp\<close>: the loop of the
  throughput benchmark at a given concurrency, with every prompt drawn when its request is
  submitted and no report of first tokens. Drawing prompts late gives the same run as drawing them
  all first, so that the run terminates and serves every request.
\<close>

section \<open>Model\<close>

function scaling_submits ::
    "'g bench_env \<Rightarrow> ('r \<Rightarrow> token_id \<times> 'r) \<Rightarrow> bench_config \<Rightarrow> 'g bench_state \<Rightarrow> 'r \<Rightarrow> 'g bench_state \<times> 'r" where
  "scaling_submits env token_dist cfg st rng =
     (if bn_submitted st < bc_num_requests cfg \<and>
         num_running (bn_scheduler st) + num_waiting (bn_scheduler st) < bc_num_concurrent cfg
      then let (prompt, rng1) = draw_tokens token_dist (bc_prompt_len cfg) rng
           in scaling_submits env token_dist cfg (submit_prompt env cfg prompt st) rng1
      else (st, rng))"
  by pat_completeness auto
termination
  by (relation "measure (\<lambda>(env, dst, cfg, st, rng). bc_num_requests cfg - bn_submitted st)")
    (auto simp: submit_prompt_def Let_def)

declare scaling_submits.simps [simp del]

definition scaling_round :: "'g bench_env \<Rightarrow> nat \<Rightarrow> 'g bench_state \<Rightarrow> (bool \<times> 'g bench_state) option" where
  "scaling_round env = bench_round (\<lambda>_ _ _ pf. Some pf) env"

fun scaling_loop ::
    "'g bench_env \<Rightarrow> ('r \<Rightarrow> token_id \<times> 'r) \<Rightarrow> bench_config \<Rightarrow> nat \<Rightarrow> nat \<Rightarrow> 'g bench_state \<Rightarrow> 'r \<Rightarrow> 'g bench_state option" where
  "scaling_loop env token_dist cfg k 0 st rng = None"
| "scaling_loop env token_dist cfg k (Suc fuel) st rng =
     (if bn_completed st < bc_num_requests cfg then
        let (st1, rng1) = scaling_submits env token_dist cfg st rng in
        do {
          (empty, st2) \<leftarrow> scaling_round env k st1;
          if empty then Some st2 else scaling_loop env token_dist cfg (Suc k) fuel st2 rng1
        }
      else Some st)"

definition run_scaling_point ::
    "'g bench_env \<Rightarrow> ('r \<Rightarrow> token_id \<times> 'r) \<Rightarrow> 'r \<Rightarrow> bench_config \<Rightarrow> nat \<Rightarrow> nat \<Rightarrow> 'g \<Rightarrow>
     (bench_result \<times> 'g bench_state) option" where
  "run_scaling_point env token_dist rng cfg concurrency fuel g =
     (let cfg1 = cfg\<lparr>bc_num_concurrent := concurrency\<rparr> in
      do {
        st \<leftarrow> scaling_loop env token_dist cfg1 0 fuel (bench_start env cfg1 g) rng;
        snap \<leftarrow> bench_snapshot st;
        Some (snapshot_result (''scaling_c'' @ nat_str concurrency) snap (bc_num_requests cfg) concurrency, st)
      })"

section \<open>Late and early prompts\<close>

interpretation sil: bookkeeping "\<lambda>_ _ _ pf. Some pf"
  by unfold_locales simp

lemma draw_prompts_nth:
  "i < n \<Longrightarrow> draw_tokens token_dist len (snd (draw_prompts token_dist [] len i rng)) =
     (fst (draw_prompts token_dist [] len n rng) ! i, snd (draw_prompts token_dist [] len (Suc i) rng))"
proof (induction i arbitrary: n rng)
  case 0
  then obtain m where "n = Suc m" by (cases n) auto
  then show ?case by (simp add: split_beta Let_def)
next
  case (Suc i)
  then obtain m where m: "n = Suc m" "i < m" by (cases n) auto
  show ?case using Suc.IH [OF m(2), of "snd (draw_tokens token_dist len rng)"] m(1) by (simp add: split_beta Let_def)
qed

lemma scaling_submits_early:
  fixes env :: "'g bench_env" and token_dist :: "'r \<Rightarrow> token_id \<times> 'r" and cfg :: bench_config and rng0 :: 'r
  defines "ps \<equiv> fst (draw_prompts token_dist [] (bc_prompt_len cfg) (bc_num_requests cfg) rng0)"
    and "after \<equiv> \<lambda>i. snd (draw_prompts token_dist [] (bc_prompt_len cfg) i rng0)"
  shows "\<exists>st'. scaling_submits env token_dist cfg st (after (bn_submitted st)) = (st', after (bn_submitted st')) \<and>
    submit_requests env cfg ps st = Some st'"
proof (induction "bc_num_requests cfg - bn_submitted st" arbitrary: st rule: less_induct)
  case less
  show ?case
  proof (cases "bn_submitted st < bc_num_requests cfg \<and>
         num_running (bn_scheduler st) + num_waiting (bn_scheduler st) < bc_num_concurrent cfg")
    case False
    then show ?thesis by (simp only: scaling_submits.simps [of env] submit_requests.simps [of env] if_False) simp
  next
    case True
    let ?i = "bn_submitted st"
    let ?st1 = "submit_prompt env cfg (ps ! ?i) st"
    have len: "length ps = bc_num_requests cfg" unfolding ps_def using draw_prompts_lengths [of token_dist "[]"] by blast
    have st1: "bn_submitted ?st1 = Suc ?i" by (simp add: submit_prompt_def Let_def)
    have "draw_tokens token_dist (bc_prompt_len cfg) (after ?i) = (ps ! ?i, after (Suc ?i))"
      unfolding ps_def after_def using True by (intro draw_prompts_nth) simp
    then have "scaling_submits env token_dist cfg st (after ?i) = scaling_submits env token_dist cfg ?st1 (after (bn_submitted ?st1))"
      using True st1 by (subst scaling_submits.simps) simp
    moreover have "submit_requests env cfg ps st = submit_requests env cfg ps ?st1"
      using True len by (subst submit_requests.simps) (simp add: submit_request_def)
    moreover have "bc_num_requests cfg - bn_submitted ?st1 < bc_num_requests cfg - ?i" using st1 True by linarith
    ultimately show ?thesis using less [of ?st1] by (simp only:)
  qed
qed

lemma bench_round_submitted:
  "bench_round tell env k st = Some (e, st') \<Longrightarrow> bn_submitted st' = bn_submitted st"
  by (auto simp: bench_round_def bind_eq_Some_conv split: if_splits prod.splits)

lemma scaling_loop_early:
  fixes env :: "'g bench_env" and token_dist :: "'r \<Rightarrow> token_id \<times> 'r" and cfg :: bench_config and rng0 :: 'r
  defines "ps \<equiv> fst (draw_prompts token_dist [] (bc_prompt_len cfg) (bc_num_requests cfg) rng0)"
    and "after \<equiv> \<lambda>i. snd (draw_prompts token_dist [] (bc_prompt_len cfg) i rng0)"
  shows "scaling_loop env token_dist cfg k fuel st (after (bn_submitted st)) =
    bench_loop (\<lambda>_ _ _ pf. Some pf) env cfg ps k fuel st"
proof (induction fuel arbitrary: k st)
  case (Suc fuel)
  obtain st1 where st1: "scaling_submits env token_dist cfg st (after (bn_submitted st)) = (st1, after (bn_submitted st1))"
      "submit_requests env cfg ps st = Some st1"
    using scaling_submits_early [of env token_dist cfg st rng0] unfolding ps_def after_def by blast
  have "scaling_loop env token_dist cfg (Suc k) fuel st2 (after (bn_submitted st1)) =
      bench_loop (\<lambda>_ _ _ pf. Some pf) env cfg ps (Suc k) fuel st2"
    if "bench_round (\<lambda>_ _ _ pf. Some pf) env k st1 = Some (e, st2)" for e st2
    using Suc.IH [of "Suc k" st2] bench_round_submitted [OF that] by simp
  then show ?case using st1 by (auto simp: scaling_round_def split: Option.bind_splits)
qed simp

section \<open>The whole run\<close>

text \<open>
  A point of the scaling benchmark terminates and serves all its requests when the cache is large
  enough for its concurrency; like the throughput benchmark it reports an idle cache.
\<close>

lemma scaling_point_completes:
  assumes ok: "bench_ok env (cfg\<lparr>bc_num_concurrent := concurrency\<rparr>) cap"
    and fuel: "bc_num_requests cfg * bc_output_len cfg < fuel"
  shows "\<exists>r st. run_scaling_point env token_dist rng cfg concurrency fuel g = Some (r, st) \<and>
    bn_completed st = bc_num_requests cfg \<and> \<not> has_pending (bn_scheduler st) \<and>
    num_free_gpu_blocks (sc_bm (bn_scheduler st)) = num_gpu_blocks (bc_cache cfg) \<and>
    total_requests (bn_profiler st) = bc_num_requests cfg \<and> active_requests (bn_profiler st) = Map.empty \<and>
    br_gpu_cache_utilization r = 0 \<and> br_fragmentation r = 0"
proof -
  let ?cfg = "cfg\<lparr>bc_num_concurrent := concurrency\<rparr>"
  let ?ps = "fst (draw_prompts token_dist [] (bc_prompt_len ?cfg) (bc_num_requests ?cfg) rng)" and ?s0 = "bench_start env ?cfg g"
  have ps: "length ?ps = bc_num_requests ?cfg" "\<forall>p \<in> set ?ps. length p = bc_prompt_len ?cfg"
    using draw_prompts_lengths [of token_dist "[]" "bc_prompt_len ?cfg" "bc_num_requests ?cfg" rng] by simp_all
  have w: "work ?cfg ?s0 < fuel" using bench_start_inv(2) [OF ok, of g] fuel by simp
  from sil.bench_loop_returns [OF bench_start_inv(1) [OF ok] ok ps w order_refl, where k = 0]
  obtain st where st: "bench_loop (\<lambda>_ _ _ pf. Some pf) env ?cfg ?ps 0 fuel ?s0 = Some st"
      "bench_inv ?cfg cap st" "bn_completed st = bc_num_requests ?cfg"
      "hg_total (latency_hist (bn_profiler st)) \<le> hg_total (latency_hist (bn_profiler ?s0)) + work ?cfg ?s0"
    by (elim exE conjE) (rule that)
  have "bn_submitted ?s0 = 0" by (simp add: bench_start_def)
  then have loop: "scaling_loop env token_dist ?cfg 0 fuel ?s0 rng = Some st"
    using scaling_loop_early [of env token_dist ?cfg 0 fuel ?s0 rng] st(1) by simp
  have "hg_total (latency_hist (bn_profiler st)) < 2 ^ 64"
    using st(4) bench_start_inv(2,3) [OF ok, of g] ok unfolding bench_ok_def by linarith
  then obtain snap where "bench_snapshot st = Some snap" "snap_gpu_cache_usage snap = 0" "internal_fragmentation snap = 0"
    using finished_snapshot [OF st(2,3)] by blast
  then show ?thesis
    using loop inv_finished [OF st(2,3)] by (simp add: run_scaling_point_def Let_def finished_def snapshot_result_def)
qed

end
