(* ===== verification/Prefix_Props.thy ===== *)
theory Prefix_Props
  imports Prefix_Cache "HOL-Library.Multiset"
begin

text \<open>
  Correctness of the prefix cache against the map from token prefixes to blocks: what a lookup
  returns, what an insertion adds, the references the cache holds in the block manager, and the
  order of eviction; and where eviction and lookup do not do what they mean to.
\<close>

section \<open>Paths\<close>

lemma boundaries_filled_child:
  "boundaries_filled bs i t \<longleftrightarrow>
     (\<forall>x c. child x t = Some c \<longrightarrow>
        ((i + 1) mod bs = 0 \<longrightarrow> tn_block_id c \<noteq> INVALID_BLOCK) \<and> boundaries_filled bs (i + 1) c)"
    (is "_ = ?rhs")
proof
  assume l: "boundaries_filled bs i t"
  show ?rhs
  proof (intro allI impI conjI)
    fix x c
    assume c: "child x t = Some c"
    show "tn_block_id c \<noteq> INVALID_BLOCK" if "(i + 1) mod bs = 0"
      using l c that unfolding boundaries_filled_def by (elim allE [of _ "[x]"]) simp
    show "boundaries_filled bs (i + 1) c"
      unfolding boundaries_filled_def
    proof (intro allI impI)
      fix path n
      assume "path \<noteq> []" "node_at c path = Some n" "(i + 1 + length path) mod bs = 0"
      then show "tn_block_id n \<noteq> INVALID_BLOCK"
        using l c unfolding boundaries_filled_def by (elim allE [of _ "x # path"]) simp
    qed
  qed
next
  assume r: ?rhs
  show "boundaries_filled bs i t"
    unfolding boundaries_filled_def
  proof (intro allI impI)
    fix path n
    assume p: "path \<noteq> []" "node_at t path = Some n" "(i + length path) mod bs = 0"
    then obtain x xs c where x: "path = x # xs" "child x t = Some c" "node_at c xs = Some n"
      by (cases path) (auto split: option.splits)
    show "tn_block_id n \<noteq> INVALID_BLOCK"
    proof (cases "xs = []")
      case True
      then show ?thesis using r x p(3) by auto
    next
      case False
      then show ?thesis using r x p(3) unfolding boundaries_filled_def by auto
    qed
  qed
qed

lemma boundaries_filled_cong:
  "(\<And>x. child x t' = child x t) \<Longrightarrow> boundaries_filled bs i t' = boundaries_filled bs i t"
  by (subst (1 2) boundaries_filled_child) simp

lemma filled_touch [simp]: "boundaries_filled bs i (touch n t) = boundaries_filled bs i t"
  by (rule boundaries_filled_cong) simp

lemma filled_fill [simp]: "boundaries_filled bs i (fill_node b n t) = boundaries_filled bs i t"
  by (rule boundaries_filled_cong) simp

lemma filled_set_ref [simp]: "boundaries_filled bs i (set_ref n t) = boundaries_filled bs i t"
  by (rule boundaries_filled_cong) simp

lemma filled_new [simp]: "boundaries_filled bs i new_trie_node"
  by (subst boundaries_filled_child) simp

lemma filled_set_child:
  assumes "boundaries_filled bs i t" and "boundaries_filled bs (i + 1) c"
    and "(i + 1) mod bs = 0 \<Longrightarrow> tn_block_id c \<noteq> INVALID_BLOCK"
  shows "boundaries_filled bs i (set_child x c t)"
proof (subst boundaries_filled_child, intro allI impI)
  fix y d
  assume "child y (set_child x c t) = Some d"
  then show "((i + 1) mod bs = 0 \<longrightarrow> tn_block_id d \<noteq> INVALID_BLOCK) \<and> boundaries_filled bs (i + 1) d"
    using assms boundaries_filled_child [of bs i t] by (auto split: if_splits)
qed

lemma filled_childD:
  assumes "boundaries_filled bs i t" and "child x t = Some c"
  shows "boundaries_filled bs (i + 1) c" "(i + 1) mod bs = 0 \<Longrightarrow> tn_block_id c \<noteq> INVALID_BLOCK"
  using assms boundaries_filled_child [of bs i t] by auto

section \<open>Lookup\<close>

text \<open>
  \<open>longest bs t xs r\<close>: \<open>r\<close> lists the blocks of the full-block prefixes of \<open>xs\<close>, up to the first one
  that is not cached.
\<close>

definition longest :: "nat \<Rightarrow> (token_id list \<Rightarrow> block_id option) \<Rightarrow> token_id list \<Rightarrow> lookup_result \<Rightarrow> bool" where
  "longest bs m xs r \<longleftrightarrow>
     lr_matched_tokens r = bs * length (lr_cached_blocks r) \<and> lr_matched_tokens r \<le> length xs \<and>
     (\<forall>k < length (lr_cached_blocks r). m (take (bs * (k + 1)) xs) = Some (lr_cached_blocks r ! k)) \<and>
     (bs * (length (lr_cached_blocks r) + 1) \<le> length xs \<longrightarrow>
        m (take (bs * (length (lr_cached_blocks r) + 1)) xs) = None)"

definition matched_upto ::
    "nat \<Rightarrow> (token_id list \<Rightarrow> block_id option) \<Rightarrow> token_id list \<Rightarrow> nat \<Rightarrow> lookup_result \<Rightarrow> bool" where
  "matched_upto bs m xs i r \<longleftrightarrow>
     lr_matched_tokens r = bs * length (lr_cached_blocks r) \<and> length (lr_cached_blocks r) = i div bs \<and>
     (\<forall>k < length (lr_cached_blocks r). m (take (bs * (k + 1)) xs) = Some (lr_cached_blocks r ! k))"

lemma next_div:
  assumes "0 < (bs::nat)"
  shows "(i + 1) div bs = (if (i + 1) mod bs = 0 then i div bs + 1 else i div bs)"
    "(i + 1) mod bs = 0 \<Longrightarrow> bs * (i div bs + 1) = i + 1"
proof -
  show d: "(i + 1) div bs = (if (i + 1) mod bs = 0 then i div bs + 1 else i div bs)"
    using assms by (simp add: div_Suc)
  show "bs * (i div bs + 1) = i + 1" if "(i + 1) mod bs = 0"
    using d that by (metis add_0_right mult_div_mod_eq)
qed

lemma lookup_walk_longest:
  assumes "0 < bs" and "full = pre @ xs" and "length pre = i"
    and "boundaries_filled bs i t" and "\<And>ys. ys \<noteq> [] \<Longrightarrow> cached t ys = m (pre @ ys)"
    and "matched_upto bs m full i r"
  shows "\<exists>r' clk' t'. lookup_walk bs xs i r clk t = Some (r', clk', t') \<and> longest bs m full r' \<and>
    boundaries_filled bs i t' \<and> tn_block_id t' = tn_block_id t"
  using assms
proof (induction xs arbitrary: pre i r clk t)
  case Nil
  have "bs * (i div bs) \<le> i" "i < bs * (i div bs + 1)" using Nil.prems(1)
    by (simp_all add: dividend_less_times_div)
  then show ?case using Nil.prems by (auto simp: longest_def matched_upto_def)
next
  case (Cons x xs)
  have bound: "bs * (i div bs) \<le> i" "i < bs * (i div bs + 1)" using Cons.prems(1)
    by (simp_all add: dividend_less_times_div)
  show ?case
  proof (cases "child x t")
    case None
    have "m (take (bs * (i div bs + 1)) full) = None" if "bs * (i div bs + 1) \<le> length full"
    proof -
      obtain k where k: "bs * (i div bs + 1) = i + Suc k" using bound(2) less_imp_Suc_add by fastforce
      have "take (bs * (i div bs + 1)) full = pre @ x # take k xs"
        using Cons.prems(2,3) unfolding k by simp
      then show ?thesis using Cons.prems(5) [of "x # take k xs"] None by simp
    qed
    moreover have "bs * (i div bs) \<le> length full"
      using bound(1) Cons.prems(2,3) by (metis le_add1 le_trans length_append)
    ultimately show ?thesis using None Cons.prems(4,6)
      by (simp add: longest_def matched_upto_def)
  next
    case (Some c)
    let ?h = "block_hit bs i c"
    let ?c = "if ?h then touch (clk + 1) c else c"
    let ?r = "if ?h then \<lparr>lr_cached_blocks = lr_cached_blocks r @ [tn_block_id c], lr_matched_tokens = i + 1\<rparr> else r"
    note fc = filled_childD [OF Cons.prems(4) Some]
    have h: "?h \<longleftrightarrow> (i + 1) mod bs = 0" using fc(2) by (auto simp: block_hit_def)
    note nd = next_div [OF Cons.prems(1), of i]
    have mx: "m (pre @ [x]) = cached c []" using Cons.prems(5) [of "[x]"] Some by simp
    have up: "matched_upto bs m full (i + 1) ?r"
    proof (cases "(i + 1) mod bs = 0")
      case True
      have "m (take (bs * (length (lr_cached_blocks r) + 1)) full) = Some (tn_block_id c)"
        using Cons.prems(2,3,6) nd(2) [OF True] mx fc(2) True by (simp add: matched_upto_def)
      then show ?thesis
        using Cons.prems(6) nd True h
        by (auto simp: matched_upto_def nth_append less_Suc_eq)
    next
      case False
      then show ?thesis using Cons.prems(6) nd h by (simp add: matched_upto_def)
    qed
    have cc: "cached ?c ys = m ((pre @ [x]) @ ys)" for ys
      using Cons.prems(5) [of "x # ys"] Some by simp
    have fl: "boundaries_filled bs (i + 1) ?c" using fc(1) by simp
    have full: "full = (pre @ [x]) @ xs" "length (pre @ [x]) = i + 1" using Cons.prems(2,3) by simp_all
    obtain r' clk' c' where w: "lookup_walk bs xs (i + 1) ?r (if ?h then clk + 1 else clk) ?c = Some (r', clk', c')"
        "longest bs m full r'" "boundaries_filled bs (i + 1) c'" "tn_block_id c' = tn_block_id ?c"
      using Cons.IH [OF Cons.prems(1) full fl cc up] by blast
    have "boundaries_filled bs i (set_child x c' t)"
      using filled_set_child [OF Cons.prems(4) w(3)] w(4) fc(2) by simp
    with w show ?thesis unfolding lookup_walk_child [OF Some Cons.prems(1)] by auto
  qed
qed

lemma pc_lookup_result:
  assumes "0 < block_size (pc_config pc)" and "boundaries_filled (block_size (pc_config pc)) 0 (pc_root pc)"
  shows "\<exists>r pc'. pc_lookup prefix pc = Some (r, pc') \<and>
    longest (block_size (pc_config pc)) (cached (pc_root pc)) prefix r \<and>
    boundaries_filled (block_size (pc_config pc)) 0 (pc_root pc') \<and> pc_config pc' = pc_config pc \<and>
    cached (pc_root pc') = cached (pc_root pc)"
proof -
  let ?bs = "block_size (pc_config pc)"
  have "matched_upto ?bs (cached (pc_root pc)) prefix 0 \<lparr>lr_cached_blocks = [], lr_matched_tokens = 0\<rparr>"
    by (simp add: matched_upto_def)
  from lookup_walk_longest [OF assms(1) _ _ assms(2) _ this, of "[]" prefix "pc_access_clock pc"]
  obtain r clk t where w: "lookup_walk ?bs prefix 0 \<lparr>lr_cached_blocks = [], lr_matched_tokens = 0\<rparr>
      (pc_access_clock pc) (pc_root pc) = Some (r, clk, t)" "longest ?bs (cached (pc_root pc)) prefix r"
      "boundaries_filled ?bs 0 t"
    by auto
  have "cached t = cached (pc_root pc)" using lookup_walk_cached [OF w(1)] by blast
  with w show ?thesis by (simp add: pc_lookup_def Let_def)
qed


section \<open>Insertion\<close>

text \<open>The block that an insertion assigns to a path relative to a node at depth \<open>i\<close>.\<close>

definition assigned ::
    "nat \<Rightarrow> nat \<Rightarrow> token_id list \<Rightarrow> block_id list \<Rightarrow> token_id list \<Rightarrow> block_id option" where
  "assigned bs i xs blocks path =
     (let k = (i + length path) div bs - i div bs in
      if path \<noteq> [] \<and> (i + length path) mod bs = 0 \<and> take (length path) xs = path \<and>
         1 \<le> k \<and> k \<le> length blocks
      then Some (blocks ! (k - 1)) else None)"

definition or_else :: "'a option \<Rightarrow> 'a option \<Rightarrow> 'a option" where
  "or_else a b = (case a of None \<Rightarrow> b | Some _ \<Rightarrow> a)"

lemma or_else_simps [simp]: "or_else None b = b" "or_else (Some x) b = Some x" "or_else a None = a"
  by (simp_all add: or_else_def split: option.split)

text \<open>The blocks of a trie, one per node that has one.\<close>

fun trie_blocks :: "trie_node \<Rightarrow> block_id multiset"
  and children_blocks :: "(token_id \<times> trie_node) list \<Rightarrow> block_id multiset" where
  "trie_blocks (Trie_Node b n la rc ch) = (if b = INVALID_BLOCK then {#} else {#b#}) + children_blocks ch"
| "children_blocks [] = {#}"
| "children_blocks ((_, c) # cs) = trie_blocks c + children_blocks cs"

lemma trie_blocks_node:
  "trie_blocks t = (if tn_block_id t = INVALID_BLOCK then {#} else {#tn_block_id t#}) + children_blocks (tn_children t)"
  by (cases t) simp

lemma children_blocks_update:
  "children_blocks (AList.update x c ch) + (case map_of ch x of None \<Rightarrow> {#} | Some d \<Rightarrow> trie_blocks d) =
     children_blocks ch + trie_blocks c"
  by (induction ch) (auto simp: ac_simps split: option.split)

lemma trie_blocks_set_child:
  assumes "trie_blocks c = (case child x t of None \<Rightarrow> {#} | Some d \<Rightarrow> trie_blocks d) + A"
  shows "trie_blocks (set_child x c t) = trie_blocks t + A"
proof -
  let ?old = "case child x t of None \<Rightarrow> {#} | Some d \<Rightarrow> trie_blocks d"
  have "children_blocks (AList.update x c (tn_children t)) + ?old = children_blocks (tn_children t) + A + ?old"
    using children_blocks_update [of x c "tn_children t"] assms by (simp add: child_def ac_simps)
  then have "children_blocks (AList.update x c (tn_children t)) = children_blocks (tn_children t) + A"
    by (rule add_right_imp_eq)
  then show ?thesis by (simp add: trie_blocks_node [of t] set_child_def add.assoc)
qed

lemma trie_blocks_touch [simp]: "trie_blocks (touch n t) = trie_blocks t"
  by (simp add: trie_blocks_node)

lemma trie_blocks_fill:
  "tn_block_id c = INVALID_BLOCK \<Longrightarrow> b \<noteq> INVALID_BLOCK \<Longrightarrow>
     trie_blocks (fill_node b n c) = trie_blocks c + {#b#}"
  by (simp add: trie_blocks_node)

lemma trie_blocks_new [simp]: "trie_blocks new_trie_node = {#}"
  by (simp add: new_trie_node_def)

text \<open>References of the block manager that are held from outside, plus one per element of \<open>M\<close>.\<close>

definition ext_plus ::
    "(device_type \<Rightarrow> block_id \<Rightarrow> nat) \<Rightarrow> block_id multiset \<Rightarrow> device_type \<Rightarrow> block_id \<Rightarrow> nat" where
  "ext_plus ext M d b = ext d b + (if d = CUDA then count M b else 0)"

lemma ext_plus_add: "ext_plus (add_ext CUDA b ext) M = ext_plus ext (M + {#b#})"
  by (auto simp: ext_plus_def fun_eq_iff)

lemma ext_plus_simps [simp]: "ext_plus ext {#} = ext" "ext_plus (ext_plus ext M) N = ext_plus ext (M + N)"
  by (auto simp: ext_plus_def fun_eq_iff)

text \<open>Blocks that can be inserted: valid, in use, and far from the limit of the reference count.\<close>

definition insertable :: "nat \<Rightarrow> block_manager \<Rightarrow> block_id list \<Rightarrow> bool" where
  "insertable room bm blocks \<longleftrightarrow>
     (\<forall>b \<in> set blocks. in_range bm CUDA b \<and> 1 \<le> ref_of bm CUDA b) \<and>
     (\<forall>b. in_range bm CUDA b \<longrightarrow> ref_of bm CUDA b + int room < 2 ^ 31)"

text \<open>
  The effect of the insertion loop below a node \<open>t\<close>: what is cached, the references taken, and the
  statistics. \<open>A\<close> is the multiset of the blocks that were newly cached.
\<close>

definition insert_effect ::
    "nat \<Rightarrow> nat \<Rightarrow> token_id list \<Rightarrow> block_id list \<Rightarrow> (device_type \<Rightarrow> block_id \<Rightarrow> nat) \<Rightarrow>
     prefix_stats \<Rightarrow> trie_node \<Rightarrow> prefix_stats \<Rightarrow> block_manager \<Rightarrow> trie_node \<Rightarrow> bool" where
  "insert_effect bs i xs blocks ext stats t stats' bm' t' \<longleftrightarrow>
     (\<exists>A. trie_blocks t' = trie_blocks t + A \<and> bm_wf (ext_plus ext A) bm' \<and>
       ps_insertions stats' = ps_insertions stats + size A \<and>
       ps_cached_blocks stats' = ps_cached_blocks stats + size A) \<and>
     boundaries_filled bs i t' \<and> tn_block_id t' = tn_block_id t \<and>
     (\<forall>path. path \<noteq> [] \<longrightarrow> cached t' path = or_else (cached t path) (assigned bs i xs blocks path))"

lemma assigned_Nil [simp]: "assigned bs i [] blocks path = None" "assigned bs i xs [] path = None"
  by (auto simp: assigned_def Let_def)

lemma assigned_Cons_other: "y \<noteq> x \<Longrightarrow> assigned bs i (x # xs) blocks (y # ys) = None"
  by (auto simp: assigned_def Let_def)

lemma assigned_Cons:
  assumes "0 < bs"
  shows "assigned bs i (x # xs) (b # blocks) (x # ys) =
    (if (i + 1) mod bs = 0
     then (if ys = [] then Some b else assigned bs (i + 1) xs blocks ys)
     else if ys = [] then None else assigned bs (i + 1) xs (b # blocks) ys)"
proof -
  note nd = next_div [OF assms, of i]
  have mono: "(i + 1) div bs \<le> (i + 1 + length ys) div bs" by (rule div_le_mono) simp
  show ?thesis
  proof (cases "(i + 1) mod bs = 0")
    case False
    then show ?thesis using nd(1) by (auto simp: assigned_def Let_def)
  next
    case True
    show ?thesis
    proof (cases "ys = []")
      case True
      then show ?thesis using nd(1) \<open>(i + 1) mod bs = 0\<close> by (simp add: assigned_def Let_def)
    next
      case ys: False
      let ?k = "(i + 1 + length ys) div bs - (i + 1) div bs"
      have pos: "1 \<le> ?k" if "(i + 1 + length ys) mod bs = 0"
      proof -
        define p q where "p = (i + 1) div bs" and "q = (i + 1 + length ys) div bs"
        have "i + 1 = bs * p" "i + 1 + length ys = bs * q"
          using True that unfolding p_def q_def by (metis add_0_right mult_div_mod_eq)+
        then have "bs * p < bs * q" using ys by (metis add.right_neutral length_greater_0_conv nat_add_left_cancel_less)
        then show ?thesis using assms by (auto simp: p_def q_def)
      qed
      have k: "(i + length (x # ys)) div bs - i div bs = Suc ?k"
        using nd(1) True mono by simp
      show ?thesis
        using True ys pos k by (auto simp: assigned_def Let_def nth_Cons')
    qed
  qed
qed


text \<open>Writing back a child whose map has grown gives the map of the whole loop.\<close>

lemma cached_set_child_assigned:
  assumes "0 < bs"
    and "\<And>ys. cached c2 ys = or_else (case child x t of None \<Rightarrow> None | Some c \<Rightarrow> cached c ys)
      (assigned bs i (x # xs) (b # blocks) (x # ys))"
    and "path \<noteq> []"
  shows "cached (set_child x c2 t) path = or_else (cached t path) (assigned bs i (x # xs) (b # blocks) path)"
proof -
  obtain y ys where p: "path = y # ys" using assms(3) by (cases path) auto
  show ?thesis
  proof (cases "y = x")
    case True
    then show ?thesis using assms(2) p by simp
  next
    case False
    then show ?thesis using p by (simp add: assigned_Cons_other)
  qed
qed

lemma increment_step:
  assumes "insertable (Suc n) bm (b # blocks)" and "bm_wf ext bm"
  shows "\<exists>bm1. increment_ref b CUDA bm = Some bm1 \<and> bm_wf (add_ext CUDA b ext) bm1 \<and>
    insertable n bm1 blocks \<and> b \<noteq> INVALID_BLOCK"
proof -
  have r: "in_range bm CUDA b" "1 \<le> ref_of bm CUDA b" "ref_of bm CUDA b \<noteq> 2 ^ 31 - 1"
    using assms(1) by (auto simp: insertable_def)
  obtain bm1 where bm1: "increment_ref b CUDA bm = Some bm1" "bm_wf (add_ext CUDA b ext) bm1" "same_shape bm bm1"
      "\<forall>e c. in_range bm e c \<longrightarrow> ref_of bm1 e c = ref_of bm e c + of_bool (e = CUDA \<and> c = b)"
    using increment_ref_wf [OF assms(2) r] by blast
  have "insertable n bm1 blocks"
    using assms(1) bm1(4) same_shape_in_range [OF bm1(3)] by (fastforce simp: insertable_def)
  then show ?thesis using bm1 r(1) by (auto simp: in_range_def INVALID_BLOCK_def)
qed

lemma insert_walk_effect:
  assumes "0 < bs" and "boundaries_filled bs i t" and "bm_wf ext bm"
    and "insertable (length blocks) bm blocks"
  shows "\<exists>clk' stats' bm' t'. insert_walk bs xs blocks i (clk, stats, bm) t = Some ((clk', stats', bm'), t') \<and>
    insert_effect bs i xs blocks ext stats t stats' bm' t'"
  using assms
proof (induction xs arbitrary: blocks i clk stats bm t ext)
  case Nil
  then show ?case by (auto simp: insert_effect_def)
next
  case (Cons x xs)
  show ?case
  proof (cases blocks)
    case Nil
    then show ?thesis using Cons.prems by (auto simp: insert_effect_def)
  next
    case (Cons b blocks')
    define c where "c = (case child x t of None \<Rightarrow> new_trie_node | Some c \<Rightarrow> c)"
    have fc: "boundaries_filled bs (i + 1) c"
      using filled_childD(1) [OF Cons.prems(2)] by (auto simp: c_def split: option.split)
    have cc: "cached c ys = (case child x t of None \<Rightarrow> None | Some c \<Rightarrow> cached c ys)" for ys
      by (simp add: c_def split: option.split)
    have tb: "trie_blocks c = (case child x t of None \<Rightarrow> {#} | Some d \<Rightarrow> trie_blocks d)"
      by (simp add: c_def split: option.split)
    have old: "tn_block_id c \<noteq> INVALID_BLOCK" if "child x t \<noteq> None" "(i + 1) mod bs = 0"
      using that filled_childD(2) [OF Cons.prems(2)] by (auto simp: c_def)
    show ?thesis
    proof (cases "(i + 1) mod bs = 0")
      case False
      obtain clk' stats' bm' c2 where w: "insert_walk bs xs blocks (i + 1) (clk, stats, bm) c = Some ((clk', stats', bm'), c2)"
          "insert_effect bs (i + 1) xs blocks ext stats c stats' bm' c2"
        using Cons.IH [OF Cons.prems(1) fc Cons.prems(3,4)] by blast
      have "insert_walk bs (x # xs) blocks i (clk, stats, bm) t = Some ((clk', stats', bm'), set_child x c2 t)"
        using w(1) False Cons.prems(1) by (simp add: Cons c_def [symmetric])
      moreover have "insert_effect bs i (x # xs) blocks ext stats t stats' bm' (set_child x c2 t)"
      proof -
        have "cached c2 ys = or_else (case child x t of None \<Rightarrow> None | Some c \<Rightarrow> cached c ys)
            (assigned bs i (x # xs) (b # blocks') (x # ys))" for ys
          using w(2) cc [of ys] False assigned_Cons [OF Cons.prems(1), of i x xs b blocks' ys]
          by (cases "ys = []") (auto simp: insert_effect_def Cons)
        from cached_set_child_assigned [OF Cons.prems(1) this]
        have "\<forall>path. path \<noteq> [] \<longrightarrow> cached (set_child x c2 t) path =
            or_else (cached t path) (assigned bs i (x # xs) blocks path)" by (simp add: Cons)
        moreover have "boundaries_filled bs i (set_child x c2 t)"
          using w(2) False by (intro filled_set_child [OF Cons.prems(2)]) (simp_all add: insert_effect_def)
        ultimately show ?thesis
          using w(2) tb trie_blocks_set_child [of c2 x t] unfolding insert_effect_def by auto
      qed
      ultimately show ?thesis by blast
    next
      case True
      obtain stats1 bm1 c1 A1 where one:
          "(if tn_block_id c = INVALID_BLOCK then do {
             bm1 \<leftarrow> increment_ref b CUDA bm;
             Some (fill_node b bs c, stats\<lparr>ps_insertions := ps_insertions stats + 1,
                         ps_cached_blocks := ps_cached_blocks stats + 1\<rparr>, bm1)
           } else Some (c, stats, bm)) = Some (c1, stats1, bm1)"
          "trie_blocks c1 = trie_blocks c + A1" "bm_wf (ext_plus ext A1) bm1" "insertable (length blocks') bm1 blocks'"
          "ps_insertions stats1 = ps_insertions stats + size A1"
          "ps_cached_blocks stats1 = ps_cached_blocks stats + size A1"
          "tn_block_id c1 \<noteq> INVALID_BLOCK" "boundaries_filled bs (i + 1) c1"
          "\<And>ys. cached c1 ys = or_else (cached c ys) (if ys = [] then Some b else None)"
      proof (cases "tn_block_id c = INVALID_BLOCK")
        case inv: True
        obtain bm1 where bm1: "increment_ref b CUDA bm = Some bm1" "bm_wf (add_ext CUDA b ext) bm1"
            "insertable (length blocks') bm1 blocks'" "b \<noteq> INVALID_BLOCK"
          using increment_step [of "length blocks'" bm b blocks' ext] Cons.prems(3,4) by (auto simp: Cons)
        have "cached (fill_node b bs c) ys = or_else (cached c ys) (if ys = [] then Some b else None)" for ys
          using inv bm1(4) by (cases ys) simp_all
        then show ?thesis
          using that [of "fill_node b bs c" "stats\<lparr>ps_insertions := ps_insertions stats + 1,
              ps_cached_blocks := ps_cached_blocks stats + 1\<rparr>" bm1 "{#b#}"] bm1 inv fc
            trie_blocks_fill [OF inv bm1(4)] ext_plus_add [of b ext "{#}"] by simp
      next
        case val: False
        have "cached c ys = or_else (cached c ys) (if ys = [] then Some b else None)" for ys
          using val by (cases ys) simp_all
        moreover have "insertable (length blocks') bm blocks'"
          using Cons.prems(4) by (auto simp: insertable_def Cons)
        ultimately show ?thesis using that [of c stats bm "{#}"] val fc Cons.prems(3) by simp
      qed
      obtain clk' stats' bm' c2 where w:
          "insert_walk bs xs blocks' (i + 1) (clk + 1, stats1, bm1) (touch (clk + 1) c1) = Some ((clk', stats', bm'), c2)"
          "insert_effect bs (i + 1) xs blocks' (ext_plus ext A1) stats1 (touch (clk + 1) c1) stats' bm' c2"
        using Cons.IH [of "i + 1" "touch (clk + 1) c1" "ext_plus ext A1" bm1 blocks'] Cons.prems(1) one(3,4,8)
        by fastforce
      have "insert_walk bs (x # xs) blocks i (clk, stats, bm) t = Some ((clk', stats', bm'), set_child x c2 t)"
        using w(1) True Cons.prems(1) one(1) by (simp add: Cons c_def [symmetric] Let_def)
      moreover have "insert_effect bs i (x # xs) blocks ext stats t stats' bm' (set_child x c2 t)"
      proof -
        have "cached c2 ys = or_else (case child x t of None \<Rightarrow> None | Some c \<Rightarrow> cached c ys)
            (assigned bs i (x # xs) (b # blocks') (x # ys))" for ys
          using w(2) cc [of ys] True one(7) one(9) [of ys] assigned_Cons [OF Cons.prems(1), of i x xs b blocks' ys]
          by (cases "ys = []") (auto simp: insert_effect_def)
        from cached_set_child_assigned [OF Cons.prems(1) this]
        have "\<forall>path. path \<noteq> [] \<longrightarrow> cached (set_child x c2 t) path =
            or_else (cached t path) (assigned bs i (x # xs) blocks path)" by (simp add: Cons)
        moreover have "boundaries_filled bs i (set_child x c2 t)"
          using w(2) one(7) by (intro filled_set_child [OF Cons.prems(2)]) (simp_all add: insert_effect_def)
        moreover obtain A2 where "trie_blocks c2 = trie_blocks c1 + A2" "bm_wf (ext_plus ext (A1 + A2)) bm'"
            "ps_insertions stats' = ps_insertions stats1 + size A2"
            "ps_cached_blocks stats' = ps_cached_blocks stats1 + size A2"
          using w(2) by (auto simp: insert_effect_def)
        ultimately show ?thesis
          using one(2,5,6) tb trie_blocks_set_child [of c2 x t "A1 + A2"]
          unfolding insert_effect_def by (intro conjI exI [of _ "A1 + A2"]) (simp_all add: add.assoc)
      qed
      ultimately show ?thesis by blast
    qed
  qed
qed


lemma release_walk_filled:
  "release_walk bs xs i t = Some t' \<Longrightarrow> boundaries_filled bs i t \<Longrightarrow>
     boundaries_filled bs i t' \<and> tn_block_id t' = tn_block_id t \<and> trie_blocks t' = trie_blocks t"
proof (induction xs arbitrary: i t t')
  case (Cons x xs)
  show ?case
  proof (cases "child x t")
    case None
    then show ?thesis using Cons.prems by simp
  next
    case (Some c)
    then obtain c1 c2 where w: "release_walk bs xs (i + 1) c1 = Some c2" "t' = set_child x c2 t"
        "c1 = c \<or> (\<exists>n. c1 = set_ref n c)"
      using Cons.prems(1) by (auto simp: bind_eq_Some_conv split: if_splits)
    note fc = filled_childD [OF Cons.prems(2) Some]
    have c1: "boundaries_filled bs (i + 1) c1" "tn_block_id c1 = tn_block_id c" "trie_blocks c1 = trie_blocks c"
      using w(3) fc(1) by (auto simp: trie_blocks_node)
    have IH: "boundaries_filled bs (i + 1) c2" "tn_block_id c2 = tn_block_id c1" "trie_blocks c2 = trie_blocks c1"
      using Cons.IH [OF w(1) c1(1)] by simp_all
    have "boundaries_filled bs i t'"
      using filled_set_child [OF Cons.prems(2) IH(1)] fc(2) IH(2) c1(2) w(2) by simp
    moreover have "trie_blocks t' = trie_blocks t"
      using trie_blocks_set_child [of c2 x t "{#}"] IH(3) c1(3) Some w(2) by simp
    ultimately show ?thesis using w(2) by simp
  qed
qed simp

section \<open>Reachable caches\<close>

text \<open>
  The states of a cache under its public operations. The blocks given to an insertion are in use
  (as those of a sequence are) in a well-formed block manager.
\<close>

inductive pc_reach :: "cache_config \<Rightarrow> prefix_cache \<Rightarrow> bool"
  for c :: cache_config
  where
  new: "pc_reach c (prefix_cache_new c)"
| lookup: "pc_reach c pc \<Longrightarrow> pc_lookup prefix pc = Some (r, pc') \<Longrightarrow> pc_reach c pc'"
| insert: "pc_reach c pc \<Longrightarrow> bm_wf ext bm \<Longrightarrow> insertable (length blocks) bm blocks \<Longrightarrow>
    pc_insert tokens blocks (pc, bm) = Some (pc', bm') \<Longrightarrow> pc_reach c pc'"
| release: "pc_reach c pc \<Longrightarrow> pc_release prefix pc = Some pc' \<Longrightarrow> pc_reach c pc'"
| evict: "pc_reach c pc \<Longrightarrow> evict_lru n (pc, bm) = Some (pc', bm') \<Longrightarrow> pc_reach c pc'"
| reset: "pc_reach c pc \<Longrightarrow> pc_reach c (pc_reset_stats pc)"

lemma evict_lru_root:
  "evict_lru n (pc, bm) = Some (pc', bm') \<Longrightarrow> pc_root pc' = pc_root pc \<and> pc_config pc' = pc_config pc \<and>
     pc_access_clock pc' = pc_access_clock pc"
  by (auto simp: evict_lru_def bind_eq_Some_conv)

lemma pc_insert_result:
  assumes "0 < block_size (pc_config pc)" and "boundaries_filled (block_size (pc_config pc)) 0 (pc_root pc)"
    and "bm_wf ext bm" and "insertable (length blocks) bm blocks"
  shows "\<exists>pc' bm'. pc_insert tokens blocks (pc, bm) = Some (pc', bm') \<and> pc_config pc' = pc_config pc \<and>
    insert_effect (block_size (pc_config pc)) 0 tokens blocks ext (pc_stats pc) (pc_root pc) (pc_stats pc') bm' (pc_root pc')"
proof -
  let ?bs = "block_size (pc_config pc)"
  obtain clk' stats' bm' t' where
    "insert_walk ?bs tokens blocks 0 (pc_access_clock pc, pc_stats pc, bm) (pc_root pc) = Some ((clk', stats', bm'), t')"
    "insert_effect ?bs 0 tokens blocks ext (pc_stats pc) (pc_root pc) stats' bm' t'"
    using insert_walk_effect [OF assms] by blast
  then show ?thesis by (simp add: pc_insert_def)
qed

lemma pc_reach_inv:
  assumes "pc_reach c pc" and "0 < block_size c"
  shows "pc_config pc = c \<and> boundaries_filled (block_size c) 0 (pc_root pc)"
  using assms(1)
proof (induction rule: pc_reach.induct)
  case new
  then show ?case by (simp add: prefix_cache_new_def)
next
  case (lookup pc prefix r pc')
  then show ?case using pc_lookup_result [of pc prefix] assms(2) by auto
next
  case (insert pc ext bm blocks tokens pc' bm')
  then show ?case using pc_insert_result [of pc ext bm blocks tokens] assms(2) by (auto simp: insert_effect_def)
next
  case (release pc prefix pc')
  then show ?case using release_walk_filled by (auto simp: pc_release_def bind_eq_Some_conv)
next
  case (evict pc n bm pc' bm')
  then show ?case using evict_lru_root by simp
next
  case (reset pc)
  then show ?case by (simp add: pc_reset_stats_def)
qed

lemma assigned_take:
  assumes "0 < bs" and "k < length blocks" and "bs * (k + 1) \<le> length tokens"
  shows "assigned bs 0 tokens blocks (take (bs * (k + 1)) tokens) = Some (blocks ! k)"
proof -
  have l: "length (take (bs * (k + 1)) tokens) = bs * (k + 1)" using assms(3) by simp
  then have "take (bs * (k + 1)) tokens \<noteq> []" using assms(1) by (metis list.size(3) mult_is_0 not_gr_zero zero_neq_one add_is_0)
  then show ?thesis using assms l unfolding assigned_def by simp
qed

lemma assigned_Some:
  assumes "0 < bs" and "assigned bs 0 tokens blocks path = Some b"
  shows "\<exists>k. k < length blocks \<and> bs * (k + 1) \<le> length tokens \<and> path = take (bs * (k + 1)) tokens \<and> b = blocks ! k"
proof -
  let ?k = "length path div bs - 1"
  have a: "length path mod bs = 0" "take (length path) tokens = path" "1 \<le> length path div bs"
      "length path div bs \<le> length blocks" "b = blocks ! ?k"
    using assms(2) by (auto simp: assigned_def Let_def split: if_splits)
  have "bs * (?k + 1) = length path" using a(1,3) by (metis add_0_right le_add_diff_inverse2 mult_div_mod_eq)
  moreover have "length path \<le> length tokens" using a(2) by (metis length_take min.cobounded1)
  ultimately show ?thesis using a by (intro exI [of _ ?k]) auto
qed

section \<open>Eviction\<close>

definition victims :: "nat \<Rightarrow> prefix_cache \<Rightarrow> (nat \<times> block_id) list" where
  "victims n pc = take n (sort (collect_eviction_candidates (pc_root pc)))"

lemma candidates_blocks:
  "mset (map snd (collect_eviction_candidates t)) \<subseteq># trie_blocks t"
  "mset (map snd (collect_from_children ch)) \<subseteq># children_blocks ch"
  by (induction t and ch rule: trie_blocks_children_blocks.induct)
    (auto intro: mset_subset_eq_mono_add elim: subset_mset.order_trans)

lemma victims_blocks: "mset (map snd (victims n pc)) \<subseteq># trie_blocks (pc_root pc)"
proof -
  let ?s = "sort (collect_eviction_candidates (pc_root pc))"
  have "mset (take n ?s) \<subseteq># mset ?s"
    by (metis append_take_drop_id mset_append mset_subset_eq_add_left)
  then have "mset (map snd (take n ?s)) \<subseteq># mset (map snd ?s)"
    unfolding mset_map by (rule image_mset_subseteq_mono)
  also have "mset (map snd ?s) = mset (map snd (collect_eviction_candidates (pc_root pc)))" by simp
  finally show ?thesis using candidates_blocks(1) [of "pc_root pc"] by (simp add: victims_def)
qed

lemma evict_from_spec:
  "freed \<le> n \<Longrightarrow> foldM (\<lambda>(ts, b). decrement_ref b CUDA) (take (n - freed) cs) bm = Some bm' \<Longrightarrow>
     \<exists>stats'. evict_from cs n freed (stats, bm) = Some (stats', bm') \<and>
       ps_evictions stats' = ps_evictions stats + length (take (n - freed) cs) \<and>
       (length (take (n - freed) cs) \<le> ps_cached_blocks stats \<longrightarrow>
          ps_cached_blocks stats' = ps_cached_blocks stats - length (take (n - freed) cs))"
proof (induction cs arbitrary: freed stats bm)
  case (Cons v cs)
  obtain ts b where v: "v = (ts, b)" by fastforce
  show ?case
  proof (cases "freed = n")
    case True
    then show ?thesis using Cons.prems v by simp
  next
    case False
    then have n: "take (n - freed) (v # cs) = v # take (n - (freed + 1)) cs"
      using Cons.prems(1) by (metis Suc_diff_Suc Suc_eq_plus1 le_neq_implies_less take_Suc_Cons)
    then obtain bm1 where d: "decrement_ref b CUDA bm = Some bm1"
        "foldM (\<lambda>(ts, b). decrement_ref b CUDA) (take (n - (freed + 1)) cs) bm1 = Some bm'"
      using Cons.prems(2) v by (auto simp: bind_eq_Some_conv)
    let ?st = "stats\<lparr>ps_evictions := ps_evictions stats + 1, ps_cached_blocks := size_sub (ps_cached_blocks stats) 1\<rparr>"
    obtain stats' where s': "evict_from cs n (freed + 1) (?st, bm1) = Some (stats', bm')"
        "ps_evictions stats' = ps_evictions ?st + length (take (n - (freed + 1)) cs)"
        "length (take (n - (freed + 1)) cs) \<le> ps_cached_blocks ?st \<longrightarrow>
          ps_cached_blocks stats' = ps_cached_blocks ?st - length (take (n - (freed + 1)) cs)"
      using Cons.IH [OF _ d(2), of ?st] Cons.prems(1) False by auto
    have "evict_from (v # cs) n freed (stats, bm) = Some (stats', bm')"
      using False Cons.prems(1) v d(1) s'(1) by simp
    then show ?thesis unfolding n using s'(2,3) by auto
  qed
qed simp

lemma decrement_all:
  assumes "bm_wf (ext_plus ext T) bm" and "mset (map snd l) \<subseteq># T" and "\<forall>b \<in># T. in_range bm CUDA b"
  shows "\<exists>bm'. foldM (\<lambda>(ts, b). decrement_ref b CUDA) l bm = Some bm' \<and>
    bm_wf (ext_plus ext (T - mset (map snd l))) bm'"
  using assms
proof (induction l arbitrary: T bm)
  case (Cons v l)
  obtain ts b where v: "v = (ts, b)" by fastforce
  have b: "b \<in># T" "mset (map snd l) \<subseteq># T - {#b#}"
    using Cons.prems(2) v by (simp_all add: insert_subset_eq_iff)
  have "1 \<le> ext_plus ext T CUDA b"
    using b(1) by (simp add: ext_plus_def Suc_le_eq flip: count_greater_zero_iff)
  then obtain bm1 where d: "decrement_ref b CUDA bm = Some bm1"
      "bm_wf (sub_ext CUDA b (ext_plus ext T)) bm1" "dropped b CUDA bm bm1"
    using dr.drop_ext [OF Cons.prems(1), of CUDA b] Cons.prems(3) b(1) by blast
  have "sub_ext CUDA b (ext_plus ext T) = ext_plus ext (T - {#b#})"
    using b(1) by (auto simp: ext_plus_def fun_eq_iff simp flip: count_greater_zero_iff)
  moreover have "\<forall>b \<in># T - {#b#}. in_range bm1 CUDA b"
    using Cons.prems(3) d(3) by (auto simp: dropped_def same_shape_in_range dest: in_diffD)
  ultimately obtain bm' where "foldM (\<lambda>(ts, b). decrement_ref b CUDA) l bm1 = Some bm'"
      "bm_wf (ext_plus ext (T - {#b#} - mset (map snd l))) bm'"
    using Cons.IH [of "T - {#b#}" bm1] d(2) b(2) by auto
  then show ?case using d(1) v by simp
qed simp

section \<open>Properties\<close>

definition pc_demo :: cache_config where
  "pc_demo = default_cache_config\<lparr>num_gpu_blocks := 2, num_cpu_blocks := 0, block_size := 1\<rparr>"

definition pc_demo_bm :: block_manager where
  "pc_demo_bm = block_manager_new pc_demo default_model_config"

text \<open>A block manager in which sequence 1 holds block 0, and a cache that holds its prefix.\<close>

definition pc_demo_owned :: block_manager where
  "pc_demo_owned = snd (the (allocate_block 1 CUDA pc_demo_bm))"

definition pc_demo_filled :: "prefix_cache \<times> block_manager" where
  "pc_demo_filled = the (pc_insert [7] [0] (prefix_cache_new pc_demo, pc_demo_owned))"

lemma pc_demo_owned_ok:
  "bm_wf no_ext pc_demo_owned" "insertable 1 pc_demo_owned [0]"
proof -
  have wf: "bm_wf no_ext pc_demo_bm"
    unfolding pc_demo_bm_def by (rule block_manager_new_wf) (simp_all add: pc_demo_def)
  have ne: "free_list_for pc_demo_bm CUDA \<noteq> []" by (simp add: pc_demo_bm_def pc_demo_def cf_defs)
  show "bm_wf no_ext pc_demo_owned"
    using allocate_block_nonempty [OF wf ne, of 1] by (auto simp: pc_demo_owned_def)
  have "length (gpu_blocks pc_demo_owned) = 2" "pb_ref_count (gpu_blocks pc_demo_owned ! 0) = 1"
      "pb_ref_count (gpu_blocks pc_demo_owned ! 1) = 0"
    by (simp_all add: pc_demo_owned_def pc_demo_bm_def pc_demo_def cf_defs upt_rec)
  then show "insertable 1 pc_demo_owned [0]"
    by (auto simp: insertable_def in_range_def ref_of_def blocks_for_def le_less nat_less_iff)
      (smt (verit) One_nat_def nat_1 nat_less_iff)
qed

text \<open>
  C16. A lookup in a reachable cache returns the blocks of the longest chain of cached full-block
  prefixes of its argument: the \<open>k\<close>-th block is the one cached for the first \<open>k\<close> blocks of tokens, the
  next full block is not cached, \<open>matched_tokens\<close> is the block size times the number of
  blocks, and the contents of the cache do not change.
\<close>

theorem pc_lookup_longest_prefix:
  assumes "pc_reach c pc" and "0 < block_size c"
  shows "\<exists>r pc'. pc_lookup prefix pc = Some (r, pc') \<and>
    lr_matched_tokens r = block_size c * length (lr_cached_blocks r) \<and> lr_matched_tokens r \<le> length prefix \<and>
    (\<forall>k < length (lr_cached_blocks r).
       cached (pc_root pc) (take (block_size c * (k + 1)) prefix) = Some (lr_cached_blocks r ! k)) \<and>
    (block_size c * (length (lr_cached_blocks r) + 1) \<le> length prefix \<longrightarrow>
       cached (pc_root pc) (take (block_size c * (length (lr_cached_blocks r) + 1)) prefix) = None) \<and>
    cached (pc_root pc') = cached (pc_root pc)"
  using pc_lookup_result [of pc prefix] pc_reach_inv [OF assms] assms(2) unfolding longest_def by auto

theorem pc_lookup_longest_prefix_witness:
  "\<exists>r pc'. pc_lookup [7, 8] (fst pc_demo_filled) = Some (r, pc') \<and> lr_cached_blocks r = [0] \<and>
     lr_matched_tokens r = 1 * length (lr_cached_blocks r)"
proof -
  have reach: "pc_reach pc_demo (fst pc_demo_filled)"
  proof (rule pc_reach.insert [OF pc_reach.new pc_demo_owned_ok(1)])
    show "insertable (length [0 :: int]) pc_demo_owned [0]" using pc_demo_owned_ok(2) by simp
    show "pc_insert [7] [0] (prefix_cache_new pc_demo, pc_demo_owned) = Some (fst pc_demo_filled, snd pc_demo_filled)"
      by (simp add: pc_demo_filled_def pc_demo_owned_def pc_demo_bm_def pc_demo_def cf_defs upt_rec)
  qed
  obtain r0 pc0 where r0: "pc_lookup [7, 8] (fst pc_demo_filled) = Some (r0, pc0)" "lr_cached_blocks r0 = [0]"
    by (simp add: pc_demo_filled_def pc_demo_owned_def pc_demo_bm_def pc_demo_def cf_defs upt_rec)
  from pc_lookup_longest_prefix [OF reach, of "[7, 8]"] r0 show ?thesis by (auto simp: pc_demo_def)
qed

text \<open>
  C15. An insertion into a reachable cache always returns. It adds to the cache exactly the full-block
  prefixes of its tokens that have a block and were not cached, keeps every entry that was
  there, and takes one reference in the block manager per added entry: if the references held
  from outside a well-formed manager were those of the cache's entries and some others, they are
  so afterwards. The counters grow by the number of added entries.
\<close>

theorem pc_insert_extends_and_counts:
  assumes "pc_reach c pc" and "0 < block_size c"
    and "bm_wf (ext_plus ext (trie_blocks (pc_root pc))) bm" and "insertable (length blocks) bm blocks"
  shows "\<exists>pc' bm' A. pc_insert tokens blocks (pc, bm) = Some (pc', bm') \<and>
    (\<forall>path b. path \<noteq> [] \<longrightarrow> cached (pc_root pc') path = Some b \<longleftrightarrow>
       cached (pc_root pc) path = Some b \<or>
       cached (pc_root pc) path = None \<and>
         (\<exists>k. k < length blocks \<and> block_size c * (k + 1) \<le> length tokens \<and>
              path = take (block_size c * (k + 1)) tokens \<and> b = blocks ! k)) \<and>
    trie_blocks (pc_root pc') = trie_blocks (pc_root pc) + A \<and>
    bm_wf (ext_plus ext (trie_blocks (pc_root pc'))) bm' \<and>
    num_cached_blocks pc' = num_cached_blocks pc + size A \<and>
    num_cached_prefixes pc' = num_cached_prefixes pc + size A"
proof -
  note inv = pc_reach_inv [OF assms(1,2)]
  obtain pc' bm' where ins: "pc_insert tokens blocks (pc, bm) = Some (pc', bm')"
    and eff: "insert_effect (block_size c) 0 tokens blocks (ext_plus ext (trie_blocks (pc_root pc)))
      (pc_stats pc) (pc_root pc) (pc_stats pc') bm' (pc_root pc')"
    using pc_insert_result [OF _ _ assms(3,4), of pc tokens] inv assms(2) by auto
  then obtain A where A: "trie_blocks (pc_root pc') = trie_blocks (pc_root pc) + A"
      "bm_wf (ext_plus ext (trie_blocks (pc_root pc'))) bm'"
      "ps_insertions (pc_stats pc') = ps_insertions (pc_stats pc) + size A"
      "ps_cached_blocks (pc_stats pc') = ps_cached_blocks (pc_stats pc) + size A"
    by (auto simp: insert_effect_def)
  have "cached (pc_root pc') path = Some b \<longleftrightarrow> cached (pc_root pc) path = Some b \<or>
       cached (pc_root pc) path = None \<and> (\<exists>k. k < length blocks \<and> block_size c * (k + 1) \<le> length tokens \<and>
              path = take (block_size c * (k + 1)) tokens \<and> b = blocks ! k)" if "path \<noteq> []" for path b
  proof -
    have "cached (pc_root pc') path = or_else (cached (pc_root pc) path) (assigned (block_size c) 0 tokens blocks path)"
      using eff that by (simp add: insert_effect_def)
    moreover have "assigned (block_size c) 0 tokens blocks path = Some b \<longleftrightarrow>
        (\<exists>k. k < length blocks \<and> block_size c * (k + 1) \<le> length tokens \<and>
              path = take (block_size c * (k + 1)) tokens \<and> b = blocks ! k)"
      using assigned_Some [OF assms(2)] assigned_take [OF assms(2)] by blast
    ultimately show ?thesis by (cases "cached (pc_root pc) path") auto
  qed
  with ins A show ?thesis unfolding num_cached_blocks_def num_cached_prefixes_def by blast
qed

theorem pc_insert_extends_and_counts_witness:
  "\<exists>pc' bm'. pc_insert [7] [0] (prefix_cache_new pc_demo, pc_demo_owned) = Some (pc', bm') \<and>
     cached (pc_root pc') [7] = Some 0 \<and> bm_wf (ext_plus no_ext (trie_blocks (pc_root pc'))) bm'"
proof -
  have "bm_wf (ext_plus no_ext (trie_blocks (pc_root (prefix_cache_new pc_demo)))) pc_demo_owned"
    using pc_demo_owned_ok(1) by (simp add: prefix_cache_new_def)
  moreover have "insertable (length [0 :: int]) pc_demo_owned [0]" using pc_demo_owned_ok(2) by simp
  moreover have "0 < block_size pc_demo" by (simp add: pc_demo_def)
  ultimately obtain pc' bm' where "pc_insert [7] [0] (prefix_cache_new pc_demo, pc_demo_owned) = Some (pc', bm')"
    "\<forall>path b. path \<noteq> [] \<longrightarrow> cached (pc_root pc') path = Some b \<longleftrightarrow>
       cached (pc_root (prefix_cache_new pc_demo)) path = Some b \<or>
       cached (pc_root (prefix_cache_new pc_demo)) path = None \<and>
         (\<exists>k. k < length [0 :: int] \<and> block_size pc_demo * (k + 1) \<le> length [7 :: int] \<and>
              path = take (block_size pc_demo * (k + 1)) [7] \<and> b = [0] ! k)"
    "bm_wf (ext_plus no_ext (trie_blocks (pc_root pc'))) bm'"
    using pc_insert_extends_and_counts [OF pc_reach.new, of pc_demo no_ext pc_demo_owned "[0]" "[7]"] by blast
  moreover from this(2) have "cached (pc_root pc') [7] = Some 0"
    by (simp add: prefix_cache_new_def pc_demo_def del: cached_Cons)
  ultimately show ?thesis by blast
qed

text \<open>
  C17. What was inserted is found again: a lookup of the tokens just inserted into a reachable cache
  matches at least all the full blocks that were given, and returns for each the block cached
  earlier, or else the one just given.
\<close>

theorem lookup_after_insert:
  assumes "pc_reach c pc" and "0 < block_size c" and "bm_wf ext bm" and "insertable (length blocks) bm blocks"
    and "pc_insert tokens blocks (pc, bm) = Some (pc', bm')"
  shows "\<exists>r pc''. pc_lookup tokens pc' = Some (r, pc'') \<and>
    min (length blocks) (length tokens div block_size c) \<le> length (lr_cached_blocks r) \<and>
    (\<forall>k < min (length blocks) (length tokens div block_size c).
       lr_cached_blocks r ! k =
         (case cached (pc_root pc) (take (block_size c * (k + 1)) tokens) of Some b \<Rightarrow> b | None \<Rightarrow> blocks ! k))"
proof -
  let ?bs = "block_size c" and ?n = "min (length blocks) (length tokens div block_size c)"
  note inv = pc_reach_inv [OF assms(1,2)]
  have inv': "pc_config pc' = c \<and> boundaries_filled ?bs 0 (pc_root pc')"
    by (rule pc_reach_inv [OF _ assms(2)]) (rule pc_reach.insert [OF assms(1,3,4,5)])
  have eff: "insert_effect ?bs 0 tokens blocks ext (pc_stats pc) (pc_root pc) (pc_stats pc') bm' (pc_root pc')"
    using pc_insert_result [OF _ _ assms(3,4), of pc tokens] inv assms(2,5) by auto
  obtain r pc'' where r: "pc_lookup tokens pc' = Some (r, pc'')" "longest ?bs (cached (pc_root pc')) tokens r"
    using pc_lookup_result [of pc' tokens] inv' assms(2) by auto
  have bnd: "?bs * (k + 1) \<le> length tokens" if "k < ?n" for k
  proof -
    have "?bs * (k + 1) \<le> ?bs * (length tokens div ?bs)" using that by (intro mult_le_mono2) simp
    also have "\<dots> \<le> length tokens" by simp
    finally show ?thesis .
  qed
  have val: "cached (pc_root pc') (take (?bs * (k + 1)) tokens) =
      Some (case cached (pc_root pc) (take (?bs * (k + 1)) tokens) of Some b \<Rightarrow> b | None \<Rightarrow> blocks ! k)"
    if "k < ?n" for k
  proof -
    have a: "assigned ?bs 0 tokens blocks (take (?bs * (k + 1)) tokens) = Some (blocks ! k)"
      using assigned_take [OF assms(2), of k] bnd [OF that] that by simp
    then have "take (?bs * (k + 1)) tokens \<noteq> []" by (auto simp: assigned_def Let_def split: if_splits)
    then show ?thesis using eff a by (auto simp: insert_effect_def split: option.split)
  qed
  have len: "?n \<le> length (lr_cached_blocks r)"
  proof (rule ccontr)
    assume "\<not> ?thesis"
    then have "length (lr_cached_blocks r) < ?n" by (rule not_le_imp_less)
    then show False using val bnd r(2) unfolding longest_def by (metis option.distinct(1))
  qed
  moreover have "lr_cached_blocks r ! k =
      (case cached (pc_root pc) (take (?bs * (k + 1)) tokens) of Some b \<Rightarrow> b | None \<Rightarrow> blocks ! k)" if "k < ?n" for k
    using val [OF that] r(2) len that unfolding longest_def by (metis (no_types, lifting) le_trans not_less option.inject)
  ultimately show ?thesis using r(1) by blast
qed

theorem lookup_after_insert_witness:
  "\<exists>r pc''. pc_lookup [7] (fst pc_demo_filled) = Some (r, pc'') \<and> 1 \<le> length (lr_cached_blocks r)"
proof -
  have "pc_insert [7] [0] (prefix_cache_new pc_demo, pc_demo_owned) = Some (fst pc_demo_filled, snd pc_demo_filled)"
    by (simp add: pc_demo_filled_def pc_demo_owned_def pc_demo_bm_def pc_demo_def cf_defs upt_rec)
  from lookup_after_insert [OF pc_reach.new _ pc_demo_owned_ok(1) _ this] pc_demo_owned_ok(2)
  show ?thesis by (auto simp: pc_demo_def)
qed





text \<open>
  A lookup takes no reference on the blocks it returns, neither in the trie nor in the block
  manager. When the request that inserted a prefix releases it, an eviction frees the block even
  though another request has just been given it by a lookup.
\<close>

lemma lookup_takes_no_reference:
  "\<exists>r pc1 bm1 pc2 pc3 bm3.
     pc_lookup [7] (fst pc_demo_filled) = Some (r, pc1) \<and> lr_cached_blocks r = [0] \<and>
     free_blocks 1 (snd pc_demo_filled) = Some bm1 \<and> pc_release [7] pc1 = Some pc2 \<and>
     evict_lru 1 (pc2, bm1) = Some (pc3, bm3) \<and> 0 \<in> set (gpu_free_list bm3)"
  by (simp add: pc_demo_filled_def pc_demo_owned_def pc_demo_bm_def pc_demo_def cf_defs upt_rec)

end
