(* ===== verification/Number_Text.thy ===== *)
theory Number_Text
  imports Trace
begin

text \<open>
  Formatted output of \<open>std::ostream\<close> as the reports use it: fixed and default notation with a
  precision, and a field width that applies to the next item only. The second half reads printed
  numbers back and bounds the error of the default notation.
\<close>

section \<open>Output streams\<close>

record ostream =
  os_text :: string
  os_fixed :: bool
  os_precision :: nat
  os_width :: nat

text \<open>A stream in its initial state: default notation, six digits, no width.\<close>

definition ostream_new :: ostream where
  "ostream_new = \<lparr>os_text = '''', os_fixed = False, os_precision = 6, os_width = 0\<rparr>"

text \<open>The decimal exponent of a positive number.\<close>

function exp_up :: "real \<Rightarrow> nat" where
  "exp_up x = (if x < 10 then 0 else Suc (exp_up (x / 10)))"
  by pat_completeness auto
termination
proof (relation "measure (\<lambda>x. nat \<lfloor>x\<rfloor>)")
  fix x :: real
  assume "\<not> x < 10"
  then have "\<lfloor>x / 10\<rfloor> < \<lfloor>x\<rfloor>" by linarith
  moreover have "0 < \<lfloor>x\<rfloor>" using \<open>\<not> x < 10\<close> by linarith
  ultimately show "(x / 10, x) \<in> measure (\<lambda>x. nat \<lfloor>x\<rfloor>)" by simp
qed simp

function exp_down :: "real \<Rightarrow> nat" where
  "exp_down x = (if x \<le> 0 \<or> 1 \<le> x then 0 else Suc (exp_down (x * 10)))"
  by pat_completeness auto
termination
proof (relation "measure (\<lambda>x. nat \<lfloor>1 / x\<rfloor>)")
  fix x :: real
  assume x: "\<not> (x \<le> 0 \<or> 1 \<le> x)"
  define y where "y = 1 / x"
  have "1 < y" using x by (simp add: y_def)
  then have "0 < \<lfloor>y\<rfloor>" by linarith
  moreover have "real_of_int (10 * \<lfloor>y / 10\<rfloor>) < real_of_int (\<lfloor>y\<rfloor> + 1)" by linarith
  then have "10 * \<lfloor>y / 10\<rfloor> < \<lfloor>y\<rfloor> + 1" unfolding of_int_less_iff .
  ultimately have "\<lfloor>y / 10\<rfloor> < \<lfloor>y\<rfloor>" "0 < \<lfloor>y\<rfloor>" by linarith+
  then have "nat \<lfloor>y / 10\<rfloor> < nat \<lfloor>y\<rfloor>" by linarith
  moreover have "y / 10 = 1 / (x * 10)" by (simp add: y_def)
  ultimately show "(x * 10, x) \<in> measure (\<lambda>x. nat \<lfloor>1 / x\<rfloor>)" unfolding y_def in_measure by (simp only:)
qed simp

declare exp_up.simps [simp del] exp_down.simps [simp del]

definition dec_exp :: "real \<Rightarrow> int" where
  "dec_exp x = int (exp_up x) - int (exp_down x)"

definition scale10 :: "real \<Rightarrow> int \<Rightarrow> real" where
  "scale10 x k = (if 0 \<le> k then x * 10 ^ nat k else x / 10 ^ nat (- k))"

text \<open>The \<open>p\<close> leading digits of a positive number, rounded, and the exponent of the first of them.\<close>

definition leading :: "nat \<Rightarrow> real \<Rightarrow> nat \<times> int" where
  "leading p x =
     (let e = dec_exp x; m = round_half_even (scale10 x (int p - 1 - e))
      in if m = 10 ^ p then (10 ^ (p - 1), e + 1) else (m, e))"

text \<open>A point and the decimals, without trailing zeros and without a point that nothing follows.\<close>

definition strip_zeros :: "string \<Rightarrow> string" where
  "strip_zeros ds = rev (dropWhile (\<lambda>c. c = CHR ''0'') (rev ds))"

definition decimals :: "string \<Rightarrow> string" where
  "decimals ds = (if strip_zeros ds = '''' then '''' else ''.'' @ strip_zeros ds)"

definition exponent_str :: "int \<Rightarrow> string" where
  "exponent_str e =
     (let n = nat \<bar>e\<bar> in ''e'' @ (if e < 0 then ''-'' else ''+'') @ (if n < 10 then ''0'' else '''') @ nat_str n)"

text \<open>The default notation with \<open>p > 0\<close> significant digits, as \<open>%g\<close> of \<open>printf\<close>.\<close>

definition general_abs :: "nat \<Rightarrow> real \<Rightarrow> string" where
  "general_abs p x =
     (let (m, e) = leading p x
      in if - 4 \<le> e \<and> e < int p then
           let d = nat (int p - 1 - e) in nat_str (m div 10 ^ d) @ decimals (low_digits d m)
         else nat_str (m div 10 ^ (p - 1)) @ decimals (low_digits (p - 1) m) @ exponent_str e)"

definition general_str :: "nat \<Rightarrow> real \<Rightarrow> string" where
  "general_str p x =
     (if x = 0 then ''0'' else if x < 0 then ''-'' @ general_abs p (- x) else general_abs p x)"

text \<open>An item is padded on the left to the width, and the width is reset.\<close>

definition put :: "string \<Rightarrow> ostream \<Rightarrow> ostream" where
  "put t os = os\<lparr>os_text := os_text os @ replicate (os_width os - length t) CHR '' '' @ t, os_width := 0\<rparr>"

definition put_real :: "real \<Rightarrow> ostream \<Rightarrow> ostream" where
  "put_real x os =
     put (if os_fixed os then fixed_str (os_precision os) x else general_str (os_precision os) x) os"

definition put_nat :: "nat \<Rightarrow> ostream \<Rightarrow> ostream" where
  "put_nat n os = put (nat_str n) os"

definition setw :: "nat \<Rightarrow> ostream \<Rightarrow> ostream" where
  "setw n os = os\<lparr>os_width := n\<rparr>"

definition set_fixed :: "ostream \<Rightarrow> ostream" where
  "set_fixed os = os\<lparr>os_fixed := True\<rparr>"

definition setprecision :: "nat \<Rightarrow> ostream \<Rightarrow> ostream" where
  "setprecision n os = os\<lparr>os_precision := n\<rparr>"

text \<open>
  A quotient of floating point numbers that may have a zero divisor, and its output. The sign of a
  NaN is not specified, so its text is an argument.
\<close>

datatype float_value = Finite real | Infinite bool | Not_A_Number

definition float_quotient :: "real \<Rightarrow> real \<Rightarrow> float_value" where
  "float_quotient a b = (if b \<noteq> 0 then Finite (a / b) else if a = 0 then Not_A_Number else Infinite (a < 0))"

definition put_float :: "string \<Rightarrow> float_value \<Rightarrow> ostream \<Rightarrow> ostream" where
  "put_float nan v =
     (case v of
        Finite x \<Rightarrow> put_real x
      | Infinite neg \<Rightarrow> put (if neg then ''-inf'' else ''inf'')
      | Not_A_Number \<Rightarrow> put nan)"

text \<open>A chain of insertions.\<close>

definition writes :: "(ostream \<Rightarrow> ostream) list \<Rightarrow> ostream \<Rightarrow> ostream" where
  "writes fs os = fold (\<lambda>f. f) fs os"

section \<open>Reading numbers back\<close>

definition digit_char :: "char \<Rightarrow> bool" where
  "digit_char c \<longleftrightarrow> (48::nat) \<le> of_char c \<and> of_char c \<le> (57::nat)"

definition digits_val :: "string \<Rightarrow> nat" where
  "digits_val ds = foldl (\<lambda>v c. 10 * v + (of_char c - 48)) 0 ds"

fun read_exp :: "string \<Rightarrow> int" where
  "read_exp [] = 0"
| "read_exp (c # ds) = (if c = CHR ''-'' then - int (digits_val ds) else int (digits_val ds))"

definition read_abs :: "string \<Rightarrow> real" where
  "read_abs s =
     (let m = takeWhile (\<lambda>c. c \<noteq> CHR ''e'') s; x = drop (length m + 1) s;
          ip = takeWhile (\<lambda>c. c \<noteq> CHR ''.'') m; fp = drop (length ip + 1) m
      in scale10 (real (digits_val ip) + real (digits_val fp) / 10 ^ length fp) (read_exp x))"

fun read_real :: "string \<Rightarrow> real" where
  "read_real [] = 0"
| "read_real (c # s) = (if c = CHR ''-'' then - read_abs s else read_abs (c # s))"

lemma digit_char_of [simp]: "n < 10 \<Longrightarrow> digit_char (char_of (48 + n :: nat))"
  by (simp add: digit_char_def)

lemma foldl_horner:
  fixes f :: "'a \<Rightarrow> nat"
  shows "foldl (\<lambda>v c. 10 * v + f c) v b = v * 10 ^ length b + foldl (\<lambda>v c. 10 * v + f c) 0 b"
proof (induction b arbitrary: v)
  case (Cons c b)
  have "foldl (\<lambda>v c. 10 * v + f c) v (c # b) = (10 * v + f c) * 10 ^ length b + foldl (\<lambda>v c. 10 * v + f c) 0 b"
    using Cons.IH [of "10 * v + f c"] by simp
  moreover have "foldl (\<lambda>v c. 10 * v + f c) 0 (c # b) = f c * 10 ^ length b + foldl (\<lambda>v c. 10 * v + f c) 0 b"
    using Cons.IH [of "f c"] by simp
  ultimately show ?case by (simp add: algebra_simps)
qed simp

lemma digits_val_append: "digits_val (a @ b) = digits_val a * 10 ^ length b + digits_val b"
  unfolding digits_val_def foldl_append by (rule foldl_horner)

lemma digits_val_single [simp]: "n < 10 \<Longrightarrow> digits_val [char_of (48 + n :: nat)] = n"
  by (simp add: digits_val_def)

lemma nat_str_read: "digits_val (nat_str n) = n" "list_all digit_char (nat_str n)" "nat_str n \<noteq> []"
proof -
  have "digits_val (nat_str n) = n \<and> list_all digit_char (nat_str n) \<and> nat_str n \<noteq> []"
  proof (induction n rule: nat_str.induct)
    case (1 n)
    show ?case
    proof (cases "n < 10")
      case True
      then show ?thesis by (simp add: nat_str.simps [of n])
    next
      case False
      then show ?thesis using 1 by (simp add: nat_str.simps [of n] digits_val_append)
    qed
  qed
  then show "digits_val (nat_str n) = n" "list_all digit_char (nat_str n)" "nat_str n \<noteq> []" by simp_all
qed

lemma low_digits_read:
  "length (low_digits p n) = p" "digits_val (low_digits p n) = n mod 10 ^ p" "list_all digit_char (low_digits p n)"
proof -
  have "length (low_digits p n) = p \<and> digits_val (low_digits p n) = n mod 10 ^ p \<and> list_all digit_char (low_digits p n)"
  proof (induction p arbitrary: n)
    case 0
    then show ?case by (simp add: digits_val_def)
  next
    case (Suc p)
    have "n mod (10 * 10 ^ p) = 10 * (n div 10 mod 10 ^ p) + n mod 10" by (rule mod_mult2_eq)
    then show ?case using Suc [of "n div 10"] by (simp add: digits_val_append)
  qed
  then show "length (low_digits p n) = p" "digits_val (low_digits p n) = n mod 10 ^ p"
    "list_all digit_char (low_digits p n)" by simp_all
qed

text \<open>Stripping zeros keeps the fraction.\<close>

lemma strip_zeros_decomp: "\<exists>k. ds = strip_zeros ds @ replicate k CHR ''0''"
proof -
  have "rev ds = takeWhile (\<lambda>c. c = CHR ''0'') (rev ds) @ dropWhile (\<lambda>c. c = CHR ''0'') (rev ds)" by simp
  moreover have "takeWhile (\<lambda>c. c = CHR ''0'') (rev ds) =
      replicate (length (takeWhile (\<lambda>c. c = CHR ''0'') (rev ds))) CHR ''0''"
    by (rule replicate_eqI [symmetric, THEN sym]) (auto dest: set_takeWhileD)
  ultimately have "ds = rev (dropWhile (\<lambda>c. c = CHR ''0'') (rev ds)) @
      rev (replicate (length (takeWhile (\<lambda>c. c = CHR ''0'') (rev ds))) CHR ''0'')"
    by (metis rev_append rev_rev_ident)
  then show ?thesis unfolding strip_zeros_def by auto
qed

lemma digits_zeros [simp]: "digits_val (replicate k CHR ''0'') = 0"
proof (induction k)
  case (Suc k)
  have "replicate (Suc k) CHR ''0'' = [CHR ''0''] @ replicate k CHR ''0''" by simp
  then show ?case using Suc unfolding digits_val_append by (simp add: digits_val_def)
qed (simp add: digits_val_def)

lemma strip_zeros_frac:
  "real (digits_val (strip_zeros ds)) / 10 ^ length (strip_zeros ds) = real (digits_val ds) / 10 ^ length ds"
  "list_all digit_char ds \<Longrightarrow> list_all digit_char (strip_zeros ds)"
proof -
  obtain k where k: "ds = strip_zeros ds @ replicate k CHR ''0''" using strip_zeros_decomp by blast
  have "digits_val ds = digits_val (strip_zeros ds) * 10 ^ k" "length ds = length (strip_zeros ds) + k"
    by (subst k, simp add: digits_val_append) (subst k, simp)
  then show "real (digits_val (strip_zeros ds)) / 10 ^ length (strip_zeros ds) = real (digits_val ds) / 10 ^ length ds"
    by (simp add: power_add)
  show "list_all digit_char ds \<Longrightarrow> list_all digit_char (strip_zeros ds)"
    by (metis k list_all_append)
qed

text \<open>What a printed number reads as.\<close>

lemma digit_neq: "digit_char c \<Longrightarrow> c \<noteq> CHR ''e'' \<and> c \<noteq> CHR ''.'' \<and> c \<noteq> CHR ''-'' \<and> c \<noteq> CHR '','' \<and> c \<noteq> CHR 0x0A"
  by (auto simp: digit_char_def)

lemma read_abs_parts:
  assumes "list_all digit_char ip" and "list_all digit_char fp" and "t = [] \<or> t = CHR ''e'' # ex" and "t = [] \<Longrightarrow> ex = []"
  shows "read_abs (ip @ (if fp = [] then [] else ''.'' @ fp) @ t) =
    scale10 (real (digits_val ip) + real (digits_val fp) / 10 ^ length fp) (read_exp ex)"
proof -
  let ?m = "ip @ (if fp = [] then [] else ''.'' @ fp)"
  have "\<forall>c \<in> set ?m. c \<noteq> CHR ''e''" using assms(1,2) digit_neq by (auto simp: list_all_iff)
  then have "takeWhile (\<lambda>c. c \<noteq> CHR ''e'') (?m @ t) = ?m @ takeWhile (\<lambda>c. c \<noteq> CHR ''e'') t"
    by (intro takeWhile_append2) blast
  moreover have "takeWhile (\<lambda>c. c \<noteq> CHR ''e'') t = []" using assms(3) by auto
  ultimately have m: "takeWhile (\<lambda>c. c \<noteq> CHR ''e'') (?m @ t) = ?m" by (simp only: append_Nil2)
  have x: "drop (length ?m + 1) (?m @ t) = ex" using assms(3,4) by auto
  have "\<forall>c \<in> set ip. c \<noteq> CHR ''.''" using assms(1) digit_neq by (auto simp: list_all_iff)
  then have "takeWhile (\<lambda>c. c \<noteq> CHR ''.'') ?m = ip @ takeWhile (\<lambda>c. c \<noteq> CHR ''.'') (if fp = [] then [] else ''.'' @ fp)"
    by (intro takeWhile_append2) blast
  then have ip: "takeWhile (\<lambda>c. c \<noteq> CHR ''.'') ?m = ip" by simp
  have fp: "drop (length ip + 1) ?m = fp" by simp
  show ?thesis unfolding read_abs_def append_assoc [symmetric] Let_def m x ip fp ..
qed

lemma decimals_alt: "decimals ds = (if strip_zeros ds = [] then [] else ''.'' @ strip_zeros ds)"
  by (simp add: decimals_def)

lemma read_exponent: "exponent_str e = CHR ''e'' # tl (exponent_str e)" "read_exp (tl (exponent_str e)) = e"
proof -
  have z: "digits_val (CHR ''0'' # ds) = digits_val ds" for ds by (simp add: digits_val_def)
  show "exponent_str e = CHR ''e'' # tl (exponent_str e)" by (simp add: exponent_str_def Let_def)
  show "read_exp (tl (exponent_str e)) = e"
    by (cases "e < 0") (simp_all add: exponent_str_def Let_def nat_str_read(1) z)
qed

lemma powi_neg: "k \<le> 0 \<Longrightarrow> 10 powi k = (1 / 10 ^ nat (- k) :: real)"
  by (cases "k = 0") (simp_all add: power_int_def power_one_over)

lemma scale10_powi: "scale10 x k = x * 10 powi k"
proof (cases "0 \<le> k")
  case True
  then show ?thesis by (simp add: scale10_def power_int_def)
next
  case False
  then show ?thesis using powi_neg [of k] by (simp add: scale10_def)
qed

lemma read_general_abs:
  assumes "0 < p" and "leading p x = (m, e)"
  shows "read_abs (general_abs p x) = real m * 10 powi (e - (int p - 1))"
proof -
  have split: "real (m div 10 ^ d) + real (digits_val (strip_zeros (low_digits d m))) / 10 ^ length (strip_zeros (low_digits d m))
      = real m / 10 ^ d" for d
  proof -
    have "real m = real (m div 10 ^ d * 10 ^ d + m mod 10 ^ d)" by (simp only: div_mult_mod_eq)
    also have "\<dots> = real (m div 10 ^ d) * 10 ^ d + real (m mod 10 ^ d)" unfolding of_nat_add of_nat_mult of_nat_power of_nat_numeral ..
    finally show ?thesis unfolding strip_zeros_frac(1) low_digits_read(1,2) by (simp add: field_simps)
  qed
  have dg: "list_all digit_char (strip_zeros (low_digits d m))" for d
    using strip_zeros_frac(2) low_digits_read(3) by blast
  show ?thesis
  proof (cases "- 4 \<le> e \<and> e < int p")
    case True
    define d where "d = nat (int p - 1 - e)"
    have "general_abs p x = nat_str (m div 10 ^ d) @ decimals (low_digits d m) @ []"
      using True assms(2) by (simp add: general_abs_def d_def Let_def)
    then have "read_abs (general_abs p x) = scale10 (real m / 10 ^ d) 0"
      using read_abs_parts [OF nat_str_read(2) dg, of "[]" "[]" "m div 10 ^ d" d]
      unfolding decimals_alt nat_str_read(1) split by simp
    moreover have "10 powi (e - (int p - 1)) = (1 / 10 ^ d :: real)"
      using True powi_neg [of "e - (int p - 1)"] by (simp add: d_def)
    ultimately show ?thesis by (simp add: scale10_def)
  next
    case False
    let ?d = "p - 1"
    have "general_abs p x = nat_str (m div 10 ^ ?d) @ decimals (low_digits ?d m) @ exponent_str e"
      using False assms(2) by (auto simp: general_abs_def Let_def)
    then have "read_abs (general_abs p x) = scale10 (real m / 10 ^ ?d) e"
      using read_abs_parts [OF nat_str_read(2) dg, of "exponent_str e" "tl (exponent_str e)" "m div 10 ^ ?d" ?d]
        read_exponent [of e] unfolding decimals_alt nat_str_read(1) split by simp
    also have "\<dots> = real m * (10 powi e / 10 powi int ?d)" by (simp add: scale10_powi power_int_of_nat)
    also have "10 powi e / 10 powi int ?d = (10 powi (e - (int p - 1)) :: real)"
      using assms(1) by (simp add: power_int_diff of_nat_diff)
    finally show ?thesis .
  qed
qed

section \<open>Accuracy of the default notation\<close>

lemma round_half_even_near:
  assumes "0 \<le> y"
  shows "\<bar>real (round_half_even y) - y\<bar> \<le> 1 / 2"
proof -
  define n where "n = nat \<lfloor>y\<rfloor>"
  have "real n \<le> y" "y < real n + 1" using assms unfolding n_def by linarith+
  moreover have "round_half_even y = n \<and> y - real n \<le> 1 / 2 \<or> round_half_even y = n + 1 \<and> 1 / 2 \<le> y - real n"
    unfolding round_half_even_def Let_def n_def [symmetric] by auto
  ultimately show ?thesis by auto
qed

lemma round_half_even_bounds:
  assumes "real a \<le> y" and "y \<le> real b"
  shows "a \<le> round_half_even y" "round_half_even y \<le> b"
proof -
  have "0 \<le> y" using assms(1) by linarith
  from round_half_even_near [OF this] assms show "a \<le> round_half_even y" "round_half_even y \<le> b" by linarith+
qed

lemma exp_up_bounds: "1 \<le> x \<Longrightarrow> 10 ^ exp_up x \<le> x \<and> x < 10 ^ Suc (exp_up x)"
proof (induction x rule: exp_up.induct)
  case (1 x)
  show ?case
  proof (cases "x < 10")
    case True
    then show ?thesis using 1(2) by (simp add: exp_up.simps [of x])
  next
    case False
    then show ?thesis using 1(1) by (simp add: exp_up.simps [of x])
  qed
qed

lemma exp_down_bounds: "0 < x \<Longrightarrow> x < 1 \<Longrightarrow> 1 \<le> x * 10 ^ exp_down x \<and> x * 10 ^ exp_down x < 10"
proof (induction x rule: exp_down.induct)
  case (1 x)
  show ?case
  proof (cases "x * 10 < 1")
    case True
    then show ?thesis using 1 by (simp add: exp_down.simps [of x] algebra_simps)
  next
    case False
    then have "exp_down (x * 10) = 0" by (simp add: exp_down.simps [of "x * 10"])
    then show ?thesis using 1(2,3) False by (simp add: exp_down.simps [of x])
  qed
qed

lemma dec_exp_bounds:
  assumes "0 < x"
  shows "10 powi dec_exp x \<le> x" "x < 10 * 10 powi dec_exp x"
proof -
  have "10 powi dec_exp x \<le> x \<and> x < 10 * 10 powi dec_exp x"
  proof (cases "1 \<le> x")
    case True
    then have "dec_exp x = int (exp_up x)" by (simp add: dec_exp_def exp_down.simps [of x])
    then show ?thesis using exp_up_bounds [OF True] by (simp add: power_int_of_nat)
  next
    case False
    then have e: "dec_exp x = - int (exp_down x)" by (simp add: dec_exp_def exp_up.simps [of x])
    have "10 powi dec_exp x = (1 / 10 ^ exp_down x :: real)" using powi_neg [of "dec_exp x"] by (simp add: e)
    then show ?thesis using exp_down_bounds [OF assms] False by (simp add: divide_le_eq less_divide_eq)
  qed
  then show "10 powi dec_exp x \<le> x" "x < 10 * 10 powi dec_exp x" by simp_all
qed

lemma leading_accurate:
  assumes p: "0 < p" and x: "0 < x" and l: "leading p x = (m, e)"
  shows "\<bar>real m * 10 powi (e - (int p - 1)) - x\<bar> \<le> x * (5 / 10 ^ p)"
proof -
  define k where "k = int p - 1 - dec_exp x"
  define y where "y = x * 10 powi k"
  define m0 where "m0 = round_half_even y"
  have pos: "0 < (10 powi j :: real)" for j :: int by simp
  have inv: "10 powi (- k) * 10 powi k = (1 :: real)" by (simp add: power_int_minus)
  have near: "\<bar>real m0 - y\<bar> \<le> 1 / 2"
    unfolding m0_def using x pos [of k] by (intro round_half_even_near) (simp add: y_def)
  have w: "10 powi (- k) = (10 powi dec_exp x * (10 / 10 ^ p) :: real)"
  proof -
    have "- k = dec_exp x + (1 - int p)" by (simp add: k_def)
    then have "10 powi (- k) = (10 powi dec_exp x * 10 powi (1 - int p) :: real)"
      using power_int_add [of "10 :: real" "dec_exp x" "1 - int p"] by simp
    moreover have "10 powi (1 - int p) = (10 / 10 ^ p :: real)" by (simp add: power_int_diff power_int_of_nat)
    ultimately show ?thesis by (simp only:)
  qed
  have "x = y * 10 powi (- k)" using inv by (simp add: y_def algebra_simps)
  then have "\<bar>real m0 * 10 powi (- k) - x\<bar> = \<bar>real m0 - y\<bar> * 10 powi (- k)"
    using pos [of "- k"] by (simp add: abs_mult flip: left_diff_distrib)
  also have "\<dots> \<le> 1 / 2 * 10 powi (- k)" using near pos [of "- k"] by (intro mult_right_mono) simp_all
  also have "\<dots> \<le> 1 / 2 * (x * (10 / 10 ^ p :: real))"
    unfolding w using dec_exp_bounds(1) [OF x] by (intro mult_left_mono mult_right_mono) simp_all
  finally have err: "\<bar>real m0 * 10 powi (- k) - x\<bar> \<le> x * (5 / 10 ^ p)" by (simp add: mult.commute)
  have m0: "round_half_even (scale10 x (int p - 1 - dec_exp x)) = m0"
    by (simp add: scale10_powi m0_def y_def k_def)
  have "real m * 10 powi (e - (int p - 1)) = real m0 * 10 powi (- k)"
  proof (cases "m0 = 10 ^ p")
    case True
    then have me: "m = 10 ^ (p - 1)" "e = dec_exp x + 1" using l m0 by (simp_all add: leading_def Let_def)
    have "10 powi (e - (int p - 1)) = (10 * 10 powi (- k) :: real)"
      unfolding me k_def by (simp add: power_int_add power_int_diff algebra_simps)
    moreover have "(10 :: real) ^ p = 10 * 10 ^ (p - 1)" using p by (cases p) simp_all
    ultimately show ?thesis using True me by simp
  next
    case False
    then show ?thesis using l m0 by (simp add: leading_def Let_def k_def)
  qed
  with err show ?thesis by simp
qed

text \<open>A printed number reads back with a relative error of half a unit in the last of \<open>p\<close> digits.\<close>

lemma general_abs_digit: "\<exists>c s. general_abs p x = c # s \<and> digit_char c"
proof -
  obtain m e where l: "leading p x = (m, e)" by fastforce
  have ex: "\<exists>c s. nat_str n @ t = c # s \<and> digit_char c" for n t
    using nat_str_read(2,3) [of n] by (cases "nat_str n") auto
  have "\<exists>n t. general_abs p x = nat_str n @ t" by (auto simp: general_abs_def l Let_def)
  then show ?thesis using ex by metis
qed

lemma read_general:
  assumes "0 < p"
  shows "\<bar>read_real (general_str p x) - x\<bar> \<le> \<bar>x\<bar> * (5 / 10 ^ p)"
proof -
  have near: "\<bar>read_abs (general_abs p y) - y\<bar> \<le> y * (5 / 10 ^ p)" if y: "0 < y" for y
  proof -
    obtain m e where l: "leading p y = (m, e)" by fastforce
    show ?thesis using leading_accurate [OF assms y l] read_general_abs [OF assms l] by simp
  qed
  have abs: "read_real (general_abs p y) = read_abs (general_abs p y)" for y
    using general_abs_digit [of p y] digit_neq by force
  consider "x = 0" | "x < 0" | "0 < x" by linarith
  then show ?thesis
  proof cases
    case 1
    then show ?thesis by (simp add: general_str_def read_abs_def digits_val_def scale10_def)
  next
    case 2
    then show ?thesis using near [of "- x"] by (simp add: general_str_def)
  next
    case 3
    then show ?thesis using near [of x] by (simp add: general_str_def abs)
  qed
qed

text \<open>Numbers contain neither separators nor line ends.\<close>

definition plain :: "string \<Rightarrow> bool" where
  "plain s \<longleftrightarrow> CHR '','' \<notin> set s \<and> CHR 0x0A \<notin> set s"

lemma plain_digits: "list_all digit_char s \<Longrightarrow> plain s"
  using digit_neq by (auto simp: plain_def list_all_iff)

lemma plain_simps [simp]: "plain []" "plain (c # s) \<longleftrightarrow> c \<noteq> CHR '','' \<and> c \<noteq> CHR 0x0A \<and> plain s"
  by (auto simp: plain_def)

lemma plain_append [simp]: "plain (a @ b) \<longleftrightarrow> plain a \<and> plain b"
  by (auto simp: plain_def)

lemma plain_nat_str [simp]: "plain (nat_str n)"
  by (rule plain_digits [OF nat_str_read(2)])

lemma plain_decimals [simp]: "plain (decimals (low_digits d m))"
  using plain_digits [OF strip_zeros_frac(2) [OF low_digits_read(3)]] by (simp add: decimals_def)

lemma plain_general [simp]: "plain (general_str p x)"
proof -
  have "plain (exponent_str e)" for e by (simp add: exponent_str_def Let_def)
  then have "plain (general_abs p y)" for y by (simp add: general_abs_def Let_def split: prod.split)
  then show ?thesis by (simp add: general_str_def)
qed

end
