(* ===== verification/Kv_Cache_Bench.thy ===== *)
theory Kv_Cache_Bench
  imports Prefix_Props Block_Protocol Bench_Rounds Number_Text
begin

text \<open>
  The KV-cache benchmark, \<open>src/benchmarks/bench_kv_cache.cpp\<close>: one part allocates blocks and frees every
  other one, the other part fills the prefix cache with a shared prefix and looks prompts up. The
  theory shows which fragmentation and which hit rate they report.
\<close>

section \<open>Model\<close>

record kv_cache_result =
  kr_block_size :: nat
  kr_alloc_throughput_ops :: float_value
  kr_free_throughput_ops :: float_value
  kr_internal_fragmentation :: real
  kr_external_fragmentation :: real
  kr_prefix_hit_rate :: real
  kr_avg_alloc_ns :: float_value
  kr_avg_free_ns :: float_value

text \<open>The allocation loop from sequence \<open>i\<close> on, with \<open>n\<close> operations left.\<close>

fun bench_allocate :: "nat \<Rightarrow> nat \<Rightarrow> block_manager \<Rightarrow> ((seq_id \<times> block_id) list \<times> block_manager) option" where
  "bench_allocate i 0 bm = Some ([], bm)"
| "bench_allocate i (Suc n) bm =
     do {
       (bid, bm1) \<leftarrow> allocate_block (word_of_nat i) CUDA bm;
       (allocated, bm2) \<leftarrow> bench_allocate (Suc i) n bm1;
       Some (if bid \<noteq> INVALID_BLOCK then (word_of_nat i, bid) # allocated else allocated, bm2)
     }"

text \<open>The elements with an even index, which the second loop frees.\<close>

fun every_other :: "'a list \<Rightarrow> 'a list" where
  "every_other [] = []"
| "every_other [x] = [x]"
| "every_other (x # y # xs) = x # every_other xs"

definition run_allocation_bench ::
    "(nat \<Rightarrow> time_point) \<Rightarrow> bench_config \<Rightarrow> nat \<Rightarrow> (kv_cache_result \<times> block_manager) option" where
  "run_allocation_bench t cfg bs =
     (let cache = (bc_cache cfg)\<lparr>block_size := bs\<rparr>;
          num_ops = min (num_gpu_blocks cache div 2) 10000 in
      do {
        (allocated, bm1) \<leftarrow> bench_allocate 0 num_ops (block_manager_new cache (bc_model cfg));
        let alloc_ms = ms_between (t 0) (t 1);
        let frag = compute_fragmentation bm1 CUDA;
        bm2 \<leftarrow> foldM (\<lambda>(_, bid). free_block bid CUDA) (every_other allocated) bm1;
        let free_ms = ms_between (t 2) (t 3);
        let freed = (length allocated + 1) div 2;
        let frag2 = compute_fragmentation bm2 CUDA;
        Some (\<lparr>kr_block_size = bs,
               kr_alloc_throughput_ops = float_quotient (real (length allocated)) (alloc_ms / 1000),
               kr_free_throughput_ops = float_quotient (real freed) (free_ms / 1000),
               kr_internal_fragmentation = fs_internal_fragmentation frag,
               kr_external_fragmentation = fs_external_fragmentation frag2,
               kr_prefix_hit_rate = 0,
               kr_avg_alloc_ns = float_quotient (alloc_ms * 10 ^ 6) (real (length allocated)),
               kr_avg_free_ns = float_quotient (free_ms * 10 ^ 6) (real freed)\<rparr>, bm2)
      })"

text \<open>The lookups: each draws the rest of its prompt.\<close>

fun bench_lookups ::
    "('r \<Rightarrow> token_id \<times> 'r) \<Rightarrow> token_id list \<Rightarrow> nat \<Rightarrow> nat \<Rightarrow> prefix_cache \<Rightarrow> 'r \<Rightarrow> prefix_cache option" where
  "bench_lookups token_dist shared rest 0 pc rng = Some pc"
| "bench_lookups token_dist shared rest (Suc n) pc rng =
     (let (ts, rng1) = draw_tokens token_dist rest rng in
      do {
        (_, pc1) \<leftarrow> pc_lookup (shared @ ts) pc;
        bench_lookups token_dist shared rest n pc1 rng1
      })"

definition run_prefix_cache_bench ::
    "('r \<Rightarrow> token_id \<times> 'r) \<Rightarrow> 'r \<Rightarrow> bench_config \<Rightarrow> real \<Rightarrow> (kv_cache_result \<times> prefix_cache) option" where
  "run_prefix_cache_bench token_dist rng cfg shared_ratio =
     (let cache = (bc_cache cfg)\<lparr>enable_prefix_cache := True\<rparr>;
          x = real (bc_prompt_len cfg) * shared_ratio;
          prefix_len = nat \<lfloor>x\<rfloor>;
          num_blocks = prefix_len div block_size cache;
          (shared_prefix, rng1) = draw_tokens token_dist prefix_len rng in
      if x \<le> - 1 \<or> real size_max \<le> x \<or> block_size cache = 0 then None
      else do {
        (prefix_blocks, bm1) \<leftarrow> alloc_n (allocate_block 0 CUDA) num_blocks (block_manager_new cache (bc_model cfg));
        (pc, _) \<leftarrow> pc_insert shared_prefix prefix_blocks (prefix_cache_new cache, bm1);
        pc1 \<leftarrow> bench_lookups token_dist shared_prefix (bc_prompt_len cfg - prefix_len) (bc_num_requests cfg) pc rng1;
        Some (\<lparr>kr_block_size = block_size cache, kr_alloc_throughput_ops = Finite 0, kr_free_throughput_ops = Finite 0,
               kr_internal_fragmentation = 0, kr_external_fragmentation = 0, kr_prefix_hit_rate = hit_rate pc1,
               kr_avg_alloc_ns = Finite 0, kr_avg_free_ns = Finite 0\<rparr>, pc1)
      })"

section \<open>The hit rate\<close>

text \<open>A cache in which every lookup of the benchmark hits (\<open>hit\<close>), or every lookup misses.\<close>

definition bench_cache :: "nat \<Rightarrow> bool \<Rightarrow> token_id list \<Rightarrow> prefix_cache \<Rightarrow> bool" where
  "bench_cache bs hit shared pc \<longleftrightarrow>
     block_size (pc_config pc) = bs \<and> boundaries_filled bs 0 (pc_root pc) \<and>
     (if hit then bs \<le> length shared \<and> cached (pc_root pc) (take bs shared) \<noteq> None
      else \<forall>path. path \<noteq> [] \<longrightarrow> cached (pc_root pc) path = None)"

lemma bench_lookup:
  assumes bs: "0 < bs" and c: "bench_cache bs hit shared pc"
  shows "\<exists>r pc'. pc_lookup (shared @ ts) pc = Some (r, pc') \<and> bench_cache bs hit shared pc' \<and>
    ps_lookups (pc_stats pc') = ps_lookups (pc_stats pc) + 1 \<and>
    ps_hits (pc_stats pc') = ps_hits (pc_stats pc) + of_bool hit"
proof -
  note c' = c [unfolded bench_cache_def]
  obtain r pc' where r: "pc_lookup (shared @ ts) pc = Some (r, pc')" "longest bs (cached (pc_root pc)) (shared @ ts) r"
      "boundaries_filled bs 0 (pc_root pc')" "pc_config pc' = pc_config pc" "cached (pc_root pc') = cached (pc_root pc)"
    using pc_lookup_result [of pc "shared @ ts"] c' bs by auto
  have "lr_cached_blocks r \<noteq> [] \<longleftrightarrow> hit"
  proof (cases hit)
    case True
    then have "bs \<le> length shared" "cached (pc_root pc) (take bs shared) \<noteq> None" using c' by auto
    then have "cached (pc_root pc) (take (bs * (0 + 1)) (shared @ ts)) \<noteq> None" "bs * (0 + 1) \<le> length (shared @ ts)" by simp_all
    then show ?thesis using r(2) True unfolding longest_def by (metis list.size(3))
  next
    case False
    have "take (bs * (0 + 1)) (shared @ ts) \<noteq> []" if "lr_cached_blocks r \<noteq> []"
    proof -
      have "bs * length (lr_cached_blocks r) \<le> length (shared @ ts)" using r(2) by (simp add: longest_def)
      moreover have "0 < bs * length (lr_cached_blocks r)" using that bs by simp
      ultimately show ?thesis using bs by (metis gr_zeroI length_0_conv list.size(3) mult.right_neutral not_gr_zero add_0
          not_le take_eq_Nil)
    qed
    then show ?thesis using r(2) False c' unfolding longest_def by (metis length_greater_0_conv option.distinct(1))
  qed
  then show ?thesis
    using r c' by (intro exI [of _ r] exI [of _ pc']) (auto simp: bench_cache_def pc_lookup_def bind_eq_Some_conv Let_def)
qed

text \<open>An insertion counts no lookup.\<close>

lemma insert_walk_lookups:
  "insert_walk bs xs blocks i (clk, stats, bm) t = Some ((clk', stats', bm'), t') \<Longrightarrow>
    ps_lookups stats' = ps_lookups stats \<and> ps_hits stats' = ps_hits stats"
proof (induction xs arbitrary: blocks i clk stats bm t clk' stats' bm' t')
  case (Cons x xs)
  show ?case
  proof (cases blocks)
    case Nil
    then show ?thesis using Cons.prems by simp
  next
    case b: (Cons b bl)
    then have "0 < bs" using Cons.prems by (cases bs) (simp_all add: Let_def)
    then obtain bl' clk1 stats1 bm1 t1 t2 where w: "insert_walk bs xs bl' (i + 1) (clk1, stats1, bm1) t1 = Some ((clk', stats', bm'), t2)"
        "ps_lookups stats1 = ps_lookups stats" "ps_hits stats1 = ps_hits stats"
      using Cons.prems b by (auto simp: Let_def bind_eq_Some_conv split: if_splits)
    then show ?thesis using Cons.IH [OF w(1)] by simp
  qed
qed simp

lemma insert_keeps_lookups:
  assumes "pc_insert tokens blocks (pc, bm) = Some (pc', bm')"
  shows "ps_lookups (pc_stats pc') = ps_lookups (pc_stats pc)" "ps_hits (pc_stats pc') = ps_hits (pc_stats pc)"
  using assms by (auto simp: pc_insert_def bind_eq_Some_conv dest!: insert_walk_lookups)

lemma bench_lookups_count:
  assumes bs: "0 < bs"
  shows "bench_cache bs hit shared pc \<Longrightarrow>
    \<exists>pc'. bench_lookups token_dist shared rest n pc rng = Some pc' \<and>
      ps_lookups (pc_stats pc') = ps_lookups (pc_stats pc) + n \<and>
      ps_hits (pc_stats pc') = ps_hits (pc_stats pc) + (if hit then n else 0)"
proof (induction n arbitrary: pc rng)
  case (Suc n)
  obtain ts rng1 where d: "draw_tokens token_dist rest rng = (ts, rng1)" by fastforce
  obtain r pc1 where l: "pc_lookup (shared @ ts) pc = Some (r, pc1)" "bench_cache bs hit shared pc1"
      "ps_lookups (pc_stats pc1) = ps_lookups (pc_stats pc) + 1"
      "ps_hits (pc_stats pc1) = ps_hits (pc_stats pc) + of_bool hit"
    using bench_lookup [OF bs Suc.prems] by blast
  show ?case using Suc.IH [OF l(2), of rng1] d l by auto
qed simp

lemma new_manager:
  assumes "num_gpu_blocks c \<le> 2 ^ 31" and "num_cpu_blocks c \<le> 2 ^ 31" and "0 < block_size c"
  shows "gpu_inv no_ext (block_manager_new c m)" "num_free_gpu_blocks (block_manager_new c m) = num_gpu_blocks c"
    "gpu_held (block_manager_new c m) s = []" "num_total_gpu_blocks (block_manager_new c m) = num_gpu_blocks c"
  using base_inv_new [OF assms, of _ m]
  by (simp_all add: base_inv_def blocks_inv_def scheduler_new_def num_free_gpu_blocks_def block_manager_new_def init_free_list_def
      gpu_held_def seq_blocks_def num_total_gpu_blocks_def init_block_list_def)

text \<open>Freshly allocated blocks can be inserted into a prefix cache.\<close>

lemma held_insertable:
  assumes inv: "gpu_inv no_ext bm" and room: "n < 2 ^ 31 - 1" and sub: "set bids \<subseteq> set (gpu_held bm s)"
  shows "insertable n bm bids"
proof -
  have wf: "bm_wf no_ext bm" using inv by (simp add: gpu_inv_def)
  have "ref_of bm CUDA b + int n < 2 ^ 31" if "in_range bm CUDA b" for b
  proof -
    have "ref_of bm CUDA b \<le> 1" using wf that by (auto simp: bm_wf_def bm_counted_def)
    then show ?thesis using room by simp
  qed
  moreover have "in_range bm CUDA b \<and> 1 \<le> ref_of bm CUDA b" if "b \<in> set bids" for b
    using held_block [OF inv, of b s] sub that by (auto simp: in_range_def blocks_for_def num_total_gpu_blocks_def)
  ultimately show ?thesis by (simp add: insertable_def)
qed

text \<open>
  C18. The prefix benchmark measures what it means to: when the cache has the blocks of the shared prefix, the
  reported hit rate is one if the shared prefix fills at least one block, and zero otherwise,
  whatever tokens the generator draws. Allocation, insertion and all lookups return.
\<close>

theorem prefix_bench_hit_rate:
  assumes bs: "0 < block_size (bc_cache cfg)" and ratio: "0 \<le> ratio" "ratio \<le> 1" and N: "0 < bc_num_requests cfg"
    and P: "bc_prompt_len cfg < 2 ^ 64"
    and room: "nat \<lfloor>real (bc_prompt_len cfg) * ratio\<rfloor> div block_size (bc_cache cfg) \<le> num_gpu_blocks (bc_cache cfg)"
    and size: "num_gpu_blocks (bc_cache cfg) < 2 ^ 31 - 1" "num_cpu_blocks (bc_cache cfg) \<le> 2 ^ 31"
  shows "\<exists>r pc. run_prefix_cache_bench token_dist rng cfg ratio = Some (r, pc) \<and>
    ps_lookups (pc_stats pc) = bc_num_requests cfg \<and>
    kr_prefix_hit_rate r = (if block_size (bc_cache cfg) \<le> nat \<lfloor>real (bc_prompt_len cfg) * ratio\<rfloor> then 1 else 0)"
proof -
  define c where "c = (bc_cache cfg)\<lparr>enable_prefix_cache := True\<rparr>"
  have c: "block_size (bc_cache cfg) = block_size c" "num_gpu_blocks (bc_cache cfg) = num_gpu_blocks c"
    "num_cpu_blocks (bc_cache cfg) = num_cpu_blocks c" by (simp_all add: c_def)
  let ?x = "real (bc_prompt_len cfg) * ratio" and ?bs = "block_size c" and ?bm = "block_manager_new c (bc_model cfg)"
  define len where "len = nat \<lfloor>?x\<rfloor>"
  define n where "n = len div ?bs"
  define hit where "hit \<longleftrightarrow> ?bs \<le> len"
  obtain shared rng1 where d: "draw_tokens token_dist len rng = (shared, rng1)" by fastforce
  have sl: "length shared = len" using draw_tokens_length [of token_dist len rng] d by simp
  have x: "0 \<le> ?x" "?x \<le> real (bc_prompt_len cfg)" "real (bc_prompt_len cfg) < real size_max"
    using ratio P by (simp_all add: mult_left_le size_max_def)
  have sz: "num_gpu_blocks c \<le> 2 ^ 31" "num_cpu_blocks c \<le> 2 ^ 31" "0 < ?bs" using size bs c by simp_all
  note new = new_manager [OF sz, where m = "bc_model cfg"]
  have "n \<le> num_free_gpu_blocks ?bm" using room new(2) by (simp add: n_def len_def c)
  then obtain bids bm1 where al: "alloc_n (allocate_block 0 CUDA) n ?bm = Some (bids, bm1)" "gpu_inv no_ext bm1"
      "length bids = n" "gpu_held bm1 0 = bids"
    using ka.alloc_n_some [OF new(1), of n 0] new(3) by auto
  have "n < 2 ^ 31 - 1" using room size by (simp add: n_def len_def c)
  then have ins: "insertable (length bids) bm1 bids" using held_insertable [OF al(2), of n bids 0] al(3,4) by simp
  have wf: "bm_wf no_ext bm1" using al(2) by (simp add: gpu_inv_def)
  obtain pc bm2 where pc: "pc_insert shared bids (prefix_cache_new c, bm1) = Some (pc, bm2)" "pc_config pc = c"
      "insert_effect ?bs 0 shared bids no_ext zero_prefix_stats new_trie_node (pc_stats pc) bm2 (pc_root pc)"
    using pc_insert_result [of "prefix_cache_new c" no_ext bm1 bids shared] wf ins sz(3) by (auto simp: prefix_cache_new_def)
  have stats: "ps_lookups (pc_stats pc) = 0" "ps_hits (pc_stats pc) = 0"
    using insert_keeps_lookups [OF pc(1)] by (simp_all add: prefix_cache_new_def zero_prefix_stats_def)
  have cached: "cached (pc_root pc) path = assigned ?bs 0 shared bids path" if "path \<noteq> []" for path
    using pc(3) that by (simp add: insert_effect_def)
  have "bench_cache ?bs hit shared pc"
  proof (cases hit)
    case True
    then have "0 < length bids" using al(3) sz(3) by (simp add: hit_def n_def div_greater_zero_iff)
    then have "assigned ?bs 0 shared bids (take (?bs * (0 + 1)) shared) = Some (bids ! 0)"
      using assigned_take [OF sz(3), of 0 bids shared] True sl by (simp add: hit_def)
    moreover have "take ?bs shared \<noteq> []" using True sl sz(3) by (auto simp: hit_def)
    ultimately show ?thesis
      using True cached [of "take ?bs shared"] sl pc(2,3) by (simp add: bench_cache_def hit_def insert_effect_def)
  next
    case False
    then have "bids = []" using al(3) by (simp add: hit_def n_def)
    then show ?thesis using False cached pc(2,3) by (simp add: bench_cache_def insert_effect_def)
  qed
  from bench_lookups_count [OF sz(3) this, of token_dist "bc_prompt_len cfg - len" "bc_num_requests cfg" rng1]
  obtain pc1 where pc1: "bench_lookups token_dist shared (bc_prompt_len cfg - len) (bc_num_requests cfg) pc rng1 = Some pc1"
      "ps_lookups (pc_stats pc1) = bc_num_requests cfg" "ps_hits (pc_stats pc1) = (if hit then bc_num_requests cfg else 0)"
    using stats by auto
  then have "hit_rate pc1 = (if hit then 1 else 0)" using N by (simp add: hit_rate_def)
  moreover have "\<not> (?x \<le> - 1 \<or> real size_max \<le> ?x \<or> ?bs = 0)" using x sz(3) by linarith
  ultimately show ?thesis
    using d al(1) pc(1) pc1(1,2)
    by (simp add: run_prefix_cache_bench_def c_def [symmetric] len_def [symmetric] n_def [symmetric] hit_def c Let_def)
qed

theorem prefix_bench_hit_rate_witness:
  "\<exists>r pc. run_prefix_cache_bench (\<lambda>r. (7, r)) () tiny_bench 1 = Some (r, pc) \<and> kr_prefix_hit_rate r = 1"
proof -
  have "\<exists>r pc. run_prefix_cache_bench (\<lambda>r. (7, r)) () tiny_bench 1 = Some (r, pc) \<and>
    ps_lookups (pc_stats pc) = bc_num_requests tiny_bench \<and>
    kr_prefix_hit_rate r = (if block_size (bc_cache tiny_bench) \<le> nat \<lfloor>real (bc_prompt_len tiny_bench) * 1\<rfloor> then 1 else 0)"
    by (rule prefix_bench_hit_rate) (simp_all add: tiny_bench_def default_bench_config_def demo_cache_def)
  then show ?thesis by (auto simp: tiny_bench_def default_bench_config_def demo_cache_def)
qed

section \<open>The fragmentation\<close>

lemma init_free_list_rev: "n \<le> 2 ^ 31 \<Longrightarrow> init_free_list n = map int (rev [0..<n])"
  unfolding init_free_list_def by (rule nth_equalityI) (simp_all add: rev_nth)

text \<open>The blocks come in ascending order.\<close>

lemma bench_allocate_ids:
  assumes "bm_reach c m no_ext bm" and sz: "num_gpu_blocks c \<le> 2 ^ 31" "num_cpu_blocks c \<le> 2 ^ 31"
    and "free_list_for bm CUDA = map int (rev [i..<N])" and "i + n \<le> N"
  shows "\<exists>bm'. bench_allocate i n bm = Some (map (\<lambda>j. (word_of_nat j, int j)) [i..<i + n], bm') \<and>
    bm_reach c m no_ext bm' \<and> free_list_for bm' CUDA = map int (rev [i + n..<N]) \<and> same_shape bm bm'"
  using assms(1,4,5)
proof (induction n arbitrary: i bm)
  case (Suc n)
  have l: "free_list_for bm CUDA = map int (rev [Suc i..<N]) @ [int i]"
    using Suc.prems(2,3) by (simp add: upt_conv_Cons)
  then have ne: "free_list_for bm CUDA \<noteq> []" by simp
  obtain bm1 where a: "allocate_block (word_of_nat i) CUDA bm = Some (int i, bm1)" "same_shape bm bm1"
      "free_list_for bm1 CUDA = map int (rev [Suc i..<N])"
    using allocate_block_nonempty [OF reach_wf [OF Suc.prems(1) sz] ne, of "word_of_nat i"] l by auto
  have r: "bm_reach c m no_ext bm1" by (rule bm_reach.allocate [OF Suc.prems(1) a(1)])
  have le: "Suc i + n \<le> N" using Suc.prems(3) by simp
  obtain bm2 where b: "bench_allocate (Suc i) n bm1 = Some (map (\<lambda>j. (word_of_nat j, int j)) [Suc i..<Suc i + n], bm2)"
      "bm_reach c m no_ext bm2" "free_list_for bm2 CUDA = map int (rev [Suc i + n..<N])" "same_shape bm1 bm2"
    using Suc.IH [OF r a(3) le] by blast
  have "[i..<i + Suc n] = i # [Suc i..<Suc i + n]" by (simp add: upt_conv_Cons del: upt_Suc)
  moreover have "int i \<noteq> INVALID_BLOCK" by (simp add: INVALID_BLOCK_def)
  ultimately have "bench_allocate i (Suc n) bm = Some (map (\<lambda>j. (word_of_nat j, int j)) [i..<i + Suc n], bm2)"
    using a(1) b(1) by (simp del: upt_Suc)
  moreover have "free_list_for bm2 CUDA = map int (rev [i + Suc n..<N])" using b(3) by simp
  ultimately show ?case using b(2) same_shape_trans [OF a(2) b(4)] by blast
qed simp

lemma every_other_upt: "every_other (map f [i..<k]) = map f (filter (\<lambda>j. even j = even i) [i..<k])"
proof (induction "k - i" arbitrary: i rule: less_induct)
  case less
  consider "k \<le> i" | "k = Suc i" | "Suc (Suc i) \<le> k" by linarith
  then show ?case
  proof cases
    case 3
    then have u: "[i..<k] = i # Suc i # [Suc (Suc i)..<k]" by (simp add: upt_conv_Cons)
    have "every_other (map f [Suc (Suc i)..<k]) = map f (filter (\<lambda>j. even j = even (Suc (Suc i))) [Suc (Suc i)..<k])"
      using less [of "Suc (Suc i)"] 3 by simp
    then show ?thesis unfolding u by simp
  qed simp_all
qed

lemma foldM_free:
  "foldM (\<lambda>(_, b). free_block b CUDA) xs bm = foldM (\<lambda>(d, b). free_block b d) (map (\<lambda>x. (CUDA, snd x)) xs) bm"
  by (induction xs arbitrary: bm) (auto split: Option.bind_splits)

text \<open>The longest run when everything from \<open>k\<close> on is free, and of the blocks below every other one.\<close>

lemma comb_run:
  assumes fl: "\<And>i. i < N \<Longrightarrow> to_i32 (int i) \<in> set fl \<longleftrightarrow> k \<le> i \<or> even i" and k: "k < N"
  shows "p + l \<le> N \<Longrightarrow> free_run fl p l \<Longrightarrow> l \<le> N - k + k mod 2"
    and "free_run fl (k - k mod 2) (N - k + k mod 2)"
proof -
  assume l: "p + l \<le> N" and run: "free_run fl p l"
  have fr: "k \<le> p + j \<or> even (p + j)" if "j < l" for j using run fl [of "p + j"] that l by (simp add: free_run_def)
  show "l \<le> N - k + k mod 2"
  proof (cases "p + 1 < k \<and> 1 < l")
    case True
    then show ?thesis using fr [of 0] fr [of 1] by simp
  next
    case False
    then consider "l \<le> 1" | "k \<le> p" | "p + 1 = k" "1 < l" by linarith
    then show ?thesis
    proof cases
      case 3
      then have "even p" using fr [of 0] by simp
      then have "k mod 2 = 1" using 3(1) by (metis even_plus_one_iff odd_iff_mod_2_eq_one)
      then show ?thesis using 3(1) l k by linarith
    qed (use l k in linarith)+
  qed
next
  show "free_run fl (k - k mod 2) (N - k + k mod 2)"
    unfolding free_run_def
  proof (intro allI impI)
    fix j
    assume j: "j < N - k + k mod 2"
    have le: "k mod 2 \<le> k" by simp
    have "k \<le> k - k mod 2 + j \<or> even (k - k mod 2 + j)"
    proof (cases "k mod 2 \<le> j")
      case True
      then show ?thesis using le by linarith
    next
      case False
      then have "j = 0" by linarith
      then show ?thesis by (simp add: minus_mod_eq_div_mult)
    qed
    moreover have "k - k mod 2 + j < N" using j le k by linarith
    ultimately show "to_i32 (int (k - k mod 2 + j)) \<in> set fl" using fl by blast
  qed
qed

lemma card_even_below: "card {j. j < k \<and> even j} = (k + 1) div 2"
proof (induction k)
  case (Suc k)
  have "{j. j < Suc k \<and> even j} = (if even k then insert k {j. j < k \<and> even j} else {j. j < k \<and> even j})"
    by (auto simp: less_Suc_eq)
  then show ?case using Suc.IH by (auto elim!: evenE oddE)
qed simp

text \<open>The state after the first loop frees every other block.\<close>

lemma free_every_other:
  assumes wf: "bm_wf no_ext bm" and fl: "free_list_for bm CUDA = map int (rev [k..<N])" and kN: "k \<le> N" "N \<le> 2 ^ 31"
    and len: "length (blocks_for bm CUDA) = N"
  defines "xs \<equiv> every_other (map (\<lambda>j. (word_of_nat j :: seq_id, int j)) [0..<k])"
  shows "\<exists>bm'. foldM (\<lambda>(_, b). free_block b CUDA) xs bm = Some bm' \<and> length (blocks_for bm' CUDA) = N \<and>
    length (free_list_for bm' CUDA) = N - k + (k + 1) div 2 \<and>
    (\<forall>i < N. to_i32 (int i) \<in> set (free_list_for bm' CUDA) \<longleftrightarrow> k \<le> i \<or> even i)"
proof -
  let ?l = "map (\<lambda>x. (CUDA, snd x)) xs"
  have l: "?l = map (\<lambda>j. (CUDA, int j)) (filter even [0..<k])"
    unfolding xs_def every_other_upt by simp
  have rng: "in_range bm CUDA (int i) \<longleftrightarrow> i < N" for i using len by (simp add: in_range_def)
  have ref: "ref_of bm CUDA (int i) = of_bool (i < k)" if "i < N" for i
  proof -
    have "int i \<in> set (free_list_for bm CUDA) \<longleftrightarrow> ref_of bm CUDA (int i) = 0"
      using wf rng that unfolding bm_wf_def bm_free_exact_def by blast
    moreover have "int i \<in> set (free_list_for bm CUDA) \<longleftrightarrow> k \<le> i" using that by (auto simp: fl)
    moreover have "ref_of bm CUDA (int i) = of_bool (owned bm CUDA (int i))"
      using wf rng that by (simp add: bm_wf_def bm_counted_def)
    ultimately show ?thesis by (auto simp: of_bool_def split: if_splits)
  qed
  have "distinct ?l" unfolding l by (simp add: distinct_map inj_on_def)
  moreover have "in_range bm d b \<and> 1 \<le> ref_of bm d b" if "(d, b) \<in> set ?l" for d b
    using that rng ref kN(1) unfolding l by auto
  ultimately obtain bm' where bm': "foldM (\<lambda>(d, b). free_block b d) ?l bm = Some bm'" "bm_core bm'" "same_shape bm bm'"
      "\<forall>e c. in_range bm e c \<longrightarrow> ref_of bm' e c = ref_of bm e c - of_bool ((e, c) \<in> set ?l)"
    using fb.drop_list [OF bm_core_wf [OF wf]] by blast
  have ref': "ref_of bm' CUDA (int i) = 0 \<longleftrightarrow> k \<le> i \<or> even i" if "i < N" for i
    using bm'(4) rng ref [OF that] that unfolding l by (auto simp: image_iff)
  have free: "b \<in> set (free_list_for bm' CUDA) \<longleftrightarrow> in_range bm CUDA b \<and> ref_of bm' CUDA b = 0" for b
    using bm'(2) same_shape_in_range [OF bm'(3)] unfolding bm_core_def bm_free_exact_def by blast
  have mem: "\<forall>i < N. to_i32 (int i) \<in> set (free_list_for bm' CUDA) \<longleftrightarrow> k \<le> i \<or> even i"
    using free rng ref' kN(2) by simp
  have "set (free_list_for bm' CUDA) = int ` ({k..<N} \<union> {j. j < k \<and> even j})"
  proof (rule set_eqI)
    fix b
    have "b \<in> set (free_list_for bm' CUDA) \<longleftrightarrow> (\<exists>i < N. b = int i \<and> (k \<le> i \<or> even i))"
      using free [of b] ref' rng by (cases b) (auto simp: in_range_def)
    also have "\<dots> \<longleftrightarrow> b \<in> int ` ({k..<N} \<union> {j. j < k \<and> even j})"
      using kN(1) by (auto simp: image_iff)
    finally show "b \<in> set (free_list_for bm' CUDA) \<longleftrightarrow> b \<in> int ` ({k..<N} \<union> {j. j < k \<and> even j})" .
  qed
  moreover have "distinct (free_list_for bm' CUDA)" using bm'(2) by (simp add: bm_core_def bm_free_exact_def)
  ultimately have "length (free_list_for bm' CUDA) = card (int ` ({k..<N} \<union> {j. j < k \<and> even j}))"
    by (metis distinct_card)
  also have "\<dots> = card ({k..<N} \<union> {j. j < k \<and> even j})" by (intro card_image) simp
  also have "\<dots> = N - k + (k + 1) div 2"
    using card_even_below [of k] by (subst card_Un_disjoint) (auto simp: Int_def)
  finally have "length (free_list_for bm' CUDA) = N - k + (k + 1) div 2" .
  moreover have "length (blocks_for bm' CUDA) = N" using bm'(3) len by (simp add: same_shape_def)
  ultimately show ?thesis using bm'(1) mem by (simp add: foldM_free)
qed

text \<open>
  What the allocation benchmark reports on a cache of \<open>N\<close> blocks, of which it allocates \<open>k\<close>: internal
  fragmentation one, and the external fragmentation of a comb of single free blocks followed by
  the untouched rest.
\<close>

lemma allocation_bench_fragmentation:
  fixes cfg :: bench_config
  defines "N \<equiv> num_gpu_blocks (bc_cache cfg)"
  defines "k \<equiv> min (N div 2) 10000"
  assumes N: "2 \<le> N" "N \<le> 2 ^ 31" "num_cpu_blocks (bc_cache cfg) \<le> 2 ^ 31" and bs: "0 < bs" "bs < 2 ^ 32"
  shows "\<exists>r bm. run_allocation_bench t cfg bs = Some (r, bm) \<and> kr_internal_fragmentation r = 1 \<and>
    kr_external_fragmentation r = 1 - real (N - k + k mod 2) / real (N - k + (k + 1) div 2)"
proof -
  define c where "c = (bc_cache cfg)\<lparr>block_size := bs\<rparr>"
  let ?bm = "block_manager_new c (bc_model cfg)"
  have c: "num_gpu_blocks c = N" "num_cpu_blocks c \<le> 2 ^ 31" "block_size c = bs" using N by (simp_all add: c_def N_def)
  have k: "0 < k" "k < N" "k \<le> 10000" using N(1) by (auto simp: k_def)
  have r0: "bm_reach c (bc_model cfg) no_ext ?bm" by (rule bm_reach.construct)
  have f0: "free_list_for ?bm CUDA = map int (rev [0..<N])"
    using init_free_list_rev [OF N(2)] c(1) by (simp add: free_list_for_def block_manager_new_def)
  have sz: "num_gpu_blocks c \<le> 2 ^ 31" using c(1) N(2) by simp
  obtain bm1 where b1: "bench_allocate 0 k ?bm = Some (map (\<lambda>j. (word_of_nat j, int j)) [0..<k], bm1)"
      "bm_reach c (bc_model cfg) no_ext bm1" "free_list_for bm1 CUDA = map int (rev [k..<N])" "same_shape ?bm bm1"
    using bench_allocate_ids [OF r0 sz c(2) f0, of k] k(2) by auto
  have len: "length (blocks_for bm1 CUDA) = N"
    using same_shape_total [OF b1(4)] new_manager(4) [OF sz c(2)] c(1,3) bs(1) by (simp add: num_total_gpu_blocks_def blocks_for_def)
  obtain bm2 where b2: "foldM (\<lambda>(_, b). free_block b CUDA) (every_other (map (\<lambda>j. (word_of_nat j :: seq_id, int j)) [0..<k])) bm1 = Some bm2"
      "length (blocks_for bm2 CUDA) = N" "length (free_list_for bm2 CUDA) = N - k + (k + 1) div 2"
      "\<forall>i < N. to_i32 (int i) \<in> set (free_list_for bm2 CUDA) \<longleftrightarrow> k \<le> i \<or> even i"
    using free_every_other [OF reach_wf [OF b1(2) sz c(2)] b1(3) _ N(2) len] k(2) by auto
  have "fs_used_blocks (compute_fragmentation bm1 CUDA) = k"
    using len b1(3) k(2) by (simp add: compute_fragmentation_def Let_def size_sub_def)
  moreover have "bm_block_size bm1 = bs"
    using same_shape_block_size [OF b1(4)] c(3) by (simp add: bm_block_size_def block_manager_new_def)
  moreover have "k * bs < size_max" using mult_mono [OF k(3), of bs "2 ^ 32"] bs(2) by (simp add: size_max_def)
  ultimately have int_frag: "fs_internal_fragmentation (compute_fragmentation bm1 CUDA) = 1"
    using internal_fragmentation_constant [OF b1(2), of CUDA] k(1) bs(1) by simp
  let ?M = "fs_largest_free_run (compute_fragmentation bm2 CUDA)"
  have fl: "to_i32 (int i) \<in> set (free_list_for bm2 CUDA) \<longleftrightarrow> k \<le> i \<or> even i" if "i < N" for i using b2(4) that by blast
  obtain p where "p + ?M \<le> N" "free_run (free_list_for bm2 CUDA) p ?M"
      "\<forall>q l. q + l \<le> N \<longrightarrow> free_run (free_list_for bm2 CUDA) q l \<longrightarrow> l \<le> ?M"
    using largest_free_run_exact [of bm2 CUDA] b2(2) by auto
  moreover have "k - k mod 2 + (N - k + k mod 2) \<le> N" using k(2) mod_less_eq_dividend [of k 2] by linarith
  ultimately have "?M = N - k + k mod 2" using comb_run [OF fl k(2)] by (meson le_antisym)
  moreover have "0 < length (free_list_for bm2 CUDA)" using b2(3) k(2) by linarith
  ultimately have "fs_external_fragmentation (compute_fragmentation bm2 CUDA) = 1 - real (N - k + k mod 2) / real (N - k + (k + 1) div 2)"
    unfolding b2(3) [symmetric] by (simp add: compute_fragmentation_def Let_def)
  then show ?thesis
    using b1(1) b2(1) int_frag c(1)
    by (simp add: run_allocation_bench_def c_def [symmetric] k_def [symmetric] Let_def)
qed

end
