(* ===== verification/Profiler_Report.thy ===== *)
theory Profiler_Report
  imports Profiler Number_Text
begin

text \<open>
  The reports of the profiler, \<open>dump_summary\<close> and \<open>dump_csv\<close> of
  \<open>src/src/cacheflow/profiler/profiler.cpp\<close>. Both print a snapshot; an undefined snapshot makes the
  report undefined. Strings are bytes, and the characters of the frame are in UTF-8. The CSV file
  can be read back, the rows of the summary do not fit its frame.
\<close>

section \<open>The summary\<close>

definition box_v :: string where "box_v = [CHR 0xE2, CHR 0x95, CHR 0x91]"
definition box_h :: string where "box_h = [CHR 0xE2, CHR 0x95, CHR 0x90]"
definition box_tl :: string where "box_tl = [CHR 0xE2, CHR 0x95, CHR 0x94]"
definition box_tr :: string where "box_tr = [CHR 0xE2, CHR 0x95, CHR 0x97]"
definition box_l :: string where "box_l = [CHR 0xE2, CHR 0x95, CHR 0xA0]"
definition box_r :: string where "box_r = [CHR 0xE2, CHR 0x95, CHR 0xA3]"
definition box_bl :: string where "box_bl = [CHR 0xE2, CHR 0x95, CHR 0x9A]"
definition box_br :: string where "box_br = [CHR 0xE2, CHR 0x95, CHR 0x9D]"
definition sigma :: string where "sigma = [CHR 0xCF, CHR 0x83]"

definition border :: "string \<Rightarrow> string \<Rightarrow> string" where
  "border l r = l @ concat (replicate 50 box_h) @ r"

text \<open>A row: a label, the value in a field of ten characters, and the unit.\<close>

definition real_row :: "string \<Rightarrow> real \<Rightarrow> string \<Rightarrow> (ostream \<Rightarrow> ostream) list" where
  "real_row label x unit_str = [put (box_v @ label), setw 10, put_real x, put (unit_str @ box_v @ nl)]"

definition nat_row :: "string \<Rightarrow> nat \<Rightarrow> string \<Rightarrow> (ostream \<Rightarrow> ostream) list" where
  "nat_row label n unit_str = [put (box_v @ label), setw 10, put_nat n, put (unit_str @ box_v @ nl)]"

definition summary_items :: "metrics_snapshot \<Rightarrow> (ostream \<Rightarrow> ostream) list list" where
  "summary_items s =
     [[put (nl @ border box_tl box_tr @ nl)],
      [put (box_v @ ''          CacheFlow Performance Summary           '' @ box_v @ nl)],
      [put (border box_l box_r @ nl)],
      real_row ('' Throughput:    '') (throughput_tok_per_sec s) '' tok/s           '',
      real_row ('' Avg Latency:   '') (avg_latency_ms s) '' ms              '',
      real_row ('' P50 Latency:   '') (p50_latency_ms s) '' ms              '',
      real_row ('' P90 Latency:   '') (p90_latency_ms s) '' ms              '',
      real_row ('' P95 Latency:   '') (p95_latency_ms s) '' ms              '',
      real_row ('' P99 Latency:   '') (p99_latency_ms s) '' ms              '',
      real_row ('' Latency '' @ sigma @ '':     '') (latency_stddev_ms s) '' ms              '',
      real_row ('' Avg TTFT:      '') (avg_ttft_ms s) '' ms              '',
      real_row ('' Avg TPOT:      '') (avg_tpot_ms s) '' ms              '',
      [put (border box_l box_r @ nl)],
      real_row ('' GPU Cache:     '') (snap_gpu_cache_usage s * 100) '' %               '',
      real_row ('' Int. Frag:     '') (internal_fragmentation s * 100) '' %               '',
      real_row ('' Ext. Frag:     '') (external_fragmentation s * 100) '' %               '',
      real_row ('' Prefix Hit:    '') (prefix_cache_hit_rate s * 100) '' %               '',
      [put (border box_l box_r @ nl)],
      nat_row ('' Running:       '') (num_running_seqs s) ''                  '',
      nat_row ('' Waiting:       '') (num_waiting_seqs s) ''                  '',
      nat_row ('' Swapped:       '') (num_swapped_seqs s) ''                  '',
      nat_row ('' Total Served:  '') (total_requests_served s) ''                  '',
      nat_row ('' Total Tokens:  '') (total_tokens_generated s) ''                  '',
      [put (border box_bl box_br @ nl)]]"

definition dump_summary ::
    "block_manager option \<Rightarrow> prefix_cache option \<Rightarrow> scheduler option \<Rightarrow> profiler \<Rightarrow> ostream \<Rightarrow> ostream option" where
  "dump_summary bm pc sched p os =
     do {
       s \<leftarrow> snapshot bm pc sched p;
       Some (writes (concat (summary_items s)) (setprecision 2 (set_fixed os)))
     }"

section \<open>The CSV file\<close>

definition csv_items :: "metrics_snapshot \<Rightarrow> (ostream \<Rightarrow> ostream) list list" where
  "csv_items s =
     [[put ''throughput_tok_per_sec,'', put_real (throughput_tok_per_sec s), put nl],
      [put ''avg_latency_ms,'', put_real (avg_latency_ms s), put nl],
      [put ''p50_latency_ms,'', put_real (p50_latency_ms s), put nl],
      [put ''p90_latency_ms,'', put_real (p90_latency_ms s), put nl],
      [put ''p95_latency_ms,'', put_real (p95_latency_ms s), put nl],
      [put ''p99_latency_ms,'', put_real (p99_latency_ms s), put nl],
      [put ''latency_stddev_ms,'', put_real (latency_stddev_ms s), put nl],
      [put ''avg_ttft_ms,'', put_real (avg_ttft_ms s), put nl],
      [put ''avg_tpot_ms,'', put_real (avg_tpot_ms s), put nl],
      [put ''gpu_cache_usage,'', put_real (snap_gpu_cache_usage s), put nl],
      [put ''cpu_cache_usage,'', put_real (snap_cpu_cache_usage s), put nl],
      [put ''internal_fragmentation,'', put_real (internal_fragmentation s), put nl],
      [put ''external_fragmentation,'', put_real (external_fragmentation s), put nl],
      [put ''prefix_cache_hit_rate,'', put_real (prefix_cache_hit_rate s), put nl],
      [put ''num_running_seqs,'', put_nat (num_running_seqs s), put nl],
      [put ''num_waiting_seqs,'', put_nat (num_waiting_seqs s), put nl],
      [put ''num_swapped_seqs,'', put_nat (num_swapped_seqs s), put nl],
      [put ''total_requests_served,'', put_nat (total_requests_served s), put nl],
      [put ''total_tokens_generated,'', put_nat (total_tokens_generated s), put nl]]"

text \<open>\<open>opens\<close> tells whether the file can be opened; the result is its contents, if there is a file.\<close>

definition dump_csv ::
    "bool \<Rightarrow> block_manager option \<Rightarrow> prefix_cache option \<Rightarrow> scheduler option \<Rightarrow> profiler \<Rightarrow> string option option" where
  "dump_csv opens bm pc sched p =
     (if \<not> opens then Some None
      else do {
        s \<leftarrow> snapshot bm pc sched p;
        Some (Some (os_text (writes (put (''metric,value'' @ nl) # concat (csv_items s)) ostream_new)))
      })"

section \<open>Reading the CSV file back\<close>

fun split_on :: "char \<Rightarrow> string \<Rightarrow> string list" where
  "split_on c [] = [[]]"
| "split_on c (x # xs) =
     (if x = c then [] # split_on c xs
      else case split_on c xs of [] \<Rightarrow> [[x]] | l # ls \<Rightarrow> (x # l) # ls)"

lemma split_on_line: "c \<notin> set l \<Longrightarrow> split_on c (l @ c # rest) = l # split_on c rest"
  by (induction l) auto

lemma split_on_lines: "\<forall>l \<in> set ls. c \<notin> set l \<Longrightarrow> split_on c (concat (map (\<lambda>l. l @ [c]) ls)) = ls @ [[]]"
  by (induction ls) (simp_all add: split_on_line)

definition row_name :: "string \<Rightarrow> string" where
  "row_name r = takeWhile (\<lambda>c. c \<noteq> CHR '','') r"

definition row_value :: "string \<Rightarrow> string" where
  "row_value r = drop (length (row_name r) + 1) r"

lemma row_parts: "plain n \<Longrightarrow> row_name (n @ '','' @ v) = n \<and> row_value (n @ '','' @ v) = v"
  by (auto simp: row_name_def row_value_def plain_def takeWhile_append)

text \<open>The names and the printed values of the rows.\<close>

definition csv_pairs :: "metrics_snapshot \<Rightarrow> (string \<times> string) list" where
  "csv_pairs s =
     zip [''throughput_tok_per_sec'', ''avg_latency_ms'', ''p50_latency_ms'', ''p90_latency_ms'', 
        ''p95_latency_ms'', ''p99_latency_ms'', ''latency_stddev_ms'', ''avg_ttft_ms'', ''avg_tpot_ms'', 
        ''gpu_cache_usage'', ''cpu_cache_usage'', ''internal_fragmentation'', ''external_fragmentation'', 
        ''prefix_cache_hit_rate'', ''num_running_seqs'', ''num_waiting_seqs'', ''num_swapped_seqs'', 
        ''total_requests_served'', ''total_tokens_generated'']
       (map (general_str 6) [throughput_tok_per_sec s, avg_latency_ms s, p50_latency_ms s, p90_latency_ms s, p95_latency_ms s, 
        p99_latency_ms s, latency_stddev_ms s, avg_ttft_ms s, avg_tpot_ms s, snap_gpu_cache_usage s, 
        snap_cpu_cache_usage s, internal_fragmentation s, external_fragmentation s, 
        prefix_cache_hit_rate s] @ map nat_str [num_running_seqs s, num_waiting_seqs s, num_swapped_seqs s, total_requests_served s, 
        total_tokens_generated s])"

lemma csv_text:
  "os_text (writes (put (''metric,value'' @ nl) # concat (csv_items s)) ostream_new) =
   concat (map (\<lambda>l. l @ nl) (''metric,value'' # map (\<lambda>(n, v). n @ '','' @ v) (csv_pairs s)))"
  by (simp add: writes_def csv_items_def csv_pairs_def put_def put_real_def put_nat_def ostream_new_def)

lemma csv_pairs_plain: "(n, v) \<in> set (csv_pairs s) \<Longrightarrow> plain n \<and> plain v"
  by (auto simp: csv_pairs_def)

text \<open>
  C28. The CSV report can be read back: a file that could be opened holds the header and one row per
  metric, in order; the name of a row and its value are separated by the first comma, the counters
  are exact and every real metric reads back within five parts in a million.
\<close>

theorem csv_read_back:
  assumes "snapshot bm pc sched p = Some s"
  shows "\<exists>t rows. dump_csv True bm pc sched p = Some (Some t) \<and>
    split_on CHR 0x0A t = ''metric,value'' # rows @ [''''] \<and>
    map row_name rows = [''throughput_tok_per_sec'', ''avg_latency_ms'', ''p50_latency_ms'', ''p90_latency_ms'', 
        ''p95_latency_ms'', ''p99_latency_ms'', ''latency_stddev_ms'', ''avg_ttft_ms'', ''avg_tpot_ms'', 
        ''gpu_cache_usage'', ''cpu_cache_usage'', ''internal_fragmentation'', ''external_fragmentation'', 
        ''prefix_cache_hit_rate'', ''num_running_seqs'', ''num_waiting_seqs'', ''num_swapped_seqs'', 
        ''total_requests_served'', ''total_tokens_generated''] \<and>
    list_all2 (\<lambda>r v. \<bar>read_real (row_value r) - v\<bar> \<le> \<bar>v\<bar> * (5 / 10 ^ 6)) (take 14 rows)
      [throughput_tok_per_sec s, avg_latency_ms s, p50_latency_ms s, p90_latency_ms s, p95_latency_ms s, 
        p99_latency_ms s, latency_stddev_ms s, avg_ttft_ms s, avg_tpot_ms s, snap_gpu_cache_usage s, 
        snap_cpu_cache_usage s, internal_fragmentation s, external_fragmentation s, 
        prefix_cache_hit_rate s] \<and>
    map (\<lambda>r. digits_val (row_value r)) (drop 14 rows) =
      [num_running_seqs s, num_waiting_seqs s, num_swapped_seqs s, total_requests_served s, 
        total_tokens_generated s]"
proof -
  define rows where "rows = map (\<lambda>(n, v). n @ '','' @ v) (csv_pairs s)"
  let ?t = "concat (map (\<lambda>l. l @ nl) (''metric,value'' # rows))"
  have contents: "dump_csv True bm pc sched p = Some (Some ?t)"
    using assms unfolding dump_csv_def by (simp only: csv_text rows_def [symmetric] if_False not_True_eq_False Option.bind.bind_lunit)
  have "\<forall>l \<in> set (''metric,value'' # rows). CHR 0x0A \<notin> set l"
    using csv_pairs_plain [of _ _ s] unfolding rows_def plain_def by auto
  then have ls: "split_on CHR 0x0A ?t = ''metric,value'' # rows @ ['''']"
    using split_on_lines [of "''metric,value'' # rows" "CHR 0x0A"] unfolding nl_def by (simp only: append_Cons)
  have parts: "map row_name rows = map fst (csv_pairs s)" "map row_value rows = map snd (csv_pairs s)"
    unfolding rows_def using csv_pairs_plain [of _ _ s] row_parts by auto
  let ?reals = "[throughput_tok_per_sec s, avg_latency_ms s, p50_latency_ms s, p90_latency_ms s, p95_latency_ms s, 
        p99_latency_ms s, latency_stddev_ms s, avg_ttft_ms s, avg_tpot_ms s, snap_gpu_cache_usage s, 
        snap_cpu_cache_usage s, internal_fragmentation s, external_fragmentation s, 
        prefix_cache_hit_rate s]"
  have names: "map row_name rows = [''throughput_tok_per_sec'', ''avg_latency_ms'', ''p50_latency_ms'', ''p90_latency_ms'', 
        ''p95_latency_ms'', ''p99_latency_ms'', ''latency_stddev_ms'', ''avg_ttft_ms'', ''avg_tpot_ms'', 
        ''gpu_cache_usage'', ''cpu_cache_usage'', ''internal_fragmentation'', ''external_fragmentation'', 
        ''prefix_cache_hit_rate'', ''num_running_seqs'', ''num_waiting_seqs'', ''num_swapped_seqs'', 
        ''total_requests_served'', ''total_tokens_generated'']" unfolding parts by (simp add: csv_pairs_def)
  have "take 14 (map row_value rows) = map (general_str 6) ?reals" unfolding parts by (simp add: csv_pairs_def)
  then have "list_all2 (\<lambda>v x. \<bar>read_real v - x\<bar> \<le> \<bar>x\<bar> * (5 / 10 ^ 6)) (take 14 (map row_value rows)) ?reals"
    using read_general [of 6] by (simp only: list_all2_map1 list_all2_same) simp
  then have reals: "list_all2 (\<lambda>r v. \<bar>read_real (row_value r) - v\<bar> \<le> \<bar>v\<bar> * (5 / 10 ^ 6)) (take 14 rows) ?reals"
    by (simp only: take_map list_all2_map1)
  have "map digits_val (drop 14 (map row_value rows)) = [num_running_seqs s, num_waiting_seqs s, num_swapped_seqs s, total_requests_served s, 
        total_tokens_generated s]"
    unfolding parts by (simp add: csv_pairs_def nat_str_read(1))
  then have nats: "map (\<lambda>r. digits_val (row_value r)) (drop 14 rows) = [num_running_seqs s, num_waiting_seqs s, num_swapped_seqs s, total_requests_served s, 
        total_tokens_generated s]"
    by (simp add: drop_map comp_def)
  show ?thesis by (intro exI [of _ ?t] exI [of _ rows] conjI contents ls names reals nats)
qed


theorem csv_read_back_witness:
  "\<exists>t rows. dump_csv True None None None (profiler_new False 0 default_profiler_config) = Some (Some t) \<and>
     split_on CHR 0x0A t = ''metric,value'' # rows @ [''''] \<and> length rows = 19"
proof -
  obtain s where "snapshot None None None (profiler_new False 0 default_profiler_config) = Some s"
    by (simp add: snapshot_def profiler_new_def hg_percentile_def histogram_new_def Let_def)
  from csv_read_back [OF this] obtain t rows ns where r:
    "dump_csv True None None None (profiler_new False 0 default_profiler_config) = Some (Some t)"
    "split_on CHR 0x0A t = ''metric,value'' # rows @ ['''']"
    "map row_name rows = ns" "length ns = 19" by (elim exE conjE) (rule that, assumption, assumption, assumption, simp)
  from r(3,4) have "length rows = 19" by (metis length_map)
  with r(1,2) show ?thesis by blast
qed

section \<open>The layout of the summary\<close>

text \<open>The columns a text takes on a terminal: its bytes without the continuation bytes of UTF-8.\<close>

definition columns :: "string \<Rightarrow> nat" where
  "columns t = length (filter (\<lambda>c. \<not> (128 \<le> (of_char c :: nat) \<and> of_char c < (192 :: nat))) t)"

lemma columns_simps [simp]:
  "columns [] = 0"
  "columns (c # s) = (if 128 \<le> (of_char c :: nat) \<and> of_char c < (192 :: nat) then 0 else 1) + columns s"
  by (simp_all add: columns_def)

lemma columns_append [simp]: "columns (a @ b) = columns a + columns b"
  by (simp add: columns_def)

lemma columns_digits: "list_all digit_char s \<Longrightarrow> columns s = length s"
  by (induction s) (auto simp: columns_def digit_char_def)

text \<open>A number that fits into its field takes exactly the field.\<close>

definition field_of :: "string \<Rightarrow> string" where
  "field_of t = replicate (10 - length t) CHR '' '' @ t"

lemma columns_blanks: "columns (replicate n CHR '' '') = n"
  by (simp add: columns_def)

lemma columns_fixed: "columns (fixed_str p x) = length (fixed_str p x)"
proof -
  have "columns (nat_str n) = length (nat_str n)" "columns (low_digits p n) = length (low_digits p n)" for n p
    by (simp_all add: columns_digits nat_str_read(2) low_digits_read(3))
  moreover have "columns ''-'' = 1" "columns ''.'' = 1" by (simp_all add: columns_def)
  ultimately show ?thesis by (simp add: fixed_str_def Let_def columns_def)
qed

lemma columns_field:
  "length (fixed_str 2 x) \<le> 10 \<Longrightarrow> columns (field_of (fixed_str 2 x)) = 10"
  "length (nat_str n) \<le> 10 \<Longrightarrow> columns (field_of (nat_str n)) = 10"
  by (simp_all add: field_of_def columns_fixed columns_blanks columns_digits nat_str_read(2))

text \<open>The lines of the summary.\<close>

definition summary_lines :: "metrics_snapshot \<Rightarrow> string list" where
  "summary_lines s =
     [border box_tl box_tr,
      box_v @ ''          CacheFlow Performance Summary           '' @ box_v,
      border box_l box_r,
      box_v @ '' Throughput:    '' @ field_of (fixed_str 2 (throughput_tok_per_sec s)) @ '' tok/s           '' @ box_v,
      box_v @ '' Avg Latency:   '' @ field_of (fixed_str 2 (avg_latency_ms s)) @ '' ms              '' @ box_v,
      box_v @ '' P50 Latency:   '' @ field_of (fixed_str 2 (p50_latency_ms s)) @ '' ms              '' @ box_v,
      box_v @ '' P90 Latency:   '' @ field_of (fixed_str 2 (p90_latency_ms s)) @ '' ms              '' @ box_v,
      box_v @ '' P95 Latency:   '' @ field_of (fixed_str 2 (p95_latency_ms s)) @ '' ms              '' @ box_v,
      box_v @ '' P99 Latency:   '' @ field_of (fixed_str 2 (p99_latency_ms s)) @ '' ms              '' @ box_v,
      box_v @ '' Latency '' @ sigma @ '':     '' @ field_of (fixed_str 2 (latency_stddev_ms s)) @ '' ms              '' @ box_v,
      box_v @ '' Avg TTFT:      '' @ field_of (fixed_str 2 (avg_ttft_ms s)) @ '' ms              '' @ box_v,
      box_v @ '' Avg TPOT:      '' @ field_of (fixed_str 2 (avg_tpot_ms s)) @ '' ms              '' @ box_v,
      border box_l box_r,
      box_v @ '' GPU Cache:     '' @ field_of (fixed_str 2 (snap_gpu_cache_usage s * 100)) @ '' %               '' @ box_v,
      box_v @ '' Int. Frag:     '' @ field_of (fixed_str 2 (internal_fragmentation s * 100)) @ '' %               '' @ box_v,
      box_v @ '' Ext. Frag:     '' @ field_of (fixed_str 2 (external_fragmentation s * 100)) @ '' %               '' @ box_v,
      box_v @ '' Prefix Hit:    '' @ field_of (fixed_str 2 (prefix_cache_hit_rate s * 100)) @ '' %               '' @ box_v,
      border box_l box_r,
      box_v @ '' Running:       '' @ field_of (nat_str (num_running_seqs s)) @ ''                  '' @ box_v,
      box_v @ '' Waiting:       '' @ field_of (nat_str (num_waiting_seqs s)) @ ''                  '' @ box_v,
      box_v @ '' Swapped:       '' @ field_of (nat_str (num_swapped_seqs s)) @ ''                  '' @ box_v,
      box_v @ '' Total Served:  '' @ field_of (nat_str (total_requests_served s)) @ ''                  '' @ box_v,
      box_v @ '' Total Tokens:  '' @ field_of (nat_str (total_tokens_generated s)) @ ''                  '' @ box_v,
      border box_bl box_br]"

lemma writes_append: "writes (fs @ gs) os = writes gs (writes fs os)"
  by (simp add: writes_def)

lemma summary_text:
  assumes "os_width os = 0"
  shows "writes (concat (summary_items s)) (setprecision 2 (set_fixed os)) =
    os\<lparr>os_fixed := True, os_precision := 2, os_text := os_text os @ nl @ concat (map (\<lambda>l. l @ nl) (summary_lines s))\<rparr>"
  using assms
  by (simp add: summary_items_def summary_lines_def real_row_def nat_row_def writes_def put_def put_real_def put_nat_def
      setw_def setprecision_def set_fixed_def field_of_def)

lemma summary_lines_one_line: "\<forall>l \<in> set (summary_lines s). CHR 0x0A \<notin> set l"
proof -
  have num: "CHR 0x0A \<notin> set (nat_str n)" "CHR 0x0A \<notin> set (low_digits p n)" for n p
    using nat_str_read(2) low_digits_read(3) digit_neq by (fastforce simp: list_all_iff)+
  then have "CHR 0x0A \<notin> set (fixed_str 2 x)" for x by (simp add: fixed_str_def Let_def)
  with num show ?thesis
    by (simp add: summary_lines_def border_def field_of_def box_v_def box_h_def box_tl_def box_tr_def box_l_def box_r_def
        box_bl_def box_br_def sigma_def)
qed

text \<open>
  The summary leaves the stream in fixed notation, and its right edge is ragged: when every number
  fits into its field, the frame is 52 columns wide, the rows with a real number have 45 columns and
  the rows with a counter 46.
\<close>

lemma summary_ragged:
  assumes "snapshot bm pc sched p = Some s" and "os_width os = 0"
    and "\<forall>x \<in> {throughput_tok_per_sec s, avg_latency_ms s, p50_latency_ms s, p90_latency_ms s, p95_latency_ms s, 
      p99_latency_ms s, latency_stddev_ms s, avg_ttft_ms s, avg_tpot_ms s, snap_gpu_cache_usage s * 100, 
      internal_fragmentation s * 100, external_fragmentation s * 100, prefix_cache_hit_rate s * 100}. length (fixed_str 2 x) \<le> 10"
    and "\<forall>n \<in> {num_running_seqs s, num_waiting_seqs s, num_swapped_seqs s, total_requests_served s, 
      total_tokens_generated s}. length (nat_str n) \<le> 10"
  shows "\<exists>os' t. dump_summary bm pc sched p os = Some os' \<and> os_text os' = os_text os @ nl @ t \<and> os_fixed os' \<and>
    split_on CHR 0x0A t = summary_lines s @ [''''] \<and>
    map columns (summary_lines s) =
      [52, 52, 52, 45, 45, 45, 45, 45, 45, 45, 45, 45, 52, 45, 45, 45, 45, 52, 46, 46, 46, 46, 46, 52]"
proof -
  have "columns box_v = 1" "columns (concat (replicate 50 box_h)) = 50" "columns sigma = 1" "columns box_tl = 1" "columns box_tr = 1"
    "columns box_l = 1" "columns box_r = 1" "columns box_bl = 1" "columns box_br = 1"
    by (simp_all add: columns_def box_v_def box_h_def sigma_def box_tl_def box_tr_def box_l_def box_r_def box_bl_def box_br_def
        filter_concat length_concat)
  then have "map columns (summary_lines s) = [52, 52, 52, 45, 45, 45, 45, 45, 45, 45, 45, 45, 52, 45, 45, 45, 45, 52, 46, 46, 46, 46, 46, 52]"
    using assms(3,4) by (simp add: summary_lines_def border_def columns_field)
  moreover have "split_on CHR 0x0A (concat (map (\<lambda>l. l @ nl) (summary_lines s))) = summary_lines s @ ['''']"
    using split_on_lines [OF summary_lines_one_line] unfolding nl_def .
  ultimately show ?thesis
    using assms(1) summary_text [OF assms(2), of s]
    by (intro exI [of _ "writes (concat (summary_items s)) (setprecision 2 (set_fixed os))"]
        exI [of _ "concat (map (\<lambda>l. l @ nl) (summary_lines s))"]) (simp add: dump_summary_def)
qed

end
