(* ===== verification/Bench_Command_Line.thy ===== *)
theory Bench_Command_Line
  imports Bench_Rounds Profiler_Report
begin

text \<open>
  The command line of the benchmarks, \<open>BenchConfig::from_args\<close> of \<open>src/benchmarks/bench_config.h\<close>.
  The scanner \<open>getopt_long\<close> of the C library is an argument: it maps the arguments of the program to
  the options it finds, each with its argument. The number conversions of the standard library are
  modelled with their exceptions. The theory shows which settings a command line gives.
\<close>

section \<open>Number conversions\<close>

text \<open>How reading the command line ends without a configuration.\<close>

datatype args_stop = Usage | Invalid_Argument | Out_Of_Range | Not_Finite

definition is_space :: "char \<Rightarrow> bool" where
  "is_space c \<longleftrightarrow> c \<in> {CHR '' '', CHR 0x09, CHR 0x0A, CHR 0x0B, CHR 0x0C, CHR 0x0D}"

fun read_sign :: "string \<Rightarrow> bool \<times> string" where
  "read_sign [] = (False, [])"
| "read_sign (c # s) =
     (if c = CHR ''-'' then (True, s) else if c = CHR ''+'' then (False, s) else (False, c # s))"

text \<open>
  \<open>std::stoull\<close> in base ten: leading white space and a sign are accepted, what follows the digits is
  ignored, and a minus sign negates the value in the unsigned type.
\<close>

definition stoull :: "string \<Rightarrow> args_stop + nat" where
  "stoull s =
     (let (neg, t) = read_sign (dropWhile is_space s); ds = takeWhile digit_char t; v = digits_val ds
      in if ds = [] then Inl Invalid_Argument
         else if size_max \<le> v then Inl Out_Of_Range
         else Inr (if neg then (size_max - v) mod size_max else v))"

text \<open>The digits of a number in base ten or sixteen.\<close>

definition hex_digit :: "char \<Rightarrow> nat option" where
  "hex_digit c =
     (let n = (of_char c :: nat)
      in if 48 \<le> n \<and> n \<le> 57 then Some (n - 48)
         else if 65 \<le> n \<and> n \<le> 70 then Some (n - 55)
         else if 97 \<le> n \<and> n \<le> 102 then Some (n - 87)
         else None)"

definition base_digit :: "nat \<Rightarrow> char \<Rightarrow> bool" where
  "base_digit base c \<longleftrightarrow> (case hex_digit c of None \<Rightarrow> False | Some d \<Rightarrow> d < base)"

definition base_val :: "nat \<Rightarrow> string \<Rightarrow> nat" where
  "base_val base ds = foldl (\<lambda>v c. base * v + the (hex_digit c)) 0 ds"

text \<open>The exponent after the mantissa, zero when there is none.\<close>

definition read_exponent_part :: "char set \<Rightarrow> string \<Rightarrow> int" where
  "read_exponent_part marks s =
     (case s of
        [] \<Rightarrow> 0
      | c # t \<Rightarrow>
          if c \<in> marks then
            let (neg, r) = read_sign t; v = int (digits_val (takeWhile digit_char r)) in if neg then - v else v
          else 0)"

definition scale_by :: "real \<Rightarrow> real \<Rightarrow> int \<Rightarrow> real" where
  "scale_by b x k = (if 0 \<le> k then x * b ^ nat k else x / b ^ nat (- k))"

text \<open>An unsigned number in a base, with its fraction and its exponent of \<open>b\<close>; \<open>None\<close> without digits.\<close>

definition read_float :: "nat \<Rightarrow> real \<Rightarrow> char set \<Rightarrow> string \<Rightarrow> real option" where
  "read_float base b marks s =
     (let ip = takeWhile (base_digit base) s;
          t = drop (length ip) s;
          fp = (case t of [] \<Rightarrow> [] | c # r \<Rightarrow> if c = CHR ''.'' then takeWhile (base_digit base) r else []);
          u = (case t of [] \<Rightarrow> [] | c # r \<Rightarrow> if c = CHR ''.'' then drop (length fp) r else t)
      in if ip = [] \<and> fp = [] then None
         else Some (scale_by b (real (base_val base (ip @ fp)) / real base ^ length fp) (read_exponent_part marks u)))"

definition lower :: "char \<Rightarrow> char" where
  "lower c = (let n = (of_char c :: nat) in if 65 \<le> n \<and> n \<le> 90 then char_of (n + 32) else c)"

definition read_unsigned_float :: "string \<Rightarrow> real option" where
  "read_unsigned_float s =
     (let hex = (if map lower (take 2 s) = ''0x'' then read_float 16 2 {CHR ''p'', CHR ''P''} (drop 2 s) else None)
      in case hex of Some x \<Rightarrow> Some x | None \<Rightarrow> read_float 10 10 {CHR ''e'', CHR ''E''} s)"

text \<open>
  \<open>std::stof\<close>. Infinities and NaNs are not values of the model, \<open>Not_Finite\<close> stands for them. Whether
  a number below the normal range is a range error is left to the C library: \<open>tiny\<close> decides it.
\<close>

definition stof :: "(real \<Rightarrow> bool) \<Rightarrow> string \<Rightarrow> args_stop + real" where
  "stof tiny s =
     (let (neg, t) = read_sign (dropWhile is_space s)
      in if map lower (take 3 t) \<in> {''inf'', ''nan''} then Inl Not_Finite
         else case read_unsigned_float t of
             None \<Rightarrow> Inl Invalid_Argument
           | Some x \<Rightarrow>
               if 2 ^ 128 - 2 ^ 103 \<le> x \<or> 0 < x \<and> x < 1 / 2 ^ 126 \<and> tiny x then Inl Out_Of_Range
               else Inr (if neg then - x else x))"

section \<open>Options\<close>

text \<open>An option of the switch; other results of the scanner, such as \<open>?\<close>, are skipped.\<close>

definition apply_option :: "(real \<Rightarrow> bool) \<Rightarrow> char \<times> string \<Rightarrow> bench_config \<Rightarrow> args_stop + bench_config" where
  "apply_option tiny = (\<lambda>(opt, optarg) cfg.
     let number = (\<lambda>set_field. case stoull optarg of Inl e \<Rightarrow> Inl e | Inr n \<Rightarrow> Inr (set_field n)) in
     if opt = CHR ''n'' then number (\<lambda>n. cfg\<lparr>bc_num_requests := n\<rparr>)
     else if opt = CHR ''p'' then number (\<lambda>n. cfg\<lparr>bc_prompt_len := n\<rparr>)
     else if opt = CHR ''o'' then number (\<lambda>n. cfg\<lparr>bc_output_len := n\<rparr>)
     else if opt = CHR ''c'' then number (\<lambda>n. cfg\<lparr>bc_num_concurrent := n\<rparr>)
     else if opt = CHR ''i'' then number (\<lambda>n. cfg\<lparr>bc_num_iterations := n\<rparr>)
     else if opt = CHR ''g'' then number (\<lambda>n. cfg\<lparr>bc_cache := (bc_cache cfg)\<lparr>num_gpu_blocks := n\<rparr>\<rparr>)
     else if opt = CHR ''b'' then number (\<lambda>n. cfg\<lparr>bc_cache := (bc_cache cfg)\<lparr>block_size := n\<rparr>\<rparr>)
     else if opt = CHR ''d'' then Inr (cfg\<lparr>bc_output_dir := optarg\<rparr>)
     else if opt = CHR ''x'' then Inr (cfg\<lparr>bc_enable_prefix_cache := True\<rparr>)
     else if opt = CHR ''X'' then Inr (cfg\<lparr>bc_enable_prefix_cache := False\<rparr>)
     else if opt = CHR ''s'' then
       (case stof tiny optarg of Inl e \<Rightarrow> Inl e | Inr x \<Rightarrow> Inr (cfg\<lparr>bc_shared_prefix_ratio := x\<rparr>))
     else if opt = CHR ''v'' then Inr (cfg\<lparr>bc_verbose := True\<rparr>)
     else if opt = CHR ''h'' then Inl Usage
     else Inr cfg)"

fun apply_options :: "(real \<Rightarrow> bool) \<Rightarrow> (char \<times> string) list \<Rightarrow> bench_config \<Rightarrow> args_stop + bench_config" where
  "apply_options tiny [] cfg = Inr cfg"
| "apply_options tiny (opt # opts) cfg =
     (case apply_option tiny opt cfg of Inl e \<Rightarrow> Inl e | Inr cfg1 \<Rightarrow> apply_options tiny opts cfg1)"

text \<open>\<open>getopt\<close> gives the options of a command line in the order in which \<open>getopt_long\<close> returns them.\<close>

definition from_args ::
    "(real \<Rightarrow> bool) \<Rightarrow> (string list \<Rightarrow> (char \<times> string) list) \<Rightarrow> string list \<Rightarrow> args_stop + bench_config" where
  "from_args tiny getopt argv = apply_options tiny (getopt argv) default_bench_config"

definition print_usage :: "ostream \<Rightarrow> ostream" where
  "print_usage = put (concat (map (\<lambda>l. l @ nl)
     ['''',
      ''CacheFlow Benchmark Suite'',
      ''Usage: bench_<type> [options]'',
      '''',
      ''Options:'',
      ''  -n, --num-requests <N>     Number of requests (default: 100)'',
      ''  -p, --prompt-len <N>       Prompt length in tokens (default: 128)'',
      ''  -o, --output-len <N>       Output length in tokens (default: 256)'',
      ''  -c, --concurrent <N>       Number of concurrent requests (default: 1)'',
      ''  -i, --iterations <N>       Number of iterations (default: 3)'',
      ''  -g, --gpu-blocks <N>       Number of GPU cache blocks (default: 8192)'',
      ''  -b, --block-size <N>       Tokens per cache block (default: 16)'',
      ''  -d, --output-dir <path>    Output directory (default: results)'',
      ''  -x, --prefix-cache         Enable prefix caching'',
      ''  -X, --no-prefix-cache      Disable prefix caching'',
      ''  -s, --shared-prefix <0-1>  Fraction of shared prefix (default: 0)'',
      ''  -v, --verbose              Verbose output'',
      ''  -h, --help                 Show this help'']))"

section \<open>What the conversions accept\<close>

lemma digit_not_space: "digit_char c \<Longrightarrow> \<not> is_space c \<and> c \<noteq> CHR ''-'' \<and> c \<noteq> CHR ''+''"
  by (auto simp: digit_char_def is_space_def)

lemma takeWhile_digits: "list_all digit_char ds \<Longrightarrow> (s = [] \<or> \<not> digit_char (hd s)) \<Longrightarrow> takeWhile digit_char (ds @ s) = ds"
  by (induction ds) (auto simp: takeWhile_eq_Nil_iff)

lemma dropWhile_space: "list_all is_space ws \<Longrightarrow> c = [] \<or> \<not> is_space (hd c) \<Longrightarrow> dropWhile is_space (ws @ c) = c"
  by (induction ws) (cases c, auto)

text \<open>The printed form of a number is read back, with anything after it that is not a digit.\<close>

lemma stoull_nat_str:
  assumes "n < size_max" and "s = [] \<or> \<not> digit_char (hd s)" and "list_all is_space ws"
  shows "stoull (ws @ nat_str n @ s) = Inr n"
    and "stoull (ws @ ''-'' @ nat_str n @ s) = Inr ((size_max - n) mod size_max)"
proof -
  obtain c ds where n: "nat_str n = c # ds" using nat_str_read(3) [of n] by (cases "nat_str n") auto
  have c: "digit_char c" using nat_str_read(2) [of n] n by simp
  have tw: "takeWhile digit_char (nat_str n @ s) = nat_str n" by (rule takeWhile_digits [OF nat_str_read(2) assms(2)])
  have "dropWhile is_space (ws @ nat_str n @ s) = nat_str n @ s" "read_sign (nat_str n @ s) = (False, nat_str n @ s)"
    using dropWhile_space [OF assms(3)] digit_not_space [OF c] n by simp_all
  then show "stoull (ws @ nat_str n @ s) = Inr n"
    using assms(1) tw nat_str_read(1,3) [of n] by (simp add: stoull_def)
  have "dropWhile is_space (ws @ ''-'' @ nat_str n @ s) = ''-'' @ nat_str n @ s"
    using dropWhile_space [OF assms(3), of "''-'' @ nat_str n @ s"] by (simp add: is_space_def)
  then show "stoull (ws @ ''-'' @ nat_str n @ s) = Inr ((size_max - n) mod size_max)"
    using assms(1) tw nat_str_read(1,3) [of n] by (simp add: stoull_def)
qed

lemmas stoull_plain = stoull_nat_str [where s = "[]" and ws = "[]", simplified]

text \<open>The result always fits into \<open>size_t\<close>, so no later computation sees another value.\<close>

lemma stoull_bound: "stoull s = Inr n \<Longrightarrow> n < size_max"
  by (auto simp: stoull_def size_max_def Let_def split: prod.splits if_splits)

section \<open>What a command line sets\<close>

text \<open>
  The options that ask for the settings of a configuration; \<open>ratio\<close> is the text of the prefix ratio.
  Only these fields can be set, the others keep their initial values.
\<close>

definition settings_options :: "string \<Rightarrow> bench_config \<Rightarrow> (char \<times> string) list" where
  "settings_options ratio cfg =
     [(CHR ''n'', nat_str (bc_num_requests cfg)), (CHR ''p'', nat_str (bc_prompt_len cfg)),
      (CHR ''o'', nat_str (bc_output_len cfg)), (CHR ''c'', nat_str (bc_num_concurrent cfg)),
      (CHR ''i'', nat_str (bc_num_iterations cfg)), (CHR ''g'', nat_str (num_gpu_blocks (bc_cache cfg))),
      (CHR ''b'', nat_str (block_size (bc_cache cfg))), (CHR ''d'', bc_output_dir cfg),
      (if bc_enable_prefix_cache cfg then CHR ''x'' else CHR ''X'', ''''), (CHR ''s'', ratio)] @
     (if bc_verbose cfg then [(CHR ''v'', '''')] else [])"

definition settable :: "bench_config \<Rightarrow> bool" where
  "settable cfg \<longleftrightarrow>
     (\<forall>n \<in> {bc_num_requests cfg, bc_prompt_len cfg, bc_output_len cfg, bc_num_concurrent cfg, bc_num_iterations cfg,
        num_gpu_blocks (bc_cache cfg), block_size (bc_cache cfg)}. n < size_max) \<and>
     bc_model cfg = default_model_config \<and> bc_scheduler cfg = default_scheduler_config \<and>
     bc_cache cfg = default_cache_config\<lparr>num_gpu_blocks := num_gpu_blocks (bc_cache cfg), block_size := block_size (bc_cache cfg)\<rparr> \<and>
     bc_warmup_requests cfg = 10 \<and> bc_output_format cfg = ''csv''"

lemma apply_options_append:
  "apply_options tiny (as @ bs) cfg =
     (case apply_options tiny as cfg of Inl e \<Rightarrow> Inl e | Inr cfg1 \<Rightarrow> apply_options tiny bs cfg1)"
  by (induction as arbitrary: cfg) (simp_all split: sum.split)

text \<open>The first option that cannot be applied ends the program, whatever follows it.\<close>

lemma first_bad_option:
  assumes "apply_options tiny before default_bench_config = Inr cfg" and "apply_option tiny opt cfg = Inl e"
    and "getopt argv = before @ opt # rest"
  shows "from_args tiny getopt argv = Inl e"
  using assms by (simp add: from_args_def apply_options_append)

text \<open>A negative count is accepted: \<open>-n -1\<close> asks for the largest number of requests there is.\<close>

lemma negative_count_accepted:
  assumes "getopt argv = [(CHR ''n'', ''-1'')]"
  shows "from_args tiny getopt argv = Inr (default_bench_config\<lparr>bc_num_requests := 2 ^ 64 - 1\<rparr>)"
proof -
  have "nat_str 1 = ''1''" by code_simp
  then have "stoull ''-1'' = Inr (2 ^ 64 - 1)" using stoull_plain(2) [of 1] by (simp add: size_max_def)
  then show ?thesis using assms by (simp add: from_args_def apply_option_def Let_def)
qed

text \<open>A configuration that can be set is read back from its options.\<close>

lemma from_args_settings:
  assumes "getopt argv = settings_options ratio cfg" and "settable cfg" and "stof tiny ratio = Inr (bc_shared_prefix_ratio cfg)"
  shows "from_args tiny getopt argv = Inr cfg"
proof -
  have num: "stoull (nat_str n) = Inr n" if "n < size_max" for n by (rule stoull_plain(1) [OF that])
  let ?c = "default_bench_config\<lparr>bc_num_requests := bc_num_requests cfg, bc_prompt_len := bc_prompt_len cfg,
     bc_output_len := bc_output_len cfg, bc_num_concurrent := bc_num_concurrent cfg, bc_num_iterations := bc_num_iterations cfg,
     bc_cache := default_cache_config\<lparr>num_gpu_blocks := num_gpu_blocks (bc_cache cfg), block_size := block_size (bc_cache cfg)\<rparr>,
     bc_output_dir := bc_output_dir cfg, bc_enable_prefix_cache := bc_enable_prefix_cache cfg,
     bc_shared_prefix_ratio := bc_shared_prefix_ratio cfg, bc_verbose := bc_verbose cfg\<rparr>"
  have "from_args tiny getopt argv = Inr ?c"
    using assms by (simp add: from_args_def settings_options_def settable_def apply_option_def num Let_def default_bench_config_def)
  also have "?c = cfg"
    using assms(2) by (cases cfg) (simp add: settable_def default_bench_config_def)
  finally show ?thesis .
qed

end
