(* ===== verification/Bench_Programs.thy ===== *)
theory Bench_Programs
  imports Throughput_Driver Latency_Driver Scaling_Driver Kv_Cache_Bench Bench_Command_Line
begin

text \<open>
  The programs under \<open>src/benchmarks\<close>: their \<open>main\<close> functions read the command line, run their
  benchmark for each setting, print the results and write a CSV file. The benchmarks of the driver
  theories are composed here with the command line and the output. What the environment provides,
  such as the readings of the clock, may differ from run to run, so it is indexed by the run.
\<close>

section \<open>Printing results\<close>

definition rule_str :: string where
  "rule_str = concat (replicate 2 [CHR 0xE2, CHR 0x94, CHR 0x80])"

definition double_rule_str :: string where
  "double_rule_str = concat (replicate 2 box_h)"

text \<open>
  \<open>BenchResult::print\<close>. The throughput is an argument of its own because one program stores a quotient
  in it that may not be finite.
\<close>

definition print_result :: "string \<Rightarrow> float_value \<Rightarrow> bench_result \<Rightarrow> ostream \<Rightarrow> ostream" where
  "print_result nan tput r =
     writes
       [put (nl @ rule_str @ '' ''), put (br_benchmark_name r), put ('' '' @ rule_str @ nl),
        put ''  Throughput:      '', put_float nan tput, put ('' tok/s'' @ nl),
        put ''  Avg Latency:     '', put_real (br_avg_latency_ms r), put ('' ms'' @ nl),
        put ''  P50 Latency:     '', put_real (br_p50_latency_ms r), put ('' ms'' @ nl),
        put ''  P90 Latency:     '', put_real (br_p90_latency_ms r), put ('' ms'' @ nl),
        put ''  P95 Latency:     '', put_real (br_p95_latency_ms r), put ('' ms'' @ nl),
        put ''  P99 Latency:     '', put_real (br_p99_latency_ms r), put ('' ms'' @ nl),
        put ''  Latency StdDev:  '', put_real (br_latency_stddev_ms r), put ('' ms'' @ nl),
        put ''  Avg TTFT:        '', put_real (br_avg_ttft_ms r), put ('' ms'' @ nl),
        put ''  Avg TPOT:        '', put_real (br_avg_tpot_ms r), put ('' ms'' @ nl),
        put ''  GPU Cache Usage: '', put_real (br_gpu_cache_utilization r * 100), put ('' %'' @ nl),
        put ''  Fragmentation:   '', put_real (br_fragmentation r * 100), put ('' %'' @ nl),
        put ''  Prefix Hit Rate: '', put_real (br_prefix_cache_hit_rate r * 100), put ('' %'' @ nl)]"

text \<open>A line of a CSV file: the items, separated by commas.\<close>

fun csv_row :: "(ostream \<Rightarrow> ostream) list \<Rightarrow> (ostream \<Rightarrow> ostream) list" where
  "csv_row [] = [put nl]"
| "csv_row [i] = [i, put nl]"
| "csv_row (i # is') = i # put '','' # csv_row is'"

text \<open>
  How a program ends: it exits with a status, what it printed and the file it wrote with its path, or
  an exception that nothing catches terminates it. A program that behaves in an undefined way, runs
  longer than its fuel or reads a setting that is not finite is \<open>None\<close>.
\<close>

datatype program_end =
  Exits nat string "(string \<times> string) option"
| Terminates args_stop

definition with_args ::
    "(real \<Rightarrow> bool) \<Rightarrow> (string list \<Rightarrow> (char \<times> string) list) \<Rightarrow> string list \<Rightarrow>
     (bench_config \<Rightarrow> ostream \<Rightarrow> (ostream \<times> (string \<times> string) option) option) \<Rightarrow> program_end option" where
  "with_args tiny getopt argv body =
     (case from_args tiny getopt argv of
        Inl Usage \<Rightarrow> Some (Exits 0 (os_text (print_usage ostream_new)) None)
      | Inl Not_Finite \<Rightarrow> None
      | Inl e \<Rightarrow> Some (Terminates e)
      | Inr cfg \<Rightarrow>
          do {
            (os, saved) \<leftarrow> body cfg ostream_new;
            Some (Exits 0 (os_text os) saved)
          })"

text \<open>Writing the file, if it can be opened.\<close>

definition save_csv ::
    "(string \<Rightarrow> bool) \<Rightarrow> string \<Rightarrow> string \<Rightarrow> (ostream \<Rightarrow> ostream) list list \<Rightarrow> ostream \<Rightarrow>
     ostream \<times> (string \<times> string) option" where
  "save_csv opens path header rows os =
     (if opens path then
        (writes [put ''Results saved to '', put path, put nl] os,
         Some (path, os_text (writes (put (header @ nl) # concat rows) ostream_new)))
      else (os, None))"

section \<open>Throughput\<close>

fun throughput_iterations ::
    "string \<Rightarrow> (nat \<Rightarrow> bench_result option) \<Rightarrow> nat \<Rightarrow> nat \<Rightarrow> nat \<Rightarrow> ostream \<Rightarrow> (bench_result list \<times> ostream) option" where
  "throughput_iterations nan run iters k 0 os = Some ([], os)"
| "throughput_iterations nan run iters k (Suc n) os =
     do {
       let os1 = writes [put ''Iteration '', put_nat (k + 1), put ''/'', put_nat iters, put (''...'' @ nl)] os;
       r0 \<leftarrow> run k;
       let r = r0\<lparr>br_benchmark_name := ''throughput_iter'' @ nat_str (k + 1)\<rparr>;
       (rs, os2) \<leftarrow> throughput_iterations nan run iters (Suc k) n
         (print_result nan (Finite (br_throughput_tok_per_sec r)) r os1);
       Some (r # rs, os2)
     }"

definition throughput_row :: "nat \<Rightarrow> bench_result \<Rightarrow> (ostream \<Rightarrow> ostream) list" where
  "throughput_row i r =
     csv_row [put_nat (i + 1), put_real (br_throughput_tok_per_sec r), put_real (br_avg_latency_ms r),
       put_real (br_p50_latency_ms r), put_real (br_p90_latency_ms r), put_real (br_p95_latency_ms r),
       put_real (br_p99_latency_ms r), put_real (br_latency_stddev_ms r), put_real (br_avg_ttft_ms r),
       put_real (br_avg_tpot_ms r)]"

definition throughput_body ::
    "string \<Rightarrow> (string \<Rightarrow> bool) \<Rightarrow> (bench_config \<Rightarrow> nat \<Rightarrow> bench_result option) \<Rightarrow> bench_config \<Rightarrow> ostream \<Rightarrow>
     (ostream \<times> (string \<times> string) option) option" where
  "throughput_body nan opens run cfg os =
     do {
       let os1 = writes
         [put (''CacheFlow Throughput Benchmark'' @ nl),
          put ''  Requests:     '', put_nat (bc_num_requests cfg), put nl,
          put ''  Prompt Len:   '', put_nat (bc_prompt_len cfg), put nl,
          put ''  Output Len:   '', put_nat (bc_output_len cfg), put nl,
          put ''  Concurrent:   '', put_nat (bc_num_concurrent cfg), put nl,
          put ''  Iterations:   '', put_nat (bc_num_iterations cfg), put (nl @ nl)] os;
       (results, os2) \<leftarrow> throughput_iterations nan (run cfg) (bc_num_iterations cfg) 0 (bc_num_iterations cfg) os1;
       let avg_tput = float_quotient (sum_list (map br_throughput_tok_per_sec results)) (real (length results));
       let os3 = writes
         [put (nl @ double_rule_str @ '' Average Throughput: ''), set_fixed, setprecision 1, put_float nan avg_tput,
          put ('' tok/s '' @ double_rule_str @ nl)] os2;
       Some (save_csv opens (bc_output_dir cfg @ ''/throughput_results.csv'')
         ''iteration,throughput_tok_s,avg_latency_ms,p50_ms,p90_ms,p95_ms,p99_ms,stddev_ms,ttft_ms,tpot_ms''
         (map (\<lambda>(i, r). throughput_row i r) (enumerate 0 results)) os3)
     }"

definition throughput_run ::
    "(nat \<Rightarrow> 'g bench_env) \<Rightarrow> ('r \<Rightarrow> token_id \<times> 'r) \<Rightarrow> 'r \<Rightarrow> nat \<Rightarrow> (nat \<Rightarrow> 'g) \<Rightarrow> bench_config \<Rightarrow> nat \<Rightarrow> bench_result option" where
  "throughput_run env token_dist rng fuel g cfg k =
     map_option fst (run_throughput_bench (env k) token_dist rng cfg fuel (g k))"

definition throughput_main ::
    "(real \<Rightarrow> bool) \<Rightarrow> (string list \<Rightarrow> (char \<times> string) list) \<Rightarrow> string \<Rightarrow> (string \<Rightarrow> bool) \<Rightarrow>
     (nat \<Rightarrow> 'g bench_env) \<Rightarrow> ('r \<Rightarrow> token_id \<times> 'r) \<Rightarrow> 'r \<Rightarrow> nat \<Rightarrow> (nat \<Rightarrow> 'g) \<Rightarrow> string list \<Rightarrow> program_end option" where
  "throughput_main tiny getopt nan opens env token_dist rng fuel g argv =
     with_args tiny getopt argv (throughput_body nan opens (throughput_run env token_dist rng fuel g))"

section \<open>Latency\<close>

fun latency_points ::
    "string \<Rightarrow> (nat \<Rightarrow> nat \<Rightarrow> bench_result option) \<Rightarrow> nat \<Rightarrow> nat list \<Rightarrow> ostream \<Rightarrow> (bench_result list \<times> ostream) option" where
  "latency_points nan run k [] os = Some ([], os)"
| "latency_points nan run k (olen # olens) os =
     do {
       let os1 = writes [put ''Output length: '', put_nat olen, put ('' tokens...'' @ nl)] os;
       r \<leftarrow> run k olen;
       (rs, os2) \<leftarrow> latency_points nan run (Suc k) olens
         (print_result nan (Finite (br_throughput_tok_per_sec r)) r os1);
       Some (r # rs, os2)
     }"

definition latency_row :: "nat \<Rightarrow> bench_result \<Rightarrow> (ostream \<Rightarrow> ostream) list" where
  "latency_row olen r =
     csv_row [put_nat olen, put_real (br_avg_latency_ms r), put_real (br_p50_latency_ms r),
       put_real (br_p90_latency_ms r), put_real (br_p95_latency_ms r), put_real (br_p99_latency_ms r),
       put_real (br_latency_stddev_ms r), put_real (br_avg_ttft_ms r), put_real (br_avg_tpot_ms r),
       put_real (br_throughput_tok_per_sec r)]"

definition output_lens :: "nat list" where
  "output_lens = [32, 64, 128, 256, 512, 1024]"

definition latency_body ::
    "string \<Rightarrow> (string \<Rightarrow> bool) \<Rightarrow> (bench_config \<Rightarrow> nat \<Rightarrow> nat \<Rightarrow> bench_result option) \<Rightarrow> bench_config \<Rightarrow> ostream \<Rightarrow>
     (ostream \<times> (string \<times> string) option) option" where
  "latency_body nan opens run cfg os =
     do {
       let os1 = writes
         [put (''CacheFlow Latency Benchmark'' @ nl),
          put ''  Requests:   '', put_nat (bc_num_requests cfg), put nl,
          put ''  Prompt Len: '', put_nat (bc_prompt_len cfg), put (nl @ nl)] os;
       (all_results, os2) \<leftarrow> latency_points nan (run cfg) 0 output_lens os1;
       Some (save_csv opens (bc_output_dir cfg @ ''/latency_results.csv'')
         ''output_len,avg_ms,p50_ms,p90_ms,p95_ms,p99_ms,stddev_ms,ttft_ms,tpot_ms,throughput_tok_s''
         (map (\<lambda>(olen, r). latency_row olen r) (zip output_lens all_results)) os2)
     }"

definition latency_run ::
    "(nat \<Rightarrow> 'g bench_env) \<Rightarrow> (nat \<Rightarrow> latency_clock) \<Rightarrow> ('r \<Rightarrow> token_id \<times> 'r) \<Rightarrow> 'r \<Rightarrow> nat \<Rightarrow> (nat \<Rightarrow> 'g) \<Rightarrow>
     bench_config \<Rightarrow> nat \<Rightarrow> nat \<Rightarrow> bench_result option" where
  "latency_run env ck token_dist rng fuel g cfg k olen =
     map_option fst (run_latency_bench (env k) (ck k) token_dist rng cfg olen fuel (g k))"

definition latency_main ::
    "(real \<Rightarrow> bool) \<Rightarrow> (string list \<Rightarrow> (char \<times> string) list) \<Rightarrow> string \<Rightarrow> (string \<Rightarrow> bool) \<Rightarrow>
     (nat \<Rightarrow> 'g bench_env) \<Rightarrow> (nat \<Rightarrow> latency_clock) \<Rightarrow> ('r \<Rightarrow> token_id \<times> 'r) \<Rightarrow> 'r \<Rightarrow> nat \<Rightarrow> (nat \<Rightarrow> 'g) \<Rightarrow>
     string list \<Rightarrow> program_end option" where
  "latency_main tiny getopt nan opens env ck token_dist rng fuel g argv =
     with_args tiny getopt argv (latency_body nan opens (latency_run env ck token_dist rng fuel g))"

section \<open>Scaling\<close>

text \<open>The initial values of the fields of a result.\<close>

definition default_bench_result :: bench_result where
  "default_bench_result =
     \<lparr>br_benchmark_name = '''', br_throughput_tok_per_sec = 0, br_avg_latency_ms = 0, br_p50_latency_ms = 0,
      br_p90_latency_ms = 0, br_p95_latency_ms = 0, br_p99_latency_ms = 0, br_latency_stddev_ms = 0, br_avg_ttft_ms = 0,
      br_avg_tpot_ms = 0, br_gpu_cache_utilization = 0, br_fragmentation = 0, br_prefix_cache_hit_rate = 0,
      br_num_requests = 0, br_concurrent_level = 0\<rparr>"

text \<open>The loop over the iterations: the sum of the throughputs, and the result with the largest one.\<close>

fun scaling_iterations ::
    "(nat \<Rightarrow> bench_result option) \<Rightarrow> nat \<Rightarrow> nat \<Rightarrow> real \<Rightarrow> bench_result \<Rightarrow> (real \<times> bench_result) option" where
  "scaling_iterations run k 0 total_tput best = Some (total_tput, best)"
| "scaling_iterations run k (Suc n) total_tput best =
     do {
       r \<leftarrow> run k;
       scaling_iterations run (Suc k) n (total_tput + br_throughput_tok_per_sec r)
         (if k = 0 \<or> br_throughput_tok_per_sec best < br_throughput_tok_per_sec r then r else best)
     }"

text \<open>A result is kept with its mean throughput, which may not be finite.\<close>

fun scaling_points ::
    "string \<Rightarrow> (nat \<Rightarrow> nat \<Rightarrow> nat \<Rightarrow> bench_result option) \<Rightarrow> nat \<Rightarrow> nat \<Rightarrow> nat list \<Rightarrow> ostream \<Rightarrow>
     ((float_value \<times> bench_result) list \<times> ostream) option" where
  "scaling_points nan run iterations k [] os = Some ([], os)"
| "scaling_points nan run iterations k (c # cs) os =
     do {
       let os1 = writes [put ''Concurrency: '', put_nat c, put (''...'' @ nl)] os;
       (total_tput, best) \<leftarrow> scaling_iterations (run k c) 0 iterations 0 default_bench_result;
       let mean = float_quotient total_tput (real iterations);
       (rs, os2) \<leftarrow> scaling_points nan run iterations (Suc k) cs (print_result nan mean best os1);
       Some ((mean, best) # rs, os2)
     }"

text \<open>The quotient of two throughputs.\<close>

definition speedup :: "float_value \<Rightarrow> float_value \<Rightarrow> float_value" where
  "speedup v baseline =
     (case (v, baseline) of (Finite a, Finite b) \<Rightarrow> float_quotient a b | _ \<Rightarrow> Not_A_Number)"

definition scaling_summary_row :: "string \<Rightarrow> float_value \<Rightarrow> float_value \<times> bench_result \<Rightarrow> (ostream \<Rightarrow> ostream) list" where
  "scaling_summary_row nan baseline = (\<lambda>(tput, r).
     [setw 12, put_nat (br_concurrent_level r), setw 12, set_fixed, setprecision 1, put_float nan tput, put '' t/s'',
      setw 10, setprecision 2, put_real (br_avg_latency_ms r), put '' ms'',
      setw 10, put_real (br_p99_latency_ms r), put '' ms'',
      setw 10, setprecision 2, put_float nan (speedup tput baseline), put ''x'', put nl])"

definition scaling_row :: "string \<Rightarrow> float_value \<times> bench_result \<Rightarrow> (ostream \<Rightarrow> ostream) list" where
  "scaling_row nan = (\<lambda>(tput, r).
     csv_row [put_nat (br_concurrent_level r), put_float nan tput, put_real (br_avg_latency_ms r),
       put_real (br_p50_latency_ms r), put_real (br_p90_latency_ms r), put_real (br_p95_latency_ms r),
       put_real (br_p99_latency_ms r), put_real (br_latency_stddev_ms r), put_real (br_gpu_cache_utilization r),
       put_real (br_fragmentation r)])"

definition concurrency_levels :: "nat list" where
  "concurrency_levels = [1, 2, 4, 8, 12, 16]"

definition scaling_body ::
    "string \<Rightarrow> (string \<Rightarrow> bool) \<Rightarrow> (bench_config \<Rightarrow> nat \<Rightarrow> nat \<Rightarrow> nat \<Rightarrow> bench_result option) \<Rightarrow> bench_config \<Rightarrow> ostream \<Rightarrow>
     (ostream \<times> (string \<times> string) option) option" where
  "scaling_body nan opens run cfg os =
     do {
       let os1 = writes
         [put (''CacheFlow Scaling Benchmark'' @ nl),
          put ''  Requests per point: '', put_nat (bc_num_requests cfg), put nl,
          put ''  Prompt Len:         '', put_nat (bc_prompt_len cfg), put nl,
          put ''  Output Len:         '', put_nat (bc_output_len cfg), put (nl @ nl)] os;
       (results, os2) \<leftarrow> scaling_points nan (run cfg) (bc_num_iterations cfg) 0 concurrency_levels os1;
       let os3 = writes
         [put (nl @ double_rule_str @ '' Scaling Summary '' @ double_rule_str @ nl),
          setw 12, put ''Concurrent'', setw 15, put ''Throughput'', setw 12, put ''Avg Lat'', setw 12, put ''P99 Lat'',
          setw 12, put ''Speedup'', put nl] os2;
       (baseline, _) \<leftarrow> vec_at results 0;
       let os4 = writes (concat (map (scaling_summary_row nan baseline) results)) os3;
       Some (save_csv opens (bc_output_dir cfg @ ''/scaling_results.csv'')
         ''concurrency,throughput_tok_s,avg_latency_ms,p50_ms,p90_ms,p95_ms,p99_ms,stddev_ms,gpu_util,fragmentation''
         (map (scaling_row nan) results) os4)
     }"

definition scaling_run ::
    "(nat \<Rightarrow> nat \<Rightarrow> 'g bench_env) \<Rightarrow> ('r \<Rightarrow> token_id \<times> 'r) \<Rightarrow> 'r \<Rightarrow> nat \<Rightarrow> (nat \<Rightarrow> nat \<Rightarrow> 'g) \<Rightarrow>
     bench_config \<Rightarrow> nat \<Rightarrow> nat \<Rightarrow> nat \<Rightarrow> bench_result option" where
  "scaling_run env token_dist rng fuel g cfg k c i =
     map_option fst (run_scaling_point (env k i) token_dist rng cfg c fuel (g k i))"

definition scaling_main ::
    "(real \<Rightarrow> bool) \<Rightarrow> (string list \<Rightarrow> (char \<times> string) list) \<Rightarrow> string \<Rightarrow> (string \<Rightarrow> bool) \<Rightarrow>
     (nat \<Rightarrow> nat \<Rightarrow> 'g bench_env) \<Rightarrow> ('r \<Rightarrow> token_id \<times> 'r) \<Rightarrow> 'r \<Rightarrow> nat \<Rightarrow> (nat \<Rightarrow> nat \<Rightarrow> 'g) \<Rightarrow> string list \<Rightarrow>
     program_end option" where
  "scaling_main tiny getopt nan opens env token_dist rng fuel g argv =
     with_args tiny getopt argv (scaling_body nan opens (scaling_run env token_dist rng fuel g))"

section \<open>KV cache\<close>

fun allocation_points ::
    "string \<Rightarrow> (nat \<Rightarrow> nat \<Rightarrow> kv_cache_result option) \<Rightarrow> nat \<Rightarrow> nat list \<Rightarrow> ostream \<Rightarrow>
     (kv_cache_result list \<times> ostream) option" where
  "allocation_points nan run k [] os = Some ([], os)"
| "allocation_points nan run k (bs # bss) os =
     do {
       let os1 = writes [put ''Block size: '', put_nat bs, put (''...'' @ nl)] os;
       r \<leftarrow> run k bs;
       let os2 = writes
         [put ''  Alloc: '', set_fixed, setprecision 0, put_float nan (kr_alloc_throughput_ops r), put '' ops/s ('',
          setprecision 1, put_float nan (kr_avg_alloc_ns r), put ('' ns/op)'' @ nl),
          put ''  Free:  '', setprecision 0, put_float nan (kr_free_throughput_ops r), put '' ops/s ('',
          setprecision 1, put_float nan (kr_avg_free_ns r), put ('' ns/op)'' @ nl),
          put ''  Int Frag: '', setprecision 2, put_real (kr_internal_fragmentation r * 100), put (''%'' @ nl),
          put ''  Ext Frag: '', put_real (kr_external_fragmentation r * 100), put (''%'' @ nl)] os1;
       (rs, os3) \<leftarrow> allocation_points nan run (Suc k) bss os2;
       Some (r # rs, os3)
     }"

fun prefix_points :: "(real \<Rightarrow> kv_cache_result option) \<Rightarrow> real list \<Rightarrow> ostream \<Rightarrow> ostream option" where
  "prefix_points run [] os = Some os"
| "prefix_points run (sr # srs) os =
     do {
       r \<leftarrow> run sr;
       prefix_points run srs (writes
         [put ''  Shared '', set_fixed, setprecision 0, put_real (sr * 100), put ''%: hit rate = '',
          setprecision 2, put_real (kr_prefix_hit_rate r * 100), put (''%'' @ nl)] os)
     }"

definition kv_cache_row :: "string \<Rightarrow> kv_cache_result \<Rightarrow> (ostream \<Rightarrow> ostream) list" where
  "kv_cache_row nan r =
     csv_row [put_nat (kr_block_size r), put_float nan (kr_alloc_throughput_ops r), put_float nan (kr_free_throughput_ops r),
       put_float nan (kr_avg_alloc_ns r), put_float nan (kr_avg_free_ns r), put_real (kr_internal_fragmentation r),
       put_real (kr_external_fragmentation r)]"

definition block_sizes :: "nat list" where
  "block_sizes = [8, 16, 32, 64]"

definition shared_ratios :: "real list" where
  "shared_ratios = [0, 1 / 4, 1 / 2, 3 / 4, 1]"

definition kv_cache_body ::
    "string \<Rightarrow> (string \<Rightarrow> bool) \<Rightarrow> (bench_config \<Rightarrow> nat \<Rightarrow> nat \<Rightarrow> kv_cache_result option) \<Rightarrow>
     (bench_config \<Rightarrow> real \<Rightarrow> kv_cache_result option) \<Rightarrow> bench_config \<Rightarrow> ostream \<Rightarrow>
     (ostream \<times> (string \<times> string) option) option" where
  "kv_cache_body nan opens run_alloc run_prefix cfg os =
     do {
       let os1 = writes
         [put (''CacheFlow KV-Cache Benchmark'' @ nl @ nl),
          put (rule_str @ '' Allocation Performance '' @ rule_str @ nl)] os;
       (alloc_results, os2) \<leftarrow> allocation_points nan (run_alloc cfg) 0 block_sizes os1;
       let os3 = put (nl @ rule_str @ '' Prefix Cache Hit Rates '' @ rule_str @ nl) os2;
       os4 \<leftarrow> prefix_points (run_prefix cfg) shared_ratios os3;
       Some (save_csv opens (bc_output_dir cfg @ ''/kv_cache_results.csv'')
         ''block_size,alloc_ops_s,free_ops_s,alloc_ns,free_ns,int_frag,ext_frag''
         (map (kv_cache_row nan) alloc_results) os4)
     }"

definition kv_cache_main ::
    "(real \<Rightarrow> bool) \<Rightarrow> (string list \<Rightarrow> (char \<times> string) list) \<Rightarrow> string \<Rightarrow> (string \<Rightarrow> bool) \<Rightarrow>
     (nat \<Rightarrow> nat \<Rightarrow> time_point) \<Rightarrow> ('r \<Rightarrow> token_id \<times> 'r) \<Rightarrow> 'r \<Rightarrow> string list \<Rightarrow> program_end option" where
  "kv_cache_main tiny getopt nan opens t token_dist rng argv =
     with_args tiny getopt argv (kv_cache_body nan opens
       (\<lambda>cfg k bs. map_option fst (run_allocation_bench (t k) cfg bs))
       (\<lambda>cfg sr. map_option fst (run_prefix_cache_bench token_dist rng cfg sr)))"

section \<open>Reading the files back\<close>

text \<open>An item that prints a text on a stream in its initial format.\<close>

definition prints :: "(ostream \<Rightarrow> ostream) \<Rightarrow> string \<Rightarrow> bool" where
  "prints i s \<longleftrightarrow>
     (\<forall>os. os_width os = 0 \<and> \<not> os_fixed os \<and> os_precision os = 6 \<longrightarrow> i os = os\<lparr>os_text := os_text os @ s\<rparr>)"

lemma prints_items [simp, intro]:
  "prints (put s) s" "prints (put_nat n) (nat_str n)" "prints (put_real x) (general_str 6 x)"
  "prints (put_float nan (Finite x)) (general_str 6 x)"
  by (simp_all add: prints_def put_def put_nat_def put_real_def put_float_def)

fun join_commas :: "string list \<Rightarrow> string" where
  "join_commas [] = []"
| "join_commas [s] = s"
| "join_commas (s # ss) = s @ '','' @ join_commas ss"

lemma writes_steps:
  "writes [] = (\<lambda>os. os)" "writes (f # fs) = (\<lambda>os. writes fs (f os))"
  "writes (fs @ gs) = (\<lambda>os. writes gs (writes fs os))"
  by (auto simp: writes_def)

lemma writes_prints:
  "list_all2 prints is' ss \<Longrightarrow> prints (writes is') (concat ss)"
proof (induction rule: list_all2_induct)
  case (Cons i is' s ss)
  then show ?case by (auto simp: prints_def writes_def)
qed (simp add: prints_def writes_def)

lemma csv_row_prints: "list_all2 prints is' ss \<Longrightarrow> prints (writes (csv_row is')) (join_commas ss @ nl)"
proof (induction is' arbitrary: ss rule: csv_row.induct)
  case (3 i j is')
  then obtain s t ss' where ss: "ss = s # t # ss'" "prints i s" "list_all2 prints (j # is') (t # ss')"
    by (auto simp: list_all2_Cons1)
  have "prints (writes [i, put '','', writes (csv_row (j # is'))]) (concat [s, '','', join_commas (t # ss') @ nl])"
    using ss 3 by (intro writes_prints) simp
  then show ?case using ss(1) by (simp add: writes_steps)
qed (auto simp: list_all2_Cons1 prints_def put_def writes_def)

lemma split_commas: "ss \<noteq> [] \<Longrightarrow> \<forall>s \<in> set ss. CHR '','' \<notin> set s \<Longrightarrow> split_on CHR '','' (join_commas ss) = ss"
proof (induction ss rule: join_commas.induct)
  case (2 s)
  then have "split_on CHR '','' (concat [s] ) = [s]" by (induction s) auto
  then show ?case by simp
next
  case (3 s t ss)
  then show ?case using split_on_line [of "CHR '',''" s] by simp
qed simp

lemma join_commas_plain: "\<forall>s \<in> set ss. plain s \<Longrightarrow> CHR 0x0A \<notin> set (join_commas ss)"
  by (induction ss rule: join_commas.induct) (auto simp: plain_def)

text \<open>The file of a program: the header and the rows, which split into their items.\<close>

lemma save_csv_lines:
  assumes "opens path" and "CHR 0x0A \<notin> set header"
    and rows: "list_all2 (\<lambda>r ss. \<exists>is'. r = csv_row is' \<and> list_all2 prints is' ss \<and> ss \<noteq> [] \<and> (\<forall>s \<in> set ss. plain s)) rows sss"
  shows "\<exists>os' text. save_csv opens path header rows os = (os', Some (path, text)) \<and>
    split_on CHR 0x0A text = header # map join_commas sss @ [''''] \<and>
    (\<forall>ss \<in> set sss. split_on CHR '','' (join_commas ss) = ss)"
proof -
  have "prints (writes (concat rows)) (concat (map (\<lambda>ss. join_commas ss @ nl) sss)) \<and>
      (\<forall>ss \<in> set sss. ss \<noteq> [] \<and> (\<forall>s \<in> set ss. plain s))"
    using rows
  proof (induction rule: list_all2_induct)
    case (Cons r rs ss sss)
    then obtain is' where r: "r = csv_row is'" "list_all2 prints is' ss" by blast
    have "prints (writes [writes r, writes (concat rs)]) (concat [join_commas ss @ nl, concat (map (\<lambda>ss. join_commas ss @ nl) sss)])"
      using csv_row_prints [OF r(2)] r(1) Cons.IH by (intro writes_prints) simp
    then show ?case using Cons.IH Cons.hyps by (auto simp: writes_steps)
  qed (simp add: prints_def writes_def)
  then have body: "prints (writes (concat rows)) (concat (map (\<lambda>ss. join_commas ss @ nl) sss))"
    and ne: "\<forall>ss \<in> set sss. ss \<noteq> [] \<and> (\<forall>s \<in> set ss. plain s)" by blast+
  let ?text = "concat (map (\<lambda>l. l @ [CHR 0x0A]) (header # map join_commas sss))"
  have "prints (writes [put (header @ nl), writes (concat rows)]) (concat [header @ nl, concat (map (\<lambda>ss. join_commas ss @ nl) sss)])"
    using body by (intro writes_prints) simp
  then have "os_text (writes (put (header @ nl) # concat rows) ostream_new) = ?text"
    by (simp add: prints_def writes_def ostream_new_def nl_def comp_def)
  moreover have "\<forall>l \<in> set (header # map join_commas sss). CHR 0x0A \<notin> set l"
    using assms(2) ne join_commas_plain by auto
  then have "split_on CHR 0x0A ?text = (header # map join_commas sss) @ ['''']" by (rule split_on_lines)
  moreover have "\<forall>ss \<in> set sss. split_on CHR '','' (join_commas ss) = ss"
    using ne split_commas by (simp add: plain_def)
  ultimately show ?thesis using assms(1) by (simp add: save_csv_def del: concat.simps)
qed

text \<open>Printed reals read back within five parts in a million.\<close>

lemma general_read_back: "list_all2 (\<lambda>f v. \<bar>read_real f - v\<bar> \<le> \<bar>v\<bar> * (5 / 10 ^ 6)) (map (general_str 6) vs) vs"
  using read_general [of 6] by (simp add: list_all2_map1 list_all2_same)

section \<open>The throughput program\<close>

lemma throughput_iterations_results:
  assumes "\<And>j. k \<le> j \<Longrightarrow> j < k + n \<Longrightarrow> run j = Some (rs j)"
  shows "\<exists>os'. throughput_iterations nan run iters k n os =
    Some (map (\<lambda>j. (rs j)\<lparr>br_benchmark_name := ''throughput_iter'' @ nat_str (j + 1)\<rparr>) [k..<k + n], os')"
  using assms
proof (induction n arbitrary: k os)
  case (Suc n)
  let ?r = "(rs k)\<lparr>br_benchmark_name := ''throughput_iter'' @ nat_str (k + 1)\<rparr>"
  define os1 where "os1 = print_result nan (Finite (br_throughput_tok_per_sec ?r)) ?r
    (writes [put ''Iteration '', put_nat (k + 1), put ''/'', put_nat iters, put (''...'' @ nl)] os)"
  have "run k = Some (rs k)" using Suc.prems by simp
  then have "throughput_iterations nan run iters k (Suc n) os =
      Option.bind (throughput_iterations nan run iters (Suc k) n os1) (\<lambda>(rs, os2). Some (?r # rs, os2))"
    by (simp add: os1_def Let_def)
  moreover have "\<exists>os'. throughput_iterations nan run iters (Suc k) n os1 =
      Some (map (\<lambda>j. (rs j)\<lparr>br_benchmark_name := ''throughput_iter'' @ nat_str (j + 1)\<rparr>) [Suc k..<Suc k + n], os')"
    using Suc.IH [of "Suc k" os1] Suc.prems by simp
  moreover have "[k..<k + Suc n] = k # [Suc k..<Suc k + n]" by (simp add: upt_rec)
  ultimately show ?case by auto
qed simp

text \<open>The printed items of a row.\<close>

definition throughput_values :: "bench_result \<Rightarrow> real list" where
  "throughput_values r =
     [br_throughput_tok_per_sec r, br_avg_latency_ms r, br_p50_latency_ms r, br_p90_latency_ms r, br_p95_latency_ms r,
      br_p99_latency_ms r, br_latency_stddev_ms r, br_avg_ttft_ms r, br_avg_tpot_ms r]"

lemma throughput_row_items:
  "\<exists>is'. throughput_row i r = csv_row is' \<and> list_all2 prints is' (nat_str (i + 1) # map (general_str 6) (throughput_values r))"
  unfolding throughput_row_def throughput_values_def by (intro exI conjI) (rule refl, simp)

text \<open>The runs of the program on settings that leave room for the requests in flight.\<close>

lemma throughput_body_rows:
  assumes runs: "\<forall>k < bc_num_iterations cfg. run cfg k = Some (rs k)"
    and "opens (bc_output_dir cfg @ ''/throughput_results.csv'')"
  shows "\<exists>os' text rows. throughput_body nan opens run cfg os = Some (os', Some (bc_output_dir cfg @ ''/throughput_results.csv'', text)) \<and>
    split_on CHR 0x0A text =
      ''iteration,throughput_tok_s,avg_latency_ms,p50_ms,p90_ms,p95_ms,p99_ms,stddev_ms,ttft_ms,tpot_ms'' # rows @ [''''] \<and>
    length rows = bc_num_iterations cfg \<and>
    (\<forall>k < bc_num_iterations cfg. split_on CHR '','' (rows ! k) = nat_str (k + 1) # map (general_str 6) (throughput_values (rs k)))"
proof -
  let ?n = "bc_num_iterations cfg"
  let ?r = "\<lambda>j. (rs j)\<lparr>br_benchmark_name := ''throughput_iter'' @ nat_str (j + 1)\<rparr>"
  let ?items = "\<lambda>k. nat_str (k + 1) # map (general_str 6) (throughput_values (rs k))"
  let ?header = "''iteration,throughput_tok_s,avg_latency_ms,p50_ms,p90_ms,p95_ms,p99_ms,stddev_ms,ttft_ms,tpot_ms''"
  let ?path = "bc_output_dir cfg @ ''/throughput_results.csv''"
  have it: "\<exists>os'. throughput_iterations nan (run cfg) ?n 0 ?n os1 = Some (map ?r [0..<?n], os')" for os1
    using throughput_iterations_results [of 0 ?n "run cfg" rs] runs by simp
  have rows: "map (\<lambda>(i, r). throughput_row i r) (enumerate 0 (map ?r [0..<?n])) = map (\<lambda>k. throughput_row k (?r k)) [0..<?n]"
    by (rule nth_equalityI) (simp_all add: nth_enumerate_eq)
  have "throughput_values (?r k) = throughput_values (rs k)" for k by (simp add: throughput_values_def)
  then have items: "list_all2 (\<lambda>r ss. \<exists>is'. r = csv_row is' \<and> list_all2 prints is' ss \<and> ss \<noteq> [] \<and> (\<forall>s \<in> set ss. plain s))
      (map (\<lambda>k. throughput_row k (?r k)) [0..<?n]) (map ?items [0..<?n])"
    using throughput_row_items [of _ "?r _"] by (fastforce simp: list_all2_conv_all_nth)
  have header: "CHR 0x0A \<notin> set ?header" by simp
  have saved: "\<exists>os' text. save_csv opens ?path ?header (map (\<lambda>(i, r). throughput_row i r) (enumerate 0 (map ?r [0..<?n]))) os3 = (os', Some (?path, text)) \<and>
      split_on CHR 0x0A text = ?header # map join_commas (map ?items [0..<?n]) @ [''''] \<and>
      (\<forall>ss \<in> set (map ?items [0..<?n]). split_on CHR '','' (join_commas ss) = ss)" for os3
    unfolding rows by (rule save_csv_lines [of opens ?path ?header, OF assms(2) header items])
  obtain os' csv where "throughput_body nan opens run cfg os = Some (os', Some (?path, csv))"
      "split_on CHR 0x0A csv = ?header # map join_commas (map ?items [0..<?n]) @ ['''']"
      "\<forall>ss \<in> set (map ?items [0..<?n]). split_on CHR '','' (join_commas ss) = ss"
  proof -
    let ?os1 = "writes [put (''CacheFlow Throughput Benchmark'' @ nl),
          put ''  Requests:     '', put_nat (bc_num_requests cfg), put nl,
          put ''  Prompt Len:   '', put_nat (bc_prompt_len cfg), put nl,
          put ''  Output Len:   '', put_nat (bc_output_len cfg), put nl,
          put ''  Concurrent:   '', put_nat (bc_num_concurrent cfg), put nl,
          put ''  Iterations:   '', put_nat (bc_num_iterations cfg), put (nl @ nl)] os"
    obtain os2 where os2: "throughput_iterations nan (run cfg) ?n 0 ?n ?os1 = Some (map ?r [0..<?n], os2)" using it by blast
    obtain os3 where os3: "throughput_body nan opens run cfg os =
        Some (save_csv opens ?path ?header (map (\<lambda>(i, r). throughput_row i r) (enumerate 0 (map ?r [0..<?n]))) os3)"
      unfolding throughput_body_def Let_def os2 Option.bind.bind_lunit prod.case by blast
    from saved [of os3] show ?thesis by (elim exE conjE) (rule that, unfold os3 option.inject, assumption+)
  qed
  then show ?thesis by (intro exI [of _ os'] exI [of _ csv] exI [of _ "map join_commas (map ?items [0..<?n])"]) simp
qed



text \<open>Without iterations the average is not a number; nothing is run.\<close>

lemma throughput_no_iterations:
  assumes "bc_num_iterations cfg = 0" and "os_width os = 0"
  shows "\<exists>t saved os'. throughput_body nan opens run cfg os = Some (os', saved) \<and>
    os_text os' = os_text os @ t @ double_rule_str @ '' Average Throughput: '' @ nan @ '' tok/s '' @ double_rule_str @ nl @
      (if opens (bc_output_dir cfg @ ''/throughput_results.csv'')
       then ''Results saved to '' @ bc_output_dir cfg @ ''/throughput_results.csv'' @ nl else '''')"
  using assms
  by (simp add: throughput_body_def save_csv_def writes_steps put_def put_nat_def put_float_def float_quotient_def set_fixed_def
      setprecision_def)

section \<open>Settings without effect\<close>

text \<open>
  The options for the prefix cache and for verbose output, the number of warm-up requests and the
  output format change nothing: no driver reads these fields.
\<close>

definition unused_settings :: "bool \<Rightarrow> bool \<Rightarrow> nat \<Rightarrow> string \<Rightarrow> bench_config \<Rightarrow> bench_config" where
  "unused_settings x v w f cfg =
     cfg\<lparr>bc_enable_prefix_cache := x, bc_verbose := v, bc_warmup_requests := w, bc_output_format := f\<rparr>"

lemma unused_fields [simp]:
  "bc_num_requests (unused_settings x v w f cfg) = bc_num_requests cfg"
  "bc_prompt_len (unused_settings x v w f cfg) = bc_prompt_len cfg"
  "bc_output_len (unused_settings x v w f cfg) = bc_output_len cfg"
  "bc_num_concurrent (unused_settings x v w f cfg) = bc_num_concurrent cfg"
  "bc_num_iterations (unused_settings x v w f cfg) = bc_num_iterations cfg"
  "bc_shared_prefix_ratio (unused_settings x v w f cfg) = bc_shared_prefix_ratio cfg"
  "bc_output_dir (unused_settings x v w f cfg) = bc_output_dir cfg"
  "bc_model (unused_settings x v w f cfg) = bc_model cfg"
  "bc_cache (unused_settings x v w f cfg) = bc_cache cfg"
  "bc_scheduler (unused_settings x v w f cfg) = bc_scheduler cfg"
  by (simp_all add: unused_settings_def)

lemma submit_requests_unused: "submit_requests env (unused_settings x v w f cfg) prompts st = submit_requests env cfg prompts st"
proof (induction env cfg prompts st rule: submit_requests.induct)
  case (1 env cfg prompts st)
  have step: "submit_request env (unused_settings x v w f cfg) prompts st = submit_request env cfg prompts st"
    by (simp add: submit_request_def submit_prompt_def)
  show ?case using 1 unfolding submit_requests.simps [of env _ prompts st] step by (auto split: Option.bind_split)
qed

lemma bench_loop_unused:
  "bench_loop tell env (unused_settings x v w f cfg) prompts k fuel st = bench_loop tell env cfg prompts k fuel st"
  by (induction fuel arbitrary: k st) (simp_all add: submit_requests_unused cong: if_cong)

lemma unused_settings_ignored:
  "throughput_body nan opens (throughput_run env token_dist rng fuel g) (unused_settings x v w f cfg) os =
   throughput_body nan opens (throughput_run env token_dist rng fuel g) cfg os"
proof -
  have "throughput_run env token_dist rng fuel g (unused_settings x v w f cfg) = throughput_run env token_dist rng fuel g cfg"
    by (rule ext) (simp add: throughput_run_def run_throughput_bench_def bench_loop_unused bench_start_def bench_scheduler_def
        throughput_result_def)
  then show ?thesis by (simp only: throughput_body_def unused_fields)
qed

end
