(* ===== verification/Scaling_Program.thy ===== *)
theory Scaling_Program
  imports Bench_Programs
begin

text \<open>
  The scaling program end to end: the iterations at each level of concurrency, the result that is kept
  for a level, and the file with one row per level.
\<close>

section \<open>The iterations of a level\<close>

text \<open>
  The iterations of a point give the sum of the throughputs and the first run with the largest
  throughput. The point then carries the mean throughput and the latencies of that one run.
\<close>

lemma scaling_iterations_step:
  assumes "\<And>j. k \<le> j \<Longrightarrow> j < k + n \<Longrightarrow> run j = Some (rs j)" and "0 < k" and "best = rs m" "m < k"
    and "\<forall>j < k. br_throughput_tok_per_sec (rs j) \<le> br_throughput_tok_per_sec (rs m)"
  shows "\<exists>m' < k + n. scaling_iterations run k n total_tput best =
      Some (total_tput + (\<Sum>j\<leftarrow>[k..<k + n]. br_throughput_tok_per_sec (rs j)), rs m') \<and>
    (\<forall>j < k + n. br_throughput_tok_per_sec (rs j) \<le> br_throughput_tok_per_sec (rs m'))"
  using assms
proof (induction n arbitrary: k total_tput best m)
  case (Suc n)
  let ?t = "\<lambda>j. br_throughput_tok_per_sec (rs j)"
  define m1 where "m1 = (if ?t m < ?t k then k else m)"
  have r: "run k = Some (rs k)" and up: "[k..<k + Suc n] = k # [Suc k..<Suc k + n]"
    using Suc.prems(1) by (simp_all add: upt_rec)
  have m1: "m1 < Suc k" "\<forall>j < Suc k. ?t j \<le> ?t m1"
    using Suc.prems(4,5) by (auto simp: m1_def less_Suc_eq intro: order_trans)
  have "(if k = 0 \<or> br_throughput_tok_per_sec best < ?t k then rs k else best) = rs m1"
    using Suc.prems(2,3) by (simp add: m1_def)
  then have "scaling_iterations run k (Suc n) total_tput best = scaling_iterations run (Suc k) n (total_tput + ?t k) (rs m1)"
    using r by simp
  moreover have "\<exists>m' < Suc k + n. scaling_iterations run (Suc k) n (total_tput + ?t k) (rs m1) =
      Some (total_tput + ?t k + (\<Sum>j\<leftarrow>[Suc k..<Suc k + n]. ?t j), rs m') \<and> (\<forall>j < Suc k + n. ?t j \<le> ?t m')"
    using Suc.prems(1) by (intro Suc.IH [OF _ _ refl m1]) simp_all
  ultimately show ?case unfolding up by (simp add: add.assoc)
qed auto

lemma scaling_iterations_best:
  assumes "\<And>j. j < n \<Longrightarrow> run j = Some (rs j)" and "0 < n"
  shows "\<exists>m < n. scaling_iterations run 0 n 0 default_bench_result =
      Some ((\<Sum>j\<leftarrow>[0..<n]. br_throughput_tok_per_sec (rs j)), rs m) \<and>
    (\<forall>j < n. br_throughput_tok_per_sec (rs j) \<le> br_throughput_tok_per_sec (rs m))"
proof -
  obtain n' where n: "n = Suc n'" using assms(2) by (cases n) auto
  have r: "run 0 = Some (rs 0)" and up: "[0..<n] = 0 # [1..<1 + n']" using assms(1) n by (simp_all add: upt_rec)
  have "\<exists>m < 1 + n'. scaling_iterations run 1 n' (br_throughput_tok_per_sec (rs 0)) (rs 0) =
      Some (br_throughput_tok_per_sec (rs 0) + (\<Sum>j\<leftarrow>[1..<1 + n']. br_throughput_tok_per_sec (rs j)), rs m) \<and>
    (\<forall>j < 1 + n'. br_throughput_tok_per_sec (rs j) \<le> br_throughput_tok_per_sec (rs m))"
    using assms(1) n by (intro scaling_iterations_step [where m = 0]) auto
  then show ?thesis using r n unfolding up by simp
qed

section \<open>The rows of the file\<close>

lemma scaling_points_results:
  assumes "\<And>i. i < length cs \<Longrightarrow> scaling_iterations (run (k + i) (cs ! i)) 0 iters 0 default_bench_result = Some (tot i, best i)"
  shows "\<exists>os'. scaling_points nan run iters k cs os =
    Some (map (\<lambda>i. (float_quotient (tot i) (real iters), best i)) [0..<length cs], os')"
  using assms
proof (induction cs arbitrary: k os tot best)
  case (Cons c cs)
  define os1 where "os1 = print_result nan (float_quotient (tot 0) (real iters)) (best 0)
    (writes [put ''Concurrency: '', put_nat c, put (''...'' @ nl)] os)"
  have "scaling_iterations (run k c) 0 iters 0 default_bench_result = Some (tot 0, best 0)" using Cons.prems [of 0] by simp
  then have "scaling_points nan run iters k (c # cs) os =
      Option.bind (scaling_points nan run iters (Suc k) cs os1) (\<lambda>(rs, os2). Some ((float_quotient (tot 0) (real iters), best 0) # rs, os2))"
    by (simp add: os1_def Let_def)
  moreover obtain os' where "scaling_points nan run iters (Suc k) cs os1 =
      Some (map (\<lambda>i. (float_quotient (tot (Suc i)) (real iters), best (Suc i))) [0..<length cs], os')"
    using Cons.IH [where k = "Suc k" and tot = "\<lambda>i. tot (Suc i)" and best = "\<lambda>i. best (Suc i)"] Cons.prems [of "Suc _"] by auto
  moreover have "[0..<length (c # cs)] = 0 # map Suc [0..<length cs]" by (simp add: map_Suc_upt upt_conv_Cons del: upt_Suc)
  ultimately show ?case by (simp add: comp_def)
qed simp

text \<open>The values of a row after the concurrency: the mean throughput, then values of the best run.\<close>

definition scaling_values :: "real \<Rightarrow> bench_result \<Rightarrow> real list" where
  "scaling_values mean r =
     [mean, br_avg_latency_ms r, br_p50_latency_ms r, br_p90_latency_ms r, br_p95_latency_ms r, br_p99_latency_ms r,
      br_latency_stddev_ms r, br_gpu_cache_utilization r, br_fragmentation r]"

lemma scaling_row_items:
  "\<exists>is'. scaling_row nan (Finite mean, r) = csv_row is' \<and>
     list_all2 prints is' (nat_str (br_concurrent_level r) # map (general_str 6) (scaling_values mean r))"
  unfolding scaling_row_def scaling_values_def prod.case by (intro exI conjI) (rule refl, simp)

lemma scaling_body_rows:
  assumes it: "\<And>i. i < length concurrency_levels \<Longrightarrow>
      scaling_iterations (run cfg i (concurrency_levels ! i)) 0 (bc_num_iterations cfg) 0 default_bench_result = Some (tot i, best i)"
    and "0 < bc_num_iterations cfg" and opens: "opens (bc_output_dir cfg @ ''/scaling_results.csv'')"
  shows "\<exists>os' csv rows. scaling_body nan opens run cfg os = Some (os', Some (bc_output_dir cfg @ ''/scaling_results.csv'', csv)) \<and>
    split_on CHR 0x0A csv =
      ''concurrency,throughput_tok_s,avg_latency_ms,p50_ms,p90_ms,p95_ms,p99_ms,stddev_ms,gpu_util,fragmentation'' # rows @ [''''] \<and>
    length rows = length concurrency_levels \<and>
    (\<forall>i < length concurrency_levels. split_on CHR '','' (rows ! i) =
       nat_str (br_concurrent_level (best i)) # map (general_str 6) (scaling_values (tot i / real (bc_num_iterations cfg)) (best i)))"
proof -
  let ?n = "bc_num_iterations cfg" and ?L = "length concurrency_levels"
  let ?res = "map (\<lambda>i. (float_quotient (tot i) (real ?n), best i)) [0..<?L]"
  let ?items = "\<lambda>i. nat_str (br_concurrent_level (best i)) # map (general_str 6) (scaling_values (tot i / real ?n) (best i))"
  let ?header = "''concurrency,throughput_tok_s,avg_latency_ms,p50_ms,p90_ms,p95_ms,p99_ms,stddev_ms,gpu_util,fragmentation''"
  let ?path = "bc_output_dir cfg @ ''/scaling_results.csv''"
  have q: "float_quotient (tot i) (real ?n) = Finite (tot i / real ?n)" for i using assms(2) by (simp add: float_quotient_def)
  have items: "list_all2 (\<lambda>r ss. \<exists>is'. r = csv_row is' \<and> list_all2 prints is' ss \<and> ss \<noteq> [] \<and> (\<forall>s \<in> set ss. plain s))
      (map (scaling_row nan) ?res) (map ?items [0..<?L])"
    using scaling_row_items unfolding q by (fastforce simp: list_all2_conv_all_nth)
  have header: "CHR 0x0A \<notin> set ?header" by simp
  have pts: "\<exists>os'. scaling_points nan (run cfg) ?n 0 concurrency_levels os1 = Some (?res, os')" for os1
    using it by (intro scaling_points_results) simp
  have "vec_at ?res 0 = Some (float_quotient (tot 0) (real ?n), best 0)" by (simp add: vec_at_def concurrency_levels_def)
  moreover obtain f where "\<And>os1. scaling_points nan (run cfg) ?n 0 concurrency_levels os1 = Some (?res, f os1)"
    using pts by metis
  ultimately obtain os4 where os4: "scaling_body nan opens run cfg os = Some (save_csv opens ?path ?header (map (scaling_row nan) ?res) os4)"
    unfolding scaling_body_def Let_def by (simp only: Option.bind.bind_lunit prod.case)
  from save_csv_lines [of opens ?path ?header, OF opens header items, of os4]
  obtain os' csv where "scaling_body nan opens run cfg os = Some (os', Some (?path, csv))"
      "split_on CHR 0x0A csv = ?header # map join_commas (map ?items [0..<?L]) @ ['''']"
      "\<forall>ss \<in> set (map ?items [0..<?L]). split_on CHR '','' (join_commas ss) = ss"
    by (elim exE conjE) (rule that, unfold os4 option.inject, assumption+)
  then show ?thesis by (intro exI [of _ os'] exI [of _ csv] exI [of _ "map join_commas (map ?items [0..<?L])"]) simp
qed

section \<open>The whole program\<close>

text \<open>
  The scaling program exits with status zero when the cache has room at every level of concurrency. Its
  file has one row per level: the level, the mean throughput of the runs and the other values of the
  run with the largest throughput.
\<close>

lemma scaling_program_completes:
  assumes args: "getopt argv = settings_options ratio cfg" "settable cfg" "stof tiny ratio = Inr (bc_shared_prefix_ratio cfg)"
    and it: "0 < bc_num_iterations cfg"
    and ok: "\<And>k i. k < length concurrency_levels \<Longrightarrow> i < bc_num_iterations cfg \<Longrightarrow>
      bench_ok (env k i) (cfg\<lparr>bc_num_concurrent := concurrency_levels ! k\<rparr>) cap"
    and fuel: "bc_num_requests cfg * bc_output_len cfg < fuel"
    and opens: "opens (bc_output_dir cfg @ ''/scaling_results.csv'')"
  shows "\<exists>out csv rows.
    scaling_main tiny getopt nan opens env token_dist rng fuel g argv =
      Some (Exits 0 out (Some (bc_output_dir cfg @ ''/scaling_results.csv'', csv))) \<and>
    split_on CHR 0x0A csv =
      ''concurrency,throughput_tok_s,avg_latency_ms,p50_ms,p90_ms,p95_ms,p99_ms,stddev_ms,gpu_util,fragmentation'' # rows @ [''''] \<and>
    length rows = length concurrency_levels \<and>
    (\<forall>k < length concurrency_levels. \<exists>rs. \<exists>m < bc_num_iterations cfg.
       (\<forall>i < bc_num_iterations cfg. scaling_run env token_dist rng fuel g cfg k (concurrency_levels ! k) i = Some (rs i) \<and>
          br_throughput_tok_per_sec (rs i) \<le> br_throughput_tok_per_sec (rs m)) \<and>
       split_on CHR '','' (rows ! k) = nat_str (concurrency_levels ! k) #
         map (general_str 6) (scaling_values
           ((\<Sum>i\<leftarrow>[0..<bc_num_iterations cfg]. br_throughput_tok_per_sec (rs i)) / real (bc_num_iterations cfg)) (rs m)))"
proof -
  let ?n = "bc_num_iterations cfg" and ?L = "length concurrency_levels"
  let ?run = "\<lambda>k i. scaling_run env token_dist rng fuel g cfg k (concurrency_levels ! k) i"
  let ?t = br_throughput_tok_per_sec
  have "\<exists>r. ?run k i = Some r \<and> br_concurrent_level r = concurrency_levels ! k" if "k < ?L" "i < ?n" for k i
    using scaling_point_completes [OF ok [OF that] fuel, of token_dist rng "g k i"]
    by (auto simp: scaling_run_def run_scaling_point_def snapshot_result_def Let_def bind_eq_Some_conv)
  then obtain rs where rs: "\<And>k i. k < ?L \<Longrightarrow> i < ?n \<Longrightarrow> ?run k i = Some (rs k i) \<and> br_concurrent_level (rs k i) = concurrency_levels ! k"
    by metis
  let ?tot = "\<lambda>k. \<Sum>i\<leftarrow>[0..<?n]. ?t (rs k i)"
  have "\<exists>m < ?n. scaling_iterations (?run k) 0 ?n 0 default_bench_result = Some (?tot k, rs k m) \<and> (\<forall>i < ?n. ?t (rs k i) \<le> ?t (rs k m))"
    if "k < ?L" for k
    using rs [OF that] it by (intro scaling_iterations_best) simp_all
  then obtain m where m: "\<And>k. k < ?L \<Longrightarrow> m k < ?n \<and>
      scaling_iterations (?run k) 0 ?n 0 default_bench_result = Some (?tot k, rs k (m k)) \<and> (\<forall>i < ?n. ?t (rs k i) \<le> ?t (rs k (m k)))"
    by metis
  have "\<exists>os' csv rows. scaling_body nan opens (scaling_run env token_dist rng fuel g) cfg ostream_new =
      Some (os', Some (bc_output_dir cfg @ ''/scaling_results.csv'', csv)) \<and>
    split_on CHR 0x0A csv =
      ''concurrency,throughput_tok_s,avg_latency_ms,p50_ms,p90_ms,p95_ms,p99_ms,stddev_ms,gpu_util,fragmentation'' # rows @ [''''] \<and>
    length rows = ?L \<and>
    (\<forall>k < ?L. split_on CHR '','' (rows ! k) =
       nat_str (br_concurrent_level (rs k (m k))) # map (general_str 6) (scaling_values (?tot k / real ?n) (rs k (m k))))"
    using m it opens by (intro scaling_body_rows) simp_all
  then obtain os' csv rows where b: "scaling_body nan opens (scaling_run env token_dist rng fuel g) cfg ostream_new =
        Some (os', Some (bc_output_dir cfg @ ''/scaling_results.csv'', csv))"
      "split_on CHR 0x0A csv =
        ''concurrency,throughput_tok_s,avg_latency_ms,p50_ms,p90_ms,p95_ms,p99_ms,stddev_ms,gpu_util,fragmentation'' # rows @ ['''']"
      "length rows = ?L"
      "\<forall>k < ?L. split_on CHR '','' (rows ! k) =
         nat_str (br_concurrent_level (rs k (m k))) # map (general_str 6) (scaling_values (?tot k / real ?n) (rs k (m k)))"
    by (elim exE conjE) (rule that)
  have main: "scaling_main tiny getopt nan opens env token_dist rng fuel g argv =
      Some (Exits 0 (os_text os') (Some (bc_output_dir cfg @ ''/scaling_results.csv'', csv)))"
    unfolding scaling_main_def with_args_def from_args_settings [of getopt argv, OF args] sum.case b(1) Option.bind.bind_lunit prod.case ..
  show ?thesis
  proof (rule exI [of _ "os_text os'"], rule exI [of _ csv], rule exI [of _ rows], intro conjI main b(2,3) allI impI)
    fix k assume k: "k < ?L"
    have lvl: "br_concurrent_level (rs k (m k)) = concurrency_levels ! k" using rs [OF k] m [OF k] by blast
    show "\<exists>rs. \<exists>m < ?n. (\<forall>i < ?n. ?run k i = Some (rs i) \<and> ?t (rs i) \<le> ?t (rs m)) \<and>
       split_on CHR '','' (rows ! k) = nat_str (concurrency_levels ! k) #
         map (general_str 6) (scaling_values ((\<Sum>i\<leftarrow>[0..<?n]. ?t (rs i)) / real ?n) (rs m))"
      by (rule exI [of _ "rs k"], rule exI [of _ "m k"]) (use rs [OF k] m [OF k] b(4) k lvl in simp)
  qed
qed

end
