(* ===== verification/Cuda_Memory.thy ===== *)
theory Cuda_Memory
  imports Common
begin

text \<open>
  The wrappers of the CUDA runtime, \<open>src/src/cacheflow/cuda/memory_utils.cu\<close> (its kernel is in the theory of the
  KV-cache kernels). The runtime is not part of the repository: its functions are the fields of a
  record that every wrapper takes, over an unspecified state of the device. The wrappers drop all
  error codes; when the memory query fails, they read variables that were never written.
\<close>

datatype memcpy_kind = HostToDevice | DeviceToHost | DeviceToDevice

type_synonym stream_id = nat
type_synonym address = nat

text \<open>The memory query answers with the free and the total bytes, or fails and writes neither.\<close>

record 's cuda_runtime =
  cudaMemGetInfo :: "'s \<Rightarrow> (nat \<times> nat) option"
  cudaMemcpyAsync :: "address \<Rightarrow> address \<Rightarrow> nat \<Rightarrow> memcpy_kind \<Rightarrow> stream_id \<Rightarrow> 's \<Rightarrow> 's"
  cudaStreamSynchronize :: "stream_id \<Rightarrow> 's \<Rightarrow> 's"
  cudaDeviceSynchronize :: "'s \<Rightarrow> 's"

definition get_gpu_free_memory :: "'s cuda_runtime \<Rightarrow> 's \<Rightarrow> nat option" where
  "get_gpu_free_memory rt s = map_option fst (cudaMemGetInfo rt s)"

definition get_gpu_total_memory :: "'s cuda_runtime \<Rightarrow> 's \<Rightarrow> nat option" where
  "get_gpu_total_memory rt s = map_option snd (cudaMemGetInfo rt s)"

text \<open>\<open>None\<close> is also a quotient of zeros, which is not a number.\<close>

definition get_gpu_memory_utilization :: "'s cuda_runtime \<Rightarrow> 's \<Rightarrow> real option" where
  "get_gpu_memory_utilization rt s =
     do {
       (free_bytes, total_bytes) \<leftarrow> cudaMemGetInfo rt s;
       if total_bytes = 0 then None else Some (1 - real free_bytes / real total_bytes)
     }"

definition async_memcpy_h2d :: "'s cuda_runtime \<Rightarrow> address \<Rightarrow> address \<Rightarrow> nat \<Rightarrow> stream_id \<Rightarrow> 's \<Rightarrow> 's" where
  "async_memcpy_h2d rt dst src bytes strm s = cudaMemcpyAsync rt dst src bytes HostToDevice strm s"

definition async_memcpy_d2h :: "'s cuda_runtime \<Rightarrow> address \<Rightarrow> address \<Rightarrow> nat \<Rightarrow> stream_id \<Rightarrow> 's \<Rightarrow> 's" where
  "async_memcpy_d2h rt dst src bytes strm s = cudaMemcpyAsync rt dst src bytes DeviceToHost strm s"

definition async_memcpy_d2d :: "'s cuda_runtime \<Rightarrow> address \<Rightarrow> address \<Rightarrow> nat \<Rightarrow> stream_id \<Rightarrow> 's \<Rightarrow> 's" where
  "async_memcpy_d2d rt dst src bytes strm s = cudaMemcpyAsync rt dst src bytes DeviceToDevice strm s"

definition synchronize_stream :: "'s cuda_runtime \<Rightarrow> stream_id \<Rightarrow> 's \<Rightarrow> 's" where
  "synchronize_stream rt strm s = cudaStreamSynchronize rt strm s"

definition synchronize_device :: "'s cuda_runtime \<Rightarrow> 's \<Rightarrow> 's" where
  "synchronize_device rt s = cudaDeviceSynchronize rt s"

text \<open>The utilisation is a share of the memory when the query succeeds.\<close>

lemma gpu_memory_utilization_bounds:
  assumes "cudaMemGetInfo rt s = Some (free_bytes, total_bytes)" and "free_bytes \<le> total_bytes" and "0 < total_bytes"
  shows "\<exists>u. get_gpu_memory_utilization rt s = Some u \<and> 0 \<le> u \<and> u \<le> 1 \<and>
    u * real total_bytes = real (total_bytes - free_bytes)"
  using assms by (intro exI [of _ "1 - real free_bytes / real total_bytes"])
    (simp add: get_gpu_memory_utilization_def field_simps of_nat_diff)

end
