(* ===== verification/Cache_Tests.thy ===== *)
theory Cache_Tests
  imports Block_Manager Memory_Pool Prefix_Cache
begin

text \<open>
  The unit tests of the cache components, \<open>test_block_manager.cpp\<close>, \<open>test_memory_pool.cpp\<close> and
  \<open>test_prefix_cache.cpp\<close> under \<open>src/tests\<close>, replayed on the model. A test is the list of the values
  of its assertions, in order; \<open>None\<close> would be undefined behaviour. Evaluating the tests compares the
  definitions with the expectations of the authors of the code.
\<close>

section \<open>Block manager\<close>

text \<open>A test changes a few fields of a configuration; nothing depends on the others.\<close>

definition test_basic_alloc_free :: "cache_config \<Rightarrow> bool list option" where
  "test_basic_alloc_free ccfg =
     do {
       let bm = block_manager_new (ccfg\<lparr>num_gpu_blocks := 100, num_cpu_blocks := 50\<rparr>) default_model_config;
       let a1 = [num_free_gpu_blocks bm = 100, num_free_cpu_blocks bm = 50];
       (b1, bm) \<leftarrow> allocate_block 1 CUDA bm;
       let a2 = [b1 \<noteq> INVALID_BLOCK, num_free_gpu_blocks bm = 99];
       (b2, bm) \<leftarrow> allocate_block 1 CUDA bm;
       let a3 = [b2 \<noteq> INVALID_BLOCK, b2 \<noteq> b1, num_free_gpu_blocks bm = 98];
       bm \<leftarrow> free_block b1 CUDA bm;
       let a4 = [num_free_gpu_blocks bm = 99];
       bm \<leftarrow> free_blocks 1 bm;
       Some (a1 @ a2 @ a3 @ a4 @ [num_free_gpu_blocks bm = 100])
     }"

definition test_can_allocate :: "cache_config \<Rightarrow> bool list option" where
  "test_can_allocate ccfg =
     do {
       let bm = block_manager_new (ccfg\<lparr>num_gpu_blocks := 5\<rparr>) default_model_config;
       let a1 = [can_allocate bm 5, \<not> can_allocate bm 6];
       bm \<leftarrow> foldM (\<lambda>i bm. map_option snd (allocate_block (word_of_nat i) CUDA bm)) [0..<5] bm;
       let a2 = [\<not> can_allocate bm 1];
       bm \<leftarrow> free_blocks 0 bm;
       Some (a1 @ a2 @ [can_allocate bm 1])
     }"

definition test_copy_on_write :: "cache_config \<Rightarrow> bool list option" where
  "test_copy_on_write ccfg =
     do {
       let bm = block_manager_new (ccfg\<lparr>num_gpu_blocks := 100\<rparr>) default_model_config;
       (b1, bm) \<leftarrow> allocate_block 1 CUDA bm;
       bm \<leftarrow> increment_ref b1 CUDA bm;
       blk \<leftarrow> get_block bm b1 CUDA;
       let a1 = [pb_ref_count blk = 2];
       (b2, bm) \<leftarrow> copy_on_write b1 2 CUDA bm;
       let a2 = [b2 \<noteq> INVALID_BLOCK, b2 \<noteq> b1];
       blk \<leftarrow> get_block bm b1 CUDA;
       blk2 \<leftarrow> get_block bm b2 CUDA;
       Some (a1 @ a2 @ [pb_ref_count blk = 1, pb_ref_count blk2 = 1])
     }"

definition test_cow_single_ref :: "cache_config \<Rightarrow> bool list option" where
  "test_cow_single_ref ccfg =
     do {
       let bm = block_manager_new (ccfg\<lparr>num_gpu_blocks := 100\<rparr>) default_model_config;
       (b1, bm) \<leftarrow> allocate_block 1 CUDA bm;
       (b2, bm) \<leftarrow> copy_on_write b1 2 CUDA bm;
       Some [b2 = b1]
     }"

definition fragmented_manager :: "cache_config \<Rightarrow> block_manager option" where
  "fragmented_manager ccfg =
     do {
       let bm = block_manager_new (ccfg\<lparr>num_gpu_blocks := 20\<rparr>) default_model_config;
       bm \<leftarrow> foldM (\<lambda>i bm. map_option snd (allocate_block (word_of_nat i) CUDA bm)) [0..<20] bm;
       foldM (\<lambda>i. free_blocks (word_of_nat (2 * i))) [0..<10] bm
     }"

definition test_fragmentation_stats :: "cache_config \<Rightarrow> bool list option" where
  "test_fragmentation_stats ccfg =
     do {
       bm \<leftarrow> fragmented_manager ccfg;
       let frag = compute_fragmentation bm CUDA;
       Some [fs_total_blocks frag = 20, fs_free_blocks frag = 10, fs_used_blocks frag = 10, 0 < fs_external_fragmentation frag]
     }"

definition test_cpu_blocks :: "cache_config \<Rightarrow> bool list option" where
  "test_cpu_blocks ccfg =
     do {
       let bm = block_manager_new (ccfg\<lparr>num_gpu_blocks := 10, num_cpu_blocks := 20\<rparr>) default_model_config;
       (cb, bm) \<leftarrow> allocate_block 1 CPU bm;
       let a1 = [cb \<noteq> INVALID_BLOCK, num_free_cpu_blocks bm = 19];
       bm \<leftarrow> free_block cb CPU bm;
       Some (a1 @ [num_free_cpu_blocks bm = 20])
     }"

text \<open>
  All tests pass but the first one: the block that was released on its own is released a second time
  with its sequence, and 101 of 100 blocks are free.
\<close>

lemma basic_alloc_free_fails: "test_basic_alloc_free ccfg = Some [True, True, True, True, True, True, True, True, False]"
  by (cases ccfg) (hypsubst, code_simp)

lemma can_allocate_passes: "test_can_allocate ccfg = Some (replicate 4 True)"
  by (cases ccfg) (hypsubst, code_simp)

lemma copy_on_write_passes: "test_copy_on_write ccfg = Some (replicate 5 True)"
  by (cases ccfg) (hypsubst, code_simp)

lemma cow_single_ref_passes: "test_cow_single_ref ccfg = Some [True]"
  by (cases ccfg) (hypsubst, code_simp)

lemma fragmented_lists:
  "map_option (\<lambda>bm. (length (gpu_blocks bm), gpu_free_list bm)) (fragmented_manager ccfg) =
   Some (20, [0, 2, 4, 6, 8, 10, 12, 14, 16, 18])"
  by (cases ccfg) (hypsubst, code_simp)

lemma fragmentation_stats_passes: "test_fragmentation_stats ccfg = Some [True, True, True, True]"
proof -
  obtain bm where bm: "fragmented_manager ccfg = Some bm" "length (gpu_blocks bm) = 20"
      "gpu_free_list bm = [0, 2, 4, 6, 8, 10, 12, 14, 16, 18]"
    using fragmented_lists [of ccfg] by auto
  have "free_run_scan [0, 2, 4, 6, 8, 10, 12, 14, 16, 18] [0..<20] 0 0 = 1" by code_simp
  then show ?thesis
    using bm by (simp add: test_fragmentation_stats_def compute_fragmentation_def blocks_for_def free_list_for_def size_sub_def
        size_max_def Let_def del: upt_Suc)
qed

lemma cpu_blocks_passes: "test_cpu_blocks ccfg = Some (replicate 3 True)"
  by (cases ccfg) (hypsubst, code_simp)

section \<open>Memory pool\<close>

text \<open>\<open>alloc\<close> is the aligned allocation of the C library; an allocation that fails throws.\<close>

definition with_pool :: "(nat \<Rightarrow> nat) \<Rightarrow> nat \<Rightarrow> nat \<Rightarrow> (memory_pool \<Rightarrow> bool list option) \<Rightarrow> bool list option" where
  "with_pool alloc bytes n test =
     (case memory_pool_new alloc bytes n CPU of Inl e \<Rightarrow> None | Inr pool \<Rightarrow> test pool)"

text \<open>The loop that allocates \<open>n\<close> blocks: the pointers and the pool.\<close>

fun pool_take :: "nat \<Rightarrow> memory_pool \<Rightarrow> nat list \<times> memory_pool" where
  "pool_take 0 pool = ([], pool)"
| "pool_take (Suc n) pool = (let (p, pool) = mp_allocate pool; (ps, pool) = pool_take n pool in (p # ps, pool))"

definition test_basic_pool :: "(nat \<Rightarrow> nat) \<Rightarrow> bool list option" where
  "test_basic_pool alloc = with_pool alloc 4096 10 (\<lambda>pool.
     do {
       let a1 = [mp_num_free pool = 10, mp_num_used pool = 0];
       let (p1, pool) = mp_allocate pool;
       let a2 = [p1 \<noteq> null, mp_num_free pool = 9, mp_num_used pool = 1];
       let pool = mp_deallocate p1 pool;
       Some (a1 @ a2 @ [mp_num_free pool = 10])
     })"

definition test_exhaust_pool :: "(nat \<Rightarrow> nat) \<Rightarrow> bool list option" where
  "test_exhaust_pool alloc = with_pool alloc 1024 5 (\<lambda>pool.
     do {
       let (ptrs, pool) = pool_take 5 pool;
       let a1 = map (\<lambda>p. p \<noteq> null) ptrs @ [mp_num_free pool = 0];
       let (p, pool) = mp_allocate pool;
       let a2 = [p = null];
       let pool = fold mp_deallocate ptrs pool;
       Some (a1 @ a2 @ [mp_num_free pool = 5])
     })"

definition test_unique_pointers :: "(nat \<Rightarrow> nat) \<Rightarrow> bool list option" where
  "test_unique_pointers alloc = with_pool alloc 256 20 (\<lambda>pool.
     do {
       let (ptrs, pool) = pool_take 20 pool;
       Some (map (\<lambda>p. p \<noteq> null) ptrs @ map (\<lambda>i. ptrs ! i \<notin> set (take i ptrs)) [0..<20])
     })"

definition test_block_id_conversion :: "(nat \<Rightarrow> nat) \<Rightarrow> bool list option" where
  "test_block_id_conversion alloc = with_pool alloc 512 10 (\<lambda>pool.
     do {
       let (p0, pool) = mp_allocate pool;
       b \<leftarrow> ptr_to_block_id pool p0;
       let a1 = [p0 = block_id_to_ptr pool b];
       let pool = mp_deallocate p0 pool;
       Some a1
     })"

definition test_utilization :: "(nat \<Rightarrow> nat) \<Rightarrow> bool list option" where
  "test_utilization alloc = with_pool alloc 256 10 (\<lambda>pool.
     do {
       let a1 = [mp_utilization pool = 0];
       let (_, pool) = pool_take 5 pool;
       Some (a1 @ [49 / 100 < mp_utilization pool \<and> mp_utilization pool < 51 / 100])
     })"

definition test_reset :: "(nat \<Rightarrow> nat) \<Rightarrow> bool list option" where
  "test_reset alloc = with_pool alloc 256 10 (\<lambda>pool.
     do {
       let (_, pool) = pool_take 10 pool;
       let a1 = [mp_num_free pool = 0];
       let pool = mp_reset pool;
       let a2 = [mp_num_free pool = 10];
       let (p, pool) = mp_allocate pool;
       Some (a1 @ a2 @ [p \<noteq> null])
     })"

definition test_pool_manager :: "(nat \<Rightarrow> nat) \<Rightarrow> (nat \<Rightarrow> nat) \<Rightarrow> bool list option" where
  "test_pool_manager alloc1 alloc2 =
     (case pool_manager_new alloc1 alloc2 1024 10 20 of
        Inl e \<Rightarrow> None
      | Inr pm \<Rightarrow>
          Some [mp_num_free (pm_gpu_pool pm) = 10, mp_num_free (pm_cpu_pool pm) = 20,
                mp_num_free (pool_for pm CUDA) = 10, mp_num_free (pool_for pm CPU) = 20])"

text \<open>The tests pass wherever the allocation puts the region.\<close>

lemma fill_stack_steps:
  "fill_stack base bytes 0 = []" "fill_stack base bytes (Suc n) = (base + n * bytes) # fill_stack base bytes n"
  by (simp_all add: fill_stack_def upt_conv_Cons map_Suc_upt [symmetric] comp_def del: upt_Suc)

lemma pool_numerals:
  "fill_stack base bytes (numeral k) = (base + pred_numeral k * bytes) # fill_stack base bytes (pred_numeral k)"
  "pool_take (numeral k) pool =
     (let (p, pool) = mp_allocate pool; (ps, pool) = pool_take (pred_numeral k) pool in (p # ps, pool))"
  "replicate (numeral k) x = x # replicate (pred_numeral k) x"
  by (simp_all add: numeral_eq_Suc fill_stack_steps)

lemmas pool_eval = with_pool_def memory_pool_new_def null_def size_max_def fill_stack_steps pool_numerals mp_num_free_def
  mp_num_used_def mp_allocate_def mp_deallocate_def mp_reset_def mp_utilization_def size_sub_def Let_def

lemma basic_pool_passes:
  assumes "alloc 40960 \<noteq> 0"
  shows "test_basic_pool alloc = Some (replicate 6 True)"
  using assms by (simp add: test_basic_pool_def pool_eval)

lemma exhaust_pool_passes:
  assumes "alloc 5120 \<noteq> 0"
  shows "test_exhaust_pool alloc = Some (replicate 8 True)"
  using assms by (simp add: test_exhaust_pool_def pool_eval)

lemma unique_pointers_passes:
  assumes "alloc 5120 \<noteq> 0"
  shows "test_unique_pointers alloc = Some (replicate 40 True)"
proof -
  have "[0..<20] = [0, 1, 2, 3, 4, 5, 6, 7, 8, 9, 10, 11, 12, 13, 14, 15, 16, 17, 18, 19]" by code_simp
  then show ?thesis using assms by (simp add: test_unique_pointers_def pool_eval)
qed

lemma pool_utilization_passes:
  assumes "alloc 2560 \<noteq> 0"
  shows "test_utilization alloc = Some (replicate 2 True)"
  using assms by (simp add: test_utilization_def pool_eval)

lemma pool_reset_passes:
  assumes "alloc 2560 \<noteq> 0"
  shows "test_reset alloc = Some (replicate 3 True)"
  using assms by (simp add: test_reset_def pool_eval)

lemma pool_manager_passes:
  assumes "alloc1 10240 \<noteq> 0" and "alloc2 20480 \<noteq> 0"
  shows "test_pool_manager alloc1 alloc2 = Some (replicate 4 True)"
  using assms by (simp add: test_pool_manager_def pool_manager_new_def pool_for_def pool_eval)

lemma block_id_conversion_passes:
  assumes "alloc 5120 \<noteq> 0" and "alloc 5120 < 2 ^ 64"
  shows "test_block_id_conversion alloc = Some [True]"
  using assms by (simp add: test_block_id_conversion_def pool_eval ptr_to_block_id_def block_id_to_ptr_def)

section \<open>Prefix cache\<close>

text \<open>A block manager and a prefix cache with blocks of four tokens, and \<open>n\<close> blocks allocated for sequence zero.\<close>

definition prefix_setup :: "cache_config \<Rightarrow> nat \<Rightarrow> (block_id list \<times> prefix_cache \<times> block_manager) option" where
  "prefix_setup ccfg n =
     do {
       let ccfg = ccfg\<lparr>num_gpu_blocks := 100, block_size := 4\<rparr>;
       (blocks, bm) \<leftarrow> alloc_n (allocate_block 0 CUDA) n (block_manager_new ccfg default_model_config);
       Some (blocks, prefix_cache_new ccfg, bm)
     }"

definition test_insert_and_lookup :: "cache_config \<Rightarrow> bool list option" where
  "test_insert_and_lookup ccfg =
     do {
       let tokens = [10, 20, 30, 40, 50, 60, 70, 80];
       (blocks, st) \<leftarrow> prefix_setup ccfg 2;
       (pc, bm) \<leftarrow> pc_insert tokens blocks st;
       (result, pc) \<leftarrow> pc_lookup tokens pc;
       Some [lr_matched_tokens result = 8, length (lr_cached_blocks result) = 2]
     }"

definition test_partial_match :: "cache_config \<Rightarrow> bool list option" where
  "test_partial_match ccfg =
     do {
       (blocks, st) \<leftarrow> prefix_setup ccfg 2;
       (pc, bm) \<leftarrow> pc_insert [1, 2, 3, 4, 5, 6, 7, 8] blocks st;
       (result, pc) \<leftarrow> pc_lookup [1, 2, 3, 4, 5, 6, 99, 100] pc;
       Some [lr_matched_tokens result = 4, length (lr_cached_blocks result) = 1]
     }"

definition test_no_match :: "cache_config \<Rightarrow> bool list option" where
  "test_no_match ccfg =
     do {
       (blocks, st) \<leftarrow> prefix_setup ccfg 1;
       (pc, bm) \<leftarrow> pc_insert [1, 2, 3, 4] blocks st;
       (result, pc) \<leftarrow> pc_lookup [99, 98, 97, 96] pc;
       Some [lr_matched_tokens result = 0, lr_cached_blocks result = []]
     }"

definition test_hit_rate :: "cache_config \<Rightarrow> bool list option" where
  "test_hit_rate ccfg =
     do {
       (blocks, st) \<leftarrow> prefix_setup ccfg 1;
       (pc, bm) \<leftarrow> pc_insert [1, 2, 3, 4] blocks st;
       (_, pc) \<leftarrow> pc_lookup [1, 2, 3, 4] pc;
       (_, pc) \<leftarrow> pc_lookup [1, 2, 3, 4] pc;
       (_, pc) \<leftarrow> pc_lookup [99, 98, 97, 96] pc;
       let stats = pc_stats pc;
       Some [ps_lookups stats = 3, ps_hits stats = 2, ps_misses stats = 1, 6 / 10 < hit_rate pc]
     }"

definition test_stats_reset :: "cache_config \<Rightarrow> bool list option" where
  "test_stats_reset ccfg =
     do {
       (blocks, st) \<leftarrow> prefix_setup ccfg 1;
       (pc, bm) \<leftarrow> pc_insert [1, 2, 3, 4] blocks st;
       (_, pc) \<leftarrow> pc_lookup [1, 2, 3, 4] pc;
       let stats = pc_stats (pc_reset_stats pc);
       Some [ps_lookups stats = 0, ps_hits stats = 0]
     }"

lemma insert_and_lookup_passes: "test_insert_and_lookup ccfg = Some [True, True]"
  by (cases ccfg) (hypsubst, code_simp)

lemma partial_match_passes: "test_partial_match ccfg = Some [True, True]"
  by (cases ccfg) (hypsubst, code_simp)

lemma no_match_passes: "test_no_match ccfg = Some [True, True]"
  by (cases ccfg) (hypsubst, code_simp)

lemma hit_rate_passes: "test_hit_rate ccfg = Some (replicate 4 True)"
  by (cases ccfg) (hypsubst, code_simp)

lemma stats_reset_passes: "test_stats_reset ccfg = Some [True, True]"
  by (cases ccfg) (hypsubst, code_simp)

end
