(* ===== verification/Serving_Tests.thy ===== *)
theory Serving_Tests
  imports Batch_Manager
begin

text \<open>
  The unit tests of the scheduler and the batch manager, \<open>test_scheduler.cpp\<close> and
  \<open>test_batch_manager.cpp\<close> under \<open>src/tests\<close>, replayed on the model: each test is the list of the
  values of its assertions. The requests are at the addresses \<open>0\<close>, \<open>1\<close> and so on, and \<open>clock\<close> gives
  the readings of the clock.
\<close>

section \<open>Scheduler\<close>

text \<open>A scheduler with its block manager, and a request.\<close>

definition test_sched :: "cache_config \<Rightarrow> scheduler_config \<Rightarrow> scheduler" where
  "test_sched ccfg scfg = scheduler_new scfg (block_manager_new ccfg default_model_config)"

definition test_group :: "time_point \<Rightarrow> seq_id \<Rightarrow> token_id list \<Rightarrow> int \<Rightarrow> int \<Rightarrow> sequence_group" where
  "test_group now rid prompt n prio =
     sequence_group_new now rid prompt (default_sampling_params\<lparr>max_tokens := n\<rparr>) prio"

definition test_add_and_schedule :: "time_point \<Rightarrow> bool list option" where
  "test_add_and_schedule clock =
     do {
       let sched = test_sched (default_cache_config\<lparr>num_gpu_blocks := 1024, num_cpu_blocks := 512\<rparr>)
         (default_scheduler_config\<lparr>max_num_seqs := 4, max_num_batched_tokens := 2048\<rparr>);
       let a1 = [num_total sched = 0];
       let sched = add_request 0 (test_group clock 1 [1, 2, 3, 4, 5, 6, 7, 8] 10 0) sched;
       let a2 = [num_waiting sched = 1, num_running sched = 0];
       (out, sched) \<leftarrow> schedule sched;
       Some (a1 @ a2 @ [\<not> output_is_empty out, length (scheduled_groups out) = 1, num_running sched = 1, num_waiting sched = 0])
     }"

text \<open>The loop that adds \<open>n\<close> requests whose prompts repeat one token; \<open>prio\<close> gives the priorities.\<close>

definition add_requests :: "time_point \<Rightarrow> nat \<Rightarrow> (nat \<Rightarrow> token_id list) \<Rightarrow> int \<Rightarrow> (nat \<Rightarrow> int) \<Rightarrow> scheduler \<Rightarrow> scheduler" where
  "add_requests clock n prompt m prio =
     fold (\<lambda>i. add_request i (test_group clock (word_of_nat i) (prompt i) m (prio i))) [0..<n]"

definition test_multiple_requests :: "time_point \<Rightarrow> bool list option" where
  "test_multiple_requests clock =
     do {
       let sched = test_sched (default_cache_config\<lparr>num_gpu_blocks := 2048\<rparr>) (default_scheduler_config\<lparr>max_num_seqs := 8, max_num_batched_tokens := 4096\<rparr>);
       let sched = add_requests clock 5 (\<lambda>i. replicate 32 (int (i + 1))) 16 (\<lambda>i. 0) sched;
       let a1 = [num_waiting sched = 5];
       (out, sched) \<leftarrow> schedule sched;
       Some (a1 @ [length (scheduled_groups out) = 5, num_running sched = 5])
     }"

definition test_priority_scheduling :: "time_point \<Rightarrow> bool list option" where
  "test_priority_scheduling clock =
     do {
       let sched = test_sched (default_cache_config\<lparr>num_gpu_blocks := 2048\<rparr>) (default_scheduler_config
         \<lparr>max_num_seqs := 1, max_num_batched_tokens := 4096, policy := PRIORITY\<rparr>);
       let sched = add_requests clock 3 (\<lambda>i. replicate 16 1) 8 int sched;
       (out, sched) \<leftarrow> schedule sched;
       p \<leftarrow> vec_at (scheduled_groups out) 0;
       grp \<leftarrow> sc_heap sched p;
       Some [length (scheduled_groups out) = 1, priority grp = 2]
     }"

definition test_abort_request :: "time_point \<Rightarrow> bool list option" where
  "test_abort_request clock =
     do {
       let sched = test_sched (default_cache_config\<lparr>num_gpu_blocks := 1024\<rparr>) default_scheduler_config;
       let sched = add_request 0 (sequence_group_new clock 42 (replicate 16 1) default_sampling_params 0) sched;
       (_, sched) \<leftarrow> schedule sched;
       let a1 = [num_running sched = 1];
       sched \<leftarrow> abort_request 42 sched;
       sched \<leftarrow> free_finished_requests sched;
       Some a1
     }"

section \<open>Batch manager\<close>

definition test_build_batch_prefill :: "time_point \<Rightarrow> bool list option" where
  "test_build_batch_prefill clock =
     do {
       let scfg = default_scheduler_config\<lparr>max_num_batched_tokens := 4096\<rparr>;
       let sched = add_request 0 (test_group clock 1 [1, 2, 3, 4, 5, 6, 7, 8] 4 0) (test_sched (default_cache_config\<lparr>num_gpu_blocks := 1024\<rparr>) scfg);
       (out, sched) \<leftarrow> schedule sched;
       (batch, batch_mgr) \<leftarrow> build_batch (sc_heap sched) out (batch_manager_new default_model_config scfg);
       e \<leftarrow> vec_at (entries batch) 0;
       let stats = last_stats batch_mgr;
       Some [\<not> batch_empty batch, total_tokens batch = 8, be_is_prefill e, num_prefill_tokens stats = 8, num_decode_tokens stats = 0]
     }"

definition test_build_batch_decode :: "time_point \<Rightarrow> (nat \<Rightarrow> time_point) \<Rightarrow> bool list option" where
  "test_build_batch_decode clock now =
     do {
       let scfg = default_scheduler_config;
       let sched = add_request 0 (test_group clock 1 [1, 2, 3, 4] 4 0) (test_sched (default_cache_config\<lparr>num_gpu_blocks := 1024\<rparr>) scfg);
       (out, sched) \<leftarrow> schedule sched;
       (batch, batch_mgr) \<leftarrow> build_batch (sc_heap sched) out (batch_manager_new default_model_config scfg);
       h \<leftarrow> update_after_decode now out [100] (sc_heap sched);
       (out2, sched) \<leftarrow> schedule (sched\<lparr>sc_heap := h\<rparr>);
       (batch2, batch_mgr) \<leftarrow> build_batch (sc_heap sched) out2 batch_mgr;
       Some [\<not> batch_empty batch2, num_decode_tokens (last_stats batch_mgr) = 1]
     }"

definition test_update_appends_token :: "time_point \<Rightarrow> (nat \<Rightarrow> time_point) \<Rightarrow> bool list option" where
  "test_update_appends_token clock now =
     do {
       let scfg = default_scheduler_config;
       let sched = add_request 0 (test_group clock 1 [1, 2, 3, 4] 10 0) (test_sched (default_cache_config\<lparr>num_gpu_blocks := 1024\<rparr>) scfg);
       (out, sched) \<leftarrow> schedule sched;
       (batch, batch_mgr) \<leftarrow> build_batch (sc_heap sched) out (batch_manager_new default_model_config scfg);
       h \<leftarrow> update_after_decode now out [42] (sc_heap sched);
       p \<leftarrow> vec_at (scheduled_groups out) 0;
       grp \<leftarrow> h p;
       seq \<leftarrow> vec_at (sequences grp) 0;
       t \<leftarrow> vec_at (output_tokens seq) 0;
       Some [output_len seq = 1, t = 42]
     }"

definition test_multi_sequence_batch :: "time_point \<Rightarrow> bool list option" where
  "test_multi_sequence_batch clock =
     do {
       let scfg = default_scheduler_config\<lparr>max_num_seqs := 4\<rparr>;
       let sched = add_requests clock 3 (\<lambda>i. replicate 16 (int (i + 1))) 8 (\<lambda>i. 0) (test_sched (default_cache_config\<lparr>num_gpu_blocks := 2048\<rparr>) scfg);
       (out, sched) \<leftarrow> schedule sched;
       (batch, batch_mgr) \<leftarrow> build_batch (sc_heap sched) out (batch_manager_new default_model_config scfg);
       let stats = last_stats batch_mgr;
       Some [num_sequences stats = 3, num_prefill_tokens stats = 48]
     }"

section \<open>All tests pass\<close>

text \<open>The first blocks of a large cache; the rest of the lists plays no role.\<close>

lemma new_manager_first:
  assumes "k \<le> num_gpu_blocks c"
  obtains B F CB CF where "block_manager_new c m =
    \<lparr>bm_config = c, bm_model_config = m, gpu_blocks = init_block_list k CUDA @ B, cpu_blocks = CB,
     gpu_free_list = F @ init_free_list k, cpu_free_list = CF, seq_block_map = Map.empty\<rparr>"
proof -
  let ?n = "num_gpu_blocks c"
  have b: "[0..<?n] = [0..<k] @ [k..<?n]" using assms upt_add_eq_append [of 0 k "?n - k"] by simp
  have f: "[0..<?n] = [0..<?n - k] @ map (\<lambda>j. ?n - k + j) [0..<k]"
    using assms by (intro nth_equalityI) (auto simp: nth_append)
  have "init_free_list ?n = map (\<lambda>i. to_i32 (int (?n - 1 - i))) [0..<?n - k] @ init_free_list k"
    using assms unfolding init_free_list_def f map_append map_map by (intro arg_cong2 [where f = append] refl map_cong) simp_all
  then show thesis
    using that unfolding block_manager_new_def init_block_list_def b map_append by metis
qed

lemmas sched_test_eval = test_sched_def test_group_def sequence_group_new_def default_scheduler_config_def
  default_cache_config_def default_sampling_params_def num_total_def num_waiting_def num_running_def output_is_empty_def
  init_block_list_def init_free_list_def KV_BLOCK_SIZE_def size_sub_def total_len_def prompt_len_def output_len_def
  num_blocks_needed_def free_list_for_def put_free_list_def update_block_def blocks_for_def put_blocks_def
  emplace_seq_block_def seq_blocks_def fresh_phys_block_def INVALID_BLOCK_def allocate_block_def pop_free_def push_free_def
  can_allocate_def bm_block_size_def free_block_def free_blocks_def vec_at_def sched_eval butlast_append

lemma add_and_schedule_passes: "test_add_and_schedule clock = Some [True, True, True, True, True, True, True]"
  by (rule new_manager_first [of 1 "default_cache_config\<lparr>num_gpu_blocks := 1024, num_cpu_blocks := 512\<rparr>" default_model_config])
    (simp_all add: test_add_and_schedule_def sched_test_eval)

lemma alloc_two: "alloc_n f 2 = alloc_n f (Suc (Suc 0))"
  by (simp add: numeral_2_eq_2)

lemma multiple_requests_passes: "test_multiple_requests clock = Some [True, True, True]"
  by (rule new_manager_first [of 10 "default_cache_config\<lparr>num_gpu_blocks := 2048\<rparr>" default_model_config])
    (simp_all add: test_multiple_requests_def add_requests_def upt_rec alloc_two sched_test_eval)

lemma priority_scheduling_passes: "test_priority_scheduling clock = Some [True, True]"
  by (rule new_manager_first [of 1 "default_cache_config\<lparr>num_gpu_blocks := 2048\<rparr>" default_model_config])
    (simp_all add: test_priority_scheduling_def add_requests_def upt_rec waiting_key_def sched_test_eval)

lemma abort_request_passes: "test_abort_request clock = Some [True]"
  by (rule new_manager_first [of 1 "default_cache_config\<lparr>num_gpu_blocks := 1024\<rparr>" default_model_config])
    (simp_all add: test_abort_request_def sched_test_eval)

lemmas batch_test_eval = build_batch_def batch_manager_new_def batch_clear_def zero_batch_stats_def batch_seq_def
  batch_prefill_def batch_add_def batch_empty_def last_stats_def last_token_def compute_padding_def max_position_def

lemma build_batch_prefill_passes: "test_build_batch_prefill clock = Some [True, True, True, True, True]"
  by (rule new_manager_first [of 1 "default_cache_config\<lparr>num_gpu_blocks := 1024\<rparr>" default_model_config])
    (simp_all add: test_build_batch_prefill_def sched_test_eval batch_test_eval)

lemma build_batch_decode_passes: "test_build_batch_decode clock now = Some [True, True]"
  by (rule new_manager_first [of 1 "default_cache_config\<lparr>num_gpu_blocks := 1024\<rparr>" default_model_config])
    (simp_all add: test_build_batch_decode_def sched_test_eval batch_test_eval batch_eval)

lemma update_appends_token_passes: "test_update_appends_token clock now = Some [True, True]"
  by (rule new_manager_first [of 1 "default_cache_config\<lparr>num_gpu_blocks := 1024\<rparr>" default_model_config])
    (simp_all add: test_update_appends_token_def sched_test_eval batch_test_eval batch_eval)

lemma multi_sequence_batch_passes: "test_multi_sequence_batch clock = Some [True, True]"
  by (rule new_manager_first [of 3 "default_cache_config\<lparr>num_gpu_blocks := 2048\<rparr>" default_model_config])
    (simp_all add: test_multi_sequence_batch_def add_requests_def upt_rec sched_test_eval batch_test_eval)

end
