(* ===== verification/Profiler_Tests.thy ===== *)
theory Profiler_Tests
  imports Profiler_Report "HOL-Library.Sublist"
begin

text \<open>
  The unit tests of the metrics and the profiler, \<open>src/tests/test_profiler.cpp\<close>, replayed on the model:
  each test is the list of the values of its assertions. Readings of the clock are arguments; the
  tests sleep between some of them, which is what a lemma may assume of them.
\<close>

section \<open>Metrics\<close>

definition test_running_stats :: "bool list" where
  "test_running_stats =
     (let stats = rs_update 30 (rs_update 20 (rs_update 10 running_stats_new))
      in [rs_count stats = 3, \<bar>rs_mean stats - 20\<bar> < 1 / 100, rs_min stats = 10, rs_max stats = 30, 0 < rs_stddev stats,
          rs_count (rs_reset stats) = 0])"

definition test_histogram :: "bool list option" where
  "test_histogram =
     do {
       hist \<leftarrow> foldM (\<lambda>i. hg_record (real i)) [0..<100] (histogram_new 0 100 100);
       let a1 = [hg_total hist = 100];
       p50 \<leftarrow> hg_percentile 50 hist;
       let a2 = [45 < p50 \<and> p50 < 55];
       p99 \<leftarrow> hg_percentile 99 hist;
       let a3 = [95 < p99];
       hist \<leftarrow> hg_record (- 5) hist;
       let a4 = [hg_underflow hist = 1];
       hist \<leftarrow> hg_record 200 hist;
       Some (a1 @ a2 @ a3 @ a4 @ [hg_overflow hist = 1])
     }"

definition test_throughput_meter :: "bool list" where
  "test_throughput_meter =
     (let meter = record_interval 20 (record_tokens 200 (record_interval 10 (record_tokens 100 throughput_meter_new)));
          tps = tokens_per_sec meter
      in [tm_total_tokens meter = 300, 0 < tps, \<bar>tps - 10000\<bar> < 100, tm_total_tokens (tm_reset meter) = 0])"

lemma running_stats_passes: "test_running_stats = [True, True, True, True, True, True]"
  by (simp add: test_running_stats_def running_stats_new_def rs_update_def rs_stddev_def rs_variance_def rs_reset_def Let_def)

lemma throughput_meter_passes: "test_throughput_meter = [True, True, True, True]"
  by (simp add: test_throughput_meter_def record_interval_def record_tokens_def throughput_meter_new_def tokens_per_sec_def
      tm_reset_def)

text \<open>Each of the hundred values fills the bin of its own, so the percentiles are the middles of the bins of their ranks.\<close>

lemma hundred_records:
  "k \<le> 100 \<Longrightarrow> foldM (\<lambda>i. hg_record (real i)) [0..<k] (histogram_new 0 100 100) =
     Some ((histogram_new 0 100 100)\<lparr>hg_bins := replicate k 1 @ replicate (100 - k) 0, hg_total := k\<rparr>)"
proof (induction k)
  case (Suc k)
  obtain m where m: "100 - k = Suc m" "100 - Suc k = m" using Suc.prems by (metis Suc_diff_Suc Suc_le_lessD)
  have "replicate k 1 @ 1 # replicate m 0 = replicate (Suc k) 1 @ replicate m (0 :: nat)" by (simp add: replicate_app_Cons_same)
  then show ?case
    using Suc m by (simp add: foldM_append hg_record_def histogram_new_def vec_at_def nth_append list_update_append Let_def)
qed (simp add: histogram_new_def)

lemma scan_ones: "c < t \<Longrightarrow> t \<le> c + n \<Longrightarrow> percentile_scan (replicate n 1) i c t = Some (i + (t - c - 1))"
proof (induction n arbitrary: i c)
  case (Suc n)
  then show ?case by (cases "c + 1 < t") auto
qed simp

lemma histogram_passes: "test_histogram = Some [True, True, True, True, True]"
proof -
  define h where "h = (histogram_new 0 100 100)\<lparr>hg_bins := replicate 100 1, hg_total := 100\<rparr>"
  have h: "foldM (\<lambda>i. hg_record (real i)) [0..<100] (histogram_new 0 100 100) = Some h"
    using hundred_records [of 100] by (simp add: h_def)
  have "hg_percentile 50 h = Some (99 / 2)" "hg_percentile 99 h = Some (197 / 2)"
    using scan_ones [of 0 50 100 0] scan_ones [of 0 99 100 0] by (simp_all add: hg_percentile_def h_def histogram_new_def size_max_def)
  then show ?thesis unfolding test_histogram_def h by (simp add: hg_record_def h_def histogram_new_def)
qed

section \<open>Profiler\<close>

definition test_profiler_new :: "time_point \<Rightarrow> profiler" where
  "test_profiler_new now = profiler_new False now (default_profiler_config\<lparr>enable_tracing := False\<rparr>)"

text \<open>One step: \<open>n\<close> tokens in \<open>ms\<close> milliseconds; \<open>t\<close> gives the readings of the clock.\<close>

definition test_step :: "nat \<Rightarrow> (nat \<Rightarrow> time_point) \<Rightarrow> nat \<Rightarrow> real \<Rightarrow> profiler \<Rightarrow> profiler option" where
  "test_step hash t n ms prof = end_step hash (t 1) (t 2) None ms (begin_step hash (t 0) n prof)"

definition test_profiler_lifecycle :: "nat \<Rightarrow> (nat \<Rightarrow> time_point) \<Rightarrow> bool list option" where
  "test_profiler_lifecycle hash t =
     do {
       prof \<leftarrow> test_step hash (\<lambda>i. t (1 + i)) 32 (3 / 2) (test_profiler_new (t 0));
       prof \<leftarrow> test_step hash (\<lambda>i. t (4 + i)) 64 2 prof;
       snap \<leftarrow> snapshot None None None prof;
       Some [0 < throughput_tok_per_sec snap, 0 < avg_latency_ms snap]
     }"

definition test_request_tracking :: "nat \<Rightarrow> (nat \<Rightarrow> time_point) \<Rightarrow> bool list" where
  "test_request_tracking hash t =
     (let prof = record_request_end hash (t 3) (t 4) 1 10
        (record_first_token (t 2) 1 (record_request_start (t 1) 1 (test_profiler_new (t 0))))
      in [rs_count (ttft_stats prof) = 1, 0 < rs_mean (ttft_stats prof), rs_count (tpot_stats prof) = 1])"

definition test_dump_summary :: "nat \<Rightarrow> (nat \<Rightarrow> time_point) \<Rightarrow> bool list option" where
  "test_dump_summary hash t =
     do {
       prof \<leftarrow> test_step hash (\<lambda>i. t (1 + i)) 100 5 (test_profiler_new (t 0));
       oss \<leftarrow> dump_summary None None None prof ostream_new;
       Some [sublist ''CacheFlow'' (os_text oss), sublist ''Throughput'' (os_text oss)]
     }"

definition test_profiler_reset :: "nat \<Rightarrow> (nat \<Rightarrow> time_point) \<Rightarrow> bool list option" where
  "test_profiler_reset hash t =
     do {
       prof \<leftarrow> test_step hash (\<lambda>i. t (1 + i)) 50 3 (test_profiler_new (t 0));
       snap \<leftarrow> snapshot None None None (profiler_reset prof);
       Some [total_tokens_generated snap = 0, avg_latency_ms snap = 0]
     }"

lemma request_tracking_passes:
  assumes "t 1 < t 2"
  shows "test_request_tracking hash t = [True, True, True]"
  using assms
  by (simp add: test_request_tracking_def test_profiler_new_def profiler_new_def default_profiler_config_def record_request_start_def
      record_first_token_def record_request_end_def trace_counter_to_def rs_update_def running_stats_new_def ms_between_def Let_def)

text \<open>A step keeps the histogram sound, and with few steps every snapshot is defined.\<close>

lemma test_step_result:
  assumes "hg_wf (latency_hist prof)"
  obtains prof' where "test_step hash t n ms prof = Some prof'" "hg_wf (latency_hist prof')"
    "step_latency prof' = rs_update ms (step_latency prof)"
    "throughput prof' = record_interval ms (record_tokens n (throughput prof))"
    "hg_total (latency_hist prof') \<le> Suc (hg_total (latency_hist prof))"
proof -
  obtain h where "hg_record ms (latency_hist prof) = Some h" "hg_wf h" "hg_total h \<le> Suc (hg_total (latency_hist prof))"
    using hg_record_wf [OF assms, of ms] by (auto simp: hg_record_def Let_def bind_eq_Some_conv split: if_splits)
  then show thesis
    using that by (simp add: test_step_def end_step_def begin_step_def trace_event_to_def Let_def)
qed

lemma test_profiler_start:
  "hg_wf (latency_hist (test_profiler_new now))" "hg_total (latency_hist (test_profiler_new now)) = 0"
  "step_latency (test_profiler_new now) = running_stats_new" "throughput (test_profiler_new now) = throughput_meter_new"
  using hg_wf_new [of 500 0 500]
  by (simp_all add: test_profiler_new_def profiler_new_def default_profiler_config_def histogram_new_def size_max_def)

lemma few_steps_snapshot:
  assumes "hg_total (latency_hist prof) < size_max"
  obtains snap where "snapshot None None None prof = Some snap" "throughput_tok_per_sec snap = tokens_per_sec (throughput prof)"
    "avg_latency_ms snap = rs_mean (step_latency prof)" "total_tokens_generated snap = tm_total_tokens (throughput prof)"
proof -
  have "\<exists>x. hg_percentile p (latency_hist prof) = Some x" if "0 \<le> p" "p \<le> 100" for p
    using hg_percentile_defined [OF that assms] .
  from this [of 50] this [of 90] this [of 95] this [of 99] show thesis using that by (auto simp: snapshot_def)
qed

lemma profiler_lifecycle_passes: "test_profiler_lifecycle hash t = Some [True, True]"
proof -
  obtain p1 where p1: "test_step hash (\<lambda>i. t (1 + i)) 32 (3 / 2) (test_profiler_new (t 0)) = Some p1" "hg_wf (latency_hist p1)"
      "step_latency p1 = rs_update (3 / 2) running_stats_new" "throughput p1 = record_interval (3 / 2) (record_tokens 32 throughput_meter_new)"
      "hg_total (latency_hist p1) \<le> 1"
    using test_step_result [OF test_profiler_start(1)] unfolding test_profiler_start One_nat_def by metis
  obtain p2 where p2: "test_step hash (\<lambda>i. t (4 + i)) 64 2 p1 = Some p2"
      "step_latency p2 = rs_update 2 (step_latency p1)" "throughput p2 = record_interval 2 (record_tokens 64 (throughput p1))"
      "hg_total (latency_hist p2) \<le> Suc (hg_total (latency_hist p1))"
    using test_step_result [OF p1(2)] by metis
  have "hg_total (latency_hist p2) < size_max" using p1(5) p2(4) by (simp add: size_max_def)
  then obtain snap where "snapshot None None None p2 = Some snap" "throughput_tok_per_sec snap = tokens_per_sec (throughput p2)"
      "avg_latency_ms snap = rs_mean (step_latency p2)" by (rule few_steps_snapshot)
  then show ?thesis
    using p1(1,3,4) p2(1-3)
    by (simp add: test_profiler_lifecycle_def record_interval_def record_tokens_def throughput_meter_new_def tokens_per_sec_def
        rs_update_def running_stats_new_def Let_def field_simps)
qed

lemma profiler_reset_passes: "test_profiler_reset hash t = Some [True, True]"
proof -
  obtain p1 where p1: "test_step hash (\<lambda>i. t (1 + i)) 50 3 (test_profiler_new (t 0)) = Some p1"
    using test_step_result [OF test_profiler_start(1)] by metis
  have "hg_total (latency_hist (profiler_reset p1)) < size_max" by (simp add: profiler_reset_def hg_reset_def size_max_def)
  then obtain snap where "snapshot None None None (profiler_reset p1) = Some snap"
      "avg_latency_ms snap = rs_mean (step_latency (profiler_reset p1))"
      "total_tokens_generated snap = tm_total_tokens (throughput (profiler_reset p1))" by (rule few_steps_snapshot)
  then show ?thesis using p1 by (simp add: test_profiler_reset_def profiler_reset_def rs_reset_def tm_reset_def)
qed

text \<open>The words are in lines of the summary.\<close>

lemma sublist_line: "l \<in> set ls \<Longrightarrow> sublist w l \<Longrightarrow> sublist w (a @ concat (map (\<lambda>l. l @ b) ls))"
proof (induction ls arbitrary: a)
  case (Cons k ls)
  show ?case
  proof (cases "l = k")
    case True
    then obtain ps ss where "k = ps @ w @ ss" using Cons.prems(2) by (auto simp: sublist_def)
    then have "a @ concat (map (\<lambda>l. l @ b) (k # ls)) = (a @ ps) @ w @ ss @ b @ concat (map (\<lambda>l. l @ b) ls)" by simp
    then show ?thesis unfolding sublist_def by blast
  next
    case False
    then show ?thesis using Cons.IH [of "a @ k @ b"] Cons.prems by simp
  qed
qed simp

lemma dump_summary_passes: "test_dump_summary hash t = Some [True, True]"
proof -
  obtain p1 where p1: "test_step hash (\<lambda>i. t (1 + i)) 100 5 (test_profiler_new (t 0)) = Some p1"
      "hg_total (latency_hist p1) \<le> 1"
    using test_step_result [OF test_profiler_start(1)] unfolding test_profiler_start One_nat_def by metis
  have "hg_total (latency_hist p1) < size_max" using p1(2) by (simp add: size_max_def)
  then obtain s where s: "snapshot None None None p1 = Some s" by (rule few_steps_snapshot)
  let ?title = "box_v @ ''          CacheFlow Performance Summary           '' @ box_v"
  let ?row = "box_v @ '' Throughput:    '' @ field_of (fixed_str 2 (throughput_tok_per_sec s)) @ '' tok/s           '' @ box_v"
  have "?title \<in> set (summary_lines s)" "?row \<in> set (summary_lines s)" by (simp_all only: summary_lines_def list.set insert_iff simp_thms)
  moreover have "sublist ''CacheFlow'' ?title" unfolding sublist_def
    by (rule exI [of _ "box_v @ ''          ''"], rule exI [of _ "'' Performance Summary           '' @ box_v"]) simp
  moreover have "sublist ''Throughput'' ?row" unfolding sublist_def
    by (rule exI [of _ "box_v @ '' ''"], rule exI [of _ "'':    '' @ field_of (fixed_str 2 (throughput_tok_per_sec s)) @ '' tok/s           '' @ box_v"]) simp
  ultimately have "sublist ''CacheFlow'' (nl @ concat (map (\<lambda>l. l @ nl) (summary_lines s)))"
      "sublist ''Throughput'' (nl @ concat (map (\<lambda>l. l @ nl) (summary_lines s)))" by (blast intro: sublist_line)+
  moreover have "dump_summary None None None p1 ostream_new =
      Some (ostream_new\<lparr>os_fixed := True, os_precision := 2, os_text := nl @ concat (map (\<lambda>l. l @ nl) (summary_lines s))\<rparr>)"
    unfolding dump_summary_def s using summary_text [of ostream_new s] by (simp add: ostream_new_def)
  ultimately show ?thesis unfolding test_dump_summary_def p1(1) by simp
qed

end
