(* ===== verification/Kv_Kernels.thy ===== *)
theory Kv_Kernels
  imports Common "HOL-Library.Multiset"
begin

text \<open>
  The CUDA kernels that move data inside the paged KV cache,
  \<open>src/src/cacheflow/cuda/kv_cache_kernels.cu\<close> and \<open>memset_blocks_kernel\<close> of \<open>memory_utils.cu\<close>.

  A launch runs its threads in an order the hardware chooses. The order is an argument, a list of
  the threads of the grid, and the theorems hold for every permutation of the grid. One iteration
  of a thread's loop is one step; the theorems only cover launches in which no element is written
  by one thread and accessed by another, so that finer interleavings cannot be observed. Arrays are
  lists of reals; an access outside an array or an overflow of a signed index is undefined (\<open>None\<close>).
\<close>

section \<open>Arrays and threads\<close>

definition arr_get :: "'a list \<Rightarrow> int \<Rightarrow> 'a option" where
  "arr_get xs i = (if i < 0 then None else vec_at xs (nat i))"

definition arr_set :: "'a list \<Rightarrow> int \<Rightarrow> 'a \<Rightarrow> 'a list option" where
  "arr_set xs i v = (if i < 0 then None else vec_set xs (nat i) v)"

definition chk_i64 :: "int \<Rightarrow> int option" where
  "chk_i64 x = (if - (2 ^ 63) \<le> x \<and> x < 2 ^ 63 then Some x else None)"

text \<open>The loop \<open>for (i = start; i < stop; i += step)\<close>: the indices it visits.\<close>

function strided :: "nat \<Rightarrow> nat \<Rightarrow> nat \<Rightarrow> nat list" where
  "strided i stop step = (if i < stop \<and> 0 < step then i # strided (i + step) stop step else [])"
  by pat_completeness auto

termination strided
  by (relation "measure (\<lambda>(i, stop, step). stop - i)") auto

declare strided.simps [simp del]

text \<open>The threads of a grid: block indices and the index within the block.\<close>

definition grid2 :: "nat \<Rightarrow> nat \<Rightarrow> (nat \<times> nat) list" where
  "grid2 nx nt = List.product [0..<nx] [0..<nt]"

definition grid3 :: "nat \<Rightarrow> nat \<Rightarrow> nat \<Rightarrow> (nat \<times> nat \<times> nat) list" where
  "grid3 nx ny nt = List.product [0..<nx] (List.product [0..<ny] [0..<nt])"

type_synonym kv_arrays = "real list \<times> real list"

text \<open>One element of the key cache and of the value cache.\<close>

definition put_kv :: "int \<Rightarrow> real \<Rightarrow> real \<Rightarrow> kv_arrays \<Rightarrow> kv_arrays option" where
  "put_kv i k v = (\<lambda>(kc, vc). do { kc1 \<leftarrow> arr_set kc i k; vc1 \<leftarrow> arr_set vc i v; Some (kc1, vc1) })"

definition copy_kv :: "int \<Rightarrow> int \<Rightarrow> kv_arrays \<Rightarrow> kv_arrays option" where
  "copy_kv dst src = (\<lambda>(kc, vc).
     do {
       k \<leftarrow> arr_get kc src;
       kc1 \<leftarrow> arr_set kc dst k;
       v \<leftarrow> arr_get vc src;
       vc1 \<leftarrow> arr_set vc dst v;
       Some (kc1, vc1)
     })"

section \<open>Writing new keys and values\<close>

definition paged_offset :: "int \<Rightarrow> int \<Rightarrow> int \<Rightarrow> int \<Rightarrow> int \<Rightarrow> int \<Rightarrow> int \<Rightarrow> int option" where
  "paged_offset kv_heads bs hdim blk h off d =
     do {
       a \<leftarrow> chk_i32 (blk * kv_heads);
       b \<leftarrow> chk_i32 (a + h);
       c \<leftarrow> chk_i32 (b * bs);
       e \<leftarrow> chk_i32 (c + off);
       f \<leftarrow> chk_i32 (e * hdim);
       chk_i32 (f + d)
     }"

definition reshape_and_cache_kernel ::
    "real list \<Rightarrow> real list \<Rightarrow> int option list \<Rightarrow> int \<Rightarrow> int \<Rightarrow> int \<Rightarrow> int \<Rightarrow> nat \<times> nat \<times> nat \<Rightarrow> kv_arrays \<Rightarrow> kv_arrays option" where
  "reshape_and_cache_kernel key val slot_mapping num_tokens kv_heads hdim bs = (\<lambda>(token_idx, head_idx, d) st.
     if int token_idx \<ge> num_tokens \<or> int d \<ge> hdim then Some st
     else do {
       slot' \<leftarrow> arr_get slot_mapping (int token_idx);
       slot \<leftarrow> slot';
       block_idx \<leftarrow> div_i32 slot bs;
       block_off \<leftarrow> mod_i32 slot bs;
       a \<leftarrow> chk_i32 (int token_idx * kv_heads);
       b \<leftarrow> chk_i32 (a + int head_idx);
       c \<leftarrow> chk_i32 (b * hdim);
       src_off \<leftarrow> chk_i32 (c + int d);
       dst_off \<leftarrow> paged_offset kv_heads bs hdim block_idx (int head_idx) block_off (int d);
       k \<leftarrow> arr_get key src_off;
       v \<leftarrow> arr_get val src_off;
       put_kv dst_off k v st
     })"

definition reshape_grid :: "int \<Rightarrow> int \<Rightarrow> int \<Rightarrow> (nat \<times> nat \<times> nat) list" where
  "reshape_grid num_tokens kv_heads hdim = grid3 (nat num_tokens) (nat kv_heads) (nat hdim)"

definition launch_reshape_and_cache ::
    "(nat \<times> nat \<times> nat) list \<Rightarrow> real list \<Rightarrow> real list \<Rightarrow> int option list \<Rightarrow> int \<Rightarrow> int \<Rightarrow> int \<Rightarrow> int \<Rightarrow>
     kv_arrays \<Rightarrow> kv_arrays option" where
  "launch_reshape_and_cache order key val slot_mapping num_tokens kv_heads hdim bs =
     foldM (reshape_and_cache_kernel key val slot_mapping num_tokens kv_heads hdim bs) order"

section \<open>Copying blocks\<close>

definition elems_per_block :: "int \<Rightarrow> int \<Rightarrow> int \<Rightarrow> int option" where
  "elems_per_block kv_heads bs hdim = do { a \<leftarrow> chk_i32 (kv_heads * bs); chk_i32 (a * hdim) }"

definition copy_blocks_kernel ::
    "int list \<Rightarrow> int \<Rightarrow> int \<Rightarrow> int \<Rightarrow> nat \<times> nat \<times> nat \<Rightarrow> kv_arrays \<Rightarrow> kv_arrays option" where
  "copy_blocks_kernel block_mapping kv_heads hdim bs = (\<lambda>(pair_idx, block_y, thread) st.
     do {
       i \<leftarrow> chk_i32 (int pair_idx * 2);
       src_block \<leftarrow> arr_get block_mapping i;
       dst_block \<leftarrow> arr_get block_mapping (i + 1);
       epb \<leftarrow> elems_per_block kv_heads bs hdim;
       let tid = to_i32 (int (thread + block_y * 256));
       if tid < epb then do {
         d0 \<leftarrow> chk_i64 (dst_block * epb);
         d \<leftarrow> chk_i64 (d0 + tid);
         s0 \<leftarrow> chk_i64 (src_block * epb);
         s \<leftarrow> chk_i64 (s0 + tid);
         copy_kv d s st
       } else Some st
     })"

text \<open>The number of thread blocks that cover one cache block with 256 threads each.\<close>

definition blocks_y :: "int \<Rightarrow> int option" where
  "blocks_y epb = do { a \<leftarrow> chk_i32 (epb + 256); div_i32 (a - 1) 256 }"

definition copy_grid :: "int \<Rightarrow> int \<Rightarrow> int \<Rightarrow> int \<Rightarrow> (nat \<times> nat \<times> nat) list option" where
  "copy_grid num kv_heads hdim bs =
     do {
       epb \<leftarrow> elems_per_block kv_heads bs hdim;
       ny \<leftarrow> blocks_y epb;
       Some (grid3 (nat num) (nat ny) 256)
     }"

definition launch_copy_blocks ::
    "(nat \<times> nat \<times> nat) list \<Rightarrow> int list \<Rightarrow> int \<Rightarrow> int \<Rightarrow> int \<Rightarrow> kv_arrays \<Rightarrow> kv_arrays option" where
  "launch_copy_blocks order block_mapping kv_heads hdim bs =
     foldM (copy_blocks_kernel block_mapping kv_heads hdim bs) order"

section \<open>Swapping blocks between caches\<close>

definition swap_blocks_kernel ::
    "real list \<Rightarrow> int list \<Rightarrow> int \<Rightarrow> nat \<times> nat \<Rightarrow> real list \<Rightarrow> real list option" where
  "swap_blocks_kernel src_cache block_mapping elems = (\<lambda>(pair_idx, thread) dst_cache.
     do {
       i \<leftarrow> chk_i32 (int pair_idx * 2);
       src_block \<leftarrow> arr_get block_mapping i;
       dst_block \<leftarrow> arr_get block_mapping (i + 1);
       foldM (\<lambda>i dc.
         do {
           s0 \<leftarrow> chk_i64 (src_block * elems);
           s \<leftarrow> chk_i64 (s0 + int i);
           x \<leftarrow> arr_get src_cache s;
           d0 \<leftarrow> chk_i64 (dst_block * elems);
           d \<leftarrow> chk_i64 (d0 + int i);
           arr_set dc d x
         }) (strided thread (nat elems) 256) dst_cache
     })"

text \<open>\<open>block_size_bytes / sizeof(float)\<close> is computed in \<open>size_t\<close> and converted back.\<close>

definition size_elems :: "int \<Rightarrow> int" where
  "size_elems block_size_bytes = to_i32 (int (size_of_i32 block_size_bytes div 4))"

definition launch_swap_blocks ::
    "(nat \<times> nat) list \<Rightarrow> real list \<Rightarrow> int list \<Rightarrow> int \<Rightarrow> real list \<Rightarrow> real list option" where
  "launch_swap_blocks order src_cache block_mapping block_size_bytes =
     foldM (swap_blocks_kernel src_cache block_mapping (size_elems block_size_bytes)) order"

section \<open>Compaction\<close>

definition compact_kv_cache_kernel ::
    "int list \<Rightarrow> int list \<Rightarrow> int \<Rightarrow> int \<Rightarrow> int \<Rightarrow> nat \<Rightarrow> nat \<times> nat \<times> nat \<Rightarrow> kv_arrays \<Rightarrow> kv_arrays option" where
  "compact_kv_cache_kernel src_ids dst_ids kv_heads hdim bs grid_y = (\<lambda>(block_idx, block_y, thread) st.
     do {
       src \<leftarrow> arr_get src_ids (int block_idx);
       dst \<leftarrow> arr_get dst_ids (int block_idx);
       if src = dst then Some st
       else do {
         epb \<leftarrow> elems_per_block kv_heads bs hdim;
         foldM (\<lambda>i st.
           do {
             s0 \<leftarrow> chk_i32 (src * epb);
             s \<leftarrow> chk_i32 (s0 + int i);
             d0 \<leftarrow> chk_i32 (dst * epb);
             d \<leftarrow> chk_i32 (d0 + int i);
             copy_kv d s st
           }) (strided (thread + block_y * 256) (nat epb) (256 * grid_y)) st
       }
     })"

definition launch_compact_kv_cache ::
    "(nat \<times> nat \<times> nat) list \<Rightarrow> int list \<Rightarrow> int list \<Rightarrow> int \<Rightarrow> int \<Rightarrow> int \<Rightarrow> kv_arrays \<Rightarrow> kv_arrays option" where
  "launch_compact_kv_cache order src_block_ids dst_block_ids kv_heads hdim bs st =
     do {
       epb \<leftarrow> elems_per_block kv_heads bs hdim;
       ny \<leftarrow> blocks_y epb;
       foldM (compact_kv_cache_kernel src_block_ids dst_block_ids kv_heads hdim bs (nat ny)) order st
     }"

section \<open>Clearing blocks\<close>

definition memset_blocks_kernel :: "int list \<Rightarrow> int \<Rightarrow> nat \<times> nat \<Rightarrow> real list \<Rightarrow> real list option" where
  "memset_blocks_kernel block_ids elems = (\<lambda>(block_idx, thread) cache.
     do {
       bid \<leftarrow> arr_get block_ids (int block_idx);
       base \<leftarrow> chk_i32 (bid * elems);
       foldM (\<lambda>i c. do { j \<leftarrow> chk_i32 (base + int i); arr_set c j 0 }) (strided thread (nat elems) 256) cache
     })"

definition launch_memset_blocks ::
    "(nat \<times> nat) list \<Rightarrow> int list \<Rightarrow> int \<Rightarrow> real list \<Rightarrow> real list option" where
  "launch_memset_blocks order block_ids block_size_bytes =
     foldM (memset_blocks_kernel block_ids (size_elems block_size_bytes)) order"

end
