(* ===== verification/Paged_Attention.thy ===== *)
theory Paged_Attention
  imports Kv_Kernels
begin

text \<open>
  The paged attention kernels, \<open>src/src/cacheflow/cuda/paged_attention.cu\<close> and \<open>.cuh\<close>.

  The 32 lanes of a warp run in lock step, so a register of a warp is a list of 32 values; a warp
  does not interleave with another one except at the barriers \<open>__syncthreads\<close>, where all warps
  meet. Between two barriers the warps run in an order that is an argument of the kernel (phase
  \<open>k\<close> of a block uses \<open>order k\<close>), and so do the thread blocks of a launch. Floats are reals and
  \<open>__expf\<close> is the exponential. Shared memory starts with arbitrary contents. The templates'
  \<open>HEAD_DIM\<close>, \<open>BLOCK_SIZE\<close> and \<open>NUM_THREADS\<close> are the arguments \<open>hdim\<close>, \<open>bs\<close> and \<open>nt\<close>.
\<close>

unbundle bit_operations_syntax

record paged_attention_params =
  pa_query :: "real list"
  pa_key_cache :: "real list"
  pa_value_cache :: "real list"
  pa_output :: "real list"
  pa_block_tables :: "int list"
  pa_context_lens :: "int list"
  pa_scale :: real
  pa_num_seqs :: int
  pa_num_heads :: int
  pa_num_kv_heads :: int
  pa_head_dim :: int
  pa_block_size :: int
  pa_max_context_len :: int
  pa_max_blocks_per_seq :: int

definition flt_max :: real where
  "flt_max = (2 - 1 / 2 ^ 23) * 2 ^ 127"

section \<open>Warp-level primitives\<close>

text \<open>\<open>__shfl_xor_sync\<close>: every lane reads the register of the lane whose number differs in one bit.\<close>

definition shfl_xor :: "nat \<Rightarrow> 'a list \<Rightarrow> 'a list" where
  "shfl_xor off vs = map (\<lambda>l. vs ! (l XOR off)) [0..<32]"

definition warp_reduce :: "('a \<Rightarrow> 'a \<Rightarrow> 'a) \<Rightarrow> 'a list \<Rightarrow> 'a list" where
  "warp_reduce f vs = fold (\<lambda>off vs. map2 f vs (shfl_xor off vs)) [16, 8, 4, 2, 1] vs"

definition warp_reduce_sum :: "real list \<Rightarrow> real list" where
  "warp_reduce_sum = warp_reduce (+)"

definition warp_reduce_max :: "real list \<Rightarrow> real list" where
  "warp_reduce_max = warp_reduce max"

section \<open>Common index computations\<close>

definition query_row :: "paged_attention_params \<Rightarrow> nat \<Rightarrow> nat \<Rightarrow> nat \<Rightarrow> int option" where
  "query_row p hdim seq head =
     do {
       a \<leftarrow> chk_i32 (int seq * pa_num_heads p);
       b \<leftarrow> chk_i32 (a + int head);
       chk_i32 (b * int hdim)
     }"

definition kv_head_of :: "paged_attention_params \<Rightarrow> nat \<Rightarrow> int option" where
  "kv_head_of p head = do { g \<leftarrow> div_i32 (pa_num_heads p) (pa_num_kv_heads p); div_i32 (int head) g }"

definition table_entry :: "paged_attention_params \<Rightarrow> nat \<Rightarrow> nat \<Rightarrow> int option" where
  "table_entry p seq b =
     do {
       a \<leftarrow> chk_i32 (int seq * pa_max_blocks_per_seq p);
       i \<leftarrow> chk_i32 (a + int b);
       arr_get (pa_block_tables p) i
     }"

definition kv_row :: "paged_attention_params \<Rightarrow> nat \<Rightarrow> nat \<Rightarrow> int \<Rightarrow> int \<Rightarrow> nat \<Rightarrow> int option" where
  "kv_row p hdim bs phys kvh off =
     do {
       a \<leftarrow> chk_i32 (phys * pa_num_kv_heads p);
       b \<leftarrow> chk_i32 (a + kvh);
       c \<leftarrow> chk_i32 (b * int bs);
       e \<leftarrow> chk_i32 (c + int off);
       chk_i32 (e * int hdim)
     }"

text \<open>\<open>(len + BLOCK_SIZE - 1) / BLOCK_SIZE\<close>.\<close>

definition ceil_blocks :: "int \<Rightarrow> nat \<Rightarrow> int option" where
  "ceil_blocks len bs = do { a \<leftarrow> chk_i32 (len + int bs); div_i32 (a - 1) (int bs) }"

text \<open>The dot product of the query row with a key row: each lane sums its dimensions, then the lanes reduce.\<close>

definition lane_dot :: "paged_attention_params \<Rightarrow> nat \<Rightarrow> int \<Rightarrow> int \<Rightarrow> nat \<Rightarrow> real option" where
  "lane_dot p hdim q0 k0 lane =
     foldM (\<lambda>d acc.
       do {
         x \<leftarrow> arr_get (pa_query p) (q0 + int d);
         y \<leftarrow> arr_get (pa_key_cache p) (k0 + int d);
         Some (acc + x * y)
       }) (strided lane hdim 32) 0"

definition warp_dot :: "paged_attention_params \<Rightarrow> nat \<Rightarrow> int \<Rightarrow> int \<Rightarrow> real list option" where
  "warp_dot p hdim q0 k0 =
     do {
       ds \<leftarrow> those (map (lane_dot p hdim q0 k0) [0..<32]);
       Some (map (\<lambda>x. x * pa_scale p) (warp_reduce_sum ds))
     }"

text \<open>
  The offsets a warp visits in block \<open>b\<close>: the loop breaks at the first position past the context.
  No index overflows here once \<open>ceil_blocks\<close> is defined.
\<close>

definition block_offs :: "nat \<Rightarrow> int \<Rightarrow> nat \<Rightarrow> nat list" where
  "block_offs bs ctx b = takeWhile (\<lambda>off. int (b * bs + off) < ctx) [0..<bs]"

section \<open>Paged attention V1\<close>

record shared_memory =
  smem_qk :: "real list"
  smem_max :: "real list"
  smem_sum :: "real list"
  smem_out :: "real list"

text \<open>The first phase: scores into \<open>smem_qk\<close>, the maximum of the warp into \<open>smem_max\<close>.\<close>

definition score_token ::
    "paged_attention_params \<Rightarrow> nat \<Rightarrow> nat \<Rightarrow> int \<Rightarrow> int \<Rightarrow> int \<Rightarrow> nat \<Rightarrow> nat \<Rightarrow> real list \<times> real list \<Rightarrow> (real list \<times> real list) option" where
  "score_token p hdim bs q0 kvh phys b off = (\<lambda>(qk, qk_max).
     do {
       k0 \<leftarrow> kv_row p hdim bs phys kvh off;
       dots \<leftarrow> warp_dot p hdim q0 k0;
       qk1 \<leftarrow> vec_set qk (b * bs + off) (dots ! 0);
       Some (qk1, map2 max qk_max dots)
     })"

definition score_warp ::
    "paged_attention_params \<Rightarrow> nat \<Rightarrow> nat \<Rightarrow> nat \<Rightarrow> nat \<Rightarrow> int \<Rightarrow> int \<Rightarrow> int \<Rightarrow> int \<Rightarrow> nat \<Rightarrow>
     real list \<times> real list \<Rightarrow> (real list \<times> real list) option" where
  "score_warp p hdim bs nt seq q0 kvh ctx nb w = (\<lambda>(qk, smax).
     do {
       (qk1, qk_max) \<leftarrow> foldM (\<lambda>b st.
           do {
             phys \<leftarrow> table_entry p seq b;
             foldM (score_token p hdim bs q0 kvh phys b) (block_offs bs ctx b) st
           }) (strided w (nat nb) (nt div 32)) (qk, replicate 32 (- flt_max));
       smax1 \<leftarrow> vec_set smax w (warp_reduce_max qk_max ! 0);
       Some (qk1, smax1)
     })"

text \<open>The second phase: every score becomes its exponential; lane 0 keeps the sum.\<close>

definition exp_token ::
    "nat \<Rightarrow> real \<Rightarrow> nat \<Rightarrow> nat \<Rightarrow> real list \<times> real \<Rightarrow> (real list \<times> real) option" where
  "exp_token bs qk_max b off = (\<lambda>(qk, exp_sum).
     do {
       x \<leftarrow> vec_at qk (b * bs + off);
       let e = exp (x - qk_max);
       qk1 \<leftarrow> vec_set qk (b * bs + off) e;
       Some (qk1, exp_sum + e)
     })"

definition exp_warp ::
    "nat \<Rightarrow> nat \<Rightarrow> real \<Rightarrow> int \<Rightarrow> int \<Rightarrow> nat \<Rightarrow> real list \<times> real list \<Rightarrow> (real list \<times> real list) option" where
  "exp_warp bs nt qk_max ctx nb w = (\<lambda>(qk, ssum).
     do {
       (qk1, exp_sum) \<leftarrow> foldM (\<lambda>b. foldM (exp_token bs qk_max b) (block_offs bs ctx b)) (strided w (nat nb) (nt div 32)) (qk, 0);
       ssum1 \<leftarrow> vec_set ssum w (warp_reduce_sum (exp_sum # replicate 31 0) ! 0);
       Some (qk1, ssum1)
     })"

text \<open>After each of these phases warp 0 combines the results of the warps into element 0.\<close>

definition combine_warps :: "(real list \<Rightarrow> real list) \<Rightarrow> real \<Rightarrow> nat \<Rightarrow> real list \<Rightarrow> real list option" where
  "combine_warps reduce neutral nw ws =
     do {
       vs \<leftarrow> those (map (\<lambda>l. if l < nw then vec_at ws l else Some neutral) [0..<32]);
       vec_set ws 0 (reduce vs ! 0)
     }"

text \<open>
  The third phase: each lane accumulates the weighted values of its dimensions in \<open>local_out\<close>, an
  array of \<open>HEAD_DIM / 32 + 1\<close> registers, and then adds them to \<open>smem_out\<close>. The factor \<open>c\<close> is
  the correction of V2; V1 has none and uses 1.
\<close>

definition lane_accumulate ::
    "real list \<Rightarrow> nat \<Rightarrow> int \<Rightarrow> real \<Rightarrow> real \<Rightarrow> nat \<Rightarrow> real list \<Rightarrow> real list option" where
  "lane_accumulate vals hdim v0 c wgt lane =
     foldM (\<lambda>(idx, d) lo.
       do {
         y \<leftarrow> vec_at lo idx;
         x \<leftarrow> arr_get vals (v0 + int d);
         vec_set lo idx (y * c + wgt * x)
       }) (enumerate 0 (strided lane hdim 32))"

definition lane_flush :: "nat \<Rightarrow> nat \<Rightarrow> int \<Rightarrow> real list \<Rightarrow> real list \<Rightarrow> real list option" where
  "lane_flush hdim lane base lo =
     foldM (\<lambda>(idx, d) out.
       do {
         y \<leftarrow> arr_get out (base + int d);
         x \<leftarrow> vec_at lo idx;
         arr_set out (base + int d) (y + x)
       }) (enumerate 0 (strided lane hdim 32))"

definition zero_local :: "nat \<Rightarrow> real list list" where
  "zero_local hdim = replicate 32 (replicate (hdim div 32 + 1) 0)"

definition out_token ::
    "paged_attention_params \<Rightarrow> nat \<Rightarrow> nat \<Rightarrow> int \<Rightarrow> real list \<Rightarrow> real \<Rightarrow> int \<Rightarrow> nat \<Rightarrow> nat \<Rightarrow> real list list \<Rightarrow> real list list option" where
  "out_token p hdim bs kvh qk inv_sum phys b off los =
     do {
       x \<leftarrow> vec_at qk (b * bs + off);
       v0 \<leftarrow> kv_row p hdim bs phys kvh off;
       those (map2 (lane_accumulate (pa_value_cache p) hdim v0 1 (x * inv_sum)) [0..<32] los)
     }"

definition out_warp ::
    "paged_attention_params \<Rightarrow> nat \<Rightarrow> nat \<Rightarrow> nat \<Rightarrow> nat \<Rightarrow> int \<Rightarrow> real list \<Rightarrow> real \<Rightarrow> int \<Rightarrow> int \<Rightarrow> nat \<Rightarrow> real list \<Rightarrow> real list option" where
  "out_warp p hdim bs nt seq kvh qk inv_sum ctx nb w out =
     do {
       los \<leftarrow> foldM (\<lambda>b st.
           do {
             phys \<leftarrow> table_entry p seq b;
             foldM (out_token p hdim bs kvh qk inv_sum phys b) (block_offs bs ctx b) st
           }) (strided w (nat nb) (nt div 32)) (zero_local hdim);
       foldM (\<lambda>(lane, lo). lane_flush hdim lane 0 lo) (enumerate 0 los) out
     }"

text \<open>The loops over the dimensions in which all threads of the block take part.\<close>

definition thread_dims :: "nat \<Rightarrow> nat \<Rightarrow> nat list" where
  "thread_dims hdim nt = concat (map (\<lambda>t. strided t hdim nt) [0..<nt])"

definition paged_attention_v1_kernel ::
    "nat \<Rightarrow> nat \<Rightarrow> nat \<Rightarrow> (nat \<Rightarrow> nat list) \<Rightarrow> shared_memory \<Rightarrow> paged_attention_params \<Rightarrow> nat \<times> nat \<Rightarrow> real list \<Rightarrow> real list option" where
  "paged_attention_v1_kernel hdim bs nt order sh p = (\<lambda>(seq_idx, head_idx) output.
     do {
       kv_head \<leftarrow> kv_head_of p head_idx;
       ctx_len \<leftarrow> arr_get (pa_context_lens p) (int seq_idx);
       num_blocks \<leftarrow> ceil_blocks ctx_len bs;
       q0 \<leftarrow> query_row p hdim seq_idx head_idx;
       so0 \<leftarrow> foldM (\<lambda>d so. vec_set so d 0) (thread_dims hdim nt) (smem_out sh);
       (qk1, max1) \<leftarrow> foldM (score_warp p hdim bs nt seq_idx q0 kv_head ctx_len num_blocks) (order 0) (smem_qk sh, smem_max sh);
       max2 \<leftarrow> combine_warps warp_reduce_max (- flt_max) (nt div 32) max1;
       qk_max \<leftarrow> vec_at max2 0;
       (qk2, sum1) \<leftarrow> foldM (exp_warp bs nt qk_max ctx_len num_blocks) (order 1) (qk1, smem_sum sh);
       sum2 \<leftarrow> combine_warps warp_reduce_sum 0 (nt div 32) sum1;
       total \<leftarrow> vec_at sum2 0;
       let inv_sum = 1 / (total + 1 / 10 ^ 8);
       so1 \<leftarrow> foldM (out_warp p hdim bs nt seq_idx kv_head qk2 inv_sum ctx_len num_blocks) (order 2) so0;
       foldM (\<lambda>d out. do { x \<leftarrow> vec_at so1 d; arr_set out (q0 + int d) x }) (thread_dims hdim nt) output
     })"

section \<open>Paged attention V2\<close>

text \<open>
  The registers of a warp: running maximum and running sum of every lane, and their \<open>local_out\<close>.
\<close>

type_synonym v2_regs = "real list \<times> real list \<times> real list list"

definition v2_token ::
    "paged_attention_params \<Rightarrow> nat \<Rightarrow> nat \<Rightarrow> int \<Rightarrow> int \<Rightarrow> int \<Rightarrow> nat \<Rightarrow> v2_regs \<Rightarrow> v2_regs option" where
  "v2_token p hdim bs q0 kvh phys off = (\<lambda>(maxs, lsums, los).
     do {
       k0 \<leftarrow> kv_row p hdim bs phys kvh off;
       dots \<leftarrow> warp_dot p hdim q0 k0;
       let maxs1 = map2 max maxs dots;
       let corrs = map2 (\<lambda>old new. exp (old - new)) maxs maxs1;
       let ws = map2 (\<lambda>x m. exp (x - m)) dots maxs1;
       let sums1 = map2 (\<lambda>s (c, e). s * c + e) lsums (zip corrs ws);
       los1 \<leftarrow> those (map2 (\<lambda>lane (lo, c, e). lane_accumulate (pa_value_cache p) hdim k0 c e lane lo) [0..<32] (zip los (zip corrs ws)));
       Some (maxs1, sums1, los1)
     })"

text \<open>The offsets of block \<open>blk\<close> inside the partition; the others are skipped by \<open>continue\<close>.\<close>

definition part_offs :: "nat \<Rightarrow> int \<Rightarrow> int \<Rightarrow> nat \<Rightarrow> nat list" where
  "part_offs bs start_tok end_tok blk =
     filter (\<lambda>off. \<not> (int (blk * bs + off) < start_tok \<or> int (blk * bs + off) \<ge> end_tok)) [0..<bs]"

definition v2_warp ::
    "paged_attention_params \<Rightarrow> nat \<Rightarrow> nat \<Rightarrow> nat \<Rightarrow> nat \<Rightarrow> int \<Rightarrow> int \<Rightarrow> int \<Rightarrow> int \<Rightarrow> int \<Rightarrow> int \<Rightarrow> nat \<Rightarrow> v2_regs option" where
  "v2_warp p hdim bs nt seq q0 kvh start_tok end_tok start_block end_block w =
     foldM (\<lambda>blk st.
       do {
         phys \<leftarrow> table_entry p seq blk;
         foldM (v2_token p hdim bs q0 kvh phys) (part_offs bs start_tok end_tok blk) st
       }) (strided (nat start_block + w) (nat end_block) (nt div 32))
       (replicate 32 (- flt_max), replicate 32 0, zero_local hdim)"

text \<open>
  After the loop: \<open>local_max\<close> is reduced over the lanes, thread 0 takes the maximum over the warps,
  every lane corrects its sum and its outputs, the sums are reduced over the lanes, and thread 0
  adds them over the warps.
\<close>

definition v2_global_max :: "v2_regs list \<Rightarrow> real" where
  "v2_global_max regs = fold (\<lambda>(maxs, _) g. max g (warp_reduce_max maxs ! 0)) regs (- flt_max)"

definition v2_correct :: "real \<Rightarrow> v2_regs \<Rightarrow> real \<times> real list list" where
  "v2_correct gmax = (\<lambda>(maxs, lsums, los).
     let corrs = map (\<lambda>m. exp (m - gmax)) (warp_reduce_max maxs) in
     (warp_reduce_sum (map2 (*) lsums corrs) ! 0, map2 (\<lambda>lo c. map (\<lambda>x. x * c) lo) los corrs))"

text \<open>The three arrays the partitions write: \<open>exp_sums\<close>, \<open>max_logits\<close> and \<open>tmp_output\<close>.\<close>

type_synonym v2_arrays = "real list \<times> real list \<times> real list"

definition flat_index :: "paged_attention_params \<Rightarrow> int \<Rightarrow> nat \<Rightarrow> nat \<Rightarrow> nat \<Rightarrow> int option" where
  "flat_index p num_partitions seq head part =
     do {
       a \<leftarrow> chk_i32 (int seq * pa_num_heads p);
       b \<leftarrow> chk_i32 (a + int head);
       c \<leftarrow> chk_i32 (b * num_partitions);
       chk_i32 (c + int part)
     }"

definition paged_attention_v2_kernel ::
    "nat \<Rightarrow> nat \<Rightarrow> nat \<Rightarrow> nat \<Rightarrow> nat list \<Rightarrow> paged_attention_params \<Rightarrow> int \<Rightarrow> nat \<times> nat \<times> nat \<Rightarrow> v2_arrays \<Rightarrow> v2_arrays option" where
  "paged_attention_v2_kernel hdim bs nt ps order p num_partitions = (\<lambda>(seq_idx, head_idx, part_idx) (exp_sums, max_logits, tmp_output).
     do {
       kv_head \<leftarrow> kv_head_of p head_idx;
       ctx_len \<leftarrow> arr_get (pa_context_lens p) (int seq_idx);
       start_tok \<leftarrow> chk_i32 (int part_idx * int ps);
       if start_tok \<ge> ctx_len then Some (exp_sums, max_logits, tmp_output)
       else do {
         stop \<leftarrow> chk_i32 (start_tok + int ps);
         let end_tok = min stop ctx_len;
         q0 \<leftarrow> query_row p hdim seq_idx head_idx;
         start_block \<leftarrow> div_i32 start_tok (int bs);
         end_block \<leftarrow> ceil_blocks end_tok bs;
         regs \<leftarrow> those (map (v2_warp p hdim bs nt seq_idx q0 kv_head start_tok end_tok start_block end_block) [0..<nt div 32]);
         let gmax = v2_global_max regs;
         let results = map (v2_correct gmax) regs;
         flat \<leftarrow> flat_index p num_partitions seq_idx head_idx part_idx;
         max_logits1 \<leftarrow> arr_set max_logits flat gmax;
         exp_sums1 \<leftarrow> arr_set exp_sums flat (sum_list (map fst results));
         base \<leftarrow> chk_i32 (flat * int hdim);
         tmp1 \<leftarrow> foldM (\<lambda>w tmp.
             do {
               r \<leftarrow> vec_at results w;
               foldM (\<lambda>(lane, lo). lane_flush hdim lane base lo) (enumerate 0 (snd r)) tmp
             }) order tmp_output;
         Some (exp_sums1, max_logits1, tmp1)
       }
     })"

definition paged_attention_v2_reduce_kernel ::
    "nat \<Rightarrow> paged_attention_params \<Rightarrow> int \<Rightarrow> v2_arrays \<Rightarrow> nat \<times> nat \<times> nat \<Rightarrow> real list \<Rightarrow> real list option" where
  "paged_attention_v2_reduce_kernel hdim p num_partitions = (\<lambda>(exp_sums, max_logits, tmp_output) (seq_idx, head_idx, d) output.
     if d \<ge> hdim then Some output
     else do {
       base \<leftarrow> flat_index p num_partitions seq_idx head_idx 0;
       ctx_len \<leftarrow> arr_get (pa_context_lens p) (int seq_idx);
       a \<leftarrow> chk_i32 (ctx_len + 511);
       num_parts \<leftarrow> div_i32 a 512;
       gmax \<leftarrow> foldM (\<lambda>pt g. do { m \<leftarrow> arr_get max_logits (base + int pt); Some (max g m) }) [0..<nat num_parts] (- flt_max);
       (acc, total_weight) \<leftarrow> foldM (\<lambda>pt (acc, total).
           do {
             m \<leftarrow> arr_get max_logits (base + int pt);
             s \<leftarrow> arr_get exp_sums (base + int pt);
             let weight = s * exp (m - gmax);
             t0 \<leftarrow> chk_i32 ((base + int pt) * int hdim);
             x \<leftarrow> arr_get tmp_output (t0 + int d);
             Some (acc + weight * x, total + weight)
           }) [0..<nat num_parts] (0, 0);
       o0 \<leftarrow> query_row p hdim seq_idx head_idx;
       arr_set output (o0 + int d) (acc / (total_weight + 1 / 10 ^ 8))
     })"

section \<open>Dispatch\<close>

text \<open>
  Shared memory of the thread block \<open>blk\<close>: arrays of fixed size with arbitrary contents
  \<open>init blk array index\<close>, and \<open>head_dim + max_context_len\<close> floats of dynamic shared memory.
\<close>

definition shared_init :: "(nat \<Rightarrow> nat \<Rightarrow> real) \<Rightarrow> nat \<Rightarrow> nat \<Rightarrow> shared_memory" where
  "shared_init init nt dyn =
     \<lparr>smem_qk = map (init 0) [0..<nt], smem_max = map (init 1) [0..<nt div 32],
      smem_sum = map (init 2) [0..<nt div 32], smem_out = map (init 3) [0..<dyn]\<rparr>"

definition dynamic_floats :: "paged_attention_params \<Rightarrow> nat" where
  "dynamic_floats p = (size_of_i32 (pa_head_dim p) * 4 + size_of_i32 (pa_max_context_len p) * 4) mod 2 ^ 64 div 4"

definition v1_grid :: "paged_attention_params \<Rightarrow> (nat \<times> nat) list" where
  "v1_grid p = grid2 (nat (pa_num_seqs p)) (nat (pa_num_heads p))"

definition launch_paged_attention_v1 ::
    "(nat \<times> nat) list \<Rightarrow> (nat \<times> nat \<Rightarrow> nat \<Rightarrow> nat list) \<Rightarrow> (nat \<times> nat \<Rightarrow> nat \<Rightarrow> nat \<Rightarrow> real) \<Rightarrow> paged_attention_params \<Rightarrow> real list option" where
  "launch_paged_attention_v1 blocks order init p =
     (let run = \<lambda>hdim bs. foldM (\<lambda>blk. paged_attention_v1_kernel hdim bs 128 (order blk) (shared_init (init blk) 128 (dynamic_floats p)) p blk) blocks (pa_output p) in
      if pa_head_dim p = 128 \<and> pa_block_size p = 16 then run 128 16
      else if pa_head_dim p = 64 \<and> pa_block_size p = 16 then run 64 16
      else Some (pa_output p))"

definition launch_paged_attention_v2 ::
    "(nat \<times> nat \<times> nat) list \<Rightarrow> (nat \<times> nat \<times> nat \<Rightarrow> nat list) \<Rightarrow> (nat \<times> nat \<times> nat) list \<Rightarrow> paged_attention_params \<Rightarrow> v2_arrays \<Rightarrow> int \<Rightarrow>
     (v2_arrays \<times> real list) option" where
  "launch_paged_attention_v2 blocks order threads p arrays num_partitions =
     do {
       arrays1 \<leftarrow>
         (if pa_head_dim p = 128 \<and> pa_block_size p = 16
          then foldM (\<lambda>blk. paged_attention_v2_kernel 128 16 128 512 (order blk) p num_partitions blk) blocks arrays
          else Some arrays);
       out \<leftarrow> foldM (paged_attention_v2_reduce_kernel 128 p num_partitions arrays1) threads (pa_output p);
       Some (arrays1, out)
     }"

end
