(* ===== verification/Kv_Moves.thy ===== *)
theory Kv_Moves
  imports Kv_Kernels
begin

text \<open>
  What the data-movement kernels do, for every order in which their threads run: new keys and values
  can be read back from their slots, copied and compacted blocks are exact, and a block that is
  swapped out and in again is unchanged.
\<close>

section \<open>Strided loops\<close>

lemma strided_spec:
  "0 < step \<Longrightarrow> set (strided i n step) = {j. i \<le> j \<and> j < n \<and> j mod step = i mod step} \<and> distinct (strided i n step)"
proof (induction i n step rule: strided.induct)
  case (1 i n step)
  show ?case
  proof (cases "i < n \<and> 0 < step")
    case True
    have "{j. i \<le> j \<and> j < n \<and> j mod step = i mod step} =
        insert i {j. i + step \<le> j \<and> j < n \<and> j mod step = (i + step) mod step}"
    proof -
      have "i + step \<le> j" if j: "i \<le> j" "j mod step = i mod step" "j \<noteq> i" for j
      proof -
        have "step dvd j - i" using j(1,2) by (simp add: mod_eq_dvd_iff_nat)
        then have "step \<le> j - i" using j(1,3) by (intro dvd_imp_le) simp_all
        then show ?thesis using j(1) by linarith
      qed
      then show ?thesis using True by fastforce
    qed
    then show ?thesis using 1 True by (simp add: strided.simps [of i])
  next
    case False
    then show ?thesis using 1(2) by (auto simp: strided.simps [of i])
  qed
qed

lemma strided_single: "n \<le> step \<Longrightarrow> 0 < step \<Longrightarrow> strided i n step = (if i < n then [i] else [])"
  by (simp add: strided.simps [of i] strided.simps [of "i + step"])

section \<open>Mixed-radix indices\<close>

lemma nest_eq: "b < m \<Longrightarrow> b' < m \<Longrightarrow> a * m + b = a' * m + b' \<longleftrightarrow> a = a' \<and> b = b'" for a b m :: nat
proof
  assume a: "b < m" "b' < m" "a * m + b = a' * m + b'"
  have "a = (a * m + b) div m" "a' = (a' * m + b') div m" using a(1,2) by simp_all
  then show "a = a' \<and> b = b'" using a(3) by simp
qed simp

lemma nest_less: "a < n \<Longrightarrow> b < m \<Longrightarrow> a * m + b < n * m" for a b m n :: nat
  using mult_le_mono1 [of "Suc a" n m] by simp

section \<open>Parallel writes\<close>

text \<open>A list of writes of values, and a list of copies within an array, one after the other.\<close>

definition write_list :: "(nat \<times> 'a) list \<Rightarrow> 'a list \<Rightarrow> 'a list" where
  "write_list ws xs = fold (\<lambda>(i, v) xs. xs[i := v]) ws xs"

definition copy_list :: "(nat \<times> nat) list \<Rightarrow> 'a list \<Rightarrow> 'a list" where
  "copy_list cs xs = fold (\<lambda>(d, s) xs. xs[d := xs ! s]) cs xs"

lemma write_list_simps [simp]:
  "write_list [] xs = xs" "write_list ((i, v) # ws) xs = write_list ws (xs[i := v])"
  "write_list (ws @ ws') xs = write_list ws' (write_list ws xs)"
  by (simp_all add: write_list_def)

lemma copy_list_simps [simp]:
  "copy_list [] xs = xs" "copy_list ((d, s) # cs) xs = copy_list cs (xs[d := xs ! s])"
  "copy_list (cs @ cs') xs = copy_list cs' (copy_list cs xs)"
  by (simp_all add: copy_list_def)

lemma length_write_list [simp]: "length (write_list ws xs) = length xs"
  by (induction ws arbitrary: xs) auto

lemma length_copy_list [simp]: "length (copy_list cs xs) = length xs"
  by (induction cs arbitrary: xs) auto

text \<open>If no element is written twice, every write is visible in the end, in whatever order.\<close>

lemma write_list_nth:
  "distinct (map fst ws) \<Longrightarrow> x < length xs \<Longrightarrow>
     write_list ws xs ! x = (case map_of ws x of Some v \<Rightarrow> v | None \<Rightarrow> xs ! x)"
proof (induction ws arbitrary: xs)
  case (Cons w ws)
  obtain i v where w: "w = (i, v)" by fastforce
  have "map_of ws i = None" using Cons.prems(1) w by (auto simp: map_of_eq_None_iff)
  then show ?case using Cons w by (auto split: option.split)
qed simp

text \<open>If moreover no element is both read and written, copies read what was there before the launch.\<close>

lemma copy_list_write:
  "distinct (map fst cs) \<Longrightarrow> fst ` set cs \<inter> snd ` set cs = {} \<Longrightarrow>
     copy_list cs xs = write_list (map (\<lambda>(d, s). (d, xs ! s)) cs) xs"
proof (induction cs arbitrary: xs)
  case (Cons c cs)
  obtain d s where c: "c = (d, s)" by fastforce
  have ne: "xs[d := xs ! s] ! s' = xs ! s'" if "(d', s') \<in> set cs" for d' s'
  proof -
    have "d \<noteq> s'" using Cons.prems(2) c that by force
    then show ?thesis by simp
  qed
  have "map (\<lambda>(d', s'). (d', xs[d := xs ! s] ! s')) cs = map (\<lambda>(d', s'). (d', xs ! s')) cs"
    by (rule map_cong) (auto simp: ne)
  moreover have "fst ` set cs \<inter> snd ` set cs = {}" "distinct (map fst cs)" using Cons.prems by auto
  ultimately have "copy_list cs (xs[d := xs ! s]) = write_list (map (\<lambda>(d', s'). (d', xs ! s')) cs) (xs[d := xs ! s])"
    using Cons.IH [of "xs[d := xs ! s]"] by metis
  then show ?case using c by simp
qed simp

text \<open>The writes of a launch: those of the grid, in another order.\<close>

lemma launch_mset:
  assumes "mset order = mset grid"
  shows "mset (concat (map act order)) = mset (concat (map act grid))"
proof -
  have "mset (map (mset \<circ> act) order) = mset (map (mset \<circ> act) grid)" using assms by (metis mset_map)
  then have "sum_list (map (mset \<circ> act) order) = sum_list (map (mset \<circ> act) grid)" by (metis sum_mset_sum_list)
  then show ?thesis by (simp add: mset_concat comp_def)
qed

lemma launch_writes:
  assumes "mset order = mset grid" and "distinct grid"
    and "\<And>t. t \<in> set grid \<Longrightarrow> distinct (map fst (act t))"
    and "\<And>t t'. t \<in> set grid \<Longrightarrow> t' \<in> set grid \<Longrightarrow> t \<noteq> t' \<Longrightarrow> fst ` set (act t) \<inter> fst ` set (act t') = {}"
  shows "distinct (map fst (concat (map act order)))"
    and "set (concat (map act order)) = (\<Union>t \<in> set grid. set (act t))"
proof -
  note m = launch_mset [OF assms(1), of act]
  have "map fst (concat (map act grid)) = concat (map (\<lambda>t. map fst (act t)) grid)"
    by (simp add: map_concat comp_def)
  then have "distinct (map fst (concat (map act grid)))"
    using distinct_concat_map [OF assms(2), of "\<lambda>t. map fst (act t)"] assms(3,4) by simp
  moreover have "mset (map fst (concat (map act order))) = mset (map fst (concat (map act grid)))"
    using m by (metis mset_map)
  ultimately show "distinct (map fst (concat (map act order)))" using mset_eq_imp_distinct_iff by blast
  show "set (concat (map act order)) = (\<Union>t \<in> set grid. set (act t))" using mset_eq_setD [OF m] by simp
qed

text \<open>A loop whose steps each perform a list of writes performs them all.\<close>

lemma foldM_acts:
  assumes "\<And>t st. t \<in> set ts \<Longrightarrow> P st \<Longrightarrow> f t st = Some (app (act t) st)"
    and "\<And>ws st. P st \<Longrightarrow> P (app ws st)"
    and "\<And>st. app [] st = st" and "\<And>ws ws' st. app (ws @ ws') st = app ws' (app ws st)"
  shows "P st \<Longrightarrow> foldM f ts st = Some (app (concat (map act ts)) st)"
  using assms(1)
proof (induction ts arbitrary: st)
  case (Cons t ts)
  have "foldM f ts (app (act t) st) = Some (app (concat (map act ts)) (app (act t) st))"
    using Cons assms(2) by auto
  then show ?case using Cons.prems by (simp add: assms(4))
qed (simp add: assms(3))

lemma arr_get_nat [simp]: "arr_get xs (int n) = vec_at xs n"
  by (simp add: arr_get_def)

lemma arr_set_nat [simp]: "arr_set xs (int n) v = vec_set xs n v"
  by (simp add: arr_set_def)

lemma chk_i64_nat [simp]: "n < 2 ^ 63 \<Longrightarrow> chk_i64 (int n) = Some (int n)"
  by (simp add: chk_i64_def)

lemma chk_i32_nat [simp]: "n < 2 ^ 31 \<Longrightarrow> chk_i32 (int n) = Some (int n)"
  by (simp add: chk_i32_def)

lemma grid_distinct [simp]: "distinct (grid2 a b)" "distinct (grid3 a b c)"
  by (simp_all add: grid2_def grid3_def distinct_product)

lemma grid_mem [simp]:
  "(x, t) \<in> set (grid2 a b) \<longleftrightarrow> x < a \<and> t < b" "(x, y, t) \<in> set (grid3 a b c) \<longleftrightarrow> x < a \<and> y < b \<and> t < c"
  by (auto simp: grid2_def grid3_def)

section \<open>Blocks\<close>

text \<open>The contents of block \<open>b\<close> of an array of blocks of \<open>E\<close> elements.\<close>

definition block_at :: "nat \<Rightarrow> 'a list \<Rightarrow> nat \<Rightarrow> 'a list" where
  "block_at E xs b = take E (drop (b * E) xs)"

lemma block_at_length: "(b + 1) * E \<le> length xs \<Longrightarrow> length (block_at E xs b) = E"
proof -
  assume "(b + 1) * E \<le> length xs"
  then have "E \<le> length xs - b * E" by simp
  then show ?thesis by (simp add: block_at_def)
qed

lemma block_at_nth:
  assumes "(b + 1) * E \<le> length xs" and "i < E"
  shows "block_at E xs b ! i = xs ! (b * E + i)"
  using assms by (simp add: block_at_def)

lemma block_at_eqI:
  assumes "(b + 1) * E \<le> length xs" and "(c + 1) * E \<le> length ys"
    and "\<And>i. i < E \<Longrightarrow> xs ! (b * E + i) = ys ! (c * E + i)"
  shows "block_at E xs b = block_at E ys c"
  using assms by (intro nth_equalityI) (simp_all add: block_at_length block_at_nth)

text \<open>
  The moves of a launch: block \<open>src ! p\<close> goes to block \<open>dst ! p\<close>. The destinations are different
  blocks, none of them is also a source, and all lie in a cache of \<open>nb\<close> blocks.
\<close>

definition moves_ok :: "nat \<Rightarrow> nat list \<Rightarrow> nat list \<Rightarrow> bool" where
  "moves_ok nb src dst \<longleftrightarrow> length src = length dst \<and> distinct dst \<and> set src \<inter> set dst = {} \<and>
     (\<forall>b \<in> set src \<union> set dst. b < nb)"

text \<open>The element copies of one thread; both kernels perform these.\<close>

definition copy_act :: "nat \<Rightarrow> nat list \<Rightarrow> nat list \<Rightarrow> nat \<times> nat \<times> nat \<Rightarrow> (nat \<times> nat) list" where
  "copy_act E src dst = (\<lambda>(p, y, t).
     if t + y * 256 < E then [(dst ! p * E + (t + y * 256), src ! p * E + (t + y * 256))] else [])"

definition copy_both :: "(nat \<times> nat) list \<Rightarrow> kv_arrays \<Rightarrow> kv_arrays" where
  "copy_both cs = (\<lambda>(kc, vc). (copy_list cs kc, copy_list cs vc))"

lemma copy_kv_nat:
  "d < length kc \<Longrightarrow> s < length kc \<Longrightarrow> length vc = length kc \<Longrightarrow>
     copy_kv (int d) (int s) (kc, vc) = Some (copy_both [(d, s)] (kc, vc))"
  by (simp add: copy_kv_def copy_both_def)

lemma copy_act_mem:
  assumes "(p, y, t) \<in> set (grid3 n ny 256)" and "c \<in> set (copy_act E src dst (p, y, t))"
  shows "p < n" and "t + y * 256 < E" and "c = (dst ! p * E + (t + y * 256), src ! p * E + (t + y * 256))"
  using assms by (auto simp: copy_act_def split: if_splits)

lemma copy_act_writes:
  assumes ok: "moves_ok nb src dst" and ord: "mset order = mset (grid3 (length dst) ny 256)" and cover: "E \<le> ny * 256"
  shows "distinct (map fst (concat (map (copy_act E src dst) order)))"
    and "set (concat (map (copy_act E src dst) order)) = {(dst ! p * E + i, src ! p * E + i) | p i. p < length dst \<and> i < E}"
proof -
  let ?act = "copy_act E src dst" and ?grid = "grid3 (length dst) ny 256"
  have d: "distinct (map fst (?act t))" for t by (auto simp: copy_act_def split: prod.split)
  have disj: "fst ` set (?act t) \<inter> fst ` set (?act t') = {}" if t: "t \<in> set ?grid" "t' \<in> set ?grid" "t \<noteq> t'" for t t'
  proof (rule ccontr)
    assume ne: "fst ` set (?act t) \<inter> fst ` set (?act t') \<noteq> {}"
    obtain p y x where e: "t = (p, y, x)" by (cases t)
    obtain p' y' x' where e': "t' = (p', y', x')" by (cases t')
    have i: "x + y * 256 < E" "x' + y' * 256 < E" "dst ! p * E + (x + y * 256) = dst ! p' * E + (x' + y' * 256)"
      using ne e e' by (auto simp: copy_act_def split: if_splits)
    have b: "p < length dst" "p' < length dst" "x < 256" "x' < 256" using t(1,2) e e' by simp_all
    have eq: "dst ! p = dst ! p'" "x + y * 256 = x' + y' * 256" using i nest_eq by blast+
    have "p = p'" using eq(1) b ok by (simp add: moves_ok_def nth_eq_iff_index_eq)
    moreover have "y = y' \<and> x = x'" using eq(2) b nest_eq [of x 256 x' y y'] by (simp add: add.commute)
    ultimately show False using t(3) e e' by simp
  qed
  note lw = launch_writes [OF ord grid_distinct(2) d disj]
  show "distinct (map fst (concat (map ?act order)))" by (rule lw(1))
  have "(dst ! p * E + i, src ! p * E + i) \<in> (\<Union>t \<in> set ?grid. set (?act t))" if "p < length dst" "i < E" for p i
  proof -
    have "i div 256 < ny" using that(2) cover by (simp add: less_mult_imp_div_less)
    then have "(p, i div 256, i mod 256) \<in> set ?grid" using that(1) by simp
    moreover have "(dst ! p * E + i, src ! p * E + i) \<in> set (?act (p, i div 256, i mod 256))"
      using that(2) by (simp add: copy_act_def)
    ultimately show ?thesis by blast
  qed
  then have "{(dst ! p * E + i, src ! p * E + i) | p i. p < length dst \<and> i < E} \<subseteq> (\<Union>t \<in> set ?grid. set (?act t))"
    by blast
  moreover have "(\<Union>t \<in> set ?grid. set (?act t)) \<subseteq> {(dst ! p * E + i, src ! p * E + i) | p i. p < length dst \<and> i < E}"
  proof
    fix c assume "c \<in> (\<Union>t \<in> set ?grid. set (?act t))"
    then obtain p y x where t: "(p, y, x) \<in> set ?grid" "c \<in> set (?act (p, y, x))" by force
    from copy_act_mem [OF this] show "c \<in> {(dst ! p * E + i, src ! p * E + i) | p i. p < length dst \<and> i < E}" by blast
  qed
  ultimately have "{(dst ! p * E + i, src ! p * E + i) | p i. p < length dst \<and> i < E} = (\<Union>t \<in> set ?grid. set (?act t))"
    by (rule subset_antisym)
  from trans [OF lw(2) this [symmetric]]
  show "set (concat (map ?act order)) = {(dst ! p * E + i, src ! p * E + i) | p i. p < length dst \<and> i < E}" .
qed

lemma moved_blocks:
  assumes ok: "moves_ok nb src dst" and ord: "mset order = mset (grid3 (length dst) ny 256)" and cover: "E \<le> ny * 256"
    and len: "length xs = nb * E"
  defines "ys \<equiv> copy_list (concat (map (copy_act E src dst) order)) xs"
  shows "p < length dst \<Longrightarrow> block_at E ys (dst ! p) = block_at E xs (src ! p)"
    and "b < nb \<Longrightarrow> b \<notin> set dst \<Longrightarrow> block_at E ys b = block_at E xs b" and "length ys = length xs"
proof -
  let ?cs = "concat (map (copy_act E src dst) order)"
  note cs = copy_act_writes [OF ok ord cover]
  have bnd: "(c + 1) * E \<le> nb * E" if "c < nb" for c using that by (intro mult_le_mono1) simp
  have sb: "src ! p < nb" "dst ! p < nb" "src ! p \<in> set src" if "p < length dst" for p
    using that ok by (auto simp: moves_ok_def)
  have free: "fst ` set ?cs \<inter> snd ` set ?cs = {}"
  proof (rule ccontr)
    assume "fst ` set ?cs \<inter> snd ` set ?cs \<noteq> {}"
    then obtain p i p' i' where "p < length dst" "i < E" "p' < length dst" "i' < E"
        "dst ! p * E + i = src ! p' * E + i'"
      unfolding cs(2) by force
    then have "dst ! p = src ! p'" "p < length dst" "p' < length dst" using nest_eq by blast+
    then have "dst ! p \<in> set dst" "dst ! p \<in> set src" using sb(3) nth_mem [of p dst] by metis+
    then show False using ok unfolding moves_ok_def by blast
  qed
  have ys: "ys = write_list (map (\<lambda>(d, s). (d, xs ! s)) ?cs) xs"
    unfolding ys_def using copy_list_write [OF cs(1) free] .
  have dw: "distinct (map fst (map (\<lambda>(d, s). (d, xs ! s)) ?cs))"
    using cs(1) by (simp add: comp_def case_prod_beta)
  have at: "ys ! x = (case map_of (map (\<lambda>(d, s). (d, xs ! s)) ?cs) x of Some v \<Rightarrow> v | None \<Rightarrow> xs ! x)"
    if "x < length xs" for x
    unfolding ys using write_list_nth [OF dw that] .
  show len': "length ys = length xs" by (simp add: ys_def)
  show "block_at E ys (dst ! p) = block_at E xs (src ! p)" if p: "p < length dst"
  proof (rule block_at_eqI)
    fix i assume i: "i < E"
    have "(dst ! p * E + i, xs ! (src ! p * E + i)) \<in> set (map (\<lambda>(d, s). (d, xs ! s)) ?cs)"
      using cs(2) p i by force
    then have "map_of (map (\<lambda>(d, s). (d, xs ! s)) ?cs) (dst ! p * E + i) = Some (xs ! (src ! p * E + i))"
      using dw by simp
    then show "ys ! (dst ! p * E + i) = xs ! (src ! p * E + i)"
      using at [of "dst ! p * E + i"] nest_less [OF sb(2) [OF p] i] len by simp
  qed (use bnd sb [OF p] len len' in auto)
  show "block_at E ys b = block_at E xs b" if b: "b < nb" "b \<notin> set dst"
  proof (rule block_at_eqI)
    fix i assume i: "i < E"
    have "b * E + i \<notin> fst ` set ?cs"
    proof
      assume "b * E + i \<in> fst ` set ?cs"
      then obtain p j where "p < length dst" "j < E" "b * E + i = dst ! p * E + j" unfolding cs(2) by force
      then show False using nest_eq i b(2) by (metis nth_mem)
    qed
    then have "map_of (map (\<lambda>(d, s). (d, xs ! s)) ?cs) (b * E + i) = None"
      by (force simp: map_of_eq_None_iff)
    then show "ys ! (b * E + i) = xs ! (b * E + i)" using at [of "b * E + i"] nest_less [OF b(1) i] len by simp
  qed (use bnd b len len' in auto)
qed

lemma blocks_determine:
  assumes "length xs = nb * E" and "length ys = nb * E" and "\<And>b. b < nb \<Longrightarrow> block_at E xs b = block_at E ys b"
  shows "xs = ys"
proof (rule nth_equalityI)
  fix x assume x: "x < length xs"
  then have E: "0 < E" and b: "x div E < nb" using assms(1) by (auto simp: less_mult_imp_div_less intro: gr0I)
  have le: "(x div E + 1) * E \<le> nb * E" using b by (intro mult_le_mono1) simp
  have "xs ! (x div E * E + x mod E) = ys ! (x div E * E + x mod E)"
    using assms(3) [OF b] block_at_nth [of "x div E" E xs "x mod E"] block_at_nth [of "x div E" E ys "x mod E"]
      le assms(1,2) E by simp
  then show "xs ! x = ys ! x" by simp
qed (use assms in simp)

section \<open>The copying kernels\<close>

text \<open>The pairs of source and destination as the flat array the kernels take.\<close>

definition pair_mapping :: "nat list \<Rightarrow> nat list \<Rightarrow> int list" where
  "pair_mapping src dst = concat (map (\<lambda>(s, d). [int s, int d]) (zip src dst))"

lemma pair_mapping_nth:
  assumes "length src = length dst" and "p < length dst"
  shows "vec_at (pair_mapping src dst) (2 * p) = Some (int (src ! p))"
    and "vec_at (pair_mapping src dst) (2 * p + 1) = Some (int (dst ! p))"
proof -
  have len: "length (pair_mapping src dst) = 2 * length dst"
    using assms(1) by (induction src dst rule: list_induct2) (simp_all add: pair_mapping_def)
  have "pair_mapping src dst ! (2 * p) = int (src ! p) \<and> pair_mapping src dst ! (2 * p + 1) = int (dst ! p)"
    using assms
  proof (induction src dst arbitrary: p rule: list_induct2)
    case (Cons s src d dst)
    then show ?case by (cases p) (simp_all add: pair_mapping_def)
  qed simp
  then show "vec_at (pair_mapping src dst) (2 * p) = Some (int (src ! p))"
    "vec_at (pair_mapping src dst) (2 * p + 1) = Some (int (dst ! p))"
    using len assms(2) by simp_all
qed

text \<open>The geometry of a cache of \<open>nb\<close> blocks; all its indices fit into \<open>int32_t\<close>.\<close>

definition geometry_ok :: "nat \<Rightarrow> nat \<Rightarrow> nat \<Rightarrow> nat \<Rightarrow> bool" where
  "geometry_ok kv bs hdim nb \<longleftrightarrow> 0 < kv \<and> 0 < bs \<and> 0 < hdim \<and> kv * bs * hdim + 256 < 2 ^ 31 \<and> nb * (kv * bs * hdim) < 2 ^ 31"

lemma geometry_parts:
  assumes "geometry_ok kv bs hdim nb"
  shows "0 < kv * bs * hdim" "kv * bs * hdim + 256 < 2 ^ 31" "nb * (kv * bs * hdim) < 2 ^ 31" "kv * bs \<le> kv * bs * hdim"
  using assms by (simp_all add: geometry_ok_def)

lemma elems_per_block_nat:
  assumes "geometry_ok kv bs hdim nb"
  shows "elems_per_block (int kv) (int bs) (int hdim) = Some (int (kv * bs * hdim))"
proof -
  have "kv * bs < 2 ^ 31" "kv * bs * hdim < 2 ^ 31" using geometry_parts [OF assms] by linarith+
  then show ?thesis
    using chk_i32_nat [of "kv * bs"] chk_i32_nat [of "kv * bs * hdim"] by (simp add: elems_per_block_def)
qed

lemma blocks_y_nat:
  assumes "E + 256 < 2 ^ 31"
  shows "blocks_y (int E) = Some (int ((E + 255) div 256))"
proof -
  have "chk_i32 (int E + 256) = Some (int E + 256)" using chk_i32_nat [OF assms] by simp
  moreover have "div_i32 (int E + 256 - 1) 256 = Some ((int E + 255) div 256)"
    using assms div_i32_Some [of "int E + 255" 256] by simp
  ultimately show ?thesis by (simp add: blocks_y_def zdiv_int)
qed

lemma copy_threads:
  fixes E :: nat
  assumes "E + 256 < 2 ^ 31" and "y < (E + 255) div 256" and "x < 256"
  shows "x + y * 256 < 2 ^ 31"
  using assms by linarith

lemma copy_cover: "E \<le> (E + 255) div 256 * 256" for E :: nat
  by linarith

lemma copy_blocks_kernel_act:
  assumes ok: "moves_ok nb src dst" "geometry_ok kv bs hdim nb" "length dst < 2 ^ 30"
    and len: "length kc = nb * (kv * bs * hdim)" "length vc = nb * (kv * bs * hdim)"
    and t: "t \<in> set (grid3 (length dst) ((kv * bs * hdim + 255) div 256) 256)"
  shows "copy_blocks_kernel (pair_mapping src dst) (int kv) (int hdim) (int bs) t (kc, vc) =
    Some (copy_both (copy_act (kv * bs * hdim) src dst t) (kc, vc))"
proof -
  let ?E = "kv * bs * hdim"
  obtain p y x where e: "t = (p, y, x)" by (cases t)
  have p: "p < length dst" "y < (?E + 255) div 256" "x < 256" using t e by simp_all
  have l: "length src = length dst" "src ! p < nb" "dst ! p < nb" using ok(1) p(1) by (auto simp: moves_ok_def)
  have i: "chk_i32 (int p * 2) = Some (int (2 * p))" using chk_i32_nat [of "2 * p"] p(1) ok(3) by (simp add: mult.commute)
  have i1: "int (2 * p) + 1 = int (2 * p + 1)" by simp
  note m = pair_mapping_nth [OF l(1) p(1)]
  have tid: "to_i32 (int (x + y * 256)) = int (x + y * 256)"
    using copy_threads [OF geometry_parts(2) [OF ok(2)] p(2,3)] by (rule to_i32_of_nat)
  show ?thesis
  proof (cases "x + y * 256 < ?E")
    case True
    have d: "dst ! p * ?E + (x + y * 256) < nb * ?E" "src ! p * ?E + (x + y * 256) < nb * ?E"
      using nest_less [OF l(3) True] nest_less [OF l(2) True] .
    note g = geometry_parts(3) [OF ok(2)]
    have c: "chk_i64 (int (dst ! p) * int ?E) = Some (int (dst ! p * ?E))"
        "chk_i64 (int (dst ! p * ?E) + int (x + y * 256)) = Some (int (dst ! p * ?E + (x + y * 256)))"
        "chk_i64 (int (src ! p) * int ?E) = Some (int (src ! p * ?E))"
        "chk_i64 (int (src ! p * ?E) + int (x + y * 256)) = Some (int (src ! p * ?E + (x + y * 256)))"
      using d g chk_i64_nat [of "dst ! p * ?E"] chk_i64_nat [of "src ! p * ?E"]
        chk_i64_nat [of "dst ! p * ?E + (x + y * 256)"] chk_i64_nat [of "src ! p * ?E + (x + y * 256)"]
      by simp_all
    have "copy_kv (int (dst ! p * ?E + (x + y * 256))) (int (src ! p * ?E + (x + y * 256))) (kc, vc) =
        Some (copy_both [(dst ! p * ?E + (x + y * 256), src ! p * ?E + (x + y * 256))] (kc, vc))"
      by (rule copy_kv_nat) (use d len in simp_all)
    then show ?thesis using True
      by (simp only: e copy_blocks_kernel_def prod.case i bind.bind_lunit i1 arr_get_nat m elems_per_block_nat [OF ok(2)]
          Let_def tid of_nat_less_iff if_True c copy_act_def)
  next
    case False
    then show ?thesis
      by (simp only: e copy_blocks_kernel_def prod.case i bind.bind_lunit i1 arr_get_nat m elems_per_block_nat [OF ok(2)]
          Let_def tid of_nat_less_iff if_False copy_act_def) (simp add: copy_both_def)
  qed
qed

lemma compact_kernel_act:
  assumes ok: "moves_ok nb src dst" "geometry_ok kv bs hdim nb"
    and len: "length kc = nb * (kv * bs * hdim)" "length vc = nb * (kv * bs * hdim)"
    and t: "t \<in> set (grid3 (length dst) ((kv * bs * hdim + 255) div 256) 256)"
  shows "compact_kv_cache_kernel (map int src) (map int dst) (int kv) (int hdim) (int bs) ((kv * bs * hdim + 255) div 256) t (kc, vc) =
    Some (copy_both (copy_act (kv * bs * hdim) src dst t) (kc, vc))"
proof -
  let ?E = "kv * bs * hdim"
  obtain p y x where e: "t = (p, y, x)" by (cases t)
  have p: "p < length dst" "y < (?E + 255) div 256" "x < 256" using t e by simp_all
  have l: "length src = length dst" "src ! p < nb" "dst ! p < nb" using ok(1) p(1) by (auto simp: moves_ok_def)
  have ne: "src ! p \<noteq> dst ! p" using ok(1) p(1) l(1) unfolding moves_ok_def by (metis disjoint_iff nth_mem)
  have cover: "?E \<le> 256 * ((?E + 255) div 256)" "0 < 256 * ((?E + 255) div 256)"
    using copy_cover [of ?E] geometry_parts(1) [OF ok(2)] by linarith+
  note st = strided_single [OF cover, of "x + y * 256"]
  show ?thesis
  proof (cases "x + y * 256 < ?E")
    case True
    have d: "dst ! p * ?E + (x + y * 256) < nb * ?E" "src ! p * ?E + (x + y * 256) < nb * ?E"
      using nest_less [OF l(3) True] nest_less [OF l(2) True] .
    note g = geometry_parts(3) [OF ok(2)]
    have c: "chk_i32 (int (dst ! p) * int ?E) = Some (int (dst ! p * ?E))"
        "chk_i32 (int (dst ! p * ?E) + int (x + y * 256)) = Some (int (dst ! p * ?E + (x + y * 256)))"
        "chk_i32 (int (src ! p) * int ?E) = Some (int (src ! p * ?E))"
        "chk_i32 (int (src ! p * ?E) + int (x + y * 256)) = Some (int (src ! p * ?E + (x + y * 256)))"
      using d g chk_i32_nat [of "dst ! p * ?E"] chk_i32_nat [of "src ! p * ?E"]
        chk_i32_nat [of "dst ! p * ?E + (x + y * 256)"] chk_i32_nat [of "src ! p * ?E + (x + y * 256)"]
      by simp_all
    have "copy_kv (int (dst ! p * ?E + (x + y * 256))) (int (src ! p * ?E + (x + y * 256))) (kc, vc) =
        Some (copy_both [(dst ! p * ?E + (x + y * 256), src ! p * ?E + (x + y * 256))] (kc, vc))"
      by (rule copy_kv_nat) (use d len in simp_all)
    then show ?thesis using True ne p(1) l(1)
      by (simp add: e compact_kv_cache_kernel_def elems_per_block_nat [OF ok(2), simplified] st c [simplified] copy_act_def
          nat_mult_distrib)
  next
    case False
    then show ?thesis using ne p(1) l(1)
      by (simp add: e compact_kv_cache_kernel_def elems_per_block_nat [OF ok(2), simplified] st copy_act_def copy_both_def
          nat_mult_distrib)
  qed
qed

lemma copy_both_append: "copy_both (cs @ cs') st = copy_both cs' (copy_both cs st)"
  by (cases st) (simp add: copy_both_def)

lemma copy_launches:
  assumes ok: "moves_ok nb src dst" "geometry_ok kv bs hdim nb" "length dst < 2 ^ 30"
    and len: "length kc = nb * (kv * bs * hdim)" "length vc = nb * (kv * bs * hdim)"
    and ord: "mset order = mset (grid3 (length dst) ((kv * bs * hdim + 255) div 256) 256)"
  defines "cs \<equiv> concat (map (copy_act (kv * bs * hdim) src dst) order)"
  shows "launch_copy_blocks order (pair_mapping src dst) (int kv) (int hdim) (int bs) (kc, vc) =
      Some (copy_list cs kc, copy_list cs vc)"
    and "launch_compact_kv_cache order (map int src) (map int dst) (int kv) (int hdim) (int bs) (kc, vc) =
      Some (copy_list cs kc, copy_list cs vc)"
proof -
  let ?E = "kv * bs * hdim"
  let ?P = "\<lambda>(kc :: real list, vc :: real list). length kc = nb * ?E \<and> length vc = nb * ?E"
  have mem: "t \<in> set (grid3 (length dst) ((?E + 255) div 256) 256)" if "t \<in> set order" for t
    using that mset_eq_setD [OF ord] by simp
  have keep: "?P st \<Longrightarrow> ?P (copy_both ws st)" for ws st by (cases st) (simp add: copy_both_def)
  have nil: "copy_both [] st = st" for st by (cases st) (simp add: copy_both_def)
  have "foldM (copy_blocks_kernel (pair_mapping src dst) (int kv) (int hdim) (int bs)) order (kc, vc) =
      Some (copy_both (concat (map (copy_act ?E src dst) order)) (kc, vc))"
  proof (rule foldM_acts [where P = ?P, OF _ keep nil copy_both_append])
    fix t st assume "t \<in> set order" "?P st"
    then show "copy_blocks_kernel (pair_mapping src dst) (int kv) (int hdim) (int bs) t st =
        Some (copy_both (copy_act ?E src dst t) st)"
      using copy_blocks_kernel_act [OF ok _ _ mem] by (cases st) simp
  qed (use len in simp_all)
  then show "launch_copy_blocks order (pair_mapping src dst) (int kv) (int hdim) (int bs) (kc, vc) =
      Some (copy_list cs kc, copy_list cs vc)"
    by (simp add: launch_copy_blocks_def copy_both_def cs_def)
  have "foldM (compact_kv_cache_kernel (map int src) (map int dst) (int kv) (int hdim) (int bs) ((?E + 255) div 256))
      order (kc, vc) = Some (copy_both (concat (map (copy_act ?E src dst) order)) (kc, vc))"
  proof (rule foldM_acts [where P = ?P, OF _ keep nil copy_both_append])
    fix t st assume "t \<in> set order" "?P st"
    then show "compact_kv_cache_kernel (map int src) (map int dst) (int kv) (int hdim) (int bs) ((?E + 255) div 256) t st =
        Some (copy_both (copy_act ?E src dst t) st)"
      using compact_kernel_act [OF ok(1,2) _ _ mem] by (cases st) simp
  qed (use len in simp_all)
  then show "launch_compact_kv_cache order (map int src) (map int dst) (int kv) (int hdim) (int bs) (kc, vc) =
      Some (copy_list cs kc, copy_list cs vc)"
    unfolding launch_compact_kv_cache_def elems_per_block_nat [OF ok(2)] bind.bind_lunit
      blocks_y_nat [OF geometry_parts(2) [OF ok(2)]] nat_int
    by (simp add: copy_both_def cs_def)
qed

lemma copy_grid_nat:
  assumes "geometry_ok kv bs hdim nb"
  shows "copy_grid (int n) (int kv) (int hdim) (int bs) = Some (grid3 n ((kv * bs * hdim + 255) div 256) 256)"
  unfolding copy_grid_def elems_per_block_nat [OF assms] bind.bind_lunit
    blocks_y_nat [OF geometry_parts(2) [OF assms]] nat_int ..

section \<open>Swapping and clearing\<close>

text \<open>The writes of one thread of the swap kernel.\<close>

definition swap_act :: "nat \<Rightarrow> real list \<Rightarrow> nat list \<Rightarrow> nat list \<Rightarrow> nat \<times> nat \<Rightarrow> (nat \<times> real) list" where
  "swap_act E sc src dst = (\<lambda>(p, t). map (\<lambda>i. (dst ! p * E + i, sc ! (src ! p * E + i))) (strided t E 256))"

text \<open>A swap takes blocks from one cache of \<open>ns\<close> blocks to different blocks of another one of \<open>nd\<close> blocks.\<close>

definition swap_ok :: "nat \<Rightarrow> nat \<Rightarrow> nat list \<Rightarrow> nat list \<Rightarrow> bool" where
  "swap_ok ns nd src dst \<longleftrightarrow> length src = length dst \<and> distinct dst \<and> (\<forall>b \<in> set src. b < ns) \<and> (\<forall>b \<in> set dst. b < nd)"

lemma strided_bound: "0 < step \<Longrightarrow> i \<in> set (strided t n step) \<Longrightarrow> i < n \<and> i mod step = t mod step"
  using strided_spec [of step t n] by auto

lemma swap_writes:
  assumes ok: "swap_ok ns nd src dst" and ord: "mset order = mset (grid2 (length dst) 256)"
  shows "distinct (map fst (concat (map (swap_act E sc src dst) order)))"
    and "(x, v) \<in> set (concat (map (swap_act E sc src dst) order)) \<longleftrightarrow>
      (\<exists>p i. p < length dst \<and> i < E \<and> x = dst ! p * E + i \<and> v = sc ! (src ! p * E + i))"
proof -
  let ?act = "swap_act E sc src dst"
  have d: "distinct (map fst (?act t))" for t
    using strided_spec [of 256 _ E]
    by (cases t) (auto simp: swap_act_def comp_def distinct_map inj_on_def)
  have disj: "fst ` set (?act t) \<inter> fst ` set (?act t') = {}"
    if t: "t \<in> set (grid2 (length dst) 256)" "t' \<in> set (grid2 (length dst) 256)" "t \<noteq> t'" for t t'
  proof (rule ccontr)
    assume ne: "fst ` set (?act t) \<inter> fst ` set (?act t') \<noteq> {}"
    obtain p x where e: "t = (p, x)" by (cases t)
    obtain p' x' where e': "t' = (p', x')" by (cases t')
    obtain i i' where i: "i \<in> set (strided x E 256)" "i' \<in> set (strided x' E 256)" "dst ! p * E + i = dst ! p' * E + i'"
      using ne e e' by (auto simp: swap_act_def)
    have b: "i < E" "i mod 256 = x mod 256" "i' < E" "i' mod 256 = x' mod 256"
      using strided_bound [OF _ i(1)] strided_bound [OF _ i(2)] by simp_all
    have eq: "dst ! p = dst ! p'" "i = i'" using i(3) b(1,3) nest_eq by blast+
    then have "x = x'" using b(2,4) t(1,2) e e' by simp
    moreover have "p = p'" using eq(1) t(1,2) e e' ok by (simp add: swap_ok_def nth_eq_iff_index_eq)
    ultimately show False using t(3) e e' by simp
  qed
  note lw = launch_writes [where act = ?act, OF ord grid_distinct(1) d disj]
  show "distinct (map fst (concat (map ?act order)))" by (rule lw(1))
  have ex: "(x, v) \<in> (\<Union>t \<in> set (grid2 (length dst) 256). set (?act t)) \<longleftrightarrow>
      (\<exists>p i. p < length dst \<and> i < E \<and> x = dst ! p * E + i \<and> v = sc ! (src ! p * E + i))"
  proof
    assume "(x, v) \<in> (\<Union>t \<in> set (grid2 (length dst) 256). set (?act t))"
    then obtain p t i where "p < length dst" "i \<in> set (strided t E 256)" "x = dst ! p * E + i" "v = sc ! (src ! p * E + i)"
      by (auto simp: swap_act_def)
    then show "\<exists>p i. p < length dst \<and> i < E \<and> x = dst ! p * E + i \<and> v = sc ! (src ! p * E + i)"
      using strided_bound [of 256 i t E] by auto
  next
    assume "\<exists>p i. p < length dst \<and> i < E \<and> x = dst ! p * E + i \<and> v = sc ! (src ! p * E + i)"
    then obtain p i where p: "p < length dst" "i < E" "x = dst ! p * E + i" "v = sc ! (src ! p * E + i)" by blast
    then have "i \<in> set (strided (i mod 256) E 256)" using strided_spec [of 256 "i mod 256" E] by simp
    then have "(x, v) \<in> set (?act (p, i mod 256))" using p by (auto simp: swap_act_def)
    then show "(x, v) \<in> (\<Union>t \<in> set (grid2 (length dst) 256). set (?act t))"
      using p(1) by (intro UN_I [of "(p, i mod 256)"]) simp_all
  qed
  show "(x, v) \<in> set (concat (map ?act order)) \<longleftrightarrow>
      (\<exists>p i. p < length dst \<and> i < E \<and> x = dst ! p * E + i \<and> v = sc ! (src ! p * E + i))"
    by (rule trans [OF eqset_imp_iff [OF lw(2)] ex])
qed

lemma swap_kernel_act:
  assumes ok: "swap_ok ns nd src dst" "length dst < 2 ^ 30" "ns * E < 2 ^ 63" "nd * E < 2 ^ 63"
    and len: "length sc = ns * E" "length dc = nd * E" and t: "t \<in> set (grid2 (length dst) 256)"
  shows "swap_blocks_kernel sc (pair_mapping src dst) (int E) t dc = Some (write_list (swap_act E sc src dst t) dc)"
proof -
  obtain p x where e: "t = (p, x)" by (cases t)
  have p: "p < length dst" using t e by simp
  have l: "length src = length dst" "src ! p < ns" "dst ! p < nd" using ok(1) p(1) by (auto simp: swap_ok_def)
  have i: "chk_i32 (int p * 2) = Some (int (2 * p))" using chk_i32_nat [of "2 * p"] p(1) ok(2) by (simp add: mult.commute)
  have i1: "int (2 * p) + 1 = int (2 * p + 1)" by simp
  note m = pair_mapping_nth [OF l(1) p]
  let ?f = "\<lambda>i dc. do { s0 \<leftarrow> chk_i64 (int (src ! p) * int E); s \<leftarrow> chk_i64 (s0 + int i); x \<leftarrow> arr_get sc s;
      d0 \<leftarrow> chk_i64 (int (dst ! p) * int E); d \<leftarrow> chk_i64 (d0 + int i); arr_set dc d x }"
  have "foldM ?f is dc = Some (write_list (map (\<lambda>i. (dst ! p * E + i, sc ! (src ! p * E + i))) is) dc)"
    if "\<forall>i \<in> set is. i < E" "length dc = nd * E" for "is" dc
    using that
  proof (induction "is" arbitrary: dc)
    case (Cons i "is")
    have b: "src ! p * E + i < ns * E" "dst ! p * E + i < nd * E"
      using nest_less [OF l(2)] nest_less [OF l(3)] Cons.prems(1) by simp_all
    have c: "chk_i64 (int (src ! p) * int E) = Some (int (src ! p * E))"
        "chk_i64 (int (src ! p * E) + int i) = Some (int (src ! p * E + i))"
        "chk_i64 (int (dst ! p) * int E) = Some (int (dst ! p * E))"
        "chk_i64 (int (dst ! p * E) + int i) = Some (int (dst ! p * E + i))"
      using b ok(3,4) chk_i64_nat [of "src ! p * E"] chk_i64_nat [of "src ! p * E + i"]
        chk_i64_nat [of "dst ! p * E"] chk_i64_nat [of "dst ! p * E + i"] by simp_all
    have "?f i dc = Some (dc[dst ! p * E + i := sc ! (src ! p * E + i)])"
      using b len(1) Cons.prems(2) by (simp only: c bind.bind_lunit arr_get_nat arr_set_nat vec_at_Some vec_set_Some)
    then show ?case using Cons by simp
  qed simp
  from this [of "strided x E 256" dc] strided_bound [of 256 _ x E] len(2)
  show ?thesis
    by (simp only: e swap_blocks_kernel_def prod.case i bind.bind_lunit i1 arr_get_nat m nat_int swap_act_def) auto
qed

lemma size_elems_nat: "4 * E < 2 ^ 31 \<Longrightarrow> size_elems (int (4 * E)) = int E"
  by (simp add: size_elems_def)

lemma swap_effect:
  assumes ok: "swap_ok ns nd src dst" and len: "length sc = ns * E" "length dc = nd * E"
    and ord: "mset order = mset (grid2 (length dst) 256)"
  defines "dc' \<equiv> write_list (concat (map (swap_act E sc src dst) order)) dc"
  shows "p < length dst \<Longrightarrow> block_at E dc' (dst ! p) = block_at E sc (src ! p)"
    and "b < nd \<Longrightarrow> b \<notin> set dst \<Longrightarrow> block_at E dc' b = block_at E dc b"
proof -
  let ?ws = "concat (map (swap_act E sc src dst) order)"
  note w = swap_writes [OF ok ord, where E = E and sc = sc]
  have bnd: "(c + 1) * E \<le> n * E" if "c < n" for c n using that by (intro mult_le_mono1) simp
  have sb: "src ! p < ns" "dst ! p < nd" if "p < length dst" for p using that ok by (auto simp: swap_ok_def)
  show "block_at E dc' (dst ! p) = block_at E sc (src ! p)" if p: "p < length dst"
    unfolding dc'_def
  proof (rule block_at_eqI)
    fix i assume i: "i < E"
    have "map_of ?ws (dst ! p * E + i) = Some (sc ! (src ! p * E + i))"
      using w(1) w(2) [of "dst ! p * E + i" "sc ! (src ! p * E + i)"] p i by (metis map_of_is_SomeI)
    then show "write_list ?ws dc ! (dst ! p * E + i) = sc ! (src ! p * E + i)"
      using write_list_nth [OF w(1), of "dst ! p * E + i" dc] nest_less [OF sb(2) [OF p] i] len(2) by simp
  qed (use bnd sb [OF p] len in auto)
  show "block_at E dc' b = block_at E dc b" if b: "b < nd" "b \<notin> set dst"
    unfolding dc'_def
  proof (rule block_at_eqI)
    fix i assume i: "i < E"
    have "map_of ?ws (b * E + i) = None"
    proof (rule ccontr)
      assume "map_of ?ws (b * E + i) \<noteq> None"
      then obtain v where "(b * E + i, v) \<in> set ?ws" by (auto dest: map_of_SomeD)
      then obtain p j where "p < length dst" "j < E" "b * E + i = dst ! p * E + j" using w(2) by blast
      then show False using nest_eq i b(2) by (metis nth_mem)
    qed
    then show "write_list ?ws dc ! (b * E + i) = dc ! (b * E + i)"
      using write_list_nth [OF w(1), of "b * E + i" dc] nest_less [OF b(1) i] len(2) by simp
  qed (use bnd b len in auto)
qed

lemma swap_launch:
  assumes ok: "swap_ok ns nd src dst" "length dst < 2 ^ 30" "ns * E < 2 ^ 63" "nd * E < 2 ^ 63" "4 * E < 2 ^ 31"
    and len: "length sc = ns * E" "length dc = nd * E" and ord: "mset order = mset (grid2 (length dst) 256)"
  shows "\<exists>dc'. launch_swap_blocks order sc (pair_mapping src dst) (int (4 * E)) dc = Some dc' \<and> length dc' = nd * E \<and>
    (\<forall>p < length dst. block_at E dc' (dst ! p) = block_at E sc (src ! p)) \<and>
    (\<forall>b < nd. b \<notin> set dst \<longrightarrow> block_at E dc' b = block_at E dc b)"
proof -
  let ?ws = "concat (map (swap_act E sc src dst) order)"
  have mem: "t \<in> set (grid2 (length dst) 256)" if "t \<in> set order" for t using that mset_eq_setD [OF ord] by simp
  have "foldM (swap_blocks_kernel sc (pair_mapping src dst) (int E)) order dc = Some (write_list ?ws dc)"
    by (rule foldM_acts [where P = "\<lambda>dc. length dc = nd * E"])
       (use swap_kernel_act [OF ok(1-4) len(1) _ mem] len(2) in simp_all)
  then have run: "launch_swap_blocks order sc (pair_mapping src dst) (int (4 * E)) dc = Some (write_list ?ws dc)"
    unfolding launch_swap_blocks_def size_elems_nat [OF ok(5)] .
  show ?thesis
    using run len(2) swap_effect [OF ok(1) len ord] by (intro exI [of _ "write_list ?ws dc"]) simp
qed

text \<open>Clearing blocks is swapping them with a cache of one block of zeros.\<close>

lemma memset_kernel_act:
  assumes dst: "\<forall>b \<in> set dst. b < nd" and "nd * E < 2 ^ 31" and "length dc = nd * E"
    and t: "t \<in> set (grid2 (length dst) 256)"
  shows "memset_blocks_kernel (map int dst) (int E) t dc =
    Some (write_list (swap_act E (replicate E 0) (replicate (length dst) 0) dst t) dc)"
proof -
  obtain p x where e: "t = (p, x)" by (cases t)
  have p: "p < length dst" "dst ! p < nd" using t e dst by simp_all
  have at: "vec_at (map int dst) p = Some (int (dst ! p))" using p by simp
  have "foldM (\<lambda>i c. do { j \<leftarrow> chk_i32 (int (dst ! p * E) + int i); arr_set c j 0 }) is dc =
      Some (write_list (map (\<lambda>i. (dst ! p * E + i, replicate E 0 ! (replicate (length dst) 0 ! p * E + i))) is) dc)"
    if "\<forall>i \<in> set is. i < E" "length dc = nd * E" for "is" and dc :: "real list"
    using that
  proof (induction "is" arbitrary: dc)
    case (Cons i "is")
    have b: "dst ! p * E + i < nd * E" using nest_less [OF p(2)] Cons.prems(1) by simp
    then have "chk_i32 (int (dst ! p * E) + int i) = Some (int (dst ! p * E + i))"
      using assms(2) chk_i32_nat [of "dst ! p * E + i"] by simp
    then have "do { j \<leftarrow> chk_i32 (int (dst ! p * E) + int i); arr_set dc j 0 } = Some (dc[dst ! p * E + i := 0])"
      using b Cons.prems(2) by (simp only: bind.bind_lunit arr_set_nat vec_set_Some)
    then show ?case using Cons p(1) by simp
  qed simp
  moreover have "dst ! p * E \<le> nd * E" using p(2) by (intro mult_le_mono1) simp
  then have "dst ! p * E < 2 ^ 31" using assms(2) by linarith
  then have "chk_i32 (int (dst ! p) * int E) = Some (int (dst ! p * E))"
    using chk_i32_nat [of "dst ! p * E"] by simp
  ultimately show ?thesis using strided_bound [of 256 _ x E] assms(3)
    by (simp only: e memset_blocks_kernel_def prod.case arr_get_nat at bind.bind_lunit nat_int swap_act_def) auto
qed

lemma memset_launch:
  assumes ok: "distinct dst" "\<forall>b \<in> set dst. b < nd" "nd * E < 2 ^ 31" "4 * E < 2 ^ 31" and len: "length dc = nd * E"
    and ord: "mset order = mset (grid2 (length dst) 256)"
  shows "\<exists>dc'. launch_memset_blocks order (map int dst) (int (4 * E)) dc = Some dc' \<and>
    (\<forall>b \<in> set dst. block_at E dc' b = replicate E 0) \<and> (\<forall>b < nd. b \<notin> set dst \<longrightarrow> block_at E dc' b = block_at E dc b)"
proof -
  let ?src = "replicate (length dst) 0" and ?z = "replicate E (0 :: real)"
  let ?ws = "concat (map (swap_act E ?z ?src dst) order)"
  have sw: "swap_ok 1 nd ?src dst" using ok(1,2) by (auto simp: swap_ok_def)
  have z: "length ?z = 1 * E" by simp
  have mem: "t \<in> set (grid2 (length dst) 256)" if "t \<in> set order" for t using that mset_eq_setD [OF ord] by simp
  have "foldM (memset_blocks_kernel (map int dst) (int E)) order dc = Some (write_list ?ws dc)"
    by (rule foldM_acts [where P = "\<lambda>dc. length dc = nd * E"])
       (use memset_kernel_act [OF ok(2,3) _ mem] len in simp_all)
  then have run: "launch_memset_blocks order (map int dst) (int (4 * E)) dc = Some (write_list ?ws dc)"
    unfolding launch_memset_blocks_def size_elems_nat [OF ok(4)] .
  have "block_at E (write_list ?ws dc) b = ?z" if "b \<in> set dst" for b
    using that swap_effect(1) [OF sw z len ord] by (auto simp: in_set_conv_nth block_at_def)
  then show ?thesis using run swap_effect(2) [OF sw z len ord] by (intro exI [of _ "write_list ?ws dc"]) simp
qed

text \<open>
  Moves that form a chain race: when the destination of one move is the source of another, as when
  blocks slide down to close a gap, the result of a compaction depends on the order of the threads.
\<close>

lemma compact_chain_race:
  "\<exists>order order'. mset order = mset (grid3 2 1 256) \<and> mset order' = mset (grid3 2 1 256) \<and>
    launch_compact_kv_cache order [1, 2] [0, 1] 1 1 1 ([0, 1, 2], [0, 1, 2]) \<noteq>
    launch_compact_kv_cache order' [1, 2] [0, 1] 1 1 1 ([0, 1, 2], [0, 1, 2])"
proof -
  let ?k = "compact_kv_cache_kernel [1, 2] [0, 1] 1 1 1 1" and ?first = "\<lambda>(p, y, t :: nat). t = 0"
  define rest where "rest = filter (\<lambda>x. \<not> ?first x) (grid3 2 1 256)"
  have "set ([(0, 0, 0), (1, 0, 0)] @ rest) = set (grid3 2 1 256)" by (auto simp: rest_def less_2_cases_iff)
  moreover have "distinct ([(0, 0, 0), (1, 0, 0)] @ rest)" by (simp add: rest_def)
  ultimately have perm: "mset ([(0, 0, 0), (1, 0, 0)] @ rest) = mset (grid3 2 1 256)"
    using set_eq_iff_mset_eq_distinct grid_distinct(2) by blast
  have e: "elems_per_block 1 1 1 = Some 1" "blocks_y 1 = Some 1" by code_simp+
  have s: "strided t (Suc 0) 256 = (if t < 1 then [t] else [])" for t using strided_single [of 1 256 t] by simp
  have "foldM ?k ts st = Some st" if "set ts \<subseteq> set rest" for ts st
    using that
  proof (induction ts)
    case (Cons t ts)
    obtain p y x where t: "t = (p, y, x)" by (cases t)
    have "p < 2" "y < 1" "0 < x" using Cons.prems t by (auto simp: rest_def)
    then have "?k t st = Some st" by (auto simp: t compact_kv_cache_kernel_def e s arr_get_def less_2_cases_iff)
    then show ?case using Cons by simp
  qed simp
  then have rest: "foldM ?k rest st = Some st" for st by blast
  have k: "?k (0, 0, 0) ([0, 1, 2], [0, 1, 2]) = Some ([1, 1, 2], [1, 1, 2])" "?k (1, 0, 0) ([1, 1, 2], [1, 1, 2]) = Some ([1, 2, 2], [1, 2, 2])"
      "?k (1, 0, 0) ([0, 1, 2], [0, 1, 2]) = Some ([0, 2, 2], [0, 2, 2])" "?k (0, 0, 0) ([0, 2, 2], [0, 2, 2]) = Some ([2, 2, 2], [2, 2, 2])"
    by (simp_all add: compact_kv_cache_kernel_def e s arr_get_def arr_set_def copy_kv_def)
  have "launch_compact_kv_cache ([(0, 0, 0), (1, 0, 0)] @ rest) [1, 2] [0, 1] 1 1 1 ([0, 1, 2], [0, 1, 2]) = Some ([1, 2, 2], [1, 2, 2])"
    "launch_compact_kv_cache ([(1, 0, 0), (0, 0, 0)] @ rest) [1, 2] [0, 1] 1 1 1 ([0, 1, 2], [0, 1, 2]) = Some ([2, 2, 2], [2, 2, 2])"
    using k rest by (simp_all add: launch_compact_kv_cache_def e)
  then show ?thesis using perm
    by (intro exI [of _ "[(0, 0, 0), (1, 0, 0)] @ rest"] exI [of _ "[(1, 0, 0), (0, 0, 0)] @ rest"]) (simp add: add_mset_commute)
qed

section \<open>Properties\<close>

text \<open>
  C13. Copying and compacting blocks are exact and agree. For moves whose destinations are pairwise
  different and never also sources, and whatever order the threads of either launch run in, the
  flat copy kernel and the grid-stride compaction kernel produce the same caches: every destination
  block holds what its source block held before the launch, in the key cache and in the value
  cache, and no other block changes.
\<close>

theorem block_moves_exact:
  assumes ok: "moves_ok nb src dst" "geometry_ok kv bs hdim nb" "length dst < 2 ^ 30"
    and len: "length kc = nb * (kv * bs * hdim)" "length vc = nb * (kv * bs * hdim)"
    and grid: "copy_grid (int (length dst)) (int kv) (int hdim) (int bs) = Some grid"
    and orders: "mset order = mset grid" "mset order' = mset grid"
  shows "\<exists>kc' vc'.
    launch_copy_blocks order (pair_mapping src dst) (int kv) (int hdim) (int bs) (kc, vc) = Some (kc', vc') \<and>
    launch_compact_kv_cache order' (map int src) (map int dst) (int kv) (int hdim) (int bs) (kc, vc) = Some (kc', vc') \<and>
    (\<forall>p < length dst. block_at (kv * bs * hdim) kc' (dst ! p) = block_at (kv * bs * hdim) kc (src ! p) \<and>
       block_at (kv * bs * hdim) vc' (dst ! p) = block_at (kv * bs * hdim) vc (src ! p)) \<and>
    (\<forall>b < nb. b \<notin> set dst \<longrightarrow> block_at (kv * bs * hdim) kc' b = block_at (kv * bs * hdim) kc b \<and>
       block_at (kv * bs * hdim) vc' b = block_at (kv * bs * hdim) vc b)"
proof -
  let ?E = "kv * bs * hdim"
  have g: "grid = grid3 (length dst) ((?E + 255) div 256) 256" using grid copy_grid_nat [OF ok(2)] by simp
  note o1 = orders(1) [unfolded g] and o2 = orders(2) [unfolded g]
  let ?c = "\<lambda>ts xs. copy_list (concat (map (copy_act ?E src dst) ts)) xs"
  note mb1 = moved_blocks [OF ok(1) o1 copy_cover] and mb2 = moved_blocks [OF ok(1) o2 copy_cover]
  have eq: "?c order xs = ?c order' xs" if xs: "length xs = nb * ?E" for xs :: "real list"
  proof (rule blocks_determine)
    show "length (?c order xs) = nb * ?E" "length (?c order' xs) = nb * ?E" using xs by simp_all
    show "block_at ?E (?c order xs) b = block_at ?E (?c order' xs) b" if "b < nb" for b
      using mb1(1,2) [OF xs] mb2(1,2) [OF xs] that by (cases "b \<in> set dst") (auto simp: in_set_conv_nth)
  qed
  note eq_k = eq [OF len(1)] and eq_v = eq [OF len(2)]
  have l: "launch_copy_blocks order (pair_mapping src dst) (int kv) (int hdim) (int bs) (kc, vc) =
      Some (?c order kc, ?c order vc)"
    "launch_compact_kv_cache order' (map int src) (map int dst) (int kv) (int hdim) (int bs) (kc, vc) =
      Some (?c order kc, ?c order vc)"
    using copy_launches(1) [OF ok len o1] copy_launches(2) [OF ok len o2] unfolding eq_k eq_v by blast+
  show ?thesis
    by (intro exI [of _ "?c order kc"] exI [of _ "?c order vc"] conjI allI impI l mb1(1,2) len)
qed

theorem block_moves_exact_witness:
  "\<exists>kc' vc'. launch_copy_blocks (rev (grid3 1 1 256)) (pair_mapping [2] [0]) 1 2 1 ([1, 2, 3, 4, 5, 6], [6, 5, 4, 3, 2, 1]) =
       Some (kc', vc') \<and> block_at 2 kc' 0 = [5, 6]"
proof -
  have "copy_grid (int (length [0 :: nat])) (int 1) (int 2) (int 1) = Some (grid3 1 1 256)"
    using copy_grid_nat [of 1 1 2 3 1] by (simp add: geometry_ok_def)
  from block_moves_exact [of 3 "[2]" "[0]" 1 1 2 "[1, 2, 3, 4, 5, 6]" "[6, 5, 4, 3, 2, 1]",
      OF _ _ _ _ _ this, of "rev (grid3 1 1 256)" "grid3 1 1 256"]
  show ?thesis by (auto simp: moves_ok_def geometry_ok_def block_at_def)
qed

text \<open>
  C14. Blocks survive a round trip through the CPU cache. The blocks \<open>gs\<close> of the GPU cache are swapped
  out to the blocks \<open>cs\<close> of the CPU cache; whatever the GPU cache holds later, swapping the CPU
  blocks back in to blocks \<open>gs'\<close> puts the original contents there, for every order in which the
  threads of the two launches run, and no other GPU block changes.
\<close>

theorem swap_round_trip:
  assumes out: "swap_ok ng nc gs cs" and inn: "swap_ok nc ng cs gs'"
    and bounds: "length cs < 2 ^ 30" "ng * E < 2 ^ 63" "nc * E < 2 ^ 63" "4 * E < 2 ^ 31"
    and len: "length gpu = ng * E" "length cpu = nc * E" "length later = ng * E"
    and ord: "mset order = mset (grid2 (length gs) 256)" "mset order' = mset (grid2 (length gs) 256)"
  shows "\<exists>cpu' gpu'. launch_swap_blocks order gpu (pair_mapping gs cs) (int (4 * E)) cpu = Some cpu' \<and>
    launch_swap_blocks order' cpu' (pair_mapping cs gs') (int (4 * E)) later = Some gpu' \<and>
    (\<forall>p < length gs. block_at E gpu' (gs' ! p) = block_at E gpu (gs ! p)) \<and>
    (\<forall>b < ng. b \<notin> set gs' \<longrightarrow> block_at E gpu' b = block_at E later b)"
proof -
  have l: "length gs = length cs" "length cs = length gs'" using out inn by (simp_all add: swap_ok_def)
  note b' = bounds(1) [unfolded l(2)]
  obtain cpu' where c: "launch_swap_blocks order gpu (pair_mapping gs cs) (int (4 * E)) cpu = Some cpu'"
      "length cpu' = nc * E" "\<forall>p < length cs. block_at E cpu' (cs ! p) = block_at E gpu (gs ! p)"
    using swap_launch [OF out bounds len(1,2) ord(1) [unfolded l(1)]] by blast
  obtain gpu' where g: "launch_swap_blocks order' cpu' (pair_mapping cs gs') (int (4 * E)) later = Some gpu'"
      "\<forall>p < length gs'. block_at E gpu' (gs' ! p) = block_at E cpu' (cs ! p)"
      "\<forall>b < ng. b \<notin> set gs' \<longrightarrow> block_at E gpu' b = block_at E later b"
    using swap_launch [OF inn b' bounds(3,2,4) c(2) len(3) ord(2) [unfolded l]] by blast
  show ?thesis using c g l by (intro exI [of _ cpu'] exI [of _ gpu']) simp
qed

theorem swap_round_trip_witness:
  "\<exists>cpu' gpu'. launch_swap_blocks (rev (grid2 1 256)) [1, 2, 3, 4] (pair_mapping [1] [2]) 8 (replicate 6 0) = Some cpu' \<and>
     launch_swap_blocks (grid2 1 256) cpu' (pair_mapping [2] [0]) 8 (replicate 4 0) = Some gpu' \<and>
     block_at 2 gpu' 0 = [3, 4]"
  using swap_round_trip [of 2 3 "[1]" "[2]" "[0]" 2 "[1, 2, 3, 4]" "replicate 6 0" "replicate 4 0"
      "rev (grid2 1 256)" "grid2 1 256"]
  by (auto simp: swap_ok_def block_at_def)

end
