(* ===== verification/Kv_Store.thy ===== *)
theory Kv_Store
  imports Kv_Moves
begin

text \<open>
  What \<open>reshape_and_cache_kernel\<close> does: the new keys and values of a batch can be read back from the
  cells of their slots, in the layout the attention kernels read, and nothing else changes.
\<close>

text \<open>
  The cell of dimension \<open>d\<close> of head \<open>h\<close> in slot \<open>k\<close>: block \<open>k div bs\<close>, offset \<open>k mod bs\<close>.
\<close>

definition kv_cell :: "nat \<Rightarrow> nat \<Rightarrow> nat \<Rightarrow> nat \<Rightarrow> nat \<Rightarrow> nat \<Rightarrow> nat" where
  "kv_cell kv bs hdim k h d = ((k div bs * kv + h) * bs + k mod bs) * hdim + d"

text \<open>The element of head \<open>h\<close> of token \<open>i\<close> in the arrays of new keys and values.\<close>

definition token_elem :: "nat \<Rightarrow> nat \<Rightarrow> nat \<Rightarrow> nat \<Rightarrow> nat \<Rightarrow> nat" where
  "token_elem kv hdim i h d = (i * kv + h) * hdim + d"

lemma token_elem_less:
  "i < n \<Longrightarrow> h < kv \<Longrightarrow> d < hdim \<Longrightarrow> token_elem kv hdim i h d < n * (kv * hdim)"
  using nest_less [OF nest_less [of i n h kv], of d hdim] by (simp add: token_elem_def mult.assoc)

lemma kv_cell_less:
  assumes "k < nb * bs" "h < kv" "d < hdim"
  shows "kv_cell kv bs hdim k h d < nb * (kv * bs * hdim)"
proof -
  have "0 < bs" "k div bs < nb" using assms(1) by (auto simp: less_mult_imp_div_less intro: gr0I)
  then have "k div bs * kv + h < nb * kv" "k mod bs < bs" using nest_less assms(2) by simp_all
  then have "((k div bs * kv + h) * bs + k mod bs) * hdim + d < nb * kv * bs * hdim"
    using nest_less assms(3) by metis
  then show ?thesis by (simp add: kv_cell_def mult.assoc)
qed

lemma kv_cell_eq:
  assumes "0 < bs" "h < kv" "h' < kv" "d < hdim" "d' < hdim"
  shows "kv_cell kv bs hdim k h d = kv_cell kv bs hdim k' h' d' \<longleftrightarrow> k = k' \<and> h = h' \<and> d = d'"
proof
  assume "kv_cell kv bs hdim k h d = kv_cell kv bs hdim k' h' d'"
  then have "(k div bs * kv + h) * bs + k mod bs = (k' div bs * kv + h') * bs + k' mod bs" and d: "d = d'"
    unfolding kv_cell_def using nest_eq [OF assms(4,5)] by blast+
  then have "k div bs * kv + h = k' div bs * kv + h'" and m: "k mod bs = k' mod bs"
    using nest_eq [of "k mod bs" bs "k' mod bs"] assms(1) by simp_all
  then have "k div bs = k' div bs" "h = h'" using nest_eq [OF assms(2,3)] by blast+
  then show "k = k' \<and> h = h' \<and> d = d'" using d m by (metis div_mult_mod_eq)
qed simp

section \<open>One thread\<close>

text \<open>The element a thread copies: the cell it writes and the element it reads.\<close>

definition store_act :: "nat \<Rightarrow> nat \<Rightarrow> nat \<Rightarrow> nat list \<Rightarrow> nat \<times> nat \<times> nat \<Rightarrow> (nat \<times> nat) list" where
  "store_act kv bs hdim slots = (\<lambda>(i, h, d). [(kv_cell kv bs hdim (slots ! i) h d, token_elem kv hdim i h d)])"

definition store_both :: "real list \<Rightarrow> real list \<Rightarrow> (nat \<times> nat) list \<Rightarrow> kv_arrays \<Rightarrow> kv_arrays" where
  "store_both key val ws = (\<lambda>(kc, vc).
     (write_list (map (\<lambda>(c, s). (c, key ! s)) ws) kc, write_list (map (\<lambda>(c, s). (c, val ! s)) ws) vc))"

lemma paged_offset_nat:
  assumes "kv_cell kv bs hdim k h d < 2 ^ 31" "0 < hdim" "0 < bs"
  shows "paged_offset (int kv) (int bs) (int hdim) (int (k div bs)) (int h) (int (k mod bs)) (int d) =
    Some (int (kv_cell kv bs hdim k h d))"
proof -
  let ?a = "k div bs * kv" let ?b = "?a + h" let ?c = "?b * bs" let ?e = "?c + k mod bs" let ?f = "?e * hdim"
  have "?f + d < 2 ^ 31" using assms(1) by (simp only: kv_cell_def)
  moreover have "?e \<le> ?f" "?b \<le> ?c" using assms(2,3) by simp_all
  ultimately have b: "?f < 2 ^ 31" "?e < 2 ^ 31" "?c < 2 ^ 31" "?b < 2 ^ 31" "?a < 2 ^ 31" by linarith+
  have c: "chk_i32 (int (k div bs) * int kv) = Some (int ?a)" "chk_i32 (int ?a + int h) = Some (int ?b)"
      "chk_i32 (int ?b * int bs) = Some (int ?c)" "chk_i32 (int ?c + int (k mod bs)) = Some (int ?e)"
      "chk_i32 (int ?e * int hdim) = Some (int ?f)" "chk_i32 (int ?f + int d) = Some (int (?f + d))"
    using chk_i32_nat [OF b(5)] chk_i32_nat [OF b(4)] chk_i32_nat [OF b(3)] chk_i32_nat [OF b(2)]
      chk_i32_nat [OF b(1)] chk_i32_nat [of "?f + d"] \<open>?f + d < 2 ^ 31\<close>
    by (simp_all only: of_nat_mult of_nat_add)
  show ?thesis unfolding paged_offset_def kv_cell_def by (simp only: c bind.bind_lunit)
qed

lemma token_offset_nat:
  assumes "token_elem kv hdim i h d < 2 ^ 31" "0 < hdim"
  shows "chk_i32 (int i * int kv) = Some (int (i * kv))" "chk_i32 (int (i * kv) + int h) = Some (int (i * kv + h))"
    "chk_i32 (int (i * kv + h) * int hdim) = Some (int ((i * kv + h) * hdim))"
    "chk_i32 (int ((i * kv + h) * hdim) + int d) = Some (int (token_elem kv hdim i h d))"
proof -
  have "(i * kv + h) * hdim + d < 2 ^ 31" using assms(1) by (simp only: token_elem_def)
  moreover have "i * kv + h \<le> (i * kv + h) * hdim" using assms(2) by simp
  ultimately have b: "(i * kv + h) * hdim < 2 ^ 31" "i * kv + h < 2 ^ 31" "i * kv < 2 ^ 31" by linarith+
  show "chk_i32 (int i * int kv) = Some (int (i * kv))" "chk_i32 (int (i * kv) + int h) = Some (int (i * kv + h))"
    "chk_i32 (int (i * kv + h) * int hdim) = Some (int ((i * kv + h) * hdim))"
    "chk_i32 (int ((i * kv + h) * hdim) + int d) = Some (int (token_elem kv hdim i h d))"
    using chk_i32_nat [OF b(1)] chk_i32_nat [OF b(2)] chk_i32_nat [OF b(3)] chk_i32_nat [OF assms(1)]
    by (simp_all only: of_nat_mult of_nat_add token_elem_def)
qed

lemma slot_split:
  assumes "k < 2 ^ 31" "0 < bs"
  shows "div_i32 (int k) (int bs) = Some (int (k div bs))" "mod_i32 (int k) (int bs) = Some (int (k mod bs))"
  using assms by (simp_all add: zdiv_int zmod_int)

text \<open>
  The batches covered: different slots inside the cache, and token arrays whose indices fit into
  \<open>int32_t\<close>.
\<close>

definition store_ok :: "nat \<Rightarrow> nat \<Rightarrow> nat \<Rightarrow> nat \<Rightarrow> nat list \<Rightarrow> bool" where
  "store_ok kv bs hdim nb slots \<longleftrightarrow> geometry_ok kv bs hdim nb \<and> distinct slots \<and> (\<forall>k \<in> set slots. k < nb * bs) \<and>
     length slots * (kv * hdim) < 2 ^ 31"

lemma store_bounds:
  assumes ok: "store_ok kv bs hdim nb slots" and t: "i < length slots" "h < kv" "d < hdim"
  shows "kv_cell kv bs hdim (slots ! i) h d < nb * (kv * bs * hdim)" "kv_cell kv bs hdim (slots ! i) h d < 2 ^ 31"
    "token_elem kv hdim i h d < length slots * (kv * hdim)" "token_elem kv hdim i h d < 2 ^ 31" "slots ! i < 2 ^ 31"
proof -
  have s: "slots ! i < nb * bs" using ok t(1) by (simp add: store_ok_def)
  have g: "nb * (kv * bs * hdim) < 2 ^ 31" "0 < kv * hdim" using ok by (simp_all add: store_ok_def geometry_ok_def)
  show c: "kv_cell kv bs hdim (slots ! i) h d < nb * (kv * bs * hdim)" using kv_cell_less [OF s t(2,3)] .
  show "kv_cell kv bs hdim (slots ! i) h d < 2 ^ 31" using c g(1) by linarith
  show e: "token_elem kv hdim i h d < length slots * (kv * hdim)" using token_elem_less [OF t] .
  show "token_elem kv hdim i h d < 2 ^ 31" using e ok by (simp add: store_ok_def)
  have "nb * bs * 1 \<le> nb * bs * (kv * hdim)" using g(2) by (intro mult_le_mono2) simp
  moreover have "nb * bs * (kv * hdim) = nb * (kv * bs * hdim)" by (simp only: ac_simps)
  ultimately show "slots ! i < 2 ^ 31" using s g(1) by linarith
qed

lemma store_kernel_act:
  assumes ok: "store_ok kv bs hdim nb slots"
    and len: "length key = length slots * (kv * hdim)" "length val = length slots * (kv * hdim)"
      "length kc = nb * (kv * bs * hdim)" "length vc = nb * (kv * bs * hdim)"
    and t: "t \<in> set (grid3 (length slots) kv hdim)"
  shows "reshape_and_cache_kernel key val (map (\<lambda>k. Some (int k)) slots) (int (length slots)) (int kv) (int hdim) (int bs) t (kc, vc) =
    Some (store_both key val (store_act kv bs hdim slots t) (kc, vc))"
proof -
  obtain i h d where e: "t = (i, h, d)" by (cases t)
  have b: "i < length slots" "h < kv" "d < hdim" using t e by simp_all
  have pos: "0 < hdim" "0 < bs" using ok by (simp_all add: store_ok_def geometry_ok_def)
  note sb = store_bounds [OF ok b]
  have at: "vec_at (map (\<lambda>k. Some (int k)) slots) i = Some (Some (int (slots ! i)))" using b(1) by simp
  have rd: "vec_at key (token_elem kv hdim i h d) = Some (key ! token_elem kv hdim i h d)"
      "vec_at val (token_elem kv hdim i h d) = Some (val ! token_elem kv hdim i h d)" using sb(3) len by simp_all
  have "\<not> (int (length slots) \<le> int i \<or> int hdim \<le> int d)" using b by simp
  moreover have "put_kv (int (kv_cell kv bs hdim (slots ! i) h d)) (key ! token_elem kv hdim i h d)
      (val ! token_elem kv hdim i h d) (kc, vc) = Some (store_both key val (store_act kv bs hdim slots t) (kc, vc))"
    using sb(1) len(3,4) by (simp add: put_kv_def store_both_def store_act_def e)
  ultimately show ?thesis
    by (simp only: e reshape_and_cache_kernel_def prod.case if_False arr_get_nat at rd bind.bind_lunit slot_split [OF sb(5) pos(2)]
        token_offset_nat [OF sb(4) pos(1)] paged_offset_nat [OF sb(2) pos])
qed

section \<open>A launch\<close>

lemma store_writes:
  assumes ok: "store_ok kv bs hdim nb slots" and ord: "mset order = mset (grid3 (length slots) kv hdim)"
  shows "distinct (map fst (concat (map (store_act kv bs hdim slots) order)))"
    and "(c, s) \<in> set (concat (map (store_act kv bs hdim slots) order)) \<longleftrightarrow>
      (\<exists>i h d. i < length slots \<and> h < kv \<and> d < hdim \<and> c = kv_cell kv bs hdim (slots ! i) h d \<and> s = token_elem kv hdim i h d)"
proof -
  let ?act = "store_act kv bs hdim slots" and ?grid = "grid3 (length slots) kv hdim"
  have pos: "0 < bs" using ok by (simp add: store_ok_def geometry_ok_def)
  have d: "distinct (map fst (?act t))" for t by (cases t) (simp add: store_act_def)
  have disj: "fst ` set (?act t) \<inter> fst ` set (?act t') = {}" if t: "t \<in> set ?grid" "t' \<in> set ?grid" "t \<noteq> t'" for t t'
  proof -
    obtain i h d where e: "t = (i, h, d)" by (cases t)
    obtain i' h' d' where e': "t' = (i', h', d')" by (cases t')
    have b: "i < length slots" "h < kv" "d < hdim" "i' < length slots" "h' < kv" "d' < hdim" using t(1,2) e e' by simp_all
    have "slots ! i = slots ! i' \<longleftrightarrow> i = i'" using ok b(1,4) by (simp add: store_ok_def nth_eq_iff_index_eq)
    then have "kv_cell kv bs hdim (slots ! i) h d \<noteq> kv_cell kv bs hdim (slots ! i') h' d'"
      using kv_cell_eq [OF pos b(2,5,3,6)] t(3) e e' by auto
    then show ?thesis by (simp add: store_act_def e e')
  qed
  note lw = launch_writes [where act = ?act, OF ord grid_distinct(2) d disj]
  show "distinct (map fst (concat (map ?act order)))" by (rule lw(1))
  have ex: "(c, s) \<in> (\<Union>t \<in> set ?grid. set (?act t)) \<longleftrightarrow>
      (\<exists>i h d. i < length slots \<and> h < kv \<and> d < hdim \<and> c = kv_cell kv bs hdim (slots ! i) h d \<and> s = token_elem kv hdim i h d)"
    (is "?l \<longleftrightarrow> ?r")
  proof
    assume ?l
    then obtain t where t: "t \<in> set ?grid" "(c, s) \<in> set (?act t)" by blast
    obtain i h d where e: "t = (i, h, d)" by (cases t)
    show ?r by (rule exI [of _ i], rule exI [of _ h], rule exI [of _ d]) (use t e in \<open>simp add: store_act_def\<close>)
  next
    assume ?r
    then obtain i h d where "(i, h, d) \<in> set ?grid" "(c, s) \<in> set (?act (i, h, d))" by (auto simp: store_act_def)
    then show ?l by blast
  qed
  show "(c, s) \<in> set (concat (map ?act order)) \<longleftrightarrow>
      (\<exists>i h d. i < length slots \<and> h < kv \<and> d < hdim \<and> c = kv_cell kv bs hdim (slots ! i) h d \<and> s = token_elem kv hdim i h d)"
    by (rule trans [OF eqset_imp_iff [OF lw(2)] ex])
qed

text \<open>The effect on one cache.\<close>

lemma store_cells:
  fixes vals :: "'a list"
  assumes ok: "store_ok kv bs hdim nb slots" and ord: "mset order = mset (grid3 (length slots) kv hdim)"
    and len: "length xs = nb * (kv * bs * hdim)" and hd: "h < kv" "d < hdim"
  defines "ys \<equiv> write_list (map (\<lambda>(c, s). (c, vals ! s)) (concat (map (store_act kv bs hdim slots) order))) xs"
  shows "i < length slots \<Longrightarrow> ys ! kv_cell kv bs hdim (slots ! i) h d = vals ! token_elem kv hdim i h d"
    and "k < nb * bs \<Longrightarrow> k \<notin> set slots \<Longrightarrow> ys ! kv_cell kv bs hdim k h d = xs ! kv_cell kv bs hdim k h d"
proof -
  let ?cs = "concat (map (store_act kv bs hdim slots) order)"
  let ?ws = "map (\<lambda>(c, s). (c, vals ! s)) ?cs"
  note w = store_writes [OF ok ord]
  have pos: "0 < bs" using ok by (simp add: store_ok_def geometry_ok_def)
  have dw: "distinct (map fst ?ws)" using w(1) by (simp add: comp_def case_prod_beta)
  note at = write_list_nth [OF dw, where xs = xs]
  show "ys ! kv_cell kv bs hdim (slots ! i) h d = vals ! token_elem kv hdim i h d" if i: "i < length slots"
  proof -
    have "(kv_cell kv bs hdim (slots ! i) h d, token_elem kv hdim i h d) \<in> set ?cs" using w(2) i hd by blast
    then have "(kv_cell kv bs hdim (slots ! i) h d, vals ! token_elem kv hdim i h d) \<in> set ?ws" by force
    then show ?thesis using at [of "kv_cell kv bs hdim (slots ! i) h d"] dw store_bounds(1) [OF ok i hd] len
      by (simp add: ys_def)
  qed
  show "ys ! kv_cell kv bs hdim k h d = xs ! kv_cell kv bs hdim k h d" if k: "k < nb * bs" "k \<notin> set slots"
  proof -
    have "(kv_cell kv bs hdim k h d, s) \<notin> set ?cs" for s
      using w(2) [of "kv_cell kv bs hdim k h d" s] kv_cell_eq [OF pos hd(1) _ hd(2)] k(2) by (metis nth_mem)
    then have "map_of ?ws (kv_cell kv bs hdim k h d) = None" by (force simp: map_of_eq_None_iff)
    then show ?thesis using at [of "kv_cell kv bs hdim k h d"] kv_cell_less [OF k(1) hd] len by (simp add: ys_def)
  qed
qed

lemma store_launch:
  assumes ok: "store_ok kv bs hdim nb slots"
    and len: "length key = length slots * (kv * hdim)" "length val = length slots * (kv * hdim)"
      "length kc = nb * (kv * bs * hdim)" "length vc = nb * (kv * bs * hdim)"
    and ord: "mset order = mset (grid3 (length slots) kv hdim)"
  shows "launch_reshape_and_cache order key val (map (\<lambda>k. Some (int k)) slots) (int (length slots)) (int kv) (int hdim) (int bs) (kc, vc) =
    Some (store_both key val (concat (map (store_act kv bs hdim slots) order)) (kc, vc))"
proof -
  let ?P = "\<lambda>(kc :: real list, vc :: real list). length kc = nb * (kv * bs * hdim) \<and> length vc = nb * (kv * bs * hdim)"
  have mem: "t \<in> set (grid3 (length slots) kv hdim)" if "t \<in> set order" for t using that mset_eq_setD [OF ord] by simp
  have keep: "?P st \<Longrightarrow> ?P (store_both key val ws st)" for ws st by (cases st) (simp add: store_both_def)
  have nil: "store_both key val [] st = st" for st by (cases st) (simp add: store_both_def)
  have app: "store_both key val (ws @ ws') st = store_both key val ws' (store_both key val ws st)" for ws ws' st
    by (cases st) (simp add: store_both_def)
  show ?thesis unfolding launch_reshape_and_cache_def
  proof (rule foldM_acts [where P = ?P, OF _ keep nil app])
    fix t st assume "t \<in> set order" "?P st"
    then show "reshape_and_cache_kernel key val (map (\<lambda>k. Some (int k)) slots) (int (length slots)) (int kv) (int hdim) (int bs) t st =
        Some (store_both key val (store_act kv bs hdim slots t) st)"
      using store_kernel_act [OF ok len(1,2) _ _ mem] by (cases st) simp
  qed (use len in simp_all)
qed

section \<open>Property\<close>

text \<open>
  C12. New keys and values can be read back. For tokens with different slots inside the cache and
  every order in which the threads run, after the launch the cell of every dimension of every head
  of the slot of a token holds that token's key (value) element, and the cells of all other slots
  are unchanged.
\<close>

theorem stored_tokens_readable:
  assumes ok: "store_ok kv bs hdim nb slots"
    and len: "length key = length slots * (kv * hdim)" "length val = length slots * (kv * hdim)"
      "length kc = nb * (kv * bs * hdim)" "length vc = nb * (kv * bs * hdim)"
    and ord: "mset order = mset (reshape_grid (int (length slots)) (int kv) (int hdim))"
  shows "\<exists>kc' vc'. launch_reshape_and_cache order key val (map (\<lambda>k. Some (int k)) slots)
      (int (length slots)) (int kv) (int hdim) (int bs) (kc, vc) = Some (kc', vc') \<and>
    (\<forall>i < length slots. \<forall>h < kv. \<forall>d < hdim.
       kc' ! kv_cell kv bs hdim (slots ! i) h d = key ! token_elem kv hdim i h d \<and>
       vc' ! kv_cell kv bs hdim (slots ! i) h d = val ! token_elem kv hdim i h d) \<and>
    (\<forall>k < nb * bs. k \<notin> set slots \<longrightarrow> (\<forall>h < kv. \<forall>d < hdim.
       kc' ! kv_cell kv bs hdim k h d = kc ! kv_cell kv bs hdim k h d \<and>
       vc' ! kv_cell kv bs hdim k h d = vc ! kv_cell kv bs hdim k h d))"
proof -
  have o1: "mset order = mset (grid3 (length slots) kv hdim)" using ord by (simp add: reshape_grid_def)
  note run = store_launch [OF ok len o1, unfolded store_both_def prod.case]
  show ?thesis
    by (intro exI conjI, rule run) (use store_cells [OF ok o1 len(3)] store_cells [OF ok o1 len(4)] in blast)+
qed

theorem stored_tokens_readable_witness:
  "\<exists>kc' vc'. launch_reshape_and_cache [(0, 0, 1), (0, 0, 0)] [7, 8] [9, 5] [Some 1] 1 1 2 2 ([1, 2, 3, 4], [4, 3, 2, 1]) = Some (kc', vc') \<and>
     kc' ! 2 = 7 \<and> kc' ! 3 = 8 \<and> vc' ! 3 = 5 \<and> kc' ! 0 = 1"
proof -
  have r: "\<exists>kc' vc'. launch_reshape_and_cache [(0, 0, 1), (0, 0, 0)] [7, 8] [9, 5] (map (\<lambda>k. Some (int k)) [1])
      (int (length [1 :: nat])) (int 1) (int 2) (int 2) ([1, 2, 3, 4], [4, 3, 2, 1]) = Some (kc', vc') \<and>
    (\<forall>i < length [1 :: nat]. \<forall>h < 1. \<forall>d < 2. kc' ! kv_cell 1 2 2 ([1] ! i) h d = [7, 8] ! token_elem 1 2 i h d \<and>
       vc' ! kv_cell 1 2 2 ([1] ! i) h d = [9, 5] ! token_elem 1 2 i h d) \<and>
    (\<forall>k < 1 * 2. k \<notin> set [1] \<longrightarrow> (\<forall>h < 1. \<forall>d < 2. kc' ! kv_cell 1 2 2 k h d = [1, 2, 3, 4] ! kv_cell 1 2 2 k h d \<and>
       vc' ! kv_cell 1 2 2 k h d = [4, 3, 2, 1] ! kv_cell 1 2 2 k h d))"
    by (rule stored_tokens_readable)
       (simp_all add: store_ok_def geometry_ok_def reshape_grid_def grid3_def upt_rec add_mset_commute)
  then obtain kc' vc' where
      l: "launch_reshape_and_cache [(0, 0, 1), (0, 0, 0)] [7, 8] [9, 5] [Some 1] 1 1 2 2 ([1, 2, 3, 4], [4, 3, 2, 1]) = Some (kc', vc')"
    and n: "\<forall>d < 2. kc' ! (2 + d) = [7, 8] ! d \<and> vc' ! (2 + d) = [9, 5] ! d" and k: "\<forall>k<2. k \<noteq> Suc 0 \<longrightarrow> (\<forall>d<2. kc' ! (k * 2 + d) = [1, 2, 3, 4] ! (k * 2 + d))"
    by (auto simp: kv_cell_def token_elem_def)
  have o: "kc' ! 0 = 1" using k [THEN spec, of 0] by auto
  show ?thesis using l n [THEN spec, of 0] n [THEN spec, of 1] o by (simp add: numeral_eq_Suc)
qed

end
