(* ===== verification/Attention_Math.thy ===== *)
theory Attention_Math
  imports Paged_Attention Kv_Store
begin

text \<open>
  What the two attention kernels share: the butterfly reduction over the lanes of a warp, the way
  the positions of a context are divided among warps and the dimensions among lanes, the index
  computations on valid inputs, and the softmax attention the kernels are compared with.
\<close>

section \<open>Reductions over the lanes\<close>

text \<open>One round of the butterfly pairs every lane with the lane at distance \<open>h\<close>.\<close>

definition lane_pair :: "nat \<Rightarrow> nat \<Rightarrow> bool" where
  "lane_pair h l \<longleftrightarrow> l XOR h < 32 \<and> {l mod (2 * h), (l XOR h) mod (2 * h)} = {l mod h, l mod h + h} \<and> l mod (2 * h) \<noteq> (l XOR h) mod (2 * h)"

lemma lane_pairs:
  assumes "h \<in> {16, 8, 4, 2, 1}" and "l < 32"
  shows "lane_pair h l"
proof -
  have "\<forall>h \<in> {16, 8, 4, 2, 1}. \<forall>l \<in> set [0..<32]. lane_pair h l" by code_simp
  then show ?thesis using assms by (simp only: set_upt atLeast0LessThan) blast
qed

text \<open>The contract of a reduction: the operation is associative and commutative.\<close>

locale lane_operation =
  fixes f :: "'a \<Rightarrow> 'a \<Rightarrow> 'a"
  assumes assoc: "f (f a b) c = f a (f b c)" and commute: "f a b = f b a"
begin

lemma left_commute: "f a (f b c) = f b (f a c)"
  using assoc commute by metis

lemma round:
  assumes "h \<in> {16, 8, 4, 2, 1}"
  shows "map2 f (map (\<lambda>l. c (l mod (2 * h))) [0..<32]) (shfl_xor h (map (\<lambda>l. c (l mod (2 * h))) [0..<32])) =
    map (\<lambda>l. f (c (l mod h)) (c (l mod h + h))) [0..<32]"
proof (rule nth_equalityI)
  fix i assume "i < length (map2 f (map (\<lambda>l. c (l mod (2 * h))) [0..<32]) (shfl_xor h (map (\<lambda>l. c (l mod (2 * h))) [0..<32])))"
  then have i: "i < 32" by simp
  have p: "i XOR h < 32" "{i mod (2 * h), (i XOR h) mod (2 * h)} = {i mod h, i mod h + h}"
    using lane_pairs [OF assms i] by (simp_all add: lane_pair_def)
  have "f (c (i mod (2 * h))) (c ((i XOR h) mod (2 * h))) = f (c (i mod h)) (c (i mod h + h))"
    using p(2) commute by (auto simp: doubleton_eq_iff)
  then show "map2 f (map (\<lambda>l. c (l mod (2 * h))) [0..<32]) (shfl_xor h (map (\<lambda>l. c (l mod (2 * h))) [0..<32])) ! i =
      map (\<lambda>l. f (c (l mod h)) (c (l mod h + h))) [0..<32] ! i"
    using i p(1) by (simp add: shfl_xor_def)
qed (simp add: shfl_xor_def)

lemma reduce_lanes:
  assumes "length vs = 32"
  shows "warp_reduce f vs = replicate 32 (fold f (tl vs) (hd vs))"
proof -
  have lanes: "[1..<32] = [1, 2, 3, 4, 5, 6, 7, 8, 9, 10, 11, 12, 13, 14, 15, 16, 17, 18, 19, 20, 21, 22, 23, 24,
      25, 26, 27, 28, 29, 30, 31 :: nat]"
    by (simp add: upt_rec)
  define a where "a = (\<lambda>l. vs ! l)"
  have v: "vs = map (\<lambda>l. a (l mod 32)) [0..<32]" using assms by (intro nth_equalityI) (simp_all add: a_def)
  define c1 where "c1 = (\<lambda>l. f (a l) (a (l + 16)))"
  define c2 where "c2 = (\<lambda>l. f (c1 l) (c1 (l + 8)))"
  define c3 where "c3 = (\<lambda>l. f (c2 l) (c2 (l + 4)))"
  define c4 where "c4 = (\<lambda>l. f (c3 l) (c3 (l + 2)))"
  define c5 where "c5 = (\<lambda>l. f (c4 l) (c4 (l + 1)))"
  have e: "map2 f (map (\<lambda>l. a (l mod 32)) [0..<32]) (shfl_xor 16 (map (\<lambda>l. a (l mod 32)) [0..<32])) = map (\<lambda>l. c1 (l mod 16)) [0..<32]"
    "map2 f (map (\<lambda>l. c1 (l mod 16)) [0..<32]) (shfl_xor 8 (map (\<lambda>l. c1 (l mod 16)) [0..<32])) = map (\<lambda>l. c2 (l mod 8)) [0..<32]"
    "map2 f (map (\<lambda>l. c2 (l mod 8)) [0..<32]) (shfl_xor 4 (map (\<lambda>l. c2 (l mod 8)) [0..<32])) = map (\<lambda>l. c3 (l mod 4)) [0..<32]"
    "map2 f (map (\<lambda>l. c3 (l mod 4)) [0..<32]) (shfl_xor 2 (map (\<lambda>l. c3 (l mod 4)) [0..<32])) = map (\<lambda>l. c4 (l mod 2)) [0..<32]"
    "map2 f (map (\<lambda>l. c4 (l mod 2)) [0..<32]) (shfl_xor 1 (map (\<lambda>l. c4 (l mod 2)) [0..<32])) = map (\<lambda>l. c5 (l mod 1)) [0..<32]"
    using round [of 16 a] round [of 8 c1] round [of 4 c2] round [of 2 c3] round [of 1 c4]
    unfolding c1_def c2_def c3_def c4_def c5_def by simp_all
  have "warp_reduce f vs = map (\<lambda>l. c5 (l mod 1)) [0..<32]"
    unfolding v warp_reduce_def fold_simps by (simp only: e)
  also have "\<dots> = replicate 32 (c5 0)" by (simp add: map_replicate_const)
  also have "c5 0 = fold f (map a [1..<32]) (a 0)"
    unfolding lanes by (simp add: c1_def c2_def c3_def c4_def c5_def assoc commute left_commute del: One_nat_def add_2_eq_Suc add_2_eq_Suc')
  also have "a 0 = hd vs" using assms by (simp add: a_def hd_conv_nth flip: length_greater_0_conv)
  also have "map a [1..<32] = tl vs" using assms by (intro nth_equalityI) (simp_all add: a_def nth_tl)
  finally show ?thesis .
qed
end

interpretation lsum: lane_operation "(+) :: real \<Rightarrow> real \<Rightarrow> real"
  by unfold_locales simp_all

interpretation lmax: lane_operation "max :: real \<Rightarrow> real \<Rightarrow> real"
  by unfold_locales (simp_all add: max.assoc max.commute)

lemma warp_reduce_sum_all: "length vs = 32 \<Longrightarrow> warp_reduce_sum vs = replicate 32 (sum_list vs)"
  using lsum.reduce_lanes [of vs] by (cases vs) (simp_all add: warp_reduce_sum_def fold_plus_sum_list_rev)

lemma warp_reduce_max_all: "length vs = 32 \<Longrightarrow> warp_reduce_max vs = replicate 32 (Max (set vs))"
  using lmax.reduce_lanes [of vs] Max.set_eq_fold [of "hd vs" "tl vs"] by (cases vs) (simp_all add: warp_reduce_max_def)

section \<open>Loops whose steps can run in any order\<close>

text \<open>
  The rule for a loop over different items: every step takes the state from what holds after the
  items of \<open>D\<close> to what holds after one more.
\<close>

lemma foldM_items:
  assumes "\<And>x D s. x \<in> set xs \<Longrightarrow> D \<subseteq> set xs \<Longrightarrow> x \<notin> D \<Longrightarrow> Q D s \<Longrightarrow> \<exists>s'. f x s = Some s' \<and> Q (insert x D) s'"
    and "distinct xs" and "Q {} s"
  shows "\<exists>s'. foldM f xs s = Some s' \<and> Q (set xs) s'"
proof -
  have "\<exists>s'. foldM f ys s = Some s' \<and> Q (D \<union> set ys) s'"
    if "set ys \<subseteq> set xs" "distinct ys" "D \<subseteq> set xs" "D \<inter> set ys = {}" "Q D s" for ys D s
    using that
  proof (induction ys arbitrary: D s)
    case (Cons y ys)
    obtain s1 where s1: "f y s = Some s1" "Q (insert y D) s1" using assms(1) [of y D s] Cons.prems by auto
    have "\<exists>s'. foldM f ys s1 = Some s' \<and> Q (insert y D \<union> set ys) s'"
      by (rule Cons.IH) (use Cons.prems s1 in auto)
    then show ?case using s1(1) by simp
  qed simp
  from this [of xs "{}" s] show ?thesis using assms(2,3) by simp
qed

lemma foldM_map: "foldM f (map g xs) s = foldM (\<lambda>x. f (g x)) xs s"
  by (induction xs arbitrary: s) (auto split: Option.bind_split)

lemma foldM_concat: "foldM f (concat xss) s = foldM (foldM f) xss s"
proof (induction xss arbitrary: s)
  case (Cons xs xss)
  then show ?case by (cases "foldM f xs s") (simp_all add: foldM_append)
qed simp

lemma foldM_cong: "(\<And>x s. x \<in> set xs \<Longrightarrow> f x s = g x s) \<Longrightarrow> foldM f xs s = foldM g xs s"
proof (induction xs arbitrary: s)
  case (Cons x xs)
  then show ?case by (cases "g x s") simp_all
qed simp

lemma those_map: "(\<And>x. x \<in> set xs \<Longrightarrow> f x = Some (g x)) \<Longrightarrow> those (map f xs) = Some (map g xs)"
  by (induction xs) simp_all

section \<open>Dividing the work\<close>

lemma strided_set:
  assumes "l < n"
  shows "set (strided l m n) = {d. d < m \<and> d mod n = l}"
proof -
  have "l \<le> d" if "d mod n = l" for d using mod_less_eq_dividend [of d n] that by simp
  moreover have "l mod n = l" "0 < n" using assms by simp_all
  ultimately show ?thesis using strided_spec [of n l m] by (simp only:) blast
qed

lemma strided_distinct: "0 < n \<Longrightarrow> distinct (strided l m n)"
  using strided_spec by blast

text \<open>The dimensions \<open>d < m\<close> with \<open>d mod n = l\<close> for every \<open>l < n\<close> are all dimensions.\<close>

lemma sum_strided:
  fixes g :: "nat \<Rightarrow> 'a :: comm_monoid_add"
  assumes "0 < n"
  shows "(\<Sum>l < n. \<Sum>d \<in> set (strided l m n). g d) = (\<Sum>d < m. g d)"
proof -
  have "(\<Sum>l < n. \<Sum>d \<in> set (strided l m n). g d) = (\<Sum>l < n. \<Sum>d \<in> {d \<in> {..<m}. d mod n = l}. g d)"
    by (intro sum.cong) (simp_all add: strided_set)
  also have "\<dots> = (\<Sum>d < m. g d)" by (rule sum.group) (use assms in auto)
  finally show ?thesis .
qed

lemma enumerate_strided:
  assumes "l < n"
  shows "enumerate k (strided (l + n * k) m n) = map (\<lambda>d. (d div n, d)) (strided (l + n * k) m n)"
proof (induction "m - (l + n * k)" arbitrary: k rule: less_induct)
  case less
  show ?case
  proof (cases "l + n * k < m")
    case True
    have next_k: "l + n * k + n = l + n * Suc k" by simp
    have "enumerate (Suc k) (strided (l + n * Suc k) m n) = map (\<lambda>d. (d div n, d)) (strided (l + n * Suc k) m n)"
      by (rule less) (use True assms in simp)
    then show ?thesis using True assms by (simp only: strided.simps [of "l + n * k"] next_k) simp
  qed (simp add: strided.simps [of "l + n * k"])
qed

lemma enumerate_lane: "lane < 32 \<Longrightarrow> enumerate 0 (strided lane m 32) = map (\<lambda>d. (d div 32, d)) (strided lane m 32)"
  using enumerate_strided [of lane 32 0 m] by simp

lemma strided_lane: "lane < 32 \<Longrightarrow> set (strided lane m 32) = {d. d < m \<and> d mod 32 = lane}"
  by (rule strided_set)

lemma thread_dims:
  assumes "0 < nt"
  shows "set (thread_dims m nt) = {..<m}" "distinct (thread_dims m nt)"
proof -
  show "set (thread_dims m nt) = {..<m}" using assms by (auto simp: thread_dims_def strided_set)
  show "distinct (thread_dims m nt)"
    unfolding thread_dims_def by (rule distinct_concat_map) (auto simp: strided_set strided_distinct assms)
qed

text \<open>The positions of the context that warp \<open>w\<close> of \<open>nw\<close> visits.\<close>

definition warp_positions :: "nat \<Rightarrow> nat \<Rightarrow> nat \<Rightarrow> nat \<Rightarrow> nat list" where
  "warp_positions bs ctx nw w =
     concat (map (\<lambda>b. map (\<lambda>off. b * bs + off) (block_offs bs (int ctx) b)) (strided w ((ctx + bs - 1) div bs) nw))"

lemma block_offs_set: "set (block_offs bs (int ctx) b) = {off. off < bs \<and> b * bs + off < ctx}"
proof -
  have "set (takeWhile P [0..<n]) = {i. i < n \<and> P i}" if P: "\<And>i j. i \<le> j \<Longrightarrow> P j \<Longrightarrow> P i" for P :: "nat \<Rightarrow> bool" and n
  proof (induction n)
    case (Suc n)
    show ?case
    proof (cases "\<forall>x \<in> set [0..<n]. P x")
      case True
      then have "takeWhile P ([0..<n] @ [n]) = [0..<n] @ takeWhile P [n]" by (intro takeWhile_append2) blast
      then show ?thesis using True by (auto simp: less_Suc_eq)
    next
      case False
      then obtain x where "x < n" "\<not> P x" by auto
      then have "\<not> P n" and "takeWhile P ([0..<n] @ [n]) = takeWhile P [0..<n]"
        using P [of x n] takeWhile_append1 [of x "[0..<n]" P "[n]"] by auto
      then show ?thesis using Suc by (auto simp: less_Suc_eq)
    qed
  qed simp
  from this [of "\<lambda>off. int (b * bs + off) < int ctx" bs] show ?thesis
    by (simp only: block_offs_def of_nat_less_iff)
qed

lemma block_offs_distinct: "distinct (block_offs bs ctx b)"
  by (simp add: block_offs_def distinct_takeWhile)

lemma block_of_position: "off < bs \<Longrightarrow> (b * bs + off) div bs = b \<and> (b * bs + off) mod bs = off" for b off bs :: nat
  by simp

lemma distinct_positions:
  fixes bs :: nat
  assumes "distinct blks" "\<And>b. distinct (offs b)" "\<And>b off. off \<in> set (offs b) \<Longrightarrow> off < bs"
  shows "distinct (concat (map (\<lambda>b. map (\<lambda>off. b * bs + off) (offs b)) blks))"
proof (rule distinct_concat_map [OF assms(1)])
  show "distinct (map (\<lambda>off. b * bs + off) (offs b))" for b by (simp add: distinct_map assms(2) inj_on_def)
  show "set (map (\<lambda>off. b * bs + off) (offs b)) \<inter> set (map (\<lambda>off. c * bs + off) (offs c)) = {}" if "b \<noteq> c" for b c
  proof (rule ccontr)
    assume "set (map (\<lambda>off. b * bs + off) (offs b)) \<inter> set (map (\<lambda>off. c * bs + off) (offs c)) \<noteq> {}"
    then obtain x y where "x < bs" "y < bs" "b * bs + x = c * bs + y" using assms(3) by auto
    then show False using nest_eq [of x bs y b c] that by blast
  qed
qed

lemma position_block:
  fixes i stop bs :: nat
  assumes "i < stop" "0 < bs"
  shows "i div bs < (stop + bs - 1) div bs"
proof -
  have "i + bs \<le> stop + bs - 1" using assms(1) by simp
  then have "(i + bs) div bs \<le> (stop + bs - 1) div bs" by (rule div_le_mono)
  then show ?thesis using assms(2) by simp
qed

lemma block_start:
  assumes "b \<in> set (strided i ((stop + bs - 1) div bs) nw)" "0 < bs"
  shows "b * bs < stop"
proof -
  let ?nb = "(stop + bs - 1) div bs"
  have "b < ?nb" using assms(1) strided.simps [of i ?nb nw] strided_bound [of nw b i ?nb] by (cases nw) auto
  then have "(b + 1) * bs \<le> ?nb * bs" by (intro mult_le_mono1) simp
  also have "\<dots> \<le> stop + bs - 1" by simp
  finally show ?thesis using assms(2) by (simp add: add_mult_distrib)
qed

lemma warp_positions_spec:
  assumes "0 < bs" "w < nw"
  shows "set (warp_positions bs ctx nw w) = {i. i < ctx \<and> i div bs mod nw = w}" "distinct (warp_positions bs ctx nw w)"
proof -
  let ?nb = "(ctx + bs - 1) div bs"
  show "set (warp_positions bs ctx nw w) = {i. i < ctx \<and> i div bs mod nw = w}" (is "?l = ?r")
  proof
    show "?l \<subseteq> ?r" using assms by (auto simp: warp_positions_def block_offs_set strided_set)
    show "?r \<subseteq> ?l"
    proof
      fix i assume i: "i \<in> ?r"
      have "i mod bs \<in> set (block_offs bs (int ctx) (i div bs))" using i assms(1) by (simp add: block_offs_set)
      then have "i \<in> (\<lambda>off. i div bs * bs + off) ` set (block_offs bs (int ctx) (i div bs))"
        by (intro image_eqI [of _ _ "i mod bs"]) simp_all
      moreover have "i div bs \<in> set (strided w ?nb nw)" using i position_block [of i ctx bs] assms by (simp add: strided_set)
      ultimately show "i \<in> ?l" by (auto simp: warp_positions_def)
    qed
  qed
  show "distinct (warp_positions bs ctx nw w)"
    unfolding warp_positions_def
    by (rule distinct_positions) (use assms in \<open>simp_all add: strided_distinct block_offs_distinct block_offs_set\<close>)
qed

section \<open>Valid inputs and the reference\<close>

text \<open>
  The shapes of the arrays: \<open>ns\<close> sequences, \<open>nh\<close> heads that share \<open>kv\<close> key-value heads, block tables
  of \<open>mb\<close> entries and a cache of \<open>nb\<close> blocks. All array indices fit into \<open>int32_t\<close>, and the table
  entries of the blocks a context reaches are blocks of the cache.
\<close>

definition attn_ok :: "paged_attention_params \<Rightarrow> nat \<Rightarrow> nat \<Rightarrow> nat \<Rightarrow> nat \<Rightarrow> nat \<Rightarrow> nat \<Rightarrow> nat \<Rightarrow> bool" where
  "attn_ok p hdim bs ns nh kv mb nb \<longleftrightarrow>
     pa_num_heads p = int nh \<and> pa_num_kv_heads p = int kv \<and> pa_max_blocks_per_seq p = int mb \<and>
     0 < nh \<and> nh < 2 ^ 31 \<and> 0 < kv \<and> kv dvd nh \<and> 0 < bs \<and> 0 < hdim \<and>
     length (pa_query p) = ns * nh * hdim \<and> length (pa_output p) = ns * nh * hdim \<and>
     length (pa_key_cache p) = nb * (kv * bs * hdim) \<and> length (pa_value_cache p) = nb * (kv * bs * hdim) \<and>
     length (pa_block_tables p) = ns * mb \<and> length (pa_context_lens p) = ns \<and>
     ns * nh * hdim < 2 ^ 31 \<and> nb * (kv * bs * hdim) < 2 ^ 31 \<and> ns * mb < 2 ^ 31 \<and>
     (\<forall>s < ns. 0 \<le> pa_context_lens p ! s \<and> pa_context_lens p ! s \<le> int (mb * bs) \<and>
        pa_context_lens p ! s + int bs < 2 ^ 31 \<and>
        (\<forall>b. int (b * bs) < pa_context_lens p ! s \<longrightarrow>
           0 \<le> pa_block_tables p ! (s * mb + b) \<and> pa_block_tables p ! (s * mb + b) < int nb))"

definition ctx_of :: "paged_attention_params \<Rightarrow> nat \<Rightarrow> nat" where
  "ctx_of p seq = nat (pa_context_lens p ! seq)"

text \<open>The slot of position \<open>i\<close> of a sequence and its key-value head for a query head.\<close>

definition phys_of :: "paged_attention_params \<Rightarrow> nat \<Rightarrow> nat \<Rightarrow> nat" where
  "phys_of p seq b = nat (pa_block_tables p ! (seq * nat (pa_max_blocks_per_seq p) + b))"

definition token_slot :: "paged_attention_params \<Rightarrow> nat \<Rightarrow> nat \<Rightarrow> nat \<Rightarrow> nat" where
  "token_slot p bs seq i = phys_of p seq (i div bs) * bs + i mod bs"

definition kv_head_nat :: "paged_attention_params \<Rightarrow> nat \<Rightarrow> nat" where
  "kv_head_nat p head = head div (nat (pa_num_heads p) div nat (pa_num_kv_heads p))"

definition row_of :: "paged_attention_params \<Rightarrow> nat \<Rightarrow> nat \<Rightarrow> nat \<Rightarrow> nat" where
  "row_of p hdim seq head = (seq * nat (pa_num_heads p) + head) * hdim"

definition cell_of :: "paged_attention_params \<Rightarrow> nat \<Rightarrow> nat \<Rightarrow> nat \<Rightarrow> nat \<Rightarrow> nat \<Rightarrow> nat \<Rightarrow> nat" where
  "cell_of p hdim bs seq head i d =
     kv_cell (nat (pa_num_kv_heads p)) bs hdim (token_slot p bs seq i) (kv_head_nat p head) d"

text \<open>Scaled dot-product attention: the softmax-weighted average of the values of the context.\<close>

definition score_of :: "paged_attention_params \<Rightarrow> nat \<Rightarrow> nat \<Rightarrow> nat \<Rightarrow> nat \<Rightarrow> nat \<Rightarrow> real" where
  "score_of p hdim bs seq head i =
     (\<Sum>d < hdim. pa_query p ! (row_of p hdim seq head + d) * pa_key_cache p ! cell_of p hdim bs seq head i d) * pa_scale p"

definition value_of :: "paged_attention_params \<Rightarrow> nat \<Rightarrow> nat \<Rightarrow> nat \<Rightarrow> nat \<Rightarrow> nat \<Rightarrow> nat \<Rightarrow> real" where
  "value_of p hdim bs seq head i d = pa_value_cache p ! cell_of p hdim bs seq head i d"

definition softmax_attention :: "paged_attention_params \<Rightarrow> nat \<Rightarrow> nat \<Rightarrow> nat \<Rightarrow> nat \<Rightarrow> nat \<Rightarrow> real" where
  "softmax_attention p hdim bs seq head d =
     (\<Sum>i < ctx_of p seq. exp (score_of p hdim bs seq head i) * value_of p hdim bs seq head i d) /
     (\<Sum>i < ctx_of p seq. exp (score_of p hdim bs seq head i))"

lemma attn_simps:
  assumes "attn_ok p hdim bs ns nh kv mb nb"
  shows "pa_num_heads p = int nh" "pa_num_kv_heads p = int kv" "pa_max_blocks_per_seq p = int mb"
    "0 < kv" "kv dvd nh" "0 < bs" "0 < hdim" "0 < nh" "length (pa_query p) = ns * nh * hdim" "length (pa_output p) = ns * nh * hdim"
    "length (pa_key_cache p) = nb * (kv * bs * hdim)" "length (pa_value_cache p) = nb * (kv * bs * hdim)"
    "length (pa_block_tables p) = ns * mb" "length (pa_context_lens p) = ns"
    "ns * nh * hdim < 2 ^ 31" "nb * (kv * bs * hdim) < 2 ^ 31" "ns * mb < 2 ^ 31"
    "nh < 2 ^ 31"
  using assms by (simp_all add: attn_ok_def)

lemma attn_ctx:
  assumes "attn_ok p hdim bs ns nh kv mb nb" and "s < ns"
  shows "pa_context_lens p ! s = int (ctx_of p s)" "ctx_of p s \<le> mb * bs" "ctx_of p s + bs < 2 ^ 31"
    "b * bs < ctx_of p s \<Longrightarrow> pa_block_tables p ! (s * mb + b) = int (phys_of p s b)"
    "b * bs < ctx_of p s \<Longrightarrow> phys_of p s b < nb"
proof -
  have a: "0 \<le> pa_context_lens p ! s" "pa_context_lens p ! s \<le> int (mb * bs)" "pa_context_lens p ! s + int bs < 2 ^ 31"
    "\<And>b. int (b * bs) < pa_context_lens p ! s \<Longrightarrow>
       0 \<le> pa_block_tables p ! (s * mb + b) \<and> pa_block_tables p ! (s * mb + b) < int nb"
    using assms unfolding attn_ok_def by blast+
  show c: "pa_context_lens p ! s = int (ctx_of p s)" using a(1) by (simp add: ctx_of_def)
  show "ctx_of p s \<le> mb * bs" using a(2) unfolding c of_nat_le_iff .
  show "ctx_of p s + bs < 2 ^ 31" using a(3) unfolding c by simp
  assume "b * bs < ctx_of p s"
  then have "0 \<le> pa_block_tables p ! (s * mb + b) \<and> pa_block_tables p ! (s * mb + b) < int nb"
    using a(4) [of b] unfolding c of_nat_less_iff by blast
  then show "pa_block_tables p ! (s * mb + b) = int (phys_of p s b)" "phys_of p s b < nb"
    using attn_simps(3) [OF assms(1)] by (simp_all add: phys_of_def nat_less_iff)
qed

lemma attn_kv_head:
  assumes "attn_ok p hdim bs ns nh kv mb nb" and "head < nh"
  shows "kv_head_of p head = Some (int (kv_head_nat p head))" "kv_head_nat p head < kv"
proof -
  note a = attn_simps [OF assms(1)]
  obtain g where g: "nh = kv * g" using a(5) by blast
  then have "nh div kv = g" "0 < g" using a(4,8) by auto
  then have kh: "kv_head_nat p head = head div g" by (simp add: kv_head_nat_def a)
  show "kv_head_nat p head < kv" unfolding kh using assms(2) g by (simp add: less_mult_imp_div_less)
  show "kv_head_of p head = Some (int (kv_head_nat p head))"
    using assms(2) a(4,18) \<open>nh div kv = g\<close> \<open>0 < g\<close> unfolding kv_head_of_def kh a
    by (simp flip: zdiv_int)
qed

lemma attn_ceil_blocks:
  assumes "0 < bs" "len + bs < 2 ^ 31"
  shows "ceil_blocks (int len) bs = Some (int ((len + bs - 1) div bs))"
proof -
  have "chk_i32 (int len + int bs) = Some (int (len + bs))" using chk_i32_nat [OF assms(2)] by simp
  moreover have "int (len + bs) - 1 = int (len + bs - 1)" using assms(1) by simp
  moreover have "div_i32 (int (len + bs - 1)) (int bs) = Some (int (len + bs - 1) div int bs)"
    using assms by (intro div_i32_Some) simp_all
  ultimately show ?thesis by (simp only: ceil_blocks_def bind.bind_lunit zdiv_int)
qed

lemma attn_query_row:
  assumes ok: "attn_ok p hdim bs ns nh kv mb nb" and s: "seq < ns" "head < nh"
  shows "query_row p hdim seq head = Some (int (row_of p hdim seq head))"
    and "d < hdim \<Longrightarrow> row_of p hdim seq head + d < ns * nh * hdim"
proof -
  note a = attn_simps [OF ok]
  have row: "row_of p hdim seq head = (seq * nh + head) * hdim" by (simp add: row_of_def a)
  show b: "row_of p hdim seq head + d < ns * nh * hdim" if "d < hdim" for d
    unfolding row using nest_less [OF nest_less [OF s] that] .
  have "row_of p hdim seq head + 0 < 2 ^ 31" using b [OF a(7)] a(15) by linarith
  then have "token_elem nh hdim seq head 0 < 2 ^ 31" by (simp add: token_elem_def row)
  note c = token_offset_nat [OF this a(7)]
  show "query_row p hdim seq head = Some (int (row_of p hdim seq head))"
    unfolding query_row_def a row by (simp only: c bind.bind_lunit)
qed

lemma attn_table_entry:
  assumes ok: "attn_ok p hdim bs ns nh kv mb nb" and s: "seq < ns" and b: "b * bs < ctx_of p seq"
  shows "table_entry p seq b = Some (int (phys_of p seq b))"
proof -
  note a = attn_simps [OF ok]
  have "b * bs < mb * bs" using b attn_ctx(2) [OF ok s] by linarith
  then have "seq * mb + b < ns * mb" using nest_less [OF s, of b mb] by simp
  moreover from this have "seq * mb < 2 ^ 31" "seq * mb + b < 2 ^ 31" using a(17) by linarith+
  then have "chk_i32 (int seq * int mb) = Some (int (seq * mb))" "chk_i32 (int (seq * mb) + int b) = Some (int (seq * mb + b))"
    using chk_i32_nat [of "seq * mb"] chk_i32_nat [of "seq * mb + b"] by simp_all
  ultimately show ?thesis
    unfolding table_entry_def a using a(13) attn_ctx(4) [OF ok s b]
    by (simp only: bind.bind_lunit arr_get_nat vec_at_Some)
qed

lemma attn_position:
  assumes ok: "attn_ok p hdim bs ns nh kv mb nb" and s: "seq < ns" and i: "i < ctx_of p seq"
  shows "i div bs * bs < ctx_of p seq" "token_slot p bs seq i < nb * bs" "token_slot p bs seq i div bs = phys_of p seq (i div bs)"
    "token_slot p bs seq i mod bs = i mod bs"
proof -
  have bs: "i mod bs < bs" using attn_simps(6) [OF ok] by simp
  show b: "i div bs * bs < ctx_of p seq" using i div_times_less_eq_dividend [of i bs] by linarith
  show "token_slot p bs seq i < nb * bs"
    unfolding token_slot_def using nest_less [OF attn_ctx(5) [OF ok s b] bs] .
  show "token_slot p bs seq i div bs = phys_of p seq (i div bs)" "token_slot p bs seq i mod bs = i mod bs"
    using bs by (simp_all add: token_slot_def)
qed

lemma attn_cell:
  assumes ok: "attn_ok p hdim bs ns nh kv mb nb" and s: "seq < ns" "head < nh" and i: "i < ctx_of p seq"
  shows "kv_row p hdim bs (int (phys_of p seq (i div bs))) (int (kv_head_nat p head)) (i mod bs) =
      Some (int (cell_of p hdim bs seq head i 0))"
    and "cell_of p hdim bs seq head i 0 + d = cell_of p hdim bs seq head i d"
    and "d < hdim \<Longrightarrow> cell_of p hdim bs seq head i d < nb * (kv * bs * hdim)"
proof -
  note a = attn_simps [OF ok] and q = attn_position [OF ok s(1) i]
  have c: "cell_of p hdim bs seq head i d = kv_cell kv bs hdim (token_slot p bs seq i) (kv_head_nat p head) d" for d
    by (simp add: cell_of_def a)
  show b: "cell_of p hdim bs seq head i d < nb * (kv * bs * hdim)" if "d < hdim" for d
    unfolding c using kv_cell_less [OF q(2) attn_kv_head(2) [OF ok s(2)] that] .
  show "cell_of p hdim bs seq head i 0 + d = cell_of p hdim bs seq head i d"
    by (simp add: c kv_cell_def)
  have "cell_of p hdim bs seq head i 0 < 2 ^ 31" using b [OF a(7)] a(16) by linarith
  then have "paged_offset (int kv) (int bs) (int hdim) (int (phys_of p seq (i div bs))) (int (kv_head_nat p head)) (int (i mod bs)) (int 0) =
      Some (int (cell_of p hdim bs seq head i 0))"
    using paged_offset_nat [of kv bs hdim "token_slot p bs seq i" "kv_head_nat p head" 0] a(6,7) unfolding c q by simp
  then show "kv_row p hdim bs (int (phys_of p seq (i div bs))) (int (kv_head_nat p head)) (i mod bs) =
      Some (int (cell_of p hdim bs seq head i 0))"
    unfolding paged_offset_def kv_row_def a by (auto simp: bind_eq_Some_conv chk_i32_def split: if_splits)
qed

lemma attn_lane_dot:
  assumes ok: "attn_ok p hdim bs ns nh kv mb nb" and s: "seq < ns" "head < nh" and i: "i < ctx_of p seq"
  shows "lane_dot p hdim (int (row_of p hdim seq head)) (int (cell_of p hdim bs seq head i 0)) lane =
    Some (\<Sum>d \<in> set (strided lane hdim 32). pa_query p ! (row_of p hdim seq head + d) * pa_key_cache p ! cell_of p hdim bs seq head i d)"
proof -
  note a = attn_simps [OF ok]
  let ?g = "\<lambda>d. pa_query p ! (row_of p hdim seq head + d) * pa_key_cache p ! cell_of p hdim bs seq head i d"
  let ?f = "\<lambda>d acc. do {
       x \<leftarrow> arr_get (pa_query p) (int (row_of p hdim seq head) + int d);
       y \<leftarrow> arr_get (pa_key_cache p) (int (cell_of p hdim bs seq head i 0) + int d);
       Some (acc + x * y) }"
  have "?f d acc = Some (acc + ?g d)" if "d < hdim" for d acc
  proof -
    have "vec_at (pa_query p) (row_of p hdim seq head + d) = Some (pa_query p ! (row_of p hdim seq head + d))"
        "vec_at (pa_key_cache p) (cell_of p hdim bs seq head i d) = Some (pa_key_cache p ! cell_of p hdim bs seq head i d)"
      using attn_query_row(2) [OF ok s that] attn_cell(3) [OF ok s i that] a(9,11) by simp_all
    then show ?thesis
      unfolding of_nat_add [symmetric] attn_cell(2) [OF ok s i] arr_get_nat by (simp only: bind.bind_lunit)
  qed
  then have step: "?f d acc = Some (acc + ?g d)" if "d \<in> set (strided lane hdim 32)" for d acc
    using that strided_bound [of 32 d lane hdim] by simp
  have "\<exists>r. foldM ?f (strided lane hdim 32) 0 = Some r \<and> r = sum ?g (set (strided lane hdim 32))"
  proof (rule foldM_items [where Q = "\<lambda>D acc. acc = sum ?g D"])
    fix x D acc assume x: "x \<in> set (strided lane hdim 32)" "D \<subseteq> set (strided lane hdim 32)" "x \<notin> D" "acc = sum ?g D"
    then have "sum ?g (insert x D) = acc + ?g x" by (simp add: finite_subset add.commute)
    then show "\<exists>s'. ?f x acc = Some s' \<and> s' = sum ?g (insert x D)" using step [OF x(1)] by (simp only: option.inject) blast
  qed (simp_all add: strided_distinct)
  then show ?thesis by (simp add: lane_dot_def)
qed

lemma attn_warp_dot:
  assumes ok: "attn_ok p hdim bs ns nh kv mb nb" and s: "seq < ns" "head < nh" and i: "i < ctx_of p seq"
  shows "warp_dot p hdim (int (row_of p hdim seq head)) (int (cell_of p hdim bs seq head i 0)) =
    Some (replicate 32 (score_of p hdim bs seq head i))"
proof -
  let ?g = "\<lambda>d. pa_query p ! (row_of p hdim seq head + d) * pa_key_cache p ! cell_of p hdim bs seq head i d"
  let ?ds = "map (\<lambda>lane. sum ?g (set (strided lane hdim 32))) [0..<32]"
  have "those (map (lane_dot p hdim (int (row_of p hdim seq head)) (int (cell_of p hdim bs seq head i 0))) [0..<32]) = Some ?ds"
    by (rule those_map) (rule attn_lane_dot [OF ok s i])
  moreover have "sum_list ?ds = sum ?g {..<hdim}"
    unfolding sum_list_distinct_conv_sum_set [OF distinct_upt] using sum_strided [of 32 ?g hdim]
    by (simp add: atLeast0LessThan)
  ultimately show ?thesis
    by (simp add: warp_dot_def warp_reduce_sum_all score_of_def)
qed

text \<open>The loops of a warp over its blocks and their offsets are one loop over its positions.\<close>

lemma warp_loop:
  assumes ok: "attn_ok p hdim bs ns nh kv mb nb" and s: "seq < ns"
  shows "foldM (\<lambda>b st. do { phys \<leftarrow> table_entry p seq b; foldM (g phys b) (block_offs bs (int (ctx_of p seq)) b) st })
      (strided w (nat (int ((ctx_of p seq + bs - 1) div bs))) nw) st =
    foldM (\<lambda>i. g (int (phys_of p seq (i div bs))) (i div bs) (i mod bs)) (warp_positions bs (ctx_of p seq) nw w) st"
proof -
  let ?ctx = "ctx_of p seq" let ?nb = "(?ctx + bs - 1) div bs"
  let ?f = "\<lambda>i. g (int (phys_of p seq (i div bs))) (i div bs) (i mod bs)"
  have bs: "0 < bs" using attn_simps(6) [OF ok] .
  have "do { phys \<leftarrow> table_entry p seq b; foldM (g phys b) (block_offs bs (int ?ctx) b) st } =
      foldM ?f (map (\<lambda>off. b * bs + off) (block_offs bs (int ?ctx) b)) st" if b: "b \<in> set (strided w ?nb nw)" for b st
  proof -
    have "b * bs < ?ctx" using block_start [OF b bs] .
    moreover have "foldM (g (int (phys_of p seq b)) b) (block_offs bs (int ?ctx) b) st =
        foldM (\<lambda>off. ?f (b * bs + off)) (block_offs bs (int ?ctx) b) st"
      by (rule foldM_cong) (simp add: block_offs_set)
    ultimately show ?thesis using attn_table_entry [OF ok s] by (simp add: foldM_map)
  qed
  then show ?thesis
    unfolding warp_positions_def foldM_concat foldM_map nat_int by (intro foldM_cong) simp
qed

end
