(* ===== verification/Attention_V1.thy ===== *)
theory Attention_V1
  imports Attention_Math
begin

text \<open>
  The first attention kernel: for contexts of at most \<open>NUM_THREADS\<close> tokens it computes softmax
  attention up to the relative error of the added \<open>1e-8\<close>, for every order of warps and thread
  blocks; for longer contexts it writes outside its shared array of scores.
\<close>

section \<open>The phases of a warp\<close>

lemma max_insert: "finite A \<Longrightarrow> Max (insert c (insert x A)) = max (Max (insert c A)) x" for c :: real
  by (subst insert_commute) (simp add: max.commute)

text \<open>Scores.\<close>

lemma score_positions:
  assumes ok: "attn_ok p hdim bs ns nh kv mb nb" and s: "seq < ns" "head < nh" and w: "w < nw"
    and len: "ctx_of p seq \<le> length qk"
  defines "ps \<equiv> warp_positions bs (ctx_of p seq) nw w"
  shows "\<exists>qk'. foldM (\<lambda>i. score_token p hdim bs (int (row_of p hdim seq head)) (int (kv_head_nat p head))
        (int (phys_of p seq (i div bs))) (i div bs) (i mod bs)) ps (qk, replicate 32 (- flt_max)) =
      Some (qk', replicate 32 (Max (insert (- flt_max) (score_of p hdim bs seq head ` set ps)))) \<and>
    length qk' = length qk \<and> (\<forall>i \<in> set ps. qk' ! i = score_of p hdim bs seq head i) \<and> (\<forall>j. j \<notin> set ps \<longrightarrow> qk' ! j = qk ! j)"
proof -
  let ?f = "\<lambda>i. score_token p hdim bs (int (row_of p hdim seq head)) (int (kv_head_nat p head))
        (int (phys_of p seq (i div bs))) (i div bs) (i mod bs)"
  let ?sc = "score_of p hdim bs seq head"
  let ?Q = "\<lambda>D (qk', mx). length qk' = length qk \<and> (\<forall>i \<in> D. qk' ! i = ?sc i) \<and> (\<forall>j. j \<notin> D \<longrightarrow> qk' ! j = qk ! j) \<and>
      mx = replicate 32 (Max (insert (- flt_max) (?sc ` D)))"
  have bs: "0 < bs" using attn_simps(6) [OF ok] .
  note ps = warp_positions_spec [OF bs w, of "ctx_of p seq", folded ps_def]
  have "\<exists>st. foldM ?f ps (qk, replicate 32 (- flt_max)) = Some st \<and> ?Q (set ps) st"
  proof (rule foldM_items [where Q = ?Q])
    fix i D st assume i: "i \<in> set ps" and D: "D \<subseteq> set ps" "i \<notin> D" and Q: "?Q D st"
    obtain qk' mx where st: "st = (qk', mx)" by (cases st)
    have ic: "i < ctx_of p seq" using i ps(1) by simp
    have "?f i st = Some (qk'[i := ?sc i], map2 max mx (replicate 32 (?sc i)))"
      using ic len Q st unfolding score_token_def attn_cell(1) [OF ok s ic]
      by (simp add: attn_warp_dot [OF ok s ic])
    moreover have "map2 max mx (replicate 32 (?sc i)) = replicate 32 (Max (insert (- flt_max) (?sc ` insert i D)))"
      using Q st max_insert [of "?sc ` D" "- flt_max" "?sc i"] D(1) by (simp add: finite_subset)
    ultimately show "\<exists>s'. ?f i st = Some s' \<and> ?Q (insert i D) s'" using Q st ic len D(2) by (auto simp: nth_list_update)
  qed (use ps(2) in simp_all)
  then show ?thesis by auto
qed

lemma score_warp_run:
  assumes ok: "attn_ok p hdim bs ns nh kv mb nb" and s: "seq < ns" "head < nh" and w: "w < nt div 32"
    and len: "ctx_of p seq \<le> length qk" "length smax = nt div 32"
  defines "ps \<equiv> warp_positions bs (ctx_of p seq) (nt div 32) w"
  shows "\<exists>qk'. score_warp p hdim bs nt seq (int (row_of p hdim seq head)) (int (kv_head_nat p head)) (int (ctx_of p seq))
        (int ((ctx_of p seq + bs - 1) div bs)) w (qk, smax) =
      Some (qk', smax[w := Max (insert (- flt_max) (score_of p hdim bs seq head ` set ps))]) \<and>
    length qk' = length qk \<and> (\<forall>i \<in> set ps. qk' ! i = score_of p hdim bs seq head i) \<and> (\<forall>j. j \<notin> set ps \<longrightarrow> qk' ! j = qk ! j)"
proof -
  obtain qk' where q: "foldM (\<lambda>i. score_token p hdim bs (int (row_of p hdim seq head)) (int (kv_head_nat p head))
        (int (phys_of p seq (i div bs))) (i div bs) (i mod bs)) ps (qk, replicate 32 (- flt_max)) =
      Some (qk', replicate 32 (Max (insert (- flt_max) (score_of p hdim bs seq head ` set ps))))"
      "length qk' = length qk" "\<forall>i \<in> set ps. qk' ! i = score_of p hdim bs seq head i" "\<forall>j. j \<notin> set ps \<longrightarrow> qk' ! j = qk ! j"
    using score_positions [OF ok s w len(1)] unfolding ps_def by blast
  show ?thesis
    using q w len unfolding score_warp_def prod.case warp_loop [OF ok s(1)]
    by (simp add: ps_def warp_reduce_max_all)
qed

text \<open>Exponentials.\<close>

lemma exp_warp_run:
  assumes bs: "0 < bs" and w: "w < nt div 32" and len: "ctx \<le> length qk" "length ssum = nt div 32"
  defines "ps \<equiv> warp_positions bs ctx (nt div 32) w"
  shows "\<exists>qk'. exp_warp bs nt m (int ctx) (int ((ctx + bs - 1) div bs)) w (qk, ssum) =
      Some (qk', ssum[w := \<Sum>i \<in> set ps. exp (qk ! i - m)]) \<and>
    length qk' = length qk \<and> (\<forall>i \<in> set ps. qk' ! i = exp (qk ! i - m)) \<and> (\<forall>j. j \<notin> set ps \<longrightarrow> qk' ! j = qk ! j)"
proof -
  let ?f = "\<lambda>i. exp_token bs m (i div bs) (i mod bs)"
  let ?Q = "\<lambda>D (qk', es). length qk' = length qk \<and> (\<forall>i \<in> D. qk' ! i = exp (qk ! i - m)) \<and> (\<forall>j. j \<notin> D \<longrightarrow> qk' ! j = qk ! j) \<and>
      es = (\<Sum>i \<in> D. exp (qk ! i - m))"
  note ps = warp_positions_spec [OF bs w, of ctx, folded ps_def]
  have "\<exists>st. foldM ?f ps (qk, 0) = Some st \<and> ?Q (set ps) st"
  proof (rule foldM_items [where Q = ?Q])
    fix i D st assume i: "i \<in> set ps" and D: "D \<subseteq> set ps" "i \<notin> D" and Q: "?Q D st"
    obtain qk' es where st: "st = (qk', es)" by (cases st)
    have ic: "i < ctx" using i ps(1) by simp
    have "?f i st = Some (qk'[i := exp (qk ! i - m)], es + exp (qk ! i - m))"
      using ic len Q st D(2) by (simp add: exp_token_def Let_def)
    then show "\<exists>s'. ?f i st = Some s' \<and> ?Q (insert i D) s'"
      using Q st ic len D finite_subset [OF D(1)] by (auto simp: nth_list_update add.commute)
  qed (use ps(2) in simp_all)
  then obtain qk' where q: "foldM ?f ps (qk, 0) = Some (qk', \<Sum>i \<in> set ps. exp (qk ! i - m))"
      "length qk' = length qk" "\<forall>i \<in> set ps. qk' ! i = exp (qk ! i - m)" "\<forall>j. j \<notin> set ps \<longrightarrow> qk' ! j = qk ! j"
    by auto
  have "foldM (\<lambda>b. foldM (exp_token bs m b) (block_offs bs (int ctx) b)) (strided w ((ctx + bs - 1) div bs) (nt div 32)) (qk, 0) =
      foldM ?f ps (qk, 0)"
    unfolding ps_def warp_positions_def foldM_concat foldM_map
    by (intro foldM_cong) (simp add: block_offs_set)
  then show ?thesis
    using q w len unfolding exp_warp_def prod.case nat_int
    by (simp add: warp_reduce_sum_all sum_list_replicate)
qed

section \<open>The output of a warp\<close>

text \<open>Each lane updates the register of each of its dimensions.\<close>

lemma lane_accumulate_run:
  assumes lane: "lane < 32" and lo: "length lo = hdim div 32 + 1" and v: "\<And>d. d < hdim \<Longrightarrow> v0 + d < length vals"
  shows "\<exists>lo'. lane_accumulate vals hdim (int v0) c wgt lane lo = Some lo' \<and> length lo' = length lo \<and>
    (\<forall>d < hdim. d mod 32 = lane \<longrightarrow> lo' ! (d div 32) = lo ! (d div 32) * c + wgt * vals ! (v0 + d))"
proof -
  let ?f = "\<lambda>d lo. do {
         y \<leftarrow> vec_at lo (d div 32);
         x \<leftarrow> arr_get vals (int v0 + int d);
         vec_set lo (d div 32) (y * c + wgt * x) }"
  let ?Q = "\<lambda>D lo'. length lo' = length lo \<and> (\<forall>d \<in> D. lo' ! (d div 32) = lo ! (d div 32) * c + wgt * vals ! (v0 + d)) \<and>
      (\<forall>d. d mod 32 = lane \<longrightarrow> d \<notin> D \<longrightarrow> lo' ! (d div 32) = lo ! (d div 32))"
  have "\<exists>lo'. foldM ?f (strided lane hdim 32) lo = Some lo' \<and> ?Q (set (strided lane hdim 32)) lo'"
  proof (rule foldM_items [where Q = ?Q])
    fix d D lo' assume d: "d \<in> set (strided lane hdim 32)" and D: "D \<subseteq> set (strided lane hdim 32)" "d \<notin> D" and Q: "?Q D lo'"
    have dd: "d < hdim" "d mod 32 = lane" using d lane by (simp_all add: strided_lane)
    have i: "d div 32 < length lo'" using dd(1) lo Q by (simp add: less_Suc_eq_le div_le_mono)
    have e: "int v0 + int d = int (v0 + d)" by simp
    have val: "vec_at vals (v0 + d) = Some (vals ! (v0 + d))" using v [OF dd(1)] by simp
    have reg: "vec_at lo' (d div 32) = Some (lo ! (d div 32))" using i Q dd(2) D(2) by simp
    have "?f d lo' = Some (lo'[d div 32 := lo ! (d div 32) * c + wgt * vals ! (v0 + d)])"
      unfolding e arr_get_nat reg val by (simp only: bind.bind_lunit vec_set_Some [OF i])
    moreover have "?Q (insert d D) (lo'[d div 32 := lo ! (d div 32) * c + wgt * vals ! (v0 + d)])"
    proof -
      have ne: "lo'[d div 32 := z] ! (d' div 32) = lo' ! (d' div 32)" if "d' mod 32 = lane" "d' \<noteq> d" for d' z
      proof -
        have "d' div 32 \<noteq> d div 32" using that dd(2) by (metis div_mult_mod_eq)
        then show ?thesis by simp
      qed
      have "d' mod 32 = lane \<and> d' \<noteq> d" if "d' \<in> D" for d' using that D lane by (auto simp: strided_lane)
      then show ?thesis using Q i ne by simp
    qed
    ultimately show "\<exists>s'. ?f d lo' = Some s' \<and> ?Q (insert d D) s'" by blast
  qed (simp_all add: strided_distinct)
  then show ?thesis
    unfolding lane_accumulate_def enumerate_lane [OF lane] foldM_map prod.case using lane by (auto simp: strided_lane)
qed

text \<open>The registers of a warp and the register of dimension \<open>d\<close>.\<close>

definition local_shape :: "nat \<Rightarrow> real list list \<Rightarrow> bool" where
  "local_shape hdim los \<longleftrightarrow> length los = 32 \<and> (\<forall>l < 32. length (los ! l) = hdim div 32 + 1)"

definition register :: "real list list \<Rightarrow> nat \<Rightarrow> real" where
  "register los d = los ! (d mod 32) ! (d div 32)"

lemma lanes_accumulate:
  assumes los: "local_shape hdim los" and v: "\<And>d. d < hdim \<Longrightarrow> v0 + d < length vals"
  shows "\<exists>los'. those (map2 (lane_accumulate vals hdim (int v0) c wgt) [0..<32] los) = Some los' \<and> local_shape hdim los' \<and>
    (\<forall>d < hdim. register los' d = register los d * c + wgt * vals ! (v0 + d))"
proof -
  let ?f = "lane_accumulate vals hdim (int v0) c wgt"
  have "\<forall>l. \<exists>lo'. l < 32 \<longrightarrow> ?f l (los ! l) = Some lo' \<and> length lo' = hdim div 32 + 1 \<and>
      (\<forall>d < hdim. d mod 32 = l \<longrightarrow> lo' ! (d div 32) = los ! l ! (d div 32) * c + wgt * vals ! (v0 + d))"
    using lane_accumulate_run [OF _ _ v] los unfolding local_shape_def by metis
  then obtain G where G: "\<And>l. l < 32 \<Longrightarrow> ?f l (los ! l) = Some (G l)" "\<And>l. l < 32 \<Longrightarrow> length (G l) = hdim div 32 + 1"
      "\<And>l d. l < 32 \<Longrightarrow> d < hdim \<Longrightarrow> d mod 32 = l \<Longrightarrow> G l ! (d div 32) = los ! l ! (d div 32) * c + wgt * vals ! (v0 + d)"
    unfolding choice_iff by blast
  have "map2 ?f [0..<32] los = map (\<lambda>l. ?f l (los ! l)) [0..<32]"
    using los by (intro nth_equalityI) (simp_all add: local_shape_def)
  moreover have "those (map (\<lambda>l. ?f l (los ! l)) [0..<32]) = Some (map G [0..<32])" by (rule those_map) (simp add: G(1))
  moreover have "local_shape hdim (map G [0..<32])" by (simp add: local_shape_def G(2))
  moreover have "register (map G [0..<32]) d = register los d * c + wgt * vals ! (v0 + d)" if "d < hdim" for d
    using G(3) [of "d mod 32" d] that by (simp add: register_def)
  ultimately show ?thesis by (intro exI [of _ "map G [0..<32]"]) simp
qed

text \<open>The additions of all lanes of a warp to the output row, in any order.\<close>

lemma lanes_flush:
  assumes los: "local_shape hdim los" and len: "base + hdim \<le> length out"
  shows "\<exists>out'. foldM (\<lambda>(lane, lo). lane_flush hdim lane (int base) lo) (enumerate 0 los) out = Some out' \<and> length out' = length out \<and>
    (\<forall>d < hdim. out' ! (base + d) = out ! (base + d) + register los d) \<and>
    (\<forall>j. j < base \<or> base + hdim \<le> j \<longrightarrow> out' ! j = out ! j)"
proof -
  let ?g = "\<lambda>d out. do {
         y \<leftarrow> arr_get out (int base + int d);
         x \<leftarrow> vec_at (los ! (d mod 32)) (d div 32);
         arr_set out (int base + int d) (y + x) }"
  let ?Q = "\<lambda>D out'. length out' = length out \<and> (\<forall>d \<in> D. out' ! (base + d) = out ! (base + d) + register los d) \<and>
      (\<forall>j. (\<forall>d \<in> D. j \<noteq> base + d) \<longrightarrow> out' ! j = out ! j)"
  have "foldM (\<lambda>(lane, lo). lane_flush hdim lane (int base) lo) (enumerate 0 los) out = foldM ?g (thread_dims hdim 32) out"
  proof -
    have "enumerate 0 los = map (\<lambda>l. (l, los ! l)) [0..<32]"
      using los by (intro nth_equalityI) (simp_all add: local_shape_def nth_enumerate_eq)
    moreover have "lane_flush hdim l (int base) (los ! l) out = foldM ?g (strided l hdim 32) out" if "l < 32" for l out
      unfolding lane_flush_def enumerate_lane [OF that] foldM_map prod.case
      by (rule foldM_cong) (use that in \<open>simp add: strided_lane\<close>)
    ultimately show ?thesis
      unfolding thread_dims_def foldM_concat foldM_map by (simp only: foldM_map prod.case) (rule foldM_cong, simp)
  qed
  moreover have "\<exists>out'. foldM ?g (thread_dims hdim 32) out = Some out' \<and> ?Q (set (thread_dims hdim 32)) out'"
  proof (rule foldM_items [where Q = ?Q])
    fix d D out' assume d: "d \<in> set (thread_dims hdim 32)" and D: "D \<subseteq> set (thread_dims hdim 32)" "d \<notin> D" and Q: "?Q D out'"
    have dh: "d < hdim" using d thread_dims(1) [of 32 hdim] by simp
    have b: "base + d < length out'" using dh len Q by simp
    have e: "int base + int d = int (base + d)" by simp
    have "d div 32 < length (los ! (d mod 32))" using los dh by (simp add: local_shape_def less_Suc_eq_le div_le_mono)
    then have x: "vec_at (los ! (d mod 32)) (d div 32) = Some (register los d)" by (simp add: register_def)
    have "\<forall>d' \<in> D. base + d \<noteq> base + d'" using D(2) by auto
    then have "out' ! (base + d) = out ! (base + d)" using Q by blast
    then have y: "vec_at out' (base + d) = Some (out ! (base + d))" using b by simp
    have "?g d out' = Some (out'[base + d := out ! (base + d) + register los d])"
      unfolding e arr_get_nat arr_set_nat x y by (simp only: bind.bind_lunit vec_set_Some [OF b])
    then show "\<exists>s'. ?g d out' = Some s' \<and> ?Q (insert d D) s'" using Q b D(2) by (auto simp: nth_list_update)
  qed (simp_all add: thread_dims)
  ultimately show ?thesis using thread_dims(1) [of 32 hdim] by force
qed

lemma zero_local: "local_shape hdim (zero_local hdim)" "d < hdim \<Longrightarrow> register (zero_local hdim) d = 0"
proof -
  show "local_shape hdim (zero_local hdim)" by (simp add: local_shape_def zero_local_def)
  assume "d < hdim"
  then have "d div 32 < hdim div 32 + 1" by (simp add: less_Suc_eq_le div_le_mono)
  then show "register (zero_local hdim) d = 0" by (simp add: register_def zero_local_def del: replicate_Suc)
qed

lemma out_warp_run:
  assumes ok: "attn_ok p hdim bs ns nh kv mb nb" and s: "seq < ns" "head < nh" and w: "w < nt div 32"
    and len: "ctx_of p seq \<le> length qk" "hdim \<le> length out"
  defines "ps \<equiv> warp_positions bs (ctx_of p seq) (nt div 32) w"
  shows "\<exists>out'. out_warp p hdim bs nt seq (int (kv_head_nat p head)) qk is (int (ctx_of p seq)) (int ((ctx_of p seq + bs - 1) div bs)) w out =
      Some out' \<and> length out' = length out \<and>
    (\<forall>d < hdim. out' ! d = out ! d + (\<Sum>i \<in> set ps. qk ! i * is * value_of p hdim bs seq head i d))"
proof -
  let ?f = "\<lambda>i. out_token p hdim bs (int (kv_head_nat p head)) qk is (int (phys_of p seq (i div bs))) (i div bs) (i mod bs)"
  let ?v = "value_of p hdim bs seq head"
  let ?Q = "\<lambda>D los. local_shape hdim los \<and> (\<forall>d < hdim. register los d = (\<Sum>i \<in> D. qk ! i * is * ?v i d))"
  note ps = warp_positions_spec [OF attn_simps(6) [OF ok] w, of "ctx_of p seq", folded ps_def]
  have "\<exists>los. foldM ?f ps (zero_local hdim) = Some los \<and> ?Q (set ps) los"
  proof (rule foldM_items [where Q = ?Q])
    fix i D los assume i: "i \<in> set ps" and D: "D \<subseteq> set ps" "i \<notin> D" and Q: "?Q D los"
    have ic: "i < ctx_of p seq" using i ps(1) by simp
    have v: "cell_of p hdim bs seq head i 0 + d < length (pa_value_cache p)" if "d < hdim" for d
      using attn_cell(2,3) [OF ok s ic] attn_simps(12) [OF ok] that by simp
    have run: "?f i los = those (map2 (lane_accumulate (pa_value_cache p) hdim (int (cell_of p hdim bs seq head i 0)) 1 (qk ! i * is)) [0..<32] los)"
      using ic len(1) unfolding out_token_def attn_cell(1) [OF ok s ic] by simp
    obtain los' where l: "?f i los = Some los'" "local_shape hdim los'"
        "\<forall>d < hdim. register los' d = register los d * 1 + qk ! i * is * pa_value_cache p ! (cell_of p hdim bs seq head i 0 + d)"
      using lanes_accumulate [OF conjunct1 [OF Q] v, of 1 "qk ! i * is"] unfolding run by blast
    have "register los' d = (\<Sum>i \<in> insert i D. qk ! i * is * ?v i d)" if "d < hdim" for d
      using that l(3) Q D(2) finite_subset [OF D(1)] attn_cell(2) [OF ok s ic] by (simp add: value_of_def)
    then show "\<exists>s'. ?f i los = Some s' \<and> ?Q (insert i D) s'" using l(1,2) by blast
  qed (use ps(2) zero_local in simp_all)
  then obtain los where l: "foldM ?f ps (zero_local hdim) = Some los" "?Q (set ps) los" by blast
  then show ?thesis
    using lanes_flush [of hdim los 0 out] len(2) unfolding out_warp_def warp_loop [OF ok s(1)] by (auto simp: ps_def)
qed

section \<open>The phases of a thread block\<close>

text \<open>The positions of the context that warp \<open>w\<close> visits, as a set; every position belongs to one warp.\<close>

definition warp_share :: "nat \<Rightarrow> nat \<Rightarrow> nat \<Rightarrow> nat \<Rightarrow> nat set" where
  "warp_share bs ctx nw w = {i. i < ctx \<and> i div bs mod nw = w}"

lemma warp_share_positions: "0 < bs \<Longrightarrow> w < nw \<Longrightarrow> set (warp_positions bs ctx nw w) = warp_share bs ctx nw w"
  by (simp add: warp_positions_spec warp_share_def)

lemma warp_share_sum:
  fixes g :: "nat \<Rightarrow> real"
  assumes "0 < nw"
  shows "(\<Sum>w < nw. \<Sum>i \<in> warp_share bs ctx nw w. g i) = (\<Sum>i < ctx. g i)"
proof -
  have "(\<Sum>w < nw. \<Sum>i \<in> {i \<in> {..<ctx}. i div bs mod nw = w}. g i) = (\<Sum>i < ctx. g i)"
    by (rule sum.group) (use assms in auto)
  then show ?thesis by (simp add: warp_share_def)
qed

lemma warp_share_member: "i < ctx \<Longrightarrow> i \<in> warp_share bs ctx nw w \<longleftrightarrow> i div bs mod nw = w"
  by (simp add: warp_share_def)

lemma warp_share_finite: "finite (warp_share bs ctx nw w)"
  by (simp add: warp_share_def)

definition warp_order :: "nat \<Rightarrow> nat list \<Rightarrow> bool" where
  "warp_order nw order \<longleftrightarrow> mset order = mset [0..<nw]"

lemma warp_order_set: "warp_order nw order \<Longrightarrow> set order = {..<nw} \<and> distinct order"
  unfolding warp_order_def using mset_eq_setD [of order "[0..<nw]"] mset_eq_imp_distinct_iff [of order "[0..<nw]"]
  by (simp add: atLeast0LessThan)

lemma score_phase:
  assumes ok: "attn_ok p hdim bs ns nh kv mb nb" and s: "seq < ns" "head < nh" and ord: "warp_order (nt div 32) order"
    and nw: "0 < nt div 32" and len: "ctx_of p seq \<le> length qk" "length smax = nt div 32"
  shows "\<exists>qk' smax'. foldM (score_warp p hdim bs nt seq (int (row_of p hdim seq head)) (int (kv_head_nat p head)) (int (ctx_of p seq))
        (int ((ctx_of p seq + bs - 1) div bs))) order (qk, smax) = Some (qk', smax') \<and> length qk' = length qk \<and> length smax' = nt div 32 \<and>
    (\<forall>i < ctx_of p seq. qk' ! i = score_of p hdim bs seq head i) \<and>
    (\<forall>w < nt div 32. smax' ! w = Max (insert (- flt_max) (score_of p hdim bs seq head ` warp_share bs (ctx_of p seq) (nt div 32) w)))"
proof -
  let ?f = "score_warp p hdim bs nt seq (int (row_of p hdim seq head)) (int (kv_head_nat p head)) (int (ctx_of p seq))
        (int ((ctx_of p seq + bs - 1) div bs))"
  let ?sc = "score_of p hdim bs seq head" and ?sh = "warp_share bs (ctx_of p seq) (nt div 32)"
  let ?Q = "\<lambda>D (qk', smax'). length qk' = length qk \<and> length smax' = nt div 32 \<and> (\<forall>w \<in> D. \<forall>i \<in> ?sh w. qk' ! i = ?sc i) \<and>
      (\<forall>w \<in> D. smax' ! w = Max (insert (- flt_max) (?sc ` ?sh w)))"
  note o = warp_order_set [OF ord]
  have "\<exists>st. foldM ?f order (qk, smax) = Some st \<and> ?Q (set order) st"
  proof (rule foldM_items [where Q = ?Q])
    fix w D st assume w: "w \<in> set order" and D: "D \<subseteq> set order" "w \<notin> D" and Q: "?Q D st"
    obtain qk1 smax1 where st: "st = (qk1, smax1)" by (cases st)
    have wn: "w < nt div 32" using w o by simp
    note ps = warp_share_positions [OF attn_simps(6) [OF ok] wn, of "ctx_of p seq"]
    have l: "ctx_of p seq \<le> length qk1" "length smax1 = nt div 32" using Q st len by simp_all
    obtain qk' where q: "?f w (qk1, smax1) = Some (qk', smax1[w := Max (insert (- flt_max) (?sc ` ?sh w))])"
        "length qk' = length qk1" "\<forall>i \<in> ?sh w. qk' ! i = ?sc i" "\<forall>j. j \<notin> ?sh w \<longrightarrow> qk' ! j = qk1 ! j"
      using score_warp_run [OF ok s wn l] unfolding ps by blast
    have "\<forall>v \<in> insert w D. \<forall>i \<in> ?sh v. qk' ! i = ?sc i"
    proof (intro ballI)
      fix v i assume v: "v \<in> insert w D" and i: "i \<in> ?sh v"
      show "qk' ! i = ?sc i"
      proof (cases "i \<in> ?sh w")
        case False
        then have "v \<in> D" using v i by auto
        then show ?thesis using False q(4) i Q st by simp
      qed (use q(3) in blast)
    qed
    moreover have "\<forall>v \<in> insert w D. smax1[w := Max (insert (- flt_max) (?sc ` ?sh w))] ! v = Max (insert (- flt_max) (?sc ` ?sh v))"
      using Q st wn l(2) D(2) by (auto simp: nth_list_update)
    moreover have "length qk' = length qk" "length (smax1[w := Max (insert (- flt_max) (?sc ` ?sh w))]) = nt div 32" using q(2) Q st by simp_all
    ultimately show "\<exists>s'. ?f w st = Some s' \<and> ?Q (insert w D) s'"
      unfolding st q(1) by (intro exI [of _ "(qk', smax1[w := Max (insert (- flt_max) (?sc ` ?sh w))])"]) (simp only: prod.case)
  qed (use o len in simp_all)
  then obtain st where st: "foldM ?f order (qk, smax) = Some st" "?Q (set order) st" by (elim exE conjE)
  obtain qk' smax' where e: "st = (qk', smax')" by (cases st)
  note r = st [unfolded e]
  have "qk' ! i = ?sc i" if "i < ctx_of p seq" for i
    using r(2) o nw that warp_share_member [OF that(1), of bs "nt div 32" "i div bs mod (nt div 32)"] by auto
  then show ?thesis using r o by (intro exI [of _ qk'] exI [of _ smax']) (simp del: Max_insert)
qed

lemma exp_phase:
  assumes bs: "0 < bs" and ord: "warp_order (nt div 32) order" and nw: "0 < nt div 32" and len: "ctx \<le> length qk" "length ssum = nt div 32"
  shows "\<exists>qk' ssum'. foldM (exp_warp bs nt m (int ctx) (int ((ctx + bs - 1) div bs))) order (qk, ssum) = Some (qk', ssum') \<and>
    length qk' = length qk \<and> length ssum' = nt div 32 \<and>
    (\<forall>i < ctx. qk' ! i = exp (qk ! i - m)) \<and>
    (\<forall>w < nt div 32. ssum' ! w = (\<Sum>i \<in> warp_share bs ctx (nt div 32) w. exp (qk ! i - m)))"
proof -
  let ?f = "exp_warp bs nt m (int ctx) (int ((ctx + bs - 1) div bs))"
  let ?sh = "warp_share bs ctx (nt div 32)"
  let ?Q = "\<lambda>D (qk', ssum'). length qk' = length qk \<and> length ssum' = nt div 32 \<and> (\<forall>w \<in> D. \<forall>i \<in> ?sh w. qk' ! i = exp (qk ! i - m)) \<and>
      (\<forall>i. (\<forall>w \<in> D. i \<notin> ?sh w) \<longrightarrow> qk' ! i = qk ! i) \<and> (\<forall>w \<in> D. ssum' ! w = (\<Sum>i \<in> ?sh w. exp (qk ! i - m)))"
  note o = warp_order_set [OF ord]
  have "\<exists>st. foldM ?f order (qk, ssum) = Some st \<and> ?Q (set order) st"
  proof (rule foldM_items [where Q = ?Q])
    fix w D st assume w: "w \<in> set order" and D: "D \<subseteq> set order" "w \<notin> D" and Q: "?Q D st"
    obtain qk1 ssum1 where st: "st = (qk1, ssum1)" by (cases st)
    have wn: "w < nt div 32" using w o by simp
    note ps = warp_share_positions [OF bs wn, of ctx]
    have l: "ctx \<le> length qk1" "length ssum1 = nt div 32" using Q st len by simp_all
    have other: "i \<notin> ?sh v" if "i \<in> ?sh w" "v \<in> D" for i v using that D(2) by (auto simp: warp_share_def)
    have old: "qk1 ! i = qk ! i" if "i \<in> ?sh w" for i using Q st other that by auto
    have sum: "(\<Sum>i \<in> ?sh w. exp (qk1 ! i - m)) = (\<Sum>i \<in> ?sh w. exp (qk ! i - m))" by (rule sum.cong) (simp_all add: old)
    obtain qk' where q: "?f w (qk1, ssum1) = Some (qk', ssum1[w := \<Sum>i \<in> ?sh w. exp (qk ! i - m)])"
        "length qk' = length qk1" "\<forall>i \<in> ?sh w. qk' ! i = exp (qk ! i - m)" "\<forall>j. j \<notin> ?sh w \<longrightarrow> qk' ! j = qk1 ! j"
      using exp_warp_run [OF bs wn l, of m] unfolding ps sum by (auto simp: old)
    have "\<forall>v \<in> insert w D. \<forall>i \<in> ?sh v. qk' ! i = exp (qk ! i - m)"
    proof (intro ballI)
      fix v i assume v: "v \<in> insert w D" and i: "i \<in> ?sh v"
      show "qk' ! i = exp (qk ! i - m)"
      proof (cases "i \<in> ?sh w")
        case False
        then have "v \<in> D" using v i by auto
        then show ?thesis using False q(4) i Q st by simp
      qed (use q(3) in blast)
    qed
    moreover have "\<forall>v \<in> insert w D. ssum1[w := \<Sum>i \<in> ?sh w. exp (qk ! i - m)] ! v = (\<Sum>i \<in> ?sh v. exp (qk ! i - m))"
      using Q st wn l(2) D(2) by (auto simp: nth_list_update)
    ultimately show "\<exists>s'. ?f w st = Some s' \<and> ?Q (insert w D) s'" using q(1,2,4) st Q by auto
  qed (use o len in simp_all)
  then obtain st where st: "foldM ?f order (qk, ssum) = Some st" "?Q (set order) st" by (elim exE conjE)
  obtain qk' ssum' where e: "st = (qk', ssum')" by (cases st)
  note r = st [unfolded e]
  have "qk' ! i = exp (qk ! i - m)" if "i < ctx" for i
    using r(2) o nw that warp_share_member [OF that(1), of bs "nt div 32" "i div bs mod (nt div 32)"] by auto
  then show ?thesis using r o by (intro exI [of _ qk'] exI [of _ ssum']) simp
qed

lemma out_phase:
  assumes ok: "attn_ok p hdim bs ns nh kv mb nb" and s: "seq < ns" "head < nh" and ord: "warp_order (nt div 32) order"
    and nw: "0 < nt div 32" and len: "ctx_of p seq \<le> length qk" "hdim \<le> length out"
  shows "\<exists>out'. foldM (out_warp p hdim bs nt seq (int (kv_head_nat p head)) qk is (int (ctx_of p seq))
        (int ((ctx_of p seq + bs - 1) div bs))) order out = Some out' \<and> length out' = length out \<and>
    (\<forall>d < hdim. out' ! d = out ! d + (\<Sum>i < ctx_of p seq. qk ! i * is * value_of p hdim bs seq head i d))"
proof -
  let ?f = "out_warp p hdim bs nt seq (int (kv_head_nat p head)) qk is (int (ctx_of p seq)) (int ((ctx_of p seq + bs - 1) div bs))"
  let ?sh = "warp_share bs (ctx_of p seq) (nt div 32)" and ?g = "\<lambda>d i. qk ! i * is * value_of p hdim bs seq head i d"
  let ?Q = "\<lambda>D out'. length out' = length out \<and> (\<forall>d < hdim. out' ! d = out ! d + (\<Sum>w \<in> D. sum (?g d) (?sh w)))"
  note o = warp_order_set [OF ord]
  have "\<exists>out'. foldM ?f order out = Some out' \<and> ?Q (set order) out'"
  proof (rule foldM_items [where Q = ?Q])
    fix w D out1 assume w: "w \<in> set order" and D: "D \<subseteq> set order" "w \<notin> D" and Q: "?Q D out1"
    have wn: "w < nt div 32" using w o by simp
    have l: "hdim \<le> length out1" using Q len by simp
    obtain out' where q: "?f w out1 = Some out'" "length out' = length out1" "\<forall>d < hdim. out' ! d = out1 ! d + sum (?g d) (?sh w)"
      using out_warp_run [OF ok s wn len(1) l] unfolding warp_share_positions [OF attn_simps(6) [OF ok] wn] by blast
    have "(\<Sum>w \<in> insert w D. sum (?g d) (?sh w)) = sum (?g d) (?sh w) + (\<Sum>w \<in> D. sum (?g d) (?sh w))" for d
      using D finite_subset [OF D(1)] by simp
    then show "\<exists>s'. ?f w out1 = Some s' \<and> ?Q (insert w D) s'" using q Q by (intro exI [of _ out']) simp
  qed (use o in simp_all)
  then show ?thesis using o warp_share_sum [OF nw] by simp
qed

text \<open>Combining the warps.\<close>

lemma combine_warps_run:
  assumes "length ws = nw" "0 < nw" "nw \<le> 32" and reduce: "\<And>vs. length vs = 32 \<Longrightarrow> reduce vs = replicate 32 (r vs)"
  shows "\<exists>ws'. combine_warps reduce c nw ws = Some ws' \<and>
    vec_at ws' 0 = Some (r (map (\<lambda>l. if l < nw then ws ! l else c) [0..<32]))"
proof -
  let ?vs = "map (\<lambda>l. if l < nw then ws ! l else c) [0..<32]"
  have "those (map (\<lambda>l. if l < nw then vec_at ws l else Some c) [0..<32]) = Some ?vs"
    by (rule those_map) (use assms(1) in simp)
  then have "combine_warps reduce c nw ws = Some (ws[0 := reduce ?vs ! 0])"
    unfolding combine_warps_def using assms(1,2) by simp
  moreover have "reduce ?vs ! 0 = r ?vs" by (subst reduce) simp_all
  ultimately show ?thesis using assms(1,2) by simp
qed

lemma combine_max_sum:
  assumes "length ws = nw" "0 < nw" "nw \<le> 32"
  shows "\<exists>ws'. combine_warps warp_reduce_max c nw ws = Some ws' \<and>
      vec_at ws' 0 = Some (Max (set (map (\<lambda>l. if l < nw then ws ! l else c) [0..<32])))"
    and "\<exists>ws'. combine_warps warp_reduce_sum c nw ws = Some ws' \<and>
      vec_at ws' 0 = Some (sum_list (map (\<lambda>l. if l < nw then ws ! l else c) [0..<32]))"
  by (rule combine_warps_run [OF assms warp_reduce_max_all], assumption)
     (rule combine_warps_run [OF assms warp_reduce_sum_all], assumption)

text \<open>The maximum the kernel subtracts, the sum of the shifted exponentials, and the value it writes.\<close>

definition v1_max :: "paged_attention_params \<Rightarrow> nat \<Rightarrow> nat \<Rightarrow> nat \<Rightarrow> nat \<Rightarrow> real" where
  "v1_max p hdim bs seq head = Max (insert (- flt_max) (score_of p hdim bs seq head ` {..<ctx_of p seq}))"

definition v1_sum :: "paged_attention_params \<Rightarrow> nat \<Rightarrow> nat \<Rightarrow> nat \<Rightarrow> nat \<Rightarrow> real" where
  "v1_sum p hdim bs seq head = (\<Sum>i < ctx_of p seq. exp (score_of p hdim bs seq head i - v1_max p hdim bs seq head))"

definition v1_value :: "paged_attention_params \<Rightarrow> nat \<Rightarrow> nat \<Rightarrow> nat \<Rightarrow> nat \<Rightarrow> nat \<Rightarrow> real" where
  "v1_value p hdim bs seq head d =
     (\<Sum>i < ctx_of p seq. exp (score_of p hdim bs seq head i - v1_max p hdim bs seq head) *
        (1 / (v1_sum p hdim bs seq head + 1 / 10 ^ 8)) * value_of p hdim bs seq head i d)"

lemma combined_max:
  fixes g :: "nat \<Rightarrow> real"
  assumes nw: "0 < nw" "nw \<le> 32"
    and ws: "\<And>w. w < nw \<Longrightarrow> ws ! w = Max (insert c (g ` warp_share bs ctx nw w))"
  shows "Max (set (map (\<lambda>l. if l < nw then ws ! l else c) [0..<32])) = Max (insert c (g ` {..<ctx}))"
proof (rule antisym)
  let ?V = "set (map (\<lambda>l. if l < nw then ws ! l else c) [0..<32])"
  have sub: "warp_share bs ctx nw w \<subseteq> {..<ctx}" for w by (auto simp: warp_share_def)
  have w_le: "ws ! w \<le> Max (insert c (g ` {..<ctx}))" if "w < nw" for w
    unfolding ws [OF that] by (rule Max_mono) (use sub in auto)
  show "Max ?V \<le> Max (insert c (g ` {..<ctx}))"
  proof (rule Max.boundedI)
    fix x assume "x \<in> ?V"
    then have "x = c \<or> (\<exists>w < nw. x = ws ! w)" by auto
    then show "x \<le> Max (insert c (g ` {..<ctx}))" using w_le Max_ge [of "insert c (g ` {..<ctx})" c] by blast
  qed (simp_all only: set_empty finite_set, simp)
  have big: "ws ! w \<le> Max ?V" if "w < nw" for w
  proof (rule Max_ge)
    show "ws ! w \<in> ?V" using that nw by (auto intro!: image_eqI [of _ _ w])
  qed simp
  have "x \<le> Max ?V" if "x \<in> insert c (g ` {..<ctx})" for x
  proof -
    obtain w where w: "w < nw" "x \<in> insert c (g ` warp_share bs ctx nw w)"
    proof (cases "x = c")
      case True
      then show ?thesis using that nw(1) by blast
    next
      case False
      then obtain i where "i < ctx" "x = g i" using \<open>x \<in> insert c (g ` {..<ctx})\<close> by auto
      then show ?thesis using that [of "i div bs mod nw"] nw(1) by (auto simp: warp_share_def)
    qed
    have "x \<le> ws ! w" unfolding ws [OF w(1)] by (rule Max_ge) (use w(2) warp_share_finite in auto)
    then show ?thesis using big [OF w(1)] by linarith
  qed
  then show "Max (insert c (g ` {..<ctx})) \<le> Max ?V" by (intro Max.boundedI) auto
qed

lemma combined_sum:
  fixes g :: "nat \<Rightarrow> real"
  assumes nw: "0 < nw" "nw \<le> 32" and ws: "\<And>w. w < nw \<Longrightarrow> ws ! w = (\<Sum>i \<in> warp_share bs ctx nw w. g i)"
  shows "sum_list (map (\<lambda>l. if l < nw then ws ! l else 0) [0..<32]) = (\<Sum>i < ctx. g i)"
proof -
  have "sum_list (map (\<lambda>l. if l < nw then ws ! l else 0) [0..<32]) = (\<Sum>l < 32. if l < nw then ws ! l else 0)"
    unfolding sum_list_distinct_conv_sum_set [OF distinct_upt] by (simp add: atLeast0LessThan)
  also have "\<dots> = (\<Sum>l < nw. ws ! l)" using nw(2)
    by (intro sum.mono_neutral_cong_right) auto
  also have "\<dots> = (\<Sum>i < ctx. g i)" using warp_share_sum [OF nw(1), of g bs ctx] by (simp add: ws)
  finally show ?thesis .
qed

section \<open>A thread block\<close>

text \<open>Loops in which every thread writes its dimensions.\<close>

lemma write_dims:
  assumes "0 < nt" and len: "base + hdim \<le> length out"
  shows "\<exists>out'. foldM (\<lambda>d out. arr_set out (int base + int d) (g d)) (thread_dims hdim nt) out = Some out' \<and> length out' = length out \<and>
    (\<forall>d < hdim. out' ! (base + d) = g d) \<and> (\<forall>j. j < base \<or> base + hdim \<le> j \<longrightarrow> out' ! j = out ! j)"
proof -
  let ?f = "\<lambda>d out. arr_set out (int base + int d) (g d)"
  let ?Q = "\<lambda>D out'. length out' = length out \<and> (\<forall>d \<in> D. out' ! (base + d) = g d) \<and> (\<forall>j. (\<forall>d \<in> D. j \<noteq> base + d) \<longrightarrow> out' ! j = out ! j)"
  have "\<exists>out'. foldM ?f (thread_dims hdim nt) out = Some out' \<and> ?Q (set (thread_dims hdim nt)) out'"
  proof (rule foldM_items [where Q = ?Q])
    fix d D out' assume d: "d \<in> set (thread_dims hdim nt)" and D: "d \<notin> D" and Q: "?Q D out'"
    have b: "base + d < length out'" using d thread_dims(1) [OF assms(1)] len Q by simp
    then have "?f d out' = Some (out'[base + d := g d])" unfolding of_nat_add [symmetric] arr_set_nat by simp
    then show "\<exists>s'. ?f d out' = Some s' \<and> ?Q (insert d D) s'" using Q b D by (auto simp: nth_list_update)
  qed (simp_all add: thread_dims [OF assms(1)])
  then show ?thesis using thread_dims(1) [OF assms(1)] by force
qed

lemma clear_dims:
  assumes "0 < nt" "hdim \<le> length so"
  shows "\<exists>so'. foldM (\<lambda>d so. vec_set so d (0 :: real)) (thread_dims hdim nt) so = Some so' \<and> length so' = length so \<and> (\<forall>d < hdim. so' ! d = 0)"
  using write_dims [OF assms(1), of 0 hdim so "\<lambda>_. 0"] assms(2) by (auto simp: arr_set_def)

definition shared_shape :: "nat \<Rightarrow> nat \<Rightarrow> shared_memory \<Rightarrow> bool" where
  "shared_shape hdim nt sh \<longleftrightarrow> length (smem_qk sh) = nt \<and> length (smem_max sh) = nt div 32 \<and> length (smem_sum sh) = nt div 32 \<and>
     hdim \<le> length (smem_out sh)"

lemma v1_block:
  assumes ok: "attn_ok p hdim bs ns nh kv mb nb" and s: "seq < ns" "head < nh"
    and nt: "0 < nt div 32" "nt div 32 \<le> 32" and ctx: "ctx_of p seq \<le> nt" and sh: "shared_shape hdim nt sh"
    and ords: "\<forall>k. warp_order (nt div 32) (order k)" and len: "length out = ns * nh * hdim"
  shows "\<exists>out'. paged_attention_v1_kernel hdim bs nt order sh p (seq, head) out = Some out' \<and> length out' = length out \<and>
    (\<forall>d < hdim. out' ! (row_of p hdim seq head + d) = v1_value p hdim bs seq head d) \<and>
    (\<forall>j. j < row_of p hdim seq head \<or> row_of p hdim seq head + hdim \<le> j \<longrightarrow> out' ! j = out ! j)"
proof -
  let ?ctx = "ctx_of p seq" let ?nb = "(?ctx + bs - 1) div bs" and ?row = "row_of p hdim seq head"
  let ?sc = "score_of p hdim bs seq head" and ?m = "v1_max p hdim bs seq head" and ?S = "v1_sum p hdim bs seq head"
  note a = attn_simps [OF ok] and c = attn_ctx [OF ok s(1)]
  note ord = ords [rule_format]
  have nt0: "0 < nt" using nt(1) by (cases nt) auto
  have shp: "length (smem_qk sh) = nt" "length (smem_max sh) = nt div 32" "length (smem_sum sh) = nt div 32" "hdim \<le> length (smem_out sh)"
    using sh by (simp_all add: shared_shape_def)
  have ctxl: "?ctx \<le> length (smem_qk sh)" using ctx shp(1) by simp
  have lens: "arr_get (pa_context_lens p) (int seq) = Some (int ?ctx)" using a(14) s(1) c(1) by simp
  obtain so0 where so0: "foldM (\<lambda>d so. vec_set so d 0) (thread_dims hdim nt) (smem_out sh) = Some so0"
      "length so0 = length (smem_out sh)" "\<forall>d < hdim. so0 ! d = 0"
    using clear_dims [OF nt0 shp(4)] by blast
  obtain qk1 max1 where p1: "foldM (score_warp p hdim bs nt seq (int ?row) (int (kv_head_nat p head)) (int ?ctx) (int ?nb)) (order 0) (smem_qk sh, smem_max sh) =
        Some (qk1, max1)" "length qk1 = nt" "length max1 = nt div 32" "\<forall>i < ?ctx. qk1 ! i = ?sc i"
      "\<forall>w < nt div 32. max1 ! w = Max (insert (- flt_max) (?sc ` warp_share bs ?ctx (nt div 32) w))"
    using score_phase [OF ok s ord [of 0] nt(1) ctxl shp(2)] unfolding shp(1) by (elim exE conjE) (rule that)
  have m: "Max (set (map (\<lambda>l. if l < nt div 32 then max1 ! l else - flt_max) [0..<32])) = ?m"
    unfolding v1_max_def by (rule combined_max [OF nt p1(5) [rule_format]])
  obtain max2 where m2: "combine_warps warp_reduce_max (- flt_max) (nt div 32) max1 = Some max2" "vec_at max2 0 = Some ?m"
    using combine_max_sum(1) [OF p1(3) nt, of "- flt_max"]
    unfolding m by (elim exE conjE) (rule that)
  have l1: "?ctx \<le> length qk1" using ctx p1(2) by simp
  obtain qk2 sum1 where p2: "foldM (exp_warp bs nt ?m (int ?ctx) (int ?nb)) (order 1) (qk1, smem_sum sh) = Some (qk2, sum1)"
      "length qk2 = length qk1" "length sum1 = nt div 32" "\<forall>i < ?ctx. qk2 ! i = exp (qk1 ! i - ?m)"
      "\<forall>w < nt div 32. sum1 ! w = (\<Sum>i \<in> warp_share bs ?ctx (nt div 32) w. exp (qk1 ! i - ?m))"
    using exp_phase [OF a(6) ord [of 1] nt(1) l1 shp(3), of ?m] by (elim exE conjE) (rule that)
  have "(\<Sum>i < ?ctx. exp (qk1 ! i - ?m)) = ?S" by (simp add: v1_sum_def p1(4))
  then have S: "sum_list (map (\<lambda>l. if l < nt div 32 then sum1 ! l else 0) [0..<32]) = ?S"
    using combined_sum [OF nt p2(5) [rule_format]] by simp
  obtain sum2 where s2: "combine_warps warp_reduce_sum 0 (nt div 32) sum1 = Some sum2" "vec_at sum2 0 = Some ?S"
    using combine_max_sum(2) [OF p2(3) nt, of 0]
    unfolding S by (elim exE conjE) (rule that)
  let ?is = "1 / (?S + 1 / 10 ^ 8)"
  have l2: "?ctx \<le> length qk2" "hdim \<le> length so0" using l1 p2(2) so0(2) shp(4) by simp_all
  obtain so1 where so1: "foldM (out_warp p hdim bs nt seq (int (kv_head_nat p head)) qk2 ?is (int ?ctx) (int ?nb)) (order 2) so0 = Some so1"
      "length so1 = length so0" "\<forall>d < hdim. so1 ! d = so0 ! d + (\<Sum>i < ?ctx. qk2 ! i * ?is * value_of p hdim bs seq head i d)"
    using out_phase [OF ok s ord [of 2] nt(1) l2, of ?is] by (elim exE conjE) (rule that)
  have "so1 ! d = v1_value p hdim bs seq head d" if "d < hdim" for d
    using so1(3) so0(3) that by (simp add: v1_value_def p2(4) p1(4))
  then have at: "vec_at so1 d = Some (v1_value p hdim bs seq head d)" if "d < hdim" for d
    using that so1(2) l2(2) by simp
  have wr: "foldM (\<lambda>d out. do { x \<leftarrow> vec_at so1 d; arr_set out (int ?row + int d) x }) (thread_dims hdim nt) out =
      foldM (\<lambda>d out. arr_set out (int ?row + int d) (v1_value p hdim bs seq head d)) (thread_dims hdim nt) out"
    by (rule foldM_cong) (use at thread_dims(1) [OF nt0] in simp)
  have "?row + hdim \<le> length out"
    using attn_query_row(2) [OF ok s, of "hdim - 1"] a(7) len by simp
  from write_dims [OF nt0 this, of "v1_value p hdim bs seq head"]
  show ?thesis
    unfolding paged_attention_v1_kernel_def prod.case attn_kv_head(1) [OF ok s(2)] lens attn_query_row(1) [OF ok s]
      attn_ceil_blocks [OF a(6) c(3)] bind.bind_lunit so0(1) p1(1) m2 p2(1) s2 Let_def so1(1) wr .
qed

section \<open>Accuracy\<close>

text \<open>
  Subtracting the maximum does not change the quotient; only the added \<open>1e-8\<close> does, and since the
  term of the maximum is 1, by at most that factor.
\<close>

lemma v1_accuracy:
  assumes range: "\<forall>i < ctx_of p seq. - flt_max \<le> score_of p hdim bs seq head i"
  shows "\<bar>v1_value p hdim bs seq head d - softmax_attention p hdim bs seq head d\<bar> \<le> 1 / 10 ^ 8 * \<bar>softmax_attention p hdim bs seq head d\<bar>"
proof (cases "ctx_of p seq = 0")
  case True
  then show ?thesis by (simp add: v1_value_def softmax_attention_def)
next
  case False
  let ?I = "{..<ctx_of p seq}" and ?sc = "score_of p hdim bs seq head" and ?v = "\<lambda>i. value_of p hdim bs seq head i d"
  let ?m = "v1_max p hdim bs seq head" and ?S = "v1_sum p hdim bs seq head" and ?e = "1 / 10 ^ 8 :: real"
  let ?N = "\<Sum>i \<in> ?I. exp (?sc i - ?m) * ?v i"
  have "?m \<in> insert (- flt_max) (?sc ` ?I)" unfolding v1_max_def by (rule Max_in) simp_all
  moreover have "?sc 0 \<le> ?m" unfolding v1_max_def by (rule Max_ge) (use False in auto)
  ultimately obtain i where i: "i \<in> ?I" "?m = ?sc i" using range False by force
  have "exp (?sc i - ?m) \<le> ?S" unfolding v1_sum_def by (rule member_le_sum) (use i in auto)
  then have S: "1 \<le> ?S" using i(2) by simp
  have shift: "exp (?sc i - ?m) = exp (?sc i) / exp ?m" for i by (rule exp_diff)
  have "softmax_attention p hdim bs seq head d = ?N / ?S"
    unfolding softmax_attention_def v1_sum_def shift by (simp flip: sum_divide_distrib)
  moreover have "v1_value p hdim bs seq head d = ?N / (?S + ?e)"
    by (simp add: v1_value_def sum_divide_distrib)
  moreover have "?N / (?S + ?e) - ?N / ?S = - (?N / ?S) * (?e / (?S + ?e))" using S by (simp add: field_simps)
  then have "\<bar>?N / (?S + ?e) - ?N / ?S\<bar> = \<bar>?N / ?S\<bar> * \<bar>?e / (?S + ?e)\<bar>" by (simp only: abs_mult abs_minus)
  moreover have "\<bar>?e / (?S + ?e)\<bar> \<le> ?e" using S by (simp add: field_simps)
  then have "\<bar>?N / ?S\<bar> * \<bar>?e / (?S + ?e)\<bar> \<le> \<bar>?N / ?S\<bar> * ?e" by (rule mult_left_mono) simp
  ultimately show ?thesis by (simp only: mult.commute)
qed

section \<open>The launch\<close>

lemma v1_run_blocks:
  assumes ok: "attn_ok p hdim bs ns nh kv mb nb" and ctx: "\<forall>s < ns. ctx_of p s \<le> 128"
    and sh: "\<forall>b. shared_shape hdim 128 (sh b)" and ord: "\<forall>b k. warp_order 4 (order b k)" and blocks: "mset blocks = mset (grid2 ns nh)"
  shows "\<exists>out. foldM (\<lambda>blk. paged_attention_v1_kernel hdim bs 128 (order blk) (sh blk) p blk) blocks (pa_output p) = Some out \<and>
    length out = ns * nh * hdim \<and>
    (\<forall>seq < ns. \<forall>head < nh. \<forall>d < hdim. out ! (row_of p hdim seq head + d) = v1_value p hdim bs seq head d)"
proof -
  let ?f = "\<lambda>blk. paged_attention_v1_kernel hdim bs 128 (order blk) (sh blk) p blk"
  let ?Q = "\<lambda>D out. length out = ns * nh * hdim \<and>
      (\<forall>b \<in> D. \<forall>d < hdim. out ! (row_of p hdim (fst b) (snd b) + d) = v1_value p hdim bs (fst b) (snd b) d)"
  have set: "set blocks = {(s, h). s < ns \<and> h < nh}" "distinct blocks"
    using mset_eq_setD [OF blocks] mset_eq_imp_distinct_iff [OF blocks] by (auto simp: grid2_def distinct_product)
  have row: "row_of p hdim s h = (s * nh + h) * hdim" for s h by (simp add: row_of_def attn_simps [OF ok])
  have "\<exists>out. foldM ?f blocks (pa_output p) = Some out \<and> ?Q (set blocks) out"
  proof (rule foldM_items [where Q = ?Q])
    fix b D out assume b: "b \<in> set blocks" and D: "D \<subseteq> set blocks" "b \<notin> D" and Q: "?Q D out"
    obtain s h where e: "b = (s, h)" and sh': "s < ns" "h < nh" using b set(1) by auto
    have nt: "0 < (128 :: nat) div 32" "(128 :: nat) div 32 \<le> 32" by simp_all
    have "(128 :: nat) div 32 = 4" by simp
    then have o: "\<forall>k. warp_order (128 div 32) (order b k)" using ord by metis
    have cs: "ctx_of p s \<le> 128" using ctx sh'(1) by blast
    obtain out' where r: "?f b out = Some out'" "length out' = length out"
        "\<forall>d < hdim. out' ! (row_of p hdim s h + d) = v1_value p hdim bs s h d"
        "\<forall>j. j < row_of p hdim s h \<or> row_of p hdim s h + hdim \<le> j \<longrightarrow> out' ! j = out ! j"
      using v1_block [OF ok sh' nt cs sh [rule_format, of b] o conjunct1 [OF Q]] unfolding e [symmetric] by (elim exE conjE) (rule that)
    have "out' ! (row_of p hdim s2 h2 + d) = v1_value p hdim bs s2 h2 d" if b2: "(s2, h2) \<in> D" and d: "d < hdim" for s2 h2 d
    proof -
      have lt: "h2 < nh" using b2 D(1) set(1) by auto
      have "(s2, h2) \<noteq> (s, h)" using b2 D(2) e by blast
      then have "s2 * nh + h2 \<noteq> s * nh + h" using nest_eq [OF lt sh'(2)] by auto
      then have "s2 * nh + h2 + 1 \<le> s * nh + h \<or> s * nh + h + 1 \<le> s2 * nh + h2" by linarith
      then have "(s2 * nh + h2 + 1) * hdim \<le> (s * nh + h) * hdim \<or> (s * nh + h + 1) * hdim \<le> (s2 * nh + h2) * hdim"
        using mult_le_mono1 by blast
      then have "row_of p hdim s2 h2 + d < row_of p hdim s h \<or> row_of p hdim s h + hdim \<le> row_of p hdim s2 h2 + d"
        unfolding row using d by (auto simp: add_mult_distrib)
      then have "out' ! (row_of p hdim s2 h2 + d) = out ! (row_of p hdim s2 h2 + d)" using r(4) by blast
      then show ?thesis using Q b2 d by force
    qed
    then have "?Q (insert b D) out'" using r(2,3) Q e by auto
    then show "\<exists>s'. ?f b out = Some s' \<and> ?Q (insert b D) s'" using r(1) by blast
  qed (use set attn_simps [OF ok] in simp_all)
  then show ?thesis using set(1) by force
qed

lemma shared_init_shape: "hdim \<le> dyn \<Longrightarrow> shared_shape hdim nt (shared_init init nt dyn)"
  by (simp add: shared_shape_def shared_init_def)

lemma dynamic_floats_nat:
  assumes "pa_head_dim p = int hdim" "hdim \<le> 128" "0 \<le> pa_max_context_len p" "pa_max_context_len p < 2 ^ 31"
  shows "hdim \<le> dynamic_floats p"
proof -
  have m: "size_of_i32 (pa_max_context_len p) = nat (pa_max_context_len p)" "size_of_i32 (pa_head_dim p) = hdim"
    using assms by simp_all
  have "nat (pa_max_context_len p) < 2 ^ 31" using assms(4) by (simp add: nat_less_iff)
  then have "hdim * 4 + nat (pa_max_context_len p) * 4 < 2 ^ 64" using assms(2) by simp
  then show ?thesis by (simp add: dynamic_floats_def m)
qed

section \<open>Properties\<close>


text \<open>A sequence of three tokens in one block, all keys equal and all values 1.\<close>

definition v1_example :: paged_attention_params where
  "v1_example = \<lparr>pa_query = replicate 64 1, pa_key_cache = replicate 1024 0, pa_value_cache = replicate 1024 1,
     pa_output = replicate 64 0, pa_block_tables = [0], pa_context_lens = [3], pa_scale = 1 / 8, pa_num_seqs = 1,
     pa_num_heads = 1, pa_num_kv_heads = 1, pa_head_dim = 64, pa_block_size = 16, pa_max_context_len = 3, pa_max_blocks_per_seq = 1\<rparr>"

lemma v1_example_ok: "attn_ok v1_example 64 16 1 1 1 1 1"
proof -
  have "[0 :: int] ! b = 0" if "int b * 16 < 3" for b
  proof -
    have "b = 0" using that by linarith
    then show ?thesis by simp
  qed
  then show ?thesis by (auto simp: attn_ok_def v1_example_def)
qed

lemma v1_example_values:
  assumes "i < 3" "d < 64"
  shows "score_of v1_example 64 16 0 0 i = 0" "value_of v1_example 64 16 0 0 i d = 1"
proof -
  have c: "ctx_of v1_example 0 = 3" by (simp add: ctx_of_def v1_example_def)
  have "cell_of v1_example 64 16 0 0 i d < 1024" if "d < 64" for d
    using attn_cell(3) [OF v1_example_ok, of 0 0 i d] assms(1) that c by simp
  then show "score_of v1_example 64 16 0 0 i = 0" "value_of v1_example 64 16 0 0 i d = 1"
    using assms(2) by (simp_all add: score_of_def value_of_def v1_example_def)
qed


section \<open>Long contexts\<close>

lemma foldM_stuck:
  assumes "x \<in> set xs" and "\<And>s. P s \<Longrightarrow> f x s = None" and "\<And>y s s'. P s \<Longrightarrow> f y s = Some s' \<Longrightarrow> P s'"
  shows "P s \<Longrightarrow> foldM f xs s = None"
  using assms(1)
proof (induction xs arbitrary: s)
  case (Cons y ys)
  show ?case
  proof (cases "f y s")
    case (Some s')
    then have "P s'" "y \<noteq> x" using assms(2,3) Cons.prems(1) by force+
    then show ?thesis using Cons Some by simp
  qed simp
qed simp

lemma score_token_length: "score_token p hdim bs q0 kvh phys b off st = Some st' \<Longrightarrow> length (fst st') = length (fst st)"
  by (cases st) (auto simp: score_token_def bind_eq_Some_conv vec_set_def split: if_splits)

lemma score_tokens_length:
  assumes "foldM (score_token p hdim bs q0 kvh phys b) offs st = Some st'"
  shows "length (fst st') = length (fst st)"
  by (rule foldM_invariant [OF assms, where P = "\<lambda>s. length (fst s) = length (fst st)"]) (simp_all add: score_token_length)

lemma score_warp_length: "score_warp p hdim bs nt seq q0 kvh ctx nb w st = Some st' \<Longrightarrow> length (fst st') = length (fst st)"
proof -
  assume a: "score_warp p hdim bs nt seq q0 kvh ctx nb w st = Some st'"
  obtain qk smax where st: "st = (qk, smax)" by (cases st)
  let ?P = "\<lambda>st. length (fst st) = length qk"
  obtain qk1 mx where f: "foldM (\<lambda>b st. do { phys \<leftarrow> table_entry p seq b; foldM (score_token p hdim bs q0 kvh phys b) (block_offs bs ctx b) st })
        (strided w (nat nb) (nt div 32)) (qk, replicate 32 (- flt_max)) = Some (qk1, mx)" and e: "fst st' = qk1"
    using a by (auto simp: st score_warp_def bind_eq_Some_conv)
  have "?P (qk1, mx)" by (rule foldM_invariant [OF f, where P = ?P]) (auto simp: bind_eq_Some_conv dest: score_tokens_length)
  then show ?thesis by (simp add: st e)
qed

text \<open>The warp that reaches position \<open>nt\<close> writes past the end of \<open>smem_qk\<close>.\<close>

lemma score_warp_stuck:
  assumes bs: "0 < bs" and nb: "nt div bs < nat nb" and ctx: "int nt < ctx" and w: "w = nt div bs mod (nt div 32)" "w < nt div 32"
    and len: "length qk = nt"
  shows "score_warp p hdim bs nt seq q0 kvh ctx nb w (qk, smax) = None"
proof -
  let ?P = "\<lambda>st :: real list \<times> real list. length (fst st) = nt"
  have "nt mod bs \<in> set (block_offs bs (int (nat ctx)) (nt div bs))" using ctx bs unfolding block_offs_set by simp
  then have off: "nt mod bs \<in> set (block_offs bs ctx (nt div bs))" using ctx by simp
  have inner: "foldM (score_token p hdim bs q0 kvh phys (nt div bs)) (block_offs bs ctx (nt div bs)) st = None" if "?P st" for phys st
  proof (rule foldM_stuck [OF off, where P = ?P])
    show "score_token p hdim bs q0 kvh phys (nt div bs) (nt mod bs) s = None" if "?P s" for s
      using that by (cases s) (simp add: score_token_def vec_set_def bind_eq_None_conv)
  qed (use that score_token_length in auto)
  have blk: "nt div bs \<in> set (strided w (nat nb) (nt div 32))" using w nb by (simp add: strided_set)
  have "foldM (\<lambda>b st. do { phys \<leftarrow> table_entry p seq b; foldM (score_token p hdim bs q0 kvh phys b) (block_offs bs ctx b) st })
        (strided w (nat nb) (nt div 32)) (qk, replicate 32 (- flt_max)) = None"
  proof (rule foldM_stuck [OF blk, where P = ?P])
    show "do { phys \<leftarrow> table_entry p seq (nt div bs); foldM (score_token p hdim bs q0 kvh phys (nt div bs)) (block_offs bs ctx (nt div bs)) s } = None"
      if "?P s" for s using inner [OF that] by (cases "table_entry p seq (nt div bs)") simp_all
    show "?P s'" if "?P s" "do { phys \<leftarrow> table_entry p seq b; foldM (score_token p hdim bs q0 kvh phys b) (block_offs bs ctx b) s } = Some s'" for b s s'
      using that by (auto simp: bind_eq_Some_conv dest: score_tokens_length)
  qed (use len in simp)
  then show ?thesis by (simp add: score_warp_def)
qed

text \<open>
  C37. Paged attention V1 is undefined for contexts of more than 128 tokens. The launch has 128 threads per
  block and \<open>smem_qk\<close> one element per thread, but it is indexed by the position in the context: as
  soon as one sequence has a longer context, a warp writes outside the shared array, whatever the
  inputs and the order of execution. \<open>execute_attention\<close> selects this kernel up to 8192 tokens.
\<close>

theorem paged_attention_v1_overflow:
  assumes dims: "pa_head_dim p \<in> {64, 128}" "pa_block_size p = 16"
    and ctx: "seq < length (pa_context_lens p)" "128 < pa_context_lens p ! seq"
    and block: "(seq, head) \<in> set blocks" and ord: "\<forall>b k. warp_order 4 (order b k)"
  shows "launch_paged_attention_v1 blocks order init p = None"
proof -
  have stuck: "paged_attention_v1_kernel hdim 16 128 (order (seq, head)) (shared_init g 128 dyn) p (seq, head) out = None" for hdim g dyn out
  proof (rule ccontr)
    assume "paged_attention_v1_kernel hdim 16 128 (order (seq, head)) (shared_init g 128 dyn) p (seq, head) out \<noteq> None"
    then obtain kvh nb q0 st where nb: "ceil_blocks (pa_context_lens p ! seq) 16 = Some nb"
      and run: "foldM (score_warp p hdim 16 128 seq q0 kvh (pa_context_lens p ! seq) nb) (order (seq, head) 0)
          (smem_qk (shared_init g 128 dyn), smem_max (shared_init g 128 dyn)) = Some st"
      using ctx(1) by (auto simp: paged_attention_v1_kernel_def bind_eq_Some_conv)
    let ?ctx = "pa_context_lens p ! seq"
    have "nb = (?ctx + 15) div 16" using nb ctx(2) unfolding ceil_blocks_def
      by (auto simp: bind_eq_Some_conv chk_i32_def split: if_splits)
    then have "128 div 16 < nat nb" using ctx(2) by linarith
    moreover have "int 128 < ?ctx" using ctx(2) by simp
    ultimately have none: "score_warp p hdim 16 128 seq q0 kvh ?ctx nb 0 s = None" if "length (fst s) = 128" for s
      using score_warp_stuck [of 16 128 nb ?ctx 0 "fst s" p hdim seq q0 kvh "snd s"] that by simp
    have "0 \<in> set (order (seq, head) 0)" using warp_order_set [OF ord [rule_format, of "(seq, head)" 0]] by simp
    then have "foldM (score_warp p hdim 16 128 seq q0 kvh ?ctx nb) (order (seq, head) 0)
          (smem_qk (shared_init g 128 dyn), smem_max (shared_init g 128 dyn)) = None"
      by (rule foldM_stuck [where P = "\<lambda>s. length (fst s) = 128"])
         (use none score_warp_length in \<open>auto simp: shared_init_def\<close>)
    then show False using run by simp
  qed
  have "foldM (\<lambda>blk. paged_attention_v1_kernel hdim 16 128 (order blk) (shared_init (init blk) 128 (dynamic_floats p)) p blk) blocks out = None" for hdim out
    by (rule foldM_stuck [OF block, where P = "\<lambda>_. True"]) (simp_all add: stuck)
  then show ?thesis using dims by (auto simp: launch_paged_attention_v1_def)
qed

theorem paged_attention_v1_overflow_witness:
  "launch_paged_attention_v1 [(0, 0)] (\<lambda>_ _. [0, 1, 2, 3]) (\<lambda>_ _ _. 0) (v1_example\<lparr>pa_context_lens := [129]\<rparr>) = None"
proof (rule paged_attention_v1_overflow [of _ 0 0])
  show "\<forall>b k. warp_order 4 [0, 1, 2, 3]" by (simp add: warp_order_def upt_rec numeral_2_eq_2 numeral_3_eq_3)
qed (simp_all add: v1_example_def)

end
