(* ===== verification/Attention_V2.thy ===== *)
theory Attention_V2
  imports Attention_V1
begin

text \<open>
  The partitioned attention kernel and its reduction: what a partition computes, and that the
  reduction of the partitions is not softmax attention.
\<close>

section \<open>Partitions\<close>

text \<open>The positions of a partition, and the maximum, sum and weighted values over them.\<close>

definition part_set :: "paged_attention_params \<Rightarrow> nat \<Rightarrow> nat \<Rightarrow> nat \<Rightarrow> nat set" where
  "part_set p ps seq pt = {pt * ps..<min (pt * ps + ps) (ctx_of p seq)}"

definition part_max :: "paged_attention_params \<Rightarrow> nat \<Rightarrow> nat \<Rightarrow> nat \<Rightarrow> nat \<Rightarrow> nat \<Rightarrow> nat \<Rightarrow> real" where
  "part_max p hdim bs ps seq head pt = Max (insert (- flt_max) (score_of p hdim bs seq head ` part_set p ps seq pt))"

definition part_sum :: "paged_attention_params \<Rightarrow> nat \<Rightarrow> nat \<Rightarrow> nat \<Rightarrow> nat \<Rightarrow> nat \<Rightarrow> nat \<Rightarrow> real" where
  "part_sum p hdim bs ps seq head pt =
     (\<Sum>i \<in> part_set p ps seq pt. exp (score_of p hdim bs seq head i - part_max p hdim bs ps seq head pt))"

definition part_out :: "paged_attention_params \<Rightarrow> nat \<Rightarrow> nat \<Rightarrow> nat \<Rightarrow> nat \<Rightarrow> nat \<Rightarrow> nat \<Rightarrow> nat \<Rightarrow> real" where
  "part_out p hdim bs ps seq head pt d =
     (\<Sum>i \<in> part_set p ps seq pt. exp (score_of p hdim bs seq head i - part_max p hdim bs ps seq head pt) * value_of p hdim bs seq head i d)"

section \<open>The positions of a warp\<close>

lemma strided_shift: "0 < n \<Longrightarrow> strided (a + w) m n = map ((+) a) (strided w (m - a) n)"
proof (induction w "m - a" n rule: strided.induct)
  case (1 w n)
  show ?case
  proof (cases "w < m - a")
    case True
    have "strided (a + w + n) m n = map ((+) a) (strided (w + n) (m - a) n)" using 1 True by (simp add: add.assoc)
    then show ?thesis using True 1(2) by (simp add: strided.simps [of "a + w"] strided.simps [of w] less_diff_conv add.commute)
  next
    case False
    then show ?thesis by (simp add: strided.simps [of "a + w"] strided.simps [of w] less_diff_conv add.commute)
  qed
qed

definition part_positions :: "nat \<Rightarrow> nat \<Rightarrow> nat \<Rightarrow> nat \<Rightarrow> nat \<Rightarrow> nat list" where
  "part_positions bs start stop nw w =
     concat (map (\<lambda>b. map (\<lambda>off. b * bs + off) (part_offs bs (int start) (int stop) b)) (strided (start div bs + w) ((stop + bs - 1) div bs) nw))"

lemma part_offs_set: "set (part_offs bs (int start) (int stop) b) = {off. off < bs \<and> start \<le> b * bs + off \<and> b * bs + off < stop}"
proof -
  have "\<not> (int (b * bs + off) < int start \<or> int (b * bs + off) \<ge> int stop) \<longleftrightarrow> start \<le> b * bs + off \<and> b * bs + off < stop" for off
    unfolding of_nat_less_iff of_nat_le_iff by linarith
  then show ?thesis unfolding part_offs_def set_filter by auto
qed

definition part_share :: "nat \<Rightarrow> nat \<Rightarrow> nat \<Rightarrow> nat \<Rightarrow> nat \<Rightarrow> nat set" where
  "part_share bs start stop nw w = {i. start \<le> i \<and> i < stop \<and> (i div bs - start div bs) mod nw = w}"

lemma part_positions_spec:
  assumes "0 < bs" "w < nw"
  shows "set (part_positions bs start stop nw w) = part_share bs start stop nw w" "distinct (part_positions bs start stop nw w)"
proof -
  let ?sb = "start div bs" and ?nb = "(stop + bs - 1) div bs"
  have blocks: "set (strided (?sb + w) ?nb nw) = {b. ?sb \<le> b \<and> b < ?nb \<and> (b - ?sb) mod nw = w}" (is "?l = ?r")
  proof -
    have "?l = (+) ?sb ` {d. d < ?nb - ?sb \<and> d mod nw = w}"
      using assms(2) by (simp only: strided_shift set_map strided_set)
    also have "\<dots> = ?r"
    proof
      show "?r \<subseteq> (+) ?sb ` {d. d < ?nb - ?sb \<and> d mod nw = w}"
      proof
        fix b assume "b \<in> ?r"
        then show "b \<in> (+) ?sb ` {d. d < ?nb - ?sb \<and> d mod nw = w}" by (intro image_eqI [of _ _ "b - ?sb"]) auto
      qed
    qed auto
    finally show ?thesis .
  qed
  show "set (part_positions bs start stop nw w) = part_share bs start stop nw w" (is "?l = ?r")
  proof
    show "?l \<subseteq> ?r" using assms by (auto simp: part_positions_def part_share_def part_offs_set blocks simp del: One_nat_def)
    show "?r \<subseteq> ?l"
    proof
      fix i assume i: "i \<in> ?r"
      have "i mod bs \<in> set (part_offs bs (int start) (int stop) (i div bs))" using i assms(1) by (simp add: part_offs_set part_share_def)
      then have "i \<in> (\<lambda>off. i div bs * bs + off) ` set (part_offs bs (int start) (int stop) (i div bs))"
        by (intro image_eqI [of _ _ "i mod bs"]) simp_all
      moreover have "?sb \<le> i div bs" using i by (simp add: part_share_def div_le_mono)
      then have "i div bs \<in> set (strided (?sb + w) ?nb nw)" using i position_block [of i stop bs] assms(1) unfolding blocks by (simp add: part_share_def)
      ultimately show "i \<in> ?l" by (auto simp: part_positions_def)
    qed
  qed
  show "distinct (part_positions bs start stop nw w)"
    unfolding part_positions_def
    by (rule distinct_positions) (use assms in \<open>simp_all add: strided_distinct part_offs_set, simp add: part_offs_def\<close>)
qed

lemma part_share_sum:
  fixes g :: "nat \<Rightarrow> real"
  assumes "0 < nw"
  shows "(\<Sum>w < nw. \<Sum>i \<in> part_share bs start stop nw w. g i) = (\<Sum>i \<in> {start..<stop}. g i)"
proof -
  have "(\<Sum>w < nw. \<Sum>i \<in> {i \<in> {start..<stop}. (i div bs - start div bs) mod nw = w}. g i) = (\<Sum>i \<in> {start..<stop}. g i)"
    by (rule sum.group) (use assms in auto)
  then show ?thesis by (simp add: part_share_def conj_assoc)
qed

lemma part_loop:
  assumes ok: "attn_ok p hdim bs ns nh kv mb nb" and s: "seq < ns" and stop: "stop \<le> ctx_of p seq"
  shows "foldM (\<lambda>b st. do { phys \<leftarrow> table_entry p seq b; foldM (g phys) (part_offs bs (int start) (int stop) b) st })
      (strided (nat (int (start div bs)) + w) (nat (int ((stop + bs - 1) div bs))) nw) st =
    foldM (\<lambda>i. g (int (phys_of p seq (i div bs))) (i mod bs)) (part_positions bs start stop nw w) st"
proof -
  let ?nb = "(stop + bs - 1) div bs" and ?f = "\<lambda>i. g (int (phys_of p seq (i div bs))) (i mod bs)"
  have bs: "0 < bs" using attn_simps(6) [OF ok] .
  have "do { phys \<leftarrow> table_entry p seq b; foldM (g phys) (part_offs bs (int start) (int stop) b) st } =
      foldM ?f (map (\<lambda>off. b * bs + off) (part_offs bs (int start) (int stop) b)) st"
    if b: "b \<in> set (strided (start div bs + w) ?nb nw)" for b st
  proof -
    have "b * bs < ctx_of p seq" using block_start [OF b bs] stop by simp
    moreover have "foldM (g (int (phys_of p seq b))) (part_offs bs (int start) (int stop) b) st =
        foldM (\<lambda>off. ?f (b * bs + off)) (part_offs bs (int start) (int stop) b) st"
      by (rule foldM_cong) (simp add: part_offs_set)
    ultimately show ?thesis using attn_table_entry [OF ok s] by (simp add: foldM_map)
  qed
  then show ?thesis
    unfolding part_positions_def foldM_concat foldM_map nat_int by (intro foldM_cong) simp
qed

section \<open>The running softmax of a warp\<close>

text \<open>
  After the positions of \<open>D\<close> every lane holds their maximum, the sum of their exponentials relative
  to it, and the values weighted likewise.
\<close>

definition online_max :: "(nat \<Rightarrow> real) \<Rightarrow> nat set \<Rightarrow> real" where
  "online_max sc D = Max (insert (- flt_max) (sc ` D))"

lemma online_max_insert: "finite D \<Longrightarrow> online_max sc (insert i D) = max (online_max sc D) (sc i)"
  using max_insert [of "sc ` D" "- flt_max" "sc i"] by (simp add: online_max_def)

lemma online_shift:
  "(\<Sum>i \<in> D. exp (sc i - m) * g i) * exp (m - m') = (\<Sum>i \<in> D. exp (sc i - m') * g i)" for sc g :: "nat \<Rightarrow> real"
proof -
  have "exp (sc i - m) * g i * exp (m - m') = exp (sc i - m') * g i" for i
    using exp_add [of "sc i - m" "m - m'"] by simp
  then show ?thesis by (simp only: sum_distrib_right)
qed

lemma online_shift_sum: "(\<Sum>i \<in> D. exp (sc i - m)) * exp (m - m') = (\<Sum>i \<in> D. exp (sc i - m'))" for sc :: "nat \<Rightarrow> real"
  using online_shift [of sc m "\<lambda>_. 1" D m'] by simp

lemma lanes_corrected:
  assumes "length los = 32"
  shows "map2 (\<lambda>lane (lo, c, e). f c e lane lo) [0..<32] (zip los (zip (replicate 32 c) (replicate 32 e))) = map2 (f c e) [0..<32] los"
  using assms by (intro nth_equalityI) simp_all

lemma v2_token_run:
  assumes ok: "attn_ok p hdim bs ns nh kv mb nb" and s: "seq < ns" "head < nh" and i: "i < ctx_of p seq" and los: "local_shape hdim los"
  defines "x \<equiv> score_of p hdim bs seq head i"
  shows "\<exists>los'. v2_token p hdim bs (int (row_of p hdim seq head)) (int (kv_head_nat p head)) (int (phys_of p seq (i div bs))) (i mod bs)
        (replicate 32 m, replicate 32 t, los) =
      Some (replicate 32 (max m x), replicate 32 (t * exp (m - max m x) + exp (x - max m x)), los') \<and> local_shape hdim los' \<and>
    (\<forall>d < hdim. register los' d = register los d * exp (m - max m x) + exp (x - max m x) * value_of p hdim bs seq head i d)"
proof -
  let ?c = "exp (m - max m x)" and ?e = "exp (x - max m x)"
  have v: "cell_of p hdim bs seq head i 0 + d < length (pa_value_cache p)" if "d < hdim" for d
    using attn_cell(2,3) [OF ok s i] attn_simps(12) [OF ok] that by simp
  have l: "length los = 32" using los by (simp add: local_shape_def)
  obtain los' where r: "those (map2 (lane_accumulate (pa_value_cache p) hdim (int (cell_of p hdim bs seq head i 0)) ?c ?e) [0..<32] los) = Some los'"
      "local_shape hdim los'" "\<forall>d < hdim. register los' d = register los d * ?c + ?e * pa_value_cache p ! (cell_of p hdim bs seq head i 0 + d)"
    using lanes_accumulate [OF los, of "cell_of p hdim bs seq head i 0" "pa_value_cache p" ?c ?e] v by blast
  have "v2_token p hdim bs (int (row_of p hdim seq head)) (int (kv_head_nat p head)) (int (phys_of p seq (i div bs))) (i mod bs)
        (replicate 32 m, replicate 32 t, los) = Some (replicate 32 (max m x), replicate 32 (t * ?c + ?e), los')"
    unfolding v2_token_def prod.case attn_cell(1) [OF ok s i] bind.bind_lunit attn_warp_dot [OF ok s i] Let_def x_def [symmetric]
      zip_replicate map_replicate prod.case min.idem
    using lanes_corrected [OF l, of "\<lambda>c e lane. lane_accumulate (pa_value_cache p) hdim (int (cell_of p hdim bs seq head i 0)) c e lane" ?c ?e] r(1)
    by (simp add: zip_replicate)
  then show ?thesis using r(2,3) attn_cell(2) [OF ok s i] by (simp add: value_of_def)
qed

lemma v2_warp_run:
  fixes start :: nat
  assumes ok: "attn_ok p hdim bs ns nh kv mb nb" and s: "seq < ns" "head < nh" and w: "w < nt div 32" and stop: "stop \<le> ctx_of p seq"
  defines "sc \<equiv> score_of p hdim bs seq head" and "D \<equiv> part_share bs start stop (nt div 32) w"
  shows "\<exists>los. v2_warp p hdim bs nt seq (int (row_of p hdim seq head)) (int (kv_head_nat p head)) (int start) (int stop)
        (int (start div bs)) (int ((stop + bs - 1) div bs)) w =
      Some (replicate 32 (online_max sc D), replicate 32 (\<Sum>i \<in> D. exp (sc i - online_max sc D)), los) \<and> local_shape hdim los \<and>
    (\<forall>d < hdim. register los d = (\<Sum>i \<in> D. exp (sc i - online_max sc D) * value_of p hdim bs seq head i d))"
proof -
  let ?v = "\<lambda>i d. value_of p hdim bs seq head i d"
  let ?f = "\<lambda>i. v2_token p hdim bs (int (row_of p hdim seq head)) (int (kv_head_nat p head)) (int (phys_of p seq (i div bs))) (i mod bs)"
  let ?Q = "\<lambda>D (maxs, lsums, los). maxs = replicate 32 (online_max sc D) \<and> lsums = replicate 32 (\<Sum>i \<in> D. exp (sc i - online_max sc D)) \<and>
      local_shape hdim los \<and> (\<forall>d < hdim. register los d = (\<Sum>i \<in> D. exp (sc i - online_max sc D) * ?v i d))"
  let ?ps = "part_positions bs start stop (nt div 32) w"
  note ps = part_positions_spec [OF attn_simps(6) [OF ok] w, of start stop, folded D_def]
  have "\<exists>st. foldM ?f ?ps (replicate 32 (- flt_max), replicate 32 0, zero_local hdim) = Some st \<and> ?Q (set ?ps) st"
  proof (rule foldM_items [where Q = ?Q])
    fix i E st assume i: "i \<in> set ?ps" and E: "E \<subseteq> set ?ps" "i \<notin> E" and Q: "?Q E st"
    obtain los where st: "st = (replicate 32 (online_max sc E), replicate 32 (\<Sum>i \<in> E. exp (sc i - online_max sc E)), los)"
      and los: "local_shape hdim los" "\<forall>d < hdim. register los d = (\<Sum>i \<in> E. exp (sc i - online_max sc E) * ?v i d)"
      using Q by (cases st) auto
    have fin: "finite E" using E(1) finite_subset by blast
    have ic: "i < ctx_of p seq" using i ps(1) stop by (simp add: D_def part_share_def)
    let ?m = "online_max sc E" and ?m' = "online_max sc (insert i E)"
    have m': "max ?m (sc i) = ?m'" using online_max_insert [OF fin] by simp
    obtain los' where r: "?f i st = Some (replicate 32 ?m', replicate 32 ((\<Sum>i \<in> E. exp (sc i - ?m)) * exp (?m - ?m') + exp (sc i - ?m')), los')"
        "local_shape hdim los'" "\<forall>d < hdim. register los' d = register los d * exp (?m - ?m') + exp (sc i - ?m') * ?v i d"
      using v2_token_run [OF ok s ic los(1), of ?m "\<Sum>i \<in> E. exp (sc i - ?m)", folded sc_def, unfolded m', folded st]
      by (elim exE conjE) (rule that)
    have "(\<Sum>i \<in> E. exp (sc i - ?m)) * exp (?m - ?m') + exp (sc i - ?m') = (\<Sum>i \<in> insert i E. exp (sc i - ?m'))"
      unfolding online_shift_sum using fin E(2) by simp
    moreover have "register los' d = (\<Sum>i \<in> insert i E. exp (sc i - ?m') * ?v i d)" if "d < hdim" for d
      using r(3) los(2) that online_shift [of sc ?m "\<lambda>i. ?v i d" E ?m'] fin E(2) by simp
    ultimately show "\<exists>s'. ?f i st = Some s' \<and> ?Q (insert i E) s'" using r(1,2) by simp
  qed (use ps(2) zero_local in \<open>simp_all add: online_max_def\<close>)
  then obtain st where st: "foldM ?f ?ps (replicate 32 (- flt_max), replicate 32 0, zero_local hdim) = Some st" "?Q (set ?ps) st"
    by (elim exE conjE)
  obtain maxs lsums los where e: "st = (maxs, lsums, los)" by (cases st)
  show ?thesis
    using st unfolding v2_warp_def part_loop [OF ok s(1) stop] e ps(1) by auto
qed

section \<open>Combining the warps of a partition\<close>

lemma online_max_union:
  assumes "finite A" "finite B"
  shows "online_max sc (A \<union> B) = max (online_max sc A) (online_max sc B)"
proof -
  have "insert (- flt_max) (sc ` (A \<union> B)) = insert (- flt_max) (sc ` A) \<union> insert (- flt_max) (sc ` B)" by auto
  then show ?thesis unfolding online_max_def using Max_Un [of "insert (- flt_max) (sc ` A)" "insert (- flt_max) (sc ` B)"] assms by simp
qed

lemma v2_global_max_run:
  assumes "\<And>w. w < n \<Longrightarrow> fst (R w) = replicate 32 (online_max sc (S w))" "\<And>w. finite (S w)"
  shows "v2_global_max (map R [0..<n]) = online_max sc (\<Union>w < n. S w)"
  using assms(1)
proof (induction n)
  case (Suc n)
  have "warp_reduce_max (fst (R n)) ! 0 = online_max sc (S n)" using Suc.prems [of n] by (simp add: warp_reduce_max_all)
  then have "v2_global_max (map R [0..<Suc n]) = max (online_max sc (\<Union>w < n. S w)) (online_max sc (S n))"
    using Suc by (simp add: v2_global_max_def case_prod_beta)
  also have "\<dots> = online_max sc ((\<Union>w < n. S w) \<union> S n)" using online_max_union [of "\<Union>w < n. S w" "S n"] assms(2) by simp
  finally show ?case by (simp add: lessThan_Suc Un_commute)
qed (simp add: v2_global_max_def online_max_def)

lemma v2_correct_run:
  assumes los: "local_shape hdim los"
  shows "fst (v2_correct g (replicate 32 m, replicate 32 t, los)) = 32 * (t * exp (m - g))"
    and "local_shape hdim (snd (v2_correct g (replicate 32 m, replicate 32 t, los)))"
    and "d < hdim \<Longrightarrow> register (snd (v2_correct g (replicate 32 m, replicate 32 t, los))) d = register los d * exp (m - g)"
proof -
  let ?c = "exp (m - g)"
  have l: "length los = 32" "\<And>i. i < 32 \<Longrightarrow> length (los ! i) = hdim div 32 + 1" using los by (simp_all add: local_shape_def)
  have "map2 (\<lambda>lo c. map (\<lambda>x. x * c) lo) los (replicate 32 ?c) = map (map (\<lambda>x. x * ?c)) los"
    using l(1) by (intro nth_equalityI) simp_all
  then have e: "v2_correct g (replicate 32 m, replicate 32 t, los) = (32 * (t * ?c), map (map (\<lambda>x. x * ?c)) los)"
    by (simp add: v2_correct_def warp_reduce_max_all warp_reduce_sum_all map_replicate zip_replicate sum_list_replicate)
  show "fst (v2_correct g (replicate 32 m, replicate 32 t, los)) = 32 * (t * ?c)"
    "local_shape hdim (snd (v2_correct g (replicate 32 m, replicate 32 t, los)))"
    unfolding e using l by (simp_all add: local_shape_def)
  assume "d < hdim"
  then have "d div 32 < hdim div 32 + 1" by (simp add: less_Suc_eq_le div_le_mono)
  then show "register (snd (v2_correct g (replicate 32 m, replicate 32 t, los))) d = register los d * ?c"
    unfolding e using l by (simp add: register_def)
qed

text \<open>The additions of all warps to the row of the partition.\<close>

lemma warps_flush:
  assumes ord: "warp_order nw order" and len: "base + hdim \<le> length tmp"
    and res: "length results = nw" "\<forall>w < nw. local_shape hdim (snd (results ! w))"
  shows "\<exists>tmp'. foldM (\<lambda>w tmp. do { r \<leftarrow> vec_at results w; foldM (\<lambda>(lane, lo). lane_flush hdim lane (int base) lo) (enumerate 0 (snd r)) tmp }) order tmp =
      Some tmp' \<and> length tmp' = length tmp \<and>
    (\<forall>d < hdim. tmp' ! (base + d) = tmp ! (base + d) + (\<Sum>w < nw. register (snd (results ! w)) d)) \<and>
    (\<forall>j. j < base \<or> base + hdim \<le> j \<longrightarrow> tmp' ! j = tmp ! j)"
proof -
  let ?f = "\<lambda>w tmp. do { r \<leftarrow> vec_at results w; foldM (\<lambda>(lane, lo). lane_flush hdim lane (int base) lo) (enumerate 0 (snd r)) tmp }"
  let ?Q = "\<lambda>D tmp'. length tmp' = length tmp \<and> (\<forall>d < hdim. tmp' ! (base + d) = tmp ! (base + d) + (\<Sum>w \<in> D. register (snd (results ! w)) d)) \<and>
      (\<forall>j. j < base \<or> base + hdim \<le> j \<longrightarrow> tmp' ! j = tmp ! j)"
  note o = warp_order_set [OF ord]
  have "\<exists>tmp'. foldM ?f order tmp = Some tmp' \<and> ?Q (set order) tmp'"
  proof (rule foldM_items [where Q = ?Q])
    fix w D tmp1 assume w: "w \<in> set order" and D: "D \<subseteq> set order" "w \<notin> D" and Q: "?Q D tmp1"
    have wn: "w < nw" using w o by simp
    have l: "base + hdim \<le> length tmp1" using Q len by simp
    obtain tmp' where q: "foldM (\<lambda>(lane, lo). lane_flush hdim lane (int base) lo) (enumerate 0 (snd (results ! w))) tmp1 = Some tmp'"
        "length tmp' = length tmp1" "\<forall>d < hdim. tmp' ! (base + d) = tmp1 ! (base + d) + register (snd (results ! w)) d"
        "\<forall>j. j < base \<or> base + hdim \<le> j \<longrightarrow> tmp' ! j = tmp1 ! j"
      using lanes_flush [OF res(2) [rule_format, OF wn] l] by (elim exE conjE) (rule that)
    have "(\<Sum>w \<in> insert w D. register (snd (results ! w)) d) = register (snd (results ! w)) d + (\<Sum>w \<in> D. register (snd (results ! w)) d)" for d
      using D finite_subset [OF D(1)] by simp
    then show "\<exists>s'. ?f w tmp1 = Some s' \<and> ?Q (insert w D) s'"
      using q Q wn res(1) by (intro exI [of _ tmp']) simp
  qed (use o in simp_all)
  then show ?thesis using o by simp
qed

lemma part_share_union:
  assumes "0 < nw"
  shows "(\<Union>w < nw. part_share bs start stop nw w) = {start..<stop}"
proof
  show "(\<Union>w < nw. part_share bs start stop nw w) \<subseteq> {start..<stop}" by (auto simp: part_share_def)
  show "{start..<stop} \<subseteq> (\<Union>w < nw. part_share bs start stop nw w)"
  proof
    fix i assume "i \<in> {start..<stop}"
    then have "i \<in> part_share bs start stop nw ((i div bs - start div bs) mod nw)" by (simp add: part_share_def)
    moreover have "(i div bs - start div bs) mod nw \<in> {..<nw}" using assms by simp
    ultimately show "i \<in> (\<Union>w < nw. part_share bs start stop nw w)" by (rule UN_I [rotated])
  qed
qed

lemma part_share_finite: "finite (part_share bs start stop nw w)"
  by (rule finite_subset [of _ "{..<stop}"]) (auto simp: part_share_def)

text \<open>What the warps of a partition produce together.\<close>

lemma v2_warps:
  fixes start :: nat
  assumes ok: "attn_ok p hdim bs ns nh kv mb nb" and s: "seq < ns" "head < nh" and nt: "0 < nt div 32" and stop: "stop \<le> ctx_of p seq"
  defines "sc \<equiv> score_of p hdim bs seq head"
  defines "g \<equiv> online_max sc {start..<stop}"
  shows "\<exists>regs. those (map (v2_warp p hdim bs nt seq (int (row_of p hdim seq head)) (int (kv_head_nat p head)) (int start) (int stop)
        (int (start div bs)) (int ((stop + bs - 1) div bs))) [0..<nt div 32]) = Some regs \<and> length regs = nt div 32 \<and>
      v2_global_max regs = g \<and>
      sum_list (map (\<lambda>r. fst (v2_correct g r)) regs) = 32 * (\<Sum>i \<in> {start..<stop}. exp (sc i - g)) \<and>
      (\<forall>w < nt div 32. local_shape hdim (snd (v2_correct g (regs ! w)))) \<and>
      (\<forall>d < hdim. (\<Sum>w < nt div 32. register (snd (v2_correct g (regs ! w))) d) =
         (\<Sum>i \<in> {start..<stop}. exp (sc i - g) * value_of p hdim bs seq head i d))"
proof -
  let ?nw = "nt div 32" let ?S = "part_share bs start stop ?nw" and ?v = "value_of p hdim bs seq head"
  let ?f = "v2_warp p hdim bs nt seq (int (row_of p hdim seq head)) (int (kv_head_nat p head)) (int start) (int stop)
        (int (start div bs)) (int ((stop + bs - 1) div bs))"
  let ?t = "\<lambda>w. \<Sum>i \<in> ?S w. exp (sc i - online_max sc (?S w))"
  have "\<forall>w. \<exists>los. w < ?nw \<longrightarrow> ?f w = Some (replicate 32 (online_max sc (?S w)), replicate 32 (?t w), los) \<and> local_shape hdim los \<and>
      (\<forall>d < hdim. register los d = (\<Sum>i \<in> ?S w. exp (sc i - online_max sc (?S w)) * ?v i d))"
    using v2_warp_run [OF ok s _ stop, where start = start and nt = nt, folded sc_def] by blast
  then obtain L where L: "\<And>w. w < ?nw \<Longrightarrow> ?f w = Some (replicate 32 (online_max sc (?S w)), replicate 32 (?t w), L w)"
      "\<And>w. w < ?nw \<Longrightarrow> local_shape hdim (L w)"
      "\<And>w d. w < ?nw \<Longrightarrow> d < hdim \<Longrightarrow> register (L w) d = (\<Sum>i \<in> ?S w. exp (sc i - online_max sc (?S w)) * ?v i d)"
    unfolding choice_iff by blast
  let ?R = "\<lambda>w. (replicate 32 (online_max sc (?S w)), replicate 32 (?t w), L w)"
  let ?regs = "map ?R [0..<?nw]"
  note cr = v2_correct_run [OF L(2), where g = g]
  have "those (map ?f [0..<?nw]) = Some ?regs" by (rule those_map) (rule L(1), simp)
  moreover have "v2_global_max ?regs = g"
    using v2_global_max_run [of ?nw ?R sc ?S] part_share_finite part_share_union [OF nt] by (simp add: g_def)
  moreover have "sum_list (map (\<lambda>r. fst (v2_correct g r)) ?regs) = 32 * (\<Sum>i \<in> {start..<stop}. exp (sc i - g))"
  proof -
    have "sum_list (map (\<lambda>r. fst (v2_correct g r)) ?regs) = (\<Sum>w < ?nw. fst (v2_correct g (?R w)))"
      unfolding map_map sum_list_distinct_conv_sum_set [OF distinct_upt] by (simp add: atLeast0LessThan)
    also have "\<dots> = (\<Sum>w < ?nw. 32 * (\<Sum>i \<in> ?S w. exp (sc i - g)))"
      by (rule sum.cong) (use cr(1) online_shift_sum in simp_all)
    finally show ?thesis using part_share_sum [OF nt, of "\<lambda>i. exp (sc i - g)" bs start stop] by (simp flip: sum_distrib_left)
  qed
  moreover have "(\<Sum>w < ?nw. register (snd (v2_correct g (?regs ! w))) d) = (\<Sum>i \<in> {start..<stop}. exp (sc i - g) * ?v i d)" if "d < hdim" for d
  proof -
    have "(\<Sum>w < ?nw. register (snd (v2_correct g (?regs ! w))) d) = (\<Sum>w < ?nw. \<Sum>i \<in> ?S w. exp (sc i - g) * ?v i d)"
      by (rule sum.cong) (use cr(3) L(3) that online_shift in simp_all)
    then show ?thesis using part_share_sum [OF nt, of "\<lambda>i. exp (sc i - g) * ?v i d" bs start stop] by simp
  qed
  ultimately show ?thesis using cr(2) by (intro exI [of _ ?regs]) simp
qed

section \<open>A partition\<close>

text \<open>The arrays of the partitions hold one element, and one row of \<open>tmp_output\<close>, per sequence, head and partition.\<close>

definition part_index :: "paged_attention_params \<Rightarrow> nat \<Rightarrow> nat \<Rightarrow> nat \<Rightarrow> nat \<Rightarrow> nat" where
  "part_index p np seq head pt = token_elem (nat (pa_num_heads p)) np seq head pt"

definition parts_ok :: "paged_attention_params \<Rightarrow> nat \<Rightarrow> nat \<Rightarrow> nat \<Rightarrow> nat \<Rightarrow> nat \<Rightarrow> bool" where
  "parts_ok p hdim ps ns nh np \<longleftrightarrow> 0 < np \<and> np * ps < 2 ^ 31 \<and> ns * nh * np * hdim < 2 ^ 31 \<and> (\<forall>s < ns. ctx_of p s + ps < 2 ^ 31 \<and> ctx_of p s \<le> np * ps)"

definition arrays_shape :: "nat \<Rightarrow> nat \<Rightarrow> v2_arrays \<Rightarrow> bool" where
  "arrays_shape n hdim = (\<lambda>(es, ml, tmp). length es = n \<and> length ml = n \<and> length tmp = n * hdim)"

lemma attn_flat:
  assumes ok: "attn_ok p hdim bs ns nh kv mb nb" and parts: "parts_ok p hdim ps ns nh np" and s: "seq < ns" "head < nh" "pt < np"
  shows "flat_index p (int np) seq head pt = Some (int (part_index p np seq head pt))"
    and "part_index p np seq head pt < ns * nh * np"
    and "chk_i32 (int (part_index p np seq head pt) * int hdim) = Some (int (part_index p np seq head pt * hdim))"
    and "part_index p np seq head pt * hdim + hdim \<le> ns * nh * np * hdim"
proof -
  note a = attn_simps [OF ok]
  have pi: "part_index p np seq head pt = token_elem nh np seq head pt" by (simp add: part_index_def a)
  show b: "part_index p np seq head pt < ns * nh * np"
    unfolding pi using token_elem_less [OF s] by (simp add: mult.assoc)
  then have "part_index p np seq head pt + 1 \<le> ns * nh * np" by simp
  then have "(part_index p np seq head pt + 1) * hdim \<le> ns * nh * np * hdim" by (rule mult_le_mono1)
  then show c: "part_index p np seq head pt * hdim + hdim \<le> ns * nh * np * hdim" by (simp add: add_mult_distrib)
  have lt: "ns * nh * np * hdim < 2 ^ 31" "0 < np" using parts by (simp_all add: parts_ok_def)
  have "part_index p np seq head pt * hdim < 2 ^ 31" using c lt(1) by linarith
  from chk_i32_nat [OF this] show "chk_i32 (int (part_index p np seq head pt) * int hdim) = Some (int (part_index p np seq head pt * hdim))"
    by simp
  have "part_index p np seq head pt * 1 \<le> part_index p np seq head pt * hdim" using a(7) by (intro mult_le_mono2) simp
  then have "part_index p np seq head pt < 2 ^ 31" using c lt(1) by linarith
  then have t: "token_elem nh np seq head pt < 2 ^ 31" by (simp add: pi)
  show "flat_index p (int np) seq head pt = Some (int (part_index p np seq head pt))"
    unfolding flat_index_def a pi by (simp only: token_offset_nat [OF t lt(2)] bind.bind_lunit)
qed

lemma v2_block:
  assumes ok: "attn_ok p hdim bs ns nh kv mb nb" and parts: "parts_ok p hdim ps ns nh np" and s: "seq < ns" "head < nh" "pt < np"
    and nt: "0 < nt div 32" and ord: "warp_order (nt div 32) order" and part: "pt * ps < ctx_of p seq"
    and shape: "arrays_shape (ns * nh * np) hdim (es, ml, tmp)"
  defines "f \<equiv> part_index p np seq head pt"
  shows "\<exists>tmp'. paged_attention_v2_kernel hdim bs nt ps order p (int np) (seq, head, pt) (es, ml, tmp) =
      Some (es[f := 32 * part_sum p hdim bs ps seq head pt], ml[f := part_max p hdim bs ps seq head pt], tmp') \<and> length tmp' = length tmp \<and>
    (\<forall>d < hdim. tmp' ! (f * hdim + d) = tmp ! (f * hdim + d) + part_out p hdim bs ps seq head pt d) \<and>
    (\<forall>j. j < f * hdim \<or> f * hdim + hdim \<le> j \<longrightarrow> tmp' ! j = tmp ! j)"
proof -
  let ?ctx = "ctx_of p seq" let ?start = "pt * ps" let ?stop = "min (pt * ps + ps) ?ctx"
  let ?sc = "score_of p hdim bs seq head" and ?g = "part_max p hdim bs ps seq head pt"
  note a = attn_simps [OF ok] and c = attn_ctx [OF ok s(1)] and fl = attn_flat [OF ok parts s, folded f_def]
  have ctx: "?ctx + ps < 2 ^ 31" using parts s(1) by (simp add: parts_ok_def)
  have lens: "arr_get (pa_context_lens p) (int seq) = Some (int ?ctx)" using a(14) s(1) c(1) by simp
  have st: "chk_i32 (int pt * int ps) = Some (int ?start)" using chk_i32_nat [of ?start] part ctx by simp
  have en: "chk_i32 (int ?start + int ps) = Some (int (?start + ps))" using chk_i32_nat [of "?start + ps"] part ctx by simp
  have "?start < 2 ^ 31" using part ctx by simp
  note sb = slot_split(1) [OF this a(6)]
  have "?stop + bs < 2 ^ 31" using c(3) by simp
  note eb = attn_ceil_blocks [OF a(6) this]
  have g: "online_max ?sc {?start..<?stop} = ?g" by (simp add: online_max_def part_max_def part_set_def)
  obtain regs where r: "those (map (v2_warp p hdim bs nt seq (int (row_of p hdim seq head)) (int (kv_head_nat p head)) (int ?start) (int ?stop)
        (int (?start div bs)) (int ((?stop + bs - 1) div bs))) [0..<nt div 32]) = Some regs" "length regs = nt div 32"
      "v2_global_max regs = ?g" "sum_list (map (\<lambda>r. fst (v2_correct ?g r)) regs) = 32 * (\<Sum>i \<in> {?start..<?stop}. exp (?sc i - ?g))"
      "\<forall>w < nt div 32. local_shape hdim (snd (v2_correct ?g (regs ! w)))"
      "\<forall>d < hdim. (\<Sum>w < nt div 32. register (snd (v2_correct ?g (regs ! w))) d) =
         (\<Sum>i \<in> {?start..<?stop}. exp (?sc i - ?g) * value_of p hdim bs seq head i d)"
    using v2_warps [where start = ?start and stop = ?stop, OF ok s(1,2) nt min.cobounded2, unfolded g] by (elim exE conjE) (rule that)
  let ?res = "map (v2_correct ?g) regs"
  have res: "length ?res = nt div 32" "\<forall>w < nt div 32. local_shape hdim (snd (?res ! w))" using r(2,5) by simp_all
  have sum: "sum_list (map fst ?res) = 32 * part_sum p hdim bs ps seq head pt"
    using r(4) by (simp add: part_sum_def part_set_def comp_def)
  have len: "f * hdim + hdim \<le> length tmp" using fl(4) shape by (simp add: arrays_shape_def)
  obtain tmp' where t: "foldM (\<lambda>w tmp. do { r \<leftarrow> vec_at ?res w; foldM (\<lambda>(lane, lo). lane_flush hdim lane (int (f * hdim)) lo) (enumerate 0 (snd r)) tmp }) order tmp = Some tmp'"
      "length tmp' = length tmp" "\<forall>d < hdim. tmp' ! (f * hdim + d) = tmp ! (f * hdim + d) + (\<Sum>w < nt div 32. register (snd (?res ! w)) d)"
      "\<forall>j. j < f * hdim \<or> f * hdim + hdim \<le> j \<longrightarrow> tmp' ! j = tmp ! j"
    using warps_flush [OF ord len res] by (elim exE conjE) (rule that)
  have out: "tmp' ! (f * hdim + d) = tmp ! (f * hdim + d) + part_out p hdim bs ps seq head pt d" if "d < hdim" for d
    using t(3) r(2,6) that by (simp add: part_out_def part_set_def)
  have sets: "arr_set ml (int f) ?g = Some (ml[f := ?g])" "arr_set es (int f) x = Some (es[f := x])" for x
    using fl(2) shape by (simp_all add: arrays_shape_def)
  have "\<not> int ?ctx \<le> int ?start" using part by (simp only: of_nat_le_iff not_le)
  then have "paged_attention_v2_kernel hdim bs nt ps order p (int np) (seq, head, pt) (es, ml, tmp) =
      Some (es[f := 32 * part_sum p hdim bs ps seq head pt], ml[f := ?g], tmp')"
    unfolding paged_attention_v2_kernel_def prod.case attn_kv_head(1) [OF ok s(2)] lens bind.bind_lunit st en Let_def of_nat_min [symmetric]
      attn_query_row(1) [OF ok s(1,2)] sb eb r(1,3) fl(1,3) sets sum t(1) by (simp only: if_False)
  then show ?thesis using t(2,4) out by (intro exI [of _ tmp']) simp
qed

section \<open>All partitions\<close>

lemma part_index_eq:
  assumes "attn_ok p hdim bs ns nh kv mb nb" "h < nh" "h' < nh" "pt < np" "pt' < np"
  shows "part_index p np s h pt = part_index p np s' h' pt' \<longleftrightarrow> s = s' \<and> h = h' \<and> pt = pt'"
  unfolding part_index_def token_elem_def attn_simps(1) [OF assms(1)] nat_int
  using nest_eq [OF assms(4,5), of "s * nh + h" "s' * nh + h'"] nest_eq [OF assms(2,3), of s s'] by blast

lemma rows_apart:
  fixes f f' hdim d :: nat
  assumes "f \<noteq> f'" "d < hdim"
  shows "f * hdim + d < f' * hdim \<or> f' * hdim + hdim \<le> f * hdim + d"
proof -
  have "f + 1 \<le> f' \<or> f' + 1 \<le> f" using assms(1) by linarith
  then have "(f + 1) * hdim \<le> f' * hdim \<or> (f' + 1) * hdim \<le> f * hdim" using mult_le_mono1 by blast
  then show ?thesis using assms(2) by (auto simp: add_mult_distrib)
qed

definition part_done :: "paged_attention_params \<Rightarrow> nat \<Rightarrow> nat \<Rightarrow> nat \<Rightarrow> nat \<Rightarrow> v2_arrays \<Rightarrow> nat \<times> nat \<times> nat \<Rightarrow> bool" where
  "part_done p hdim bs ps np = (\<lambda>(es, ml, tmp) (s, h, pt). let f = part_index p np s h pt in
     es ! f = 32 * part_sum p hdim bs ps s h pt \<and> ml ! f = part_max p hdim bs ps s h pt \<and>
     (\<forall>d < hdim. tmp ! (f * hdim + d) = part_out p hdim bs ps s h pt d))"

definition row_clear :: "paged_attention_params \<Rightarrow> nat \<Rightarrow> nat \<Rightarrow> v2_arrays \<Rightarrow> nat \<times> nat \<times> nat \<Rightarrow> bool" where
  "row_clear p hdim np = (\<lambda>(es, ml, tmp) (s, h, pt). \<forall>d < hdim. tmp ! (part_index p np s h pt * hdim + d) = 0)"

lemma v2_parts_run:
  assumes ok: "attn_ok p hdim bs ns nh kv mb nb" and parts: "parts_ok p hdim ps ns nh np" and nt: "0 < nt div 32"
    and ord: "\<forall>b. warp_order (nt div 32) (order b)" and blocks: "mset blocks = mset (grid3 ns nh np)"
    and shape: "arrays_shape (ns * nh * np) hdim st" and clear: "\<forall>b \<in> set blocks. row_clear p hdim np st b"
  shows "\<exists>st'. foldM (\<lambda>blk. paged_attention_v2_kernel hdim bs nt ps (order blk) p (int np) blk) blocks st = Some st' \<and>
    arrays_shape (ns * nh * np) hdim st' \<and>
    (\<forall>s < ns. \<forall>h < nh. \<forall>pt < np. pt * ps < ctx_of p s \<longrightarrow> part_done p hdim bs ps np st' (s, h, pt))"
proof -
  let ?f = "\<lambda>blk. paged_attention_v2_kernel hdim bs nt ps (order blk) p (int np) blk"
  let ?live = "\<lambda>(s, h, pt). pt * ps < ctx_of p s"
  let ?Q = "\<lambda>D st. arrays_shape (ns * nh * np) hdim st \<and> (\<forall>b \<in> D. ?live b \<longrightarrow> part_done p hdim bs ps np st b) \<and>
      (\<forall>b \<in> set blocks. b \<notin> D \<longrightarrow> row_clear p hdim np st b)"
  have set: "(s, h, pt) \<in> set blocks \<longleftrightarrow> s < ns \<and> h < nh \<and> pt < np" "distinct blocks" for s h pt
    using mset_eq_setD [OF blocks] mset_eq_imp_distinct_iff [OF blocks] by simp_all
  have "\<exists>st'. foldM ?f blocks st = Some st' \<and> ?Q (set blocks) st'"
  proof (rule foldM_items [where Q = ?Q])
    fix b D st assume b: "b \<in> set blocks" and D: "D \<subseteq> set blocks" "b \<notin> D" and Q: "?Q D st"
    obtain s h pt where e: "b = (s, h, pt)" by (cases b)
    obtain es ml tmp where st: "st = (es, ml, tmp)" by (cases st)
    have lt: "s < ns" "h < nh" "pt < np" using b e set(1) by simp_all
    show "\<exists>s'. ?f b st = Some s' \<and> ?Q (insert b D) s'"
    proof (cases "pt * ps < ctx_of p s")
      case True
      let ?i = "part_index p np s h pt"
      obtain tmp' where r: "?f b st = Some (es[?i := 32 * part_sum p hdim bs ps s h pt], ml[?i := part_max p hdim bs ps s h pt], tmp')"
          "length tmp' = length tmp" "\<forall>d < hdim. tmp' ! (?i * hdim + d) = tmp ! (?i * hdim + d) + part_out p hdim bs ps s h pt d"
          "\<forall>j. j < ?i * hdim \<or> ?i * hdim + hdim \<le> j \<longrightarrow> tmp' ! j = tmp ! j"
        using v2_block [OF ok parts lt nt ord [rule_format, of b] True conjunct1 [OF Q, unfolded st], folded e, folded st]
        by (elim exE conjE) (rule that)
      let ?st' = "(es[?i := 32 * part_sum p hdim bs ps s h pt], ml[?i := part_max p hdim bs ps s h pt], tmp')"
      have shape: "length es = ns * nh * np" "length ml = ns * nh * np" "length tmp = ns * nh * np * hdim"
        using Q st by (simp_all add: arrays_shape_def)
      have ib: "?i < ns * nh * np" using attn_flat(2) [OF ok parts lt] .
      have other: "part_index p np s' h' pt' \<noteq> ?i" if "(s', h', pt') \<in> set blocks" "(s', h', pt') \<noteq> b" for s' h' pt'
        using part_index_eq [OF ok, of h' h pt' np pt s' s] that set(1) lt e by auto
      have keep: "part_done p hdim bs ps np ?st' b' = part_done p hdim bs ps np st b'"
          "row_clear p hdim np ?st' b' = row_clear p hdim np st b'" if b': "b' \<in> set blocks" "b' \<noteq> b" for b'
      proof -
        obtain s' h' pt' where e': "b' = (s', h', pt')" by (cases b')
        have ne: "part_index p np s' h' pt' \<noteq> ?i" using other b' e' by simp
        have "tmp' ! (part_index p np s' h' pt' * hdim + d) = tmp ! (part_index p np s' h' pt' * hdim + d)" if "d < hdim" for d
          using r(4) rows_apart [OF ne that] by blast
        then show "part_done p hdim bs ps np ?st' b' = part_done p hdim bs ps np st b'"
            "row_clear p hdim np ?st' b' = row_clear p hdim np st b'"
          using ne by (simp_all add: e' st part_done_def row_clear_def Let_def)
      qed
      have "row_clear p hdim np st b" using Q b D(2) by blast
      then have "part_done p hdim bs ps np ?st' b"
        using r(3) ib shape by (simp add: e st part_done_def row_clear_def Let_def)
      moreover have "arrays_shape (ns * nh * np) hdim ?st'" using shape r(2) by (simp add: arrays_shape_def)
      moreover have "part_done p hdim bs ps np ?st' b'" if "b' \<in> D" "?live b'" for b'
        using keep(1) [of b'] Q that D by blast
      moreover have "row_clear p hdim np ?st' b'" if "b' \<in> set blocks" "b' \<notin> insert b D" for b'
        using keep(2) [of b'] Q that by blast
      ultimately have "?Q (insert b D) ?st'" by (auto simp del: split_paired_All)
      then show ?thesis using r(1) by blast
    next
      case False
      have ge: "int (ctx_of p s) \<le> int (pt * ps)" using False by (simp only: of_nat_le_iff not_less)
      have lens: "arr_get (pa_context_lens p) (int s) = Some (int (ctx_of p s))"
        using attn_simps(14) [OF ok] lt(1) attn_ctx(1) [OF ok lt(1)] by simp
      have "pt * ps \<le> np * ps" using lt(3) by (intro mult_le_mono1) simp
      moreover have "np * ps < 2 ^ 31" using parts by (simp add: parts_ok_def)
      ultimately have "pt * ps < 2 ^ 31" by linarith
      then have chk: "chk_i32 (int pt * int ps) = Some (int (pt * ps))" using chk_i32_nat [of "pt * ps"] by simp
      have "?f b st = Some st"
        unfolding paged_attention_v2_kernel_def e st prod.case attn_kv_head(1) [OF ok lt(2)] lens chk bind.bind_lunit
        using ge by (simp only: if_True)
      then show ?thesis using Q False e by auto
    qed
  qed (use set shape clear in simp_all)
  then show ?thesis using set(1) by force
qed

section \<open>The reduction\<close>

definition num_parts :: "paged_attention_params \<Rightarrow> nat \<Rightarrow> nat" where
  "num_parts p seq = (ctx_of p seq + 511) div 512"

definition part_weight :: "paged_attention_params \<Rightarrow> nat \<Rightarrow> nat \<Rightarrow> nat \<Rightarrow> nat \<Rightarrow> nat \<Rightarrow> real" where
  "part_weight p hdim bs seq head pt =
     32 * part_sum p hdim bs 512 seq head pt *
     exp (part_max p hdim bs 512 seq head pt - Max (insert (- flt_max) (part_max p hdim bs 512 seq head ` {..<num_parts p seq})))"

definition v2_value :: "paged_attention_params \<Rightarrow> nat \<Rightarrow> nat \<Rightarrow> nat \<Rightarrow> nat \<Rightarrow> nat \<Rightarrow> real" where
  "v2_value p hdim bs seq head d =
     (\<Sum>pt < num_parts p seq. part_weight p hdim bs seq head pt * part_out p hdim bs 512 seq head pt d) /
     ((\<Sum>pt < num_parts p seq. part_weight p hdim bs seq head pt) + 1 / 10 ^ 8)"

lemma num_parts_live: "pt < num_parts p seq \<longleftrightarrow> pt * 512 < ctx_of p seq"
  by (auto simp: num_parts_def)

lemma v2_reduce_thread:
  assumes ok: "attn_ok p hdim bs ns nh kv mb nb" and parts: "parts_ok p hdim 512 ns nh np" and s: "s < ns" "h < nh" "d < hdim"
    and shape: "arrays_shape (ns * nh * np) hdim st"
    and rows: "\<forall>pt < np. pt * 512 < ctx_of p s \<longrightarrow> part_done p hdim bs 512 np st (s, h, pt)" and len: "length out = ns * nh * hdim"
  shows "paged_attention_v2_reduce_kernel hdim p (int np) st (s, h, d) out = Some (out[row_of p hdim s h + d := v2_value p hdim bs s h d])"
proof -
  let ?n = "num_parts p s" let ?pm = "part_max p hdim bs 512 s h" let ?G = "Max (insert (- flt_max) (?pm ` {..<?n}))"
  let ?W = "part_weight p hdim bs s h" and ?T = "\<lambda>pt. part_out p hdim bs 512 s h pt d"
  obtain es ml tmp where st: "st = (es, ml, tmp)" by (cases st)
  have np: "0 < np" "ctx_of p s \<le> np * 512" "ctx_of p s + 512 < 2 ^ 31" using parts s(1) by (simp_all add: parts_ok_def)
  let ?i = "\<lambda>pt. part_index p np s h pt"
  have lt: "pt < np" "part_done p hdim bs 512 np st (s, h, pt)" if "pt < ?n" for pt
  proof -
    have "pt * 512 < ctx_of p s" using that num_parts_live by blast
    then show "pt < np" using np(2) by simp
    then show "part_done p hdim bs 512 np st (s, h, pt)" using rows \<open>pt * 512 < ctx_of p s\<close> by blast
  qed
  have idx: "int (?i 0) + int pt = int (?i pt)" for pt by (simp add: part_index_def token_elem_def)
  have shp: "length es = ns * nh * np" "length ml = ns * nh * np" "length tmp = ns * nh * np * hdim"
    using shape st by (simp_all add: arrays_shape_def)
  have at: "vec_at ml (?i pt) = Some (?pm pt)" "vec_at es (?i pt) = Some (32 * part_sum p hdim bs 512 s h pt)"
      "arr_get tmp (int (?i pt * hdim) + int d) = Some (?T pt)" "chk_i32 (int (?i pt) * int hdim) = Some (int (?i pt * hdim))" if "pt < ?n" for pt
  proof -
    note fl = attn_flat [OF ok parts s(1,2) lt(1) [OF that]]
    show "chk_i32 (int (?i pt) * int hdim) = Some (int (?i pt * hdim))" by (rule fl(3))
    show "vec_at ml (?i pt) = Some (?pm pt)" "vec_at es (?i pt) = Some (32 * part_sum p hdim bs 512 s h pt)"
        "arr_get tmp (int (?i pt * hdim) + int d) = Some (?T pt)"
      unfolding of_nat_add [symmetric] arr_get_nat using lt(2) [OF that] fl(2,4) shp s(3) by (simp_all add: st part_done_def Let_def)
  qed
  have lens: "arr_get (pa_context_lens p) (int s) = Some (int (ctx_of p s))"
    using attn_simps(14) [OF ok] s(1) attn_ctx(1) [OF ok s(1)] by simp
  have c511: "chk_i32 (int (ctx_of p s) + 511) = Some (int (ctx_of p s + 511))" using chk_i32_nat [of "ctx_of p s + 511"] np(3) by simp
  have dv: "div_i32 (int (ctx_of p s + 511)) 512 = Some (int ?n)"
    using slot_split(1) [of "ctx_of p s + 511" 512] np(3) by (simp add: num_parts_def)
  have g: "foldM (\<lambda>pt g. do { m \<leftarrow> arr_get ml (int (?i 0) + int pt); Some (max g m) }) [0..<?n] (- flt_max) = Some ?G"
  proof -
    have "\<exists>g. foldM (\<lambda>pt g. do { m \<leftarrow> arr_get ml (int (?i 0) + int pt); Some (max g m) }) [0..<?n] (- flt_max) = Some g \<and>
        g = Max (insert (- flt_max) (?pm ` set [0..<?n]))"
    proof (rule foldM_items [where Q = "\<lambda>D g. g = Max (insert (- flt_max) (?pm ` D))"])
      fix pt D g assume "pt \<in> set [0..<?n]" "D \<subseteq> set [0..<?n]" "g = Max (insert (- flt_max) (?pm ` D))"
      then show "\<exists>s'. do { m \<leftarrow> arr_get ml (int (?i 0) + int pt); Some (max g m) } = Some s' \<and> s' = Max (insert (- flt_max) (?pm ` insert pt D))"
        unfolding idx arr_get_nat using at(1) max_insert [of "?pm ` D" "- flt_max" "?pm pt"] finite_subset [of D "set [0..<?n]"] by simp
    qed simp_all
    then show ?thesis by (simp only: set_upt atLeast0LessThan) blast
  qed
  let ?f = "\<lambda>pt (acc, total). do {
             m \<leftarrow> arr_get ml (int (?i 0) + int pt);
             s \<leftarrow> arr_get es (int (?i 0) + int pt);
             let weight = s * exp (m - ?G);
             t0 \<leftarrow> chk_i32 ((int (?i 0) + int pt) * int hdim);
             x \<leftarrow> arr_get tmp (t0 + int d);
             Some (acc + weight * x, total + weight) }"
  have acc: "foldM ?f [0..<?n] (0, 0) = Some (\<Sum>pt < ?n. ?W pt * ?T pt, \<Sum>pt < ?n. ?W pt)"
  proof -
    have "\<exists>st. foldM ?f [0..<?n] (0, 0) = Some st \<and> st = (\<Sum>pt \<in> set [0..<?n]. ?W pt * ?T pt, \<Sum>pt \<in> set [0..<?n]. ?W pt)"
    proof (rule foldM_items [where Q = "\<lambda>D st. st = (\<Sum>pt \<in> D. ?W pt * ?T pt, \<Sum>pt \<in> D. ?W pt)"])
      fix pt D st assume a: "pt \<in> set [0..<?n]" "D \<subseteq> set [0..<?n]" "pt \<notin> D" "st = (\<Sum>pt \<in> D. ?W pt * ?T pt, \<Sum>pt \<in> D. ?W pt)"
      have ptn: "pt < ?n" using a(1) by simp
      have "?f pt st = Some ((\<Sum>pt \<in> D. ?W pt * ?T pt) + ?W pt * ?T pt, (\<Sum>pt \<in> D. ?W pt) + ?W pt)"
        unfolding idx arr_get_nat a(4) prod.case at(1,2,4) [OF ptn] bind.bind_lunit Let_def at(3) [OF ptn] part_weight_def ..
      then show "\<exists>s'. ?f pt st = Some s' \<and> s' = (\<Sum>pt \<in> insert pt D. ?W pt * ?T pt, \<Sum>pt \<in> insert pt D. ?W pt)"
        using a(3) finite_subset [OF a(2)] by (simp add: add.commute)
    qed simp_all
    then show ?thesis by (simp only: set_upt atLeast0LessThan) blast
  qed
  have "row_of p hdim s h + d < length out" using attn_query_row(2) [OF ok s] len by simp
  then have w: "arr_set out (int (row_of p hdim s h) + int d) x = Some (out[row_of p hdim s h + d := x])" for x
    unfolding of_nat_add [symmetric] arr_set_nat by simp
  have "\<not> hdim \<le> d" using s(3) by simp
  then show ?thesis
    unfolding paged_attention_v2_reduce_kernel_def st prod.case attn_flat(1) [OF ok parts s(1,2) np(1)] lens bind.bind_lunit c511 dv nat_int g acc
      attn_query_row(1) [OF ok s(1,2)] w v2_value_def by (simp only: if_False)
qed

lemma v2_reduce_run:
  assumes ok: "attn_ok p hdim bs ns nh kv mb nb" and parts: "parts_ok p hdim 512 ns nh np" and threads: "mset threads = mset (grid3 ns nh hdim)"
    and shape: "arrays_shape (ns * nh * np) hdim st"
    and rows: "\<forall>s < ns. \<forall>h < nh. \<forall>pt < np. pt * 512 < ctx_of p s \<longrightarrow> part_done p hdim bs 512 np st (s, h, pt)"
  shows "\<exists>out. foldM (paged_attention_v2_reduce_kernel hdim p (int np) st) threads (pa_output p) = Some out \<and>
    (\<forall>s < ns. \<forall>h < nh. \<forall>d < hdim. out ! (row_of p hdim s h + d) = v2_value p hdim bs s h d)"
proof -
  let ?f = "paged_attention_v2_reduce_kernel hdim p (int np) st"
  let ?Q = "\<lambda>D out. length out = ns * nh * hdim \<and> (\<forall>(s, h, d) \<in> D. out ! (row_of p hdim s h + d) = v2_value p hdim bs s h d)"
  have set: "(s, h, d) \<in> set threads \<longleftrightarrow> s < ns \<and> h < nh \<and> d < hdim" "distinct threads" for s h d
    using mset_eq_setD [OF threads] mset_eq_imp_distinct_iff [OF threads] by simp_all
  have row: "row_of p hdim s h + d = token_elem nh hdim s h d" for s h d by (simp add: row_of_def token_elem_def attn_simps [OF ok])
  have "\<exists>out. foldM ?f threads (pa_output p) = Some out \<and> ?Q (set threads) out"
  proof (rule foldM_items [where Q = ?Q])
    fix t D out assume t: "t \<in> set threads" and D: "D \<subseteq> set threads" "t \<notin> D" and Q: "?Q D out"
    obtain s h d where e: "t = (s, h, d)" by (cases t)
    have lt: "s < ns" "h < nh" "d < hdim" using t e set(1) by simp_all
    have r: "?f t out = Some (out[row_of p hdim s h + d := v2_value p hdim bs s h d])"
      using v2_reduce_thread [OF ok parts lt shape _ conjunct1 [OF Q]] rows lt e by simp
    have ne: "row_of p hdim s' h' + d' \<noteq> row_of p hdim s h + d" if "(s', h', d') \<in> D" for s' h' d'
    proof -
      have "s' < ns \<and> h' < nh \<and> d' < hdim" "(s', h', d') \<noteq> (s, h, d)" using that D e set(1) by blast+
      then show ?thesis
        unfolding row token_elem_def using nest_eq [of d' hdim d "s' * nh + h'" "s * nh + h"] nest_eq [of h' nh h s' s] lt by blast
    qed
    have "row_of p hdim s h + d < length out" using attn_query_row(2) [OF ok lt] Q by simp
    moreover have "out[row_of p hdim s h + d := x] ! (row_of p hdim s' h' + d') = v2_value p hdim bs s' h' d'" if "(s', h', d') \<in> D" for s' h' d' x
      using ne [OF that] Q that by auto
    ultimately have "?Q (insert t D) (out[row_of p hdim s h + d := v2_value p hdim bs s h d])" using Q e by auto
    then show "\<exists>s'. ?f t out = Some s' \<and> ?Q (insert t D) s'" using r by blast
  qed (use set attn_simps [OF ok] in simp_all)
  then obtain out where out: "foldM ?f threads (pa_output p) = Some out" "?Q (set threads) out" by blast
  have "out ! (row_of p hdim s h + d) = v2_value p hdim bs s h d" if "s < ns" "h < nh" "d < hdim" for s h d
    using out(2) that set(1) [of s h d] by (auto dest!: bspec)
  then show ?thesis using out(1) by blast
qed

lemma v2_single_partition:
  assumes ctx: "0 < ctx_of p s" "ctx_of p s \<le> 512"
  shows "v2_value p hdim bs s h d = softmax_attention p hdim bs s h d *
    (part_sum p hdim bs 512 s h 0 * (32 * part_sum p hdim bs 512 s h 0 / (32 * part_sum p hdim bs 512 s h 0 + 1 / 10 ^ 8)))"
proof -
  let ?S = "part_sum p hdim bs 512 s h 0" and ?T = "part_out p hdim bs 512 s h 0 d" and ?m = "part_max p hdim bs 512 s h 0"
  let ?sc = "score_of p hdim bs s h"
  have n: "num_parts p s = 1" using ctx by (simp add: num_parts_def)
  have I: "part_set p 512 s 0 = {..<ctx_of p s}" using ctx by (auto simp: part_set_def)
  have "- flt_max \<le> ?m" unfolding part_max_def by (rule Max_ge) (simp_all add: I)
  then have "Max (insert (- flt_max) (part_max p hdim bs 512 s h ` {..<num_parts p s})) = ?m" unfolding n lessThan_Suc by (simp add: lessThan_Suc max_absorb2)
  then have "part_weight p hdim bs s h 0 = 32 * ?S" by (simp add: part_weight_def)
  then have v: "v2_value p hdim bs s h d = 32 * ?S * ?T / (32 * ?S + 1 / 10 ^ 8)" by (simp add: v2_value_def n)
  have S: "0 < ?S" unfolding part_sum_def I by (rule sum_pos) (use ctx in auto)
  have shift: "exp (?sc i - ?m) = exp (?sc i) / exp ?m" for i by (rule exp_diff)
  have "softmax_attention p hdim bs s h d = ?T / ?S"
    unfolding softmax_attention_def part_out_def part_sum_def shift I by (simp flip: sum_divide_distrib)
  then have "softmax_attention p hdim bs s h d * ?S = ?T" using S by simp
  then show ?thesis unfolding v by (simp add: mult.assoc [symmetric])
qed

lemma v2_excess_factor:
  assumes range: "\<forall>i < ctx_of p s. - flt_max \<le> score_of p hdim bs s h i" and ctx: "0 < ctx_of p s" "ctx_of p s \<le> 512"
  shows "1 \<le> part_sum p hdim bs 512 s h 0"
proof -
  let ?sc = "score_of p hdim bs s h" and ?m = "part_max p hdim bs 512 s h 0"
  have I: "part_set p 512 s 0 = {..<ctx_of p s}" using ctx by (auto simp: part_set_def)
  have "?m \<in> insert (- flt_max) (?sc ` {..<ctx_of p s})" unfolding part_max_def I by (rule Max_in) simp_all
  moreover have "?sc 0 \<le> ?m" unfolding part_max_def I by (rule Max_ge) (use ctx in auto)
  ultimately obtain i where i: "i < ctx_of p s" "?m = ?sc i" using range ctx(1) by force
  have "exp (?sc i - ?m) \<le> part_sum p hdim bs 512 s h 0" unfolding part_sum_def I by (rule member_le_sum) (use i in auto)
  then show ?thesis using i(2) by simp
qed

section \<open>Property\<close>


text \<open>Three tokens with equal keys and values 1: the output is close to 3, softmax attention is 1.\<close>

definition v2_example :: paged_attention_params where
  "v2_example = \<lparr>pa_query = replicate 128 1, pa_key_cache = replicate 2048 0, pa_value_cache = replicate 2048 1,
     pa_output = replicate 128 0, pa_block_tables = [0], pa_context_lens = [3], pa_scale = 1 / 8, pa_num_seqs = 1,
     pa_num_heads = 1, pa_num_kv_heads = 1, pa_head_dim = 128, pa_block_size = 16, pa_max_context_len = 3, pa_max_blocks_per_seq = 1\<rparr>"

lemma v2_example_ok: "attn_ok v2_example 128 16 1 1 1 1 1" "parts_ok v2_example 128 512 1 1 1"
proof -
  have "[0 :: int] ! b = 0" if "int b * 16 < 3" for b
  proof -
    have "b = 0" using that by linarith
    then show ?thesis by simp
  qed
  then show "attn_ok v2_example 128 16 1 1 1 1 1" by (auto simp: attn_ok_def v2_example_def)
  show "parts_ok v2_example 128 512 1 1 1" by (simp add: parts_ok_def v2_example_def ctx_of_def)
qed

lemma v2_example_values:
  assumes "i < 3" "d < 128"
  shows "score_of v2_example 128 16 0 0 i = 0" "value_of v2_example 128 16 0 0 i d = 1"
proof -
  have c: "ctx_of v2_example 0 = 3" by (simp add: ctx_of_def v2_example_def)
  have "cell_of v2_example 128 16 0 0 i d < 2048" if "d < 128" for d
    using attn_cell(3) [OF v2_example_ok(1), of 0 0 i d] assms(1) that c by simp
  then show "score_of v2_example 128 16 0 0 i = 0" "value_of v2_example 128 16 0 0 i d = 1"
    using assms(2) by (simp_all add: score_of_def value_of_def v2_example_def)
qed

lemma v2_example_sum: "part_sum v2_example 128 16 512 0 0 0 = 3"
proof -
  have c: "part_set v2_example 512 0 0 = {..<3}" by (auto simp: part_set_def ctx_of_def v2_example_def)
  have "score_of v2_example 128 16 0 0 ` {..<3} = (\<lambda>_. 0) ` {..<3 :: nat}"
    by (rule image_cong) (simp_all add: v2_example_values(1) [where d = 0])
  then have z: "score_of v2_example 128 16 0 0 ` {..<3} = {0}" by (simp add: image_constant_conv lessThan_empty_iff)
  have "part_max v2_example 128 16 512 0 0 0 = 0" unfolding part_max_def c z by (simp add: flt_max_def)
  then show ?thesis using v2_example_values(1) [where d = 0] by (simp add: part_sum_def c)
qed


end
