(* ===== verification/Attention_Dispatch.thy ===== *)
theory Attention_Dispatch
  imports Batch_Decode Attention_V2
begin

text \<open>
  The attention step of the build with CUDA, the branch of \<open>execute_attention\<close> in
  \<open>src/src/cacheflow/decode/batch_decode.cpp\<close> that fills the kernel parameters and chooses a kernel.
  A null pointer is the empty array: every access through it is undefined. The contents of the two
  caches are arguments, and the host arrays are taken to be readable by the kernels.
\<close>

section \<open>Model\<close>

definition max_context :: "nat \<Rightarrow> int option list \<Rightarrow> int option" where
  "max_context n lens = foldM (\<lambda>i m. do { x' \<leftarrow> vec_at lens i; x \<leftarrow> x'; Some (max m x) }) [0..<n] 0"

definition attention_params ::
    "model_config \<Rightarrow> cache_config \<Rightarrow> real list \<Rightarrow> real list \<Rightarrow> decode_context \<Rightarrow> int list \<Rightarrow> int \<Rightarrow> paged_attention_params" where
  "attention_params m c kc vc ctx lens max_ctx =
     \<lparr>pa_query = [], pa_key_cache = kc, pa_value_cache = vc, pa_output = [], pa_block_tables = dc_block_tables ctx,
      pa_context_lens = lens, pa_scale = 1 / sqrt (real_of_int (head_dim m)), pa_num_seqs = to_i32 (int (dc_num_seqs ctx)),
      pa_num_heads = n_heads m, pa_num_kv_heads = n_kv_heads m, pa_head_dim = head_dim m,
      pa_block_size = to_i32 (int (block_size c)), pa_max_context_len = max_ctx,
      pa_max_blocks_per_seq = to_i32 (int (max_table (entries (dc_batch ctx))))\<rparr>"

text \<open>The orders in which the hardware runs the thread blocks, warps and threads of the launches.\<close>

record launch_orders =
  lo_blocks :: "(nat \<times> nat) list"
  lo_warps :: "nat \<times> nat \<Rightarrow> nat \<Rightarrow> nat list"
  lo_shared :: "nat \<times> nat \<Rightarrow> nat \<Rightarrow> nat \<Rightarrow> real"
  lo_parts :: "(nat \<times> nat \<times> nat) list"
  lo_part_warps :: "nat \<times> nat \<times> nat \<Rightarrow> nat list"
  lo_reduce :: "(nat \<times> nat \<times> nat) list"

definition run_attention_kernel :: "launch_orders \<Rightarrow> paged_attention_params \<Rightarrow> real list option" where
  "run_attention_kernel o' p =
     (if pa_max_context_len p \<le> 8192 then launch_paged_attention_v1 (lo_blocks o') (lo_warps o') (lo_shared o') p
      else do {
        a \<leftarrow> chk_i32 (pa_max_context_len p + 512);
        num_partitions \<leftarrow> div_i32 (a - 1) 512;
        let part_elems = (size_of_i32 (pa_num_seqs p) * size_of_i32 (pa_num_heads p) * size_of_i32 num_partitions) mod size_max;
        (_, out) \<leftarrow> launch_paged_attention_v2 (lo_parts o') (lo_part_warps o') (lo_reduce o') p
          (replicate part_elems 0, replicate part_elems 0, replicate ((part_elems * size_of_i32 (pa_head_dim p)) mod size_max) 0) num_partitions;
        Some out
      })"

definition execute_attention_cuda ::
    "launch_orders \<Rightarrow> model_config \<Rightarrow> cache_config \<Rightarrow> real list \<Rightarrow> real list \<Rightarrow> decode_context \<Rightarrow> decode_context option" where
  "execute_attention_cuda o' m c kc vc ctx =
     do {
       max_ctx \<leftarrow> max_context (dc_num_seqs ctx) (dc_context_lens ctx);
       lens \<leftarrow> those (dc_context_lens ctx);
       _ \<leftarrow> run_attention_kernel o' (attention_params m c kc vc ctx lens max_ctx);
       Some (ctx\<lparr>dc_block_tables := [], dc_context_lens := [], dc_slot_mapping := []\<rparr>)
     }"

section \<open>Null output\<close>

lemma v1_null_output:
  assumes "0 < hdim" "0 < nt"
  shows "paged_attention_v1_kernel hdim bs nt order sh p blk [] = None"
proof -
  have "0 \<in> set (thread_dims hdim nt)" using thread_dims(1) [OF assms(2)] assms(1) by simp
  then have "foldM (\<lambda>d out. do { x \<leftarrow> vec_at so d; arr_set out (q0 + int d) x }) (thread_dims hdim nt) ([] :: real list) = None" for so q0
    by (rule foldM_stuck [where P = "\<lambda>out. out = []"]) (auto simp: bind_eq_None_conv bind_eq_Some_conv arr_set_def vec_set_def split: if_splits)
  then show ?thesis
    by (cases blk) (auto simp: paged_attention_v1_kernel_def bind_eq_None_conv split: prod.split)
qed

lemma v2_null_output:
  assumes "d < hdim"
  shows "paged_attention_v2_reduce_kernel hdim p np st (s, h, d) [] = None"
  using assms
  by (cases st) (auto simp: paged_attention_v2_reduce_kernel_def bind_eq_None_conv arr_set_def vec_set_def split: prod.split)

section \<open>Property\<close>

text \<open>
  C39. Attention is undefined in the build with CUDA. The engine leaves the query and output pointers null,
  so for head dimensions 64 and 128 with blocks of 16 tokens every step with at least one sequence
  and one head writes through a null pointer, whichever kernel is chosen and in whatever order the
  hardware runs it.
\<close>

theorem cuda_attention_undefined:
  assumes dims: "head_dim m \<in> {64, 128}" "block_size c = 16" and heads: "n_heads m = int nh" "0 < nh"
    and batch: "0 < dc_num_seqs ctx"
    and launch: "mset (lo_blocks o') = mset (grid2 (dc_num_seqs ctx) nh)" "mset (lo_reduce o') = mset (grid3 (dc_num_seqs ctx) nh (nat (head_dim m)))"
  shows "execute_attention_cuda o' m c kc vc ctx = None"
proof -
  have "run_attention_kernel o' (attention_params m c kc vc ctx lens max_ctx) = None" for lens max_ctx
  proof -
    let ?p = "attention_params m c kc vc ctx lens max_ctx"
    have p: "pa_output ?p = []" "pa_head_dim ?p = head_dim m" "pa_block_size ?p = 16" using dims(2) by (simp_all add: attention_params_def)
    have blk: "(0, 0) \<in> set (lo_blocks o')" using mset_eq_setD [OF launch(1)] heads batch by simp
    have thr: "(0, 0, 0) \<in> set (lo_reduce o')" using mset_eq_setD [OF launch(2)] heads batch dims(1) by auto
    have v1: "launch_paged_attention_v1 (lo_blocks o') (lo_warps o') (lo_shared o') ?p = None"
    proof -
      have "foldM (\<lambda>blk. paged_attention_v1_kernel hdim 16 128 (lo_warps o' blk) (shared_init (lo_shared o' blk) 128 (dynamic_floats ?p)) ?p blk)
          (lo_blocks o') (pa_output ?p) = None" if "0 < hdim" for hdim
        by (rule foldM_stuck [OF blk, where P = "\<lambda>out. out = []"]) (use that v1_null_output [of hdim 128] p(1) in auto)
      then show ?thesis using dims(1) p(2,3) by (auto simp: launch_paged_attention_v1_def)
    qed
    have "foldM (paged_attention_v2_reduce_kernel 128 ?p np st) (lo_reduce o') (pa_output ?p) = None" for np st
    proof (rule foldM_stuck [OF thr, where P = "\<lambda>out. out = []"])
      show "s' = []" if "s = []" "paged_attention_v2_reduce_kernel 128 ?p np st y s = Some s'" for s s' y
        using that v2_null_output [of _ 128] by (cases y, cases "snd (snd y) < 128") (auto simp: paged_attention_v2_reduce_kernel_def split: prod.splits)
    qed (use v2_null_output [of 0 128] p(1) in auto)
    then have "launch_paged_attention_v2 bl od (lo_reduce o') ?p st np = None" for bl od st np
      by (simp add: launch_paged_attention_v2_def bind_eq_None_conv)
    then show ?thesis using v1 by (simp add: run_attention_kernel_def bind_eq_None_conv)
  qed
  then show ?thesis by (simp add: execute_attention_cuda_def bind_eq_None_conv)
qed

theorem cuda_attention_undefined_witness:
  "execute_attention_cuda \<lparr>lo_blocks = grid2 1 32, lo_warps = \<lambda>_ _. [3, 2, 1, 0], lo_shared = \<lambda>_ _ _. 0, lo_parts = grid3 1 32 17,
       lo_part_warps = \<lambda>_. [0, 1, 2, 3], lo_reduce = grid3 1 32 128\<rparr>
     default_model_config default_cache_config [] []
     ((decode_context_new batch_clear 1 4)\<lparr>dc_block_tables := [0], dc_context_lens := [Some 3]\<rparr>) = None"
  by (rule cuda_attention_undefined [where nh = 32])
     (simp_all add: default_model_config_def default_cache_config_def KV_BLOCK_SIZE_def decode_context_new_def)

end
