(* ===== verification/Spec2Isabelle.thy ===== *)
theory Spec2Isabelle
  imports Block_Protocol Serving_Hazards Serving_Typestate Scaling_Program Cuda_Memory Cache_Tests Serving_Tests Profiler_Tests Attention_Dispatch
begin

text \<open>
  A verification of CacheFlow, a serving engine for language models with a paged KV cache, from its C++ and
  CUDA sources under \<open>src/src/cacheflow\<close>.

  \<^bold>\<open>The program.\<close> Requests wait in the queues of a scheduler, which gives their sequences blocks of
  the KV cache through a block manager, within a budget of tokens and sequences for each step, and
  preempts sequences when blocks run out, by swapping their blocks to the host or by dropping them
  and computing them again. A batch manager flattens the scheduled sequences into one batch, a
  decode engine lays the batch out in the arrays of the attention kernels, runs the attention and
  samples one token for each entry, and the batch manager hands the tokens back. CUDA kernels store
  new keys and values in the cache, move blocks, and compute attention over them. A prefix cache
  shares blocks between prompts, a memory pool provides the memory of the blocks, and a profiler
  with a trace writer observes it all.

  \<^bold>\<open>Conventions\<close> (theory \<open>Prelude\<close>). A definition keeps the name of the C++ function
  where it can. A struct or class is a record, an enumeration a datatype, an operation a function from
  the old state to the result and the new state. \<open>None\<close> as the result of an operation means that the
  execution is undefined: an access outside a vector, a dangling pointer, a signed overflow, a division by
  zero, a conversion out of range. A failure that the code defines (\<open>INVALID_BLOCK\<close>, a null pointer, an
  exception) is an ordinary value. \<open>size_t\<close> is \<open>nat\<close>, with subtraction that wraps written out
  (\<open>size_sub\<close>) and products reduced modulo \<open>size_max\<close> where they can wrap; \<open>int32_t\<close> is \<open>int\<close> with its
  range checked or wrapped; sequence identifiers are 64-bit words. \<open>float\<close> and \<open>double\<close> are exact
  reals, so the theorems are about the algorithms and not about rounding. Objects that the code
  shares through raw pointers live in an explicit store. Every public operation of a class with a
  mutex is one atomic step; finer interleavings are not modelled.

  \<^bold>\<open>Parameters.\<close> What the code takes from outside the repository is an argument:
  \<^item> \<open>std::sort\<close> and \<open>std::partial_sort\<close>, with the locale \<open>descending_sorts\<close> for what the standard promises,
  \<^item> the random generators, the readings of the clock, the hash of a thread, the success of opening a file,
  \<^item> \<open>aligned_alloc\<close> and the address of a new object,
  \<^item> the contents of the GPU pool,
  \<^item> the order of the threads of a grid, of the warps between two barriers and of the thread blocks,
  \<^item> the functions of the CUDA runtime, \<open>getopt_long\<close>, the text of a NaN and the range errors of tiny numbers.

  \<^bold>\<open>The theories\<close>, each with the part of the source it models and what it shows.
  \<^item> \<open>Common\<close> (\<open>common.h\<close>) and \<open>Request\<close> (\<open>scheduler/request.h\<close>): identifiers, configurations, sequences and groups.
  \<^item> \<open>Block_Manager\<close> (\<open>kv_cache/block_manager.{h,cpp}\<close>): descriptors, free lists, reference counts, the sequence map and
    the fragmentation analysis, with the accounting invariant that every operation keeps. Its locales are
    \<open>ref_drop\<close>, for the operations that give up a reference, and \<open>kv_allocator\<close>, the allocator that the scheduler
    relies on; both are interpreted on the model. \<open>Block_Protocol\<close> is about all states that a manager can reach:
    exact accounting, fresh blocks, copy on write, exact fragmentation, and what calls outside the protocol do.
  \<^item> \<open>Scheduler\<close> (\<open>scheduler/scheduler.{h,cpp}\<close>): the three phases of a step, both preemption modes, aborts and the sweep.
    \<open>Scheduler_Queues\<close>: a step loses and invents no request and respects its budgets.
  \<^item> \<open>Batch_Manager\<close> (\<open>scheduler/batch_manager.{h,cpp}\<close>): the exact contents of a batch and who gets which token.
  \<^item> \<open>Serving\<close>: the step relation \<open>serving\<close> of the whole loop, with arrivals and aborts at any moment, and its invariants
    by rule induction. \<open>Serving_Safety\<close>: with preemption by recomputation sequences never share a block, no operation
    is undefined and no block leaks. \<open>Serving_Typestate\<close>: the status of a sequence agrees with its queue in both modes.
    \<open>Serving_Progress\<close>: with enough blocks every pending request advances in every step. \<open>Serving_Hazards\<close>: runs in
    which swapping makes sequences share a block, recomputation repeats itself for ever, or tokens are mixed up.
  \<^item> \<open>Prefix_Cache\<close> and \<open>Prefix_Props\<close> (\<open>kv_cache/prefix_cache.{h,cpp}\<close>): the trie refines a map from prefixes to blocks; longest
    match, insertion with its references, least recently used eviction, and where eviction leaves entries behind.
  \<^item> \<open>Memory_Pool\<close> (\<open>kv_cache/memory_pool.{h,cpp}\<close>): blocks handed out never overlap and lie in the region. Its locale
    \<open>slot_stack\<close> is interpreted on the pool and on the free lists of the block manager.
  \<^item> \<open>Metrics\<close> (\<open>profiler/metrics.h\<close>), \<open>Trace\<close> (\<open>profiler/trace.{h,cpp}\<close>), \<open>Profiler\<close> and \<open>Profiler_Report\<close> (\<open>profiler/profiler.{h,cpp}\<close>):
    Welford's method is exact, the trace file is complete and well formed (locale \<open>event_sink\<close>), the profiler refines
    a log of all samples, and its CSV report can be read back. \<open>Number_Text\<close> models the formatted output the reports use.
  \<^item> \<open>Batch_Decode\<close>, \<open>Sampling\<close> and \<open>Decode_Slots\<close> (\<open>decode/batch_decode.{h,cpp}\<close>): the kernel inputs, the attention of the build
    without CUDA, the sampler and the whole step; sampled tokens are admissible, every token of a step has a slot of its
    own, and a step after \<open>schedule\<close> is defined.
  \<^item> \<open>Kv_Kernels\<close>, \<open>Kv_Moves\<close> and \<open>Kv_Store\<close> (\<open>cuda/kv_cache_kernels.cu\<close>, \<open>memset_blocks_kernel\<close> of \<open>cuda/memory_utils.cu\<close>): for every order
    of the threads stored tokens can be read back, block moves are exact and swaps round-trip. \<open>Cuda_Memory\<close>: the
    wrappers of the runtime in \<open>cuda/memory_utils.cu\<close>.
  \<^item> \<open>Paged_Attention\<close>, \<open>Attention_Math\<close>, \<open>Attention_V1\<close>, \<open>Attention_V2\<close> and \<open>Attention_Dispatch\<close> (\<open>cuda/paged_attention.{cu,cuh}\<close> and
    the CUDA branch of \<open>execute_attention\<close>): the first kernel computes softmax attention on contexts that fit its shared memory
    and writes outside of it on longer ones, the second one does not normalise, and the dispatch passes null pointers.
    Lanes of a warp run in lock step; the locale \<open>lane_operation\<close> is the butterfly reduction for sum and maximum.
  \<^item> \<open>Bench_Rounds\<close>, \<open>Throughput_Driver\<close>, \<open>Scaling_Driver\<close>, \<open>Latency_Driver\<close> and \<open>Kv_Cache_Bench\<close> (\<open>src/benchmarks\<close>): the drivers put all
    components together. With enough blocks their runs terminate and serve every request; the locale \<open>bookkeeping\<close> is what a
    driver may tell the profiler within a round. The theories also show which numbers the benchmarks report.
    \<open>Bench_Command_Line\<close> (\<open>bench_config.h\<close>) reads the options, with the exceptions of the number conversions; a configuration
    is read back from its options. \<open>Bench_Programs\<close> and \<open>Scaling_Program\<close> compose command line, drivers, printed results and CSV
    files into the four \<open>main\<close> functions: the throughput and the scaling program run to their end, and their files read back
    to the results of their runs.
  \<^item> \<open>Cache_Tests\<close>, \<open>Serving_Tests\<close> and \<open>Profiler_Tests\<close> (\<open>src/tests\<close>): every unit test of the repository, replayed on the model. All
    assertions hold but one, in which a block is freed twice; so the definitions agree with what the authors expect.

  \<^bold>\<open>Fuel.\<close> The loops of the drivers end only if the scheduler makes progress, so they carry fuel and are \<open>None\<close> without it. One
  round hands a token to every pending request; the product of requests and output length is therefore
  enough for a whole run, and the output length for one request of the latency benchmark. All other loops
  of the model are structural or have a termination proof.

  \<^bold>\<open>Not modelled.\<close> The umbrella header, the build files, scripts and the site. The structs \<open>Span\<close>, \<open>BlockTable\<close> and \<open>RequestOutput\<close>
  and the constants \<open>MAX_SEQ_LEN\<close>, \<open>MAX_BATCH_TOKENS\<close> and \<open>MAX_CONCURRENT_REQS\<close>, which nothing uses. The forward function of
  the decode engine, which is stored and never called. CUDA streams: a launch is complete before the next one starts.
  Data races inside a class that its mutex excludes. Rounding of floating-point numbers, and infinite or undefined values
  other than the quotients the benchmarks print. Messages of \<open>getopt_long\<close> on the error stream.
\<close>

end
